(* ===== verification/Prelude.thy ===== *)
theory Prelude
  imports Main "HOL-Library.Word"
begin

text \<open>
  Shared vocabulary of the development: the machine integers and byte strings of Go,
  the outcome of a fallible Go call, the big-endian byte codec of \<open>encoding/binary\<close>,
  the carrying arithmetic of \<open>math/bits\<close>, and the generic lemmas on them that the
  components share.
\<close>

unbundle bit_operations_syntax

section \<open>Machine types\<close>

type_synonym byte = "8 word"
type_synonym u16 = "16 word"
type_synonym u32 = "32 word"
type_synonym u64 = "64 word"

named_theorems outcome_simps
named_theorems uid_simps
named_theorems wire_simps

text \<open>Go's \<open>int\<close> is a 64-bit two's complement integer: \<open>go_int\<close> is the
  value an \<open>int\<close> holds after a computation whose exact result is the argument.\<close>

definition go_int :: "int \<Rightarrow> int" where
  "go_int x = sint (word_of_int x :: u64)"

lemma go_int_id: "- (2 ^ 63) \<le> x \<Longrightarrow> x < 2 ^ 63 \<Longrightarrow> go_int x = x"
  by (simp add: go_int_def signed_of_int signed_take_bit_int_eq_self)

lemma go_int_pos: "0 \<le> x \<Longrightarrow> x < 2 ^ 63 \<Longrightarrow> go_int x = x"
  by (rule go_int_id) simp_all

section \<open>Outcomes of fallible calls\<close>

text \<open>
  A Go call that returns \<open>(value, error)\<close> or may panic yields a \<open>fault + 'a\<close>:
  the status errors of \<open>stdlib/status\<close> that the modelled code returns, an error whose
  text only matters to a human (\<open>Other\<close>), or a run-time panic.
\<close>

datatype fault =
    ErrMalformedTx
  | ErrBadTxOp
  | ErrBadTxEdit
  | ErrAttrNotFound
  | BadRequest
  | AuthFailed
  | ErrUnrecognizedFormat
  | NotFound
  | ErrNotRunning
  | ErrIssuerNotOpen
  | EndOfStream
  | DecryptFailed
  | ErrEpochKeyNotFound
  | NotReady
  | KeyringNotFound
  | BadKeyFormat
  | Unimplemented
  | KeyGenerationFailed
  | Canceled
  | DataFailure
  | AlreadyRegistered
  | ItemNotFound
  | ErrBadToken
  | NothingToCommit
  | Timeout
  | Other
  | Panic

type_synonym 'a outcome = "fault + 'a"

definition and_then :: "'a outcome \<Rightarrow> ('a \<Rightarrow> 'b outcome) \<Rightarrow> 'b outcome" where
  "and_then r k = (case r of Inl e \<Rightarrow> Inl e | Inr x \<Rightarrow> k x)"

lemma and_then_simps [simp, outcome_simps]:
  "and_then (Inl e) k = Inl e"
  "and_then (Inr x) k = k x"
  by (simp_all add: and_then_def)

lemma and_then_eq_Inr [outcome_simps]:
  "and_then r k = Inr y \<longleftrightarrow> (\<exists>x. r = Inr x \<and> k x = Inr y)"
  by (cases r) simp_all

lemma and_then_eq_Inl [outcome_simps]:
  "and_then r k = Inl e \<longleftrightarrow> r = Inl e \<or> (\<exists>x. r = Inr x \<and> k x = Inl e)"
  by (cases r) simp_all

definition guard_or :: "bool \<Rightarrow> fault \<Rightarrow> 'a outcome \<Rightarrow> 'a outcome" where
  "guard_or ok e k = (if ok then k else Inl e)"

section \<open>Big-endian integers\<close>

text \<open>\<open>be_bytes n v\<close> is the \<open>n\<close>-byte big-endian image of \<open>v\<close>, and \<open>be_val\<close>
  reads one back.\<close>

fun be_bytes :: "nat \<Rightarrow> nat \<Rightarrow> byte list" where
  "be_bytes 0 v = []"
| "be_bytes (Suc n) v = be_bytes n (v div 256) @ [word_of_nat v]"

definition be_val :: "byte list \<Rightarrow> nat" where
  "be_val bs = foldl (\<lambda>a b. a * 256 + unat b) 0 bs"

lemma be_val_Nil [simp]: "be_val [] = 0"
  by (simp add: be_val_def)

lemma be_val_snoc [simp]: "be_val (bs @ [b]) = be_val bs * 256 + unat b"
  by (simp add: be_val_def)

lemma length_be_bytes [simp]: "length (be_bytes n v) = n"
  by (induction n arbitrary: v) auto

lemma be_val_bound: "be_val bs < 256 ^ length bs"
proof (induction bs rule: rev_induct)
  case Nil
  show ?case by simp
next
  case (snoc b bs)
  have "unat b < 256" using unsigned_less [of b] by simp
  with snoc show ?case by simp
qed

lemma unat_word_of_nat_byte: "unat (word_of_nat v :: byte) = v mod 256"
  by (simp add: unat_of_nat)

lemma be_val_be_bytes [simp]: "be_val (be_bytes n v) = v mod 256 ^ n"
proof (induction n arbitrary: v)
  case 0
  show ?case by simp
next
  case (Suc n)
  have "be_val (be_bytes (Suc n) v) = (v div 256 mod 256 ^ n) * 256 + v mod 256"
    using Suc by (simp add: unat_word_of_nat_byte)
  also have "\<dots> = v mod (256 * 256 ^ n)"
    by (simp add: mod_mult2_eq [of v 256 "256 ^ n"])
  finally show ?case by simp
qed

lemma be_bytes_be_val [simp]: "length bs = n \<Longrightarrow> be_bytes n (be_val bs) = bs"
proof (induction bs arbitrary: n rule: rev_induct)
  case Nil
  then show ?case by simp
next
  case (snoc b bs)
  have "unat b < 256" using unsigned_less [of b] by simp
  then have "(be_val bs * 256 + unat b) div 256 = be_val bs" by simp
  moreover have "(word_of_nat (be_val bs * 256 + unat b) :: byte) = b"
    by (rule word_unat_eq_iff [THEN iffD2])
       (use \<open>unat b < 256\<close> in \<open>simp only: unat_word_of_nat_byte\<close>, simp)
  ultimately show ?case using snoc by auto
qed

lemma be_val_append: "be_val (xs @ ys) = be_val xs * 256 ^ length ys + be_val ys"
proof (induction ys rule: rev_induct)
  case Nil
  show ?case by simp
next
  case (snoc y ys)
  have "be_val (xs @ ys @ [y]) = be_val (xs @ ys) * 256 + unat y"
    using be_val_snoc [of "xs @ ys" y] by simp
  with snoc show ?case by (simp add: algebra_simps)
qed

lemma be_val_Cons: "be_val (x # xs) = unat x * 256 ^ length xs + be_val xs"
  using be_val_append [of "[x]" xs] be_val_snoc [of "[]" x] by simp

text \<open>The fixed-width readers and writers of \<open>encoding/binary.BigEndian\<close>.\<close>

definition be64 :: "u64 \<Rightarrow> byte list" where
  "be64 w = be_bytes 8 (unat w)"

definition be32 :: "u32 \<Rightarrow> byte list" where
  "be32 w = be_bytes 4 (unat w)"

definition be16 :: "u16 \<Rightarrow> byte list" where
  "be16 w = be_bytes 2 (unat w)"

definition rd64 :: "byte list \<Rightarrow> u64" where
  "rd64 bs = word_of_nat (be_val bs)"

lemma length_be [simp, wire_simps]:
  "length (be64 w) = 8" "length (be32 x) = 4" "length (be16 y) = 2"
  by (simp_all add: be64_def be32_def be16_def)

lemma unat_mod_len: "unat (w :: 'a::len word) mod 2 ^ LENGTH('a) = unat w"
  by (rule mod_less) (rule unsigned_less)

lemma be_val_be64 [simp, wire_simps]: "be_val (be64 w) = unat w"
  using unat_mod_len [of w] by (simp add: be64_def)

lemma be_val_be32 [simp, wire_simps]: "be_val (be32 w) = unat w"
  using unat_mod_len [of w] by (simp add: be32_def)

lemma be_val_be16 [simp, wire_simps]: "be_val (be16 w) = unat w"
  using unat_mod_len [of w] by (simp add: be16_def)

lemma rd64_be64 [simp, wire_simps]: "rd64 (be64 w) = w"
  by (simp add: rd64_def)

lemma be64_rd64: "length bs = 8 \<Longrightarrow> be64 (rd64 bs) = bs"
proof -
  assume l: "length bs = 8"
  then have "be_val bs < 2 ^ 64" using be_val_bound [of bs] by simp
  then have "unat (rd64 bs) = be_val bs"
    by (simp add: rd64_def unat_of_nat)
  with l show ?thesis by (simp add: be64_def)
qed

text \<open>The bytes of a Go string.\<close>

definition go_bytes :: "string \<Rightarrow> byte list" where
  "go_bytes s = map of_char s"

lemma unat_of_char: "unat (of_char c :: byte) = of_char c"
proof -
  have "(of_char c :: byte) = word_of_nat (of_char c)" by (rule of_nat_of_char [symmetric])
  then have "unat (of_char c :: byte) = of_char c mod 256" by (simp only: unat_word_of_nat_byte)
  then show ?thesis by (simp only: of_char_mod_256)
qed

lemma of_char_byte_inject: "(of_char c :: byte) = of_char d \<longleftrightarrow> c = d"
  by (metis unat_of_char of_char_eq_iff)

lemma go_bytes_inject [simp]: "go_bytes s = go_bytes t \<longleftrightarrow> s = t"
  unfolding go_bytes_def by (rule inj_map_eq_map) (auto simp: inj_on_def of_char_byte_inject)

lemma length_go_bytes [simp]: "length (go_bytes s) = length s"
  by (simp add: go_bytes_def)

section \<open>Byte-lexicographic comparison\<close>

text \<open>\<open>bytes.Compare\<close>: -1, 0 or 1.\<close>

fun bytes_compare :: "byte list \<Rightarrow> byte list \<Rightarrow> int" where
  "bytes_compare [] [] = 0"
| "bytes_compare [] (y # ys) = -1"
| "bytes_compare (x # xs) [] = 1"
| "bytes_compare (x # xs) (y # ys) =
     (if x < y then -1 else if y < x then 1 else bytes_compare xs ys)"

definition cmp_int :: "nat \<Rightarrow> nat \<Rightarrow> int" where
  "cmp_int a b = (if a < b then -1 else if b < a then 1 else 0)"

text \<open>On byte strings of one length the byte order is the order of the big-endian
  values, which is what makes big-endian keys sort by value.\<close>

lemma bytes_compare_be_val:
  "length xs = length ys \<Longrightarrow> bytes_compare xs ys = cmp_int (be_val xs) (be_val ys)"
proof (induction xs ys rule: list_induct2)
  case Nil
  show ?case by (simp add: cmp_int_def)
next
  case (Cons x xs y ys)
  let ?m = "256 ^ length ys :: nat"
  have bx: "be_val xs < ?m" using be_val_bound [of xs] Cons.hyps by simp
  have by': "be_val ys < ?m" using be_val_bound [of ys] by simp
  have step: "a < b \<Longrightarrow> p < ?m \<Longrightarrow> a * ?m + p < b * ?m + q" for a b p q :: nat
  proof -
    assume "a < b" "p < ?m"
    then have "a * ?m + p < Suc a * ?m" by simp
    also have "\<dots> \<le> b * ?m" using \<open>a < b\<close> by (intro mult_le_mono1) simp
    finally show ?thesis by simp
  qed
  show ?case
  proof (cases "x = y")
    case True
    with Cons show ?thesis by (simp add: be_val_Cons cmp_int_def)
  next
    case False
    then consider "x < y" | "y < x" by (meson linorder_neqE)
    then show ?thesis
    proof cases
      case 1
      then have "unat x < unat y" by (simp add: word_less_nat_alt)
      with step [OF this bx] 1 Cons.hyps show ?thesis
        by (simp add: be_val_Cons cmp_int_def)
    next
      case 2
      then have "unat y < unat x" by (simp add: word_less_nat_alt)
      with step [OF this by', of "be_val xs"] 2 Cons.hyps show ?thesis
        by (simp add: be_val_Cons cmp_int_def)
    qed
  qed
qed

lemma mod_horner: "((a mod m) * k + d) mod m = (a * k + d) mod (m :: nat)"
  by (metis mod_add_left_eq mod_mult_left_eq)

section \<open>Carrying arithmetic of math/bits\<close>

definition add64 :: "u64 \<Rightarrow> u64 \<Rightarrow> u64 \<Rightarrow> u64 \<times> u64" where
  "add64 x y c = (x + y + c, if 2 ^ 64 \<le> unat x + unat y + unat c then 1 else 0)"

definition sub64 :: "u64 \<Rightarrow> u64 \<Rightarrow> u64 \<Rightarrow> u64 \<times> u64" where
  "sub64 x y b = (x - y - b, if unat x < unat y + unat b then 1 else 0)"

definition mul64 :: "u64 \<Rightarrow> u64 \<Rightarrow> u64 \<times> u64" where
  "mul64 x y = (word_of_nat (unat x * unat y div 2 ^ 64), x * y)"

text \<open>\<open>bits.Div64\<close> divides a 128-bit value; it panics on a zero divisor and when the
  quotient overflows.\<close>

definition div64 :: "u64 \<Rightarrow> u64 \<Rightarrow> u64 \<Rightarrow> (u64 \<times> u64) option" where
  "div64 h l y =
     (if y \<le> h then None
      else let n = unat h * 2 ^ 64 + unat l
           in Some (word_of_nat (n div unat y), word_of_nat (n mod unat y)))"

lemma unat64_less: "unat (w :: u64) < 2 ^ 64"
  using unsigned_less [of w] by simp

lemma max64: "(0xFFFFFFFFFFFFFFFF :: u64) = - 1"
  by simp

lemma unat_max64: "unat (- 1 :: u64) = 2 ^ 64 - 1"
proof -
  have "unat (0xFFFFFFFFFFFFFFFF :: u64) = 2 ^ 64 - 1" by simp
  then show ?thesis by (simp only: max64)
qed

lemma unat64_of_nat: "unat (word_of_nat n :: u64) = n mod 2 ^ 64"
  by (simp add: unat_of_nat)

lemma word64_of_mod: "(word_of_nat (n mod 2 ^ 64) :: u64) = word_of_nat n"
  by (rule word_unat_eq_iff [THEN iffD2]) (simp only: unat64_of_nat mod_mod_trivial)

lemma unat64_add: "unat (x + y :: u64) = (unat x + unat y) mod 2 ^ 64"
  by (simp add: unat_word_ariths)

lemma unat64_mult: "unat (x * y :: u64) = (unat x * unat y) mod 2 ^ 64"
  by (simp add: unat_word_ariths)

lemma unat64_sub: "unat (x - y :: u64) = (unat x + (2 ^ 64 - unat y)) mod 2 ^ 64"
proof (cases "unat y \<le> unat x")
  case True
  then have "unat (x - y) = unat x - unat y"
    by (simp add: unat_sub word_le_nat_alt)
  moreover have "(unat x + (2 ^ 64 - unat y)) mod 2 ^ 64 = unat x - unat y"
  proof -
    have "unat x + (2 ^ 64 - unat y) = (unat x - unat y) + 2 ^ 64"
      using True unat64_less [of y] by simp
    moreover have "(unat x - unat y) mod 2 ^ 64 = unat x - unat y"
      using unat64_less [of x] by (intro mod_less) simp
    ultimately show ?thesis by (metis mod_add_self2)
  qed
  ultimately show ?thesis by simp
next
  case False
  have "x - y = word_of_nat (unat x + (2 ^ 64 - unat y))"
    using unat64_less [of y] by (simp add: of_nat_diff)
  then show ?thesis by (simp only: unat64_of_nat)
qed

lemma sint_small: "n < 2 ^ 63 \<Longrightarrow> sint (word_of_nat n :: u64) = int n"
  by (simp add: signed_of_nat signed_take_bit_int_eq_self)

lemma sint_unat: "unat (w :: u64) < 2 ^ 63 \<Longrightarrow> sint w = int (unat w)"
  using sint_small [of "unat w"] by (simp add: of_nat_unat)

lemma le_max64: "w \<le> (0xFFFFFFFFFFFFFFFF :: u64)"
  unfolding max64 by (rule word_order.extremum)

lemma unat64_shr: "unat (drop_bit n (w :: u64)) = unat w div 2 ^ n"
  by (subst unat_drop_bit_eq) (rule drop_bit_eq_div)

lemma unat64_shl: "unat (push_bit n (w :: u64)) = (unat w * 2 ^ n) mod 2 ^ 64"
proof -
  have "unat (push_bit n w) = take_bit 64 (push_bit n (unat w))"
    by (simp only: unsigned_push_bit_eq) simp
  then show ?thesis by (simp only: push_bit_eq_mult [of n "unat w"] take_bit_eq_mod)
qed

lemma add64_exact:
  "unat c \<le> 1 \<Longrightarrow> add64 x y c = (s, k) \<Longrightarrow>
     unat k * 2 ^ 64 + unat s = unat x + unat y + unat c \<and> unat k \<le> 1"
proof -
  assume c: "unat c \<le> 1" and eq: "add64 x y c = (s, k)"
  let ?N = "unat x + unat y + unat c"
  have s: "unat s = ?N mod 2 ^ 64"
    using eq by (auto simp add: add64_def unat64_add mod_simps)
  have "?N < 2 * 2 ^ 64" using unat64_less [of x] unat64_less [of y] c by simp
  show ?thesis
  proof (cases "2 ^ 64 \<le> ?N")
    case True
    then have "?N mod 2 ^ 64 = ?N - 2 ^ 64"
      using \<open>?N < 2 * 2 ^ 64\<close> by (simp add: mod_if)
    with s eq True show ?thesis by (auto simp: add64_def)
  next
    case False
    with s eq show ?thesis by (auto simp: add64_def)
  qed
qed

lemma nat_or_disjoint:
  fixes x y :: nat
  assumes "x < 2 ^ n"
  shows "x OR (y * 2 ^ n) = x + y * 2 ^ n"
proof -
  have x: "take_bit n x = x" using assms by (simp add: take_bit_nat_eq_self)
  have "take_bit n x AND push_bit n y = 0"
    by (rule bit_eqI) (auto simp: bit_simps)
  then have "x AND push_bit n y = 0" by (simp only: x)
  from disjunctive_add_eq_or [OF this] show ?thesis
    by (simp only: push_bit_eq_mult)
qed

lemma unat64_or: "unat (a OR b :: u64) = unat a OR unat b"
  by (rule unsigned_or_eq)

lemma unat64_and: "unat (a AND b :: u64) = unat a AND unat b"
  by (rule unsigned_and_eq)

lemma nat_and_mask: "x AND (2 ^ n - 1) = x mod (2 ^ n :: nat)"
  by (simp add: take_bit_eq_mask mask_eq_exp_minus_1 flip: take_bit_eq_mod)

text \<open>Joining a low part and a shifted high part of a word, as
  \<open>lo | hi << n\<close> does.\<close>

lemma unat64_join:
  "unat lo < 2 ^ n \<Longrightarrow> unat hi < 2 ^ m \<Longrightarrow> n + m = 64 \<Longrightarrow>
     unat (lo OR push_bit n hi :: u64) = unat lo + unat hi * 2 ^ n"
proof -
  assume lo: "unat lo < 2 ^ n" and hi: "unat hi < 2 ^ m" and nm: "n + m = 64"
  have "unat hi * 2 ^ n < 2 ^ m * 2 ^ n" using hi by simp
  also have "\<dots> = 2 ^ 64" using nm by (simp add: ac_simps flip: power_add)
  finally have "unat (push_bit n hi) = unat hi * 2 ^ n"
    by (simp only: unat64_shl mod_less)
  then show ?thesis using nat_or_disjoint [OF lo] by (simp only: unat64_or)
qed

section \<open>Binary search\<close>

text \<open>\<open>sort.Search\<close>: the smallest index at which the predicate holds, by binary search.\<close>

function search_loop :: "(nat \<Rightarrow> bool) \<Rightarrow> nat \<Rightarrow> nat \<Rightarrow> nat" where
  "search_loop f i j =
     (if i < j then
        (let h = (i + j) div 2
         in if \<not> f h then search_loop f (h + 1) j else search_loop f i h)
      else i)"
  by pat_completeness auto
termination by (relation "measure (\<lambda>(f, i, j). j - i)") auto

declare search_loop.simps [simp del]

lemma search_loop_least:
  assumes "\<And>a b. a \<le> b \<Longrightarrow> b < n \<Longrightarrow> f a \<Longrightarrow> f b"
  shows "i \<le> j \<Longrightarrow> j \<le> n \<Longrightarrow> (\<forall>a < i. \<not> f a) \<Longrightarrow> (\<forall>a < n. j \<le> a \<longrightarrow> f a) \<Longrightarrow>
     search_loop f i j \<le> n \<and> (\<forall>a < search_loop f i j. \<not> f a) \<and> (\<forall>a < n. search_loop f i j \<le> a \<longrightarrow> f a)"
  using assms
proof (induction f i j rule: search_loop.induct)
  case (1 f i j)
  show ?case
  proof (cases "i < j")
    case False
    then have "search_loop f i j = i" by (simp add: search_loop.simps [of f i j])
    with False "1.prems" show ?thesis by auto
  next
    case True
    define h where "h = (i + j) div 2"
    with True have h: "i \<le> h" "h < j" by simp_all
    show ?thesis
    proof (cases "f h")
      case F: True
      have "\<forall>a < n. h \<le> a \<longrightarrow> f a" using "1.prems"(5) F by blast
      with "1.IH"(2) [OF True h_def] F h "1.prems" show ?thesis
        by (simp add: search_loop.simps [of f i j] True h_def [symmetric])
    next
      case F: False
      have "\<forall>a < h + 1. \<not> f a"
      proof (intro allI impI notI)
        fix a assume "a < h + 1" "f a"
        then have "f h" using "1.prems"(5) [of a h] h "1.prems"(2) by simp
        with F show False ..
      qed
      with "1.IH"(1) [OF True h_def] F h "1.prems" show ?thesis
        by (simp add: search_loop.simps [of f i j] True h_def [symmetric])
    qed
  qed
qed

end
