(* ===== verification/Uid.thy ===== *)
theory Uid
  imports Prelude
begin

text \<open>
  The 16-byte identifier \<open>tag.UID\<close> of \<open>stdlib/tag/tag.id.go\<close>: its order, its
  128-bit arithmetic, its byte image, and its use as a timestamp.  A UID is a pair of
  64-bit words; \<open>uval\<close> reads it as the 128-bit number the comments speak of, and every
  arithmetic operation is shown to be the operation on that number.
\<close>

section \<open>The data type\<close>

datatype uid = UID (uid0: u64) (uid1: u64)

definition UID_0_Max :: u64 where "UID_0_Max = 0xFFFFFFFFFFFFFFFF"
definition UID_1_Max :: u64 where "UID_1_Max = 0xFFFFFFFFFFFFFFF0"
definition UID_1_Wildcard :: u64 where "UID_1_Wildcard = 0xFFFFFFFFFFFFFFFA"

definition nilUID :: uid where "nilUID = UID 0 0"
definition MaxID :: uid where "MaxID = UID UID_0_Max UID_1_Max"
definition WildcardID :: uid where "WildcardID = UID UID_0_Max UID_1_Wildcard"

definition uval :: "uid \<Rightarrow> nat" where
  "uval u = unat (uid0 u) * 2 ^ 64 + unat (uid1 u)"

definition uid_of :: "nat \<Rightarrow> uid" where
  "uid_of n = UID (word_of_nat (n div 2 ^ 64)) (word_of_nat n)"

section \<open>Operations\<close>

definition CompareTo :: "uid \<Rightarrow> uid \<Rightarrow> int" where
  "CompareTo a b =
     (if uid0 a < uid0 b then -1
      else if uid0 a > uid0 b then 1
      else if uid1 a < uid1 b then -1
      else if uid1 a > uid1 b then 1
      else 0)"

definition IsWildcard :: "uid \<Rightarrow> bool" where
  "IsWildcard a \<longleftrightarrow> uid0 a = UID_0_Max \<and> uid1 a = UID_1_Wildcard"

definition IsSet :: "uid \<Rightarrow> bool" where
  "IsSet a \<longleftrightarrow> (uid0 a \<noteq> 0 \<or> uid1 a \<noteq> 0) \<and> (uid0 a < UID_0_Max \<or> uid1 a \<le> UID_1_Max)"

definition IsNil :: "uid \<Rightarrow> bool" where
  "IsNil a \<longleftrightarrow> uid0 a = 0 \<and> uid1 a = 0"

definition EnsureSet :: "uid \<Rightarrow> uid \<Rightarrow> uid" where
  "EnsureSet a src = (if uid0 a = 0 \<and> uid1 a = 0 then UID (uid0 src) (uid1 src) else a)"

definition UID_Add :: "uid \<Rightarrow> uid \<Rightarrow> uid" where
  "UID_Add a b =
     (let (lo, carry) = add64 (uid1 a) (uid1 b) 0
      in UID (uid0 a + uid0 b + carry) lo)"

definition UID_Subtract :: "uid \<Rightarrow> uid \<Rightarrow> uid" where
  "UID_Subtract a b =
     (let (lo, borrow) = sub64 (uid1 a) (uid1 b) 0
      in UID (uid0 a - uid0 b - borrow) lo)"

definition UID_With :: "uid \<Rightarrow> uid \<Rightarrow> uid" where
  "UID_With a b = UID_Add a b"

definition UID_Then :: "uid \<Rightarrow> uid \<Rightarrow> uid" where
  "UID_Then a b = UID_Subtract a b"

definition Midpoint :: "uid \<Rightarrow> uid \<Rightarrow> uid" where
  "Midpoint a b =
     (let (s1, c1) = add64 (uid1 a) (uid1 b) 0;
          (s0, c0) = add64 (uid0 a) (uid0 b) c1;
          m0 = drop_bit 1 s0 OR push_bit 63 c0;
          m1 = drop_bit 1 s1 OR push_bit 63 (s0 AND 1)
      in UID m0 m1)"

definition DeriveID :: "uid \<Rightarrow> uid \<Rightarrow> uid" where
  "DeriveID a oth = (if IsNil oth then a else Midpoint a oth)"

text \<open>\<open>Increment\<close> and \<open>Decrement\<close> update the receiver and report success.\<close>

definition Increment :: "uid \<Rightarrow> uid \<times> bool" where
  "Increment a =
     (if uid1 a < UID_1_Max then (UID (uid0 a) (uid1 a + 1), True)
      else if uid0 a = UID_0_Max then (a, False)
      else if uid1 a < 0xFFFFFFFFFFFFFFFF then (UID (uid0 a) (uid1 a + 1), True)
      else (UID (uid0 a + 1) 0, True))"

definition Decrement :: "uid \<Rightarrow> uid \<times> bool" where
  "Decrement a =
     (if uid1 a > 0 then (UID (uid0 a) (uid1 a - 1), True)
      else if uid0 a > 0 then (UID (uid0 a - 1) 0xFFFFFFFFFFFFFFFF, True)
      else (a, False))"

definition UID_AppendTo :: "uid \<Rightarrow> byte list \<Rightarrow> byte list" where
  "UID_AppendTo a dst = (dst @ be64 (uid0 a)) @ be64 (uid1 a)"

fun octal_loop :: "nat \<Rightarrow> u64 \<Rightarrow> u64 \<Rightarrow> byte list \<Rightarrow> byte list" where
  "octal_loop 0 r0 r1 enc = enc"
| "octal_loop (Suc n) r0 r1 enc =
     octal_loop n (drop_bit 3 r0) (drop_bit 3 r1 OR push_bit 61 r0)
       (enc @ [ucast (r1 AND 7)])"

definition Octal :: "uid \<Rightarrow> byte list \<Rightarrow> byte list" where
  "Octal a enc = octal_loop ((128 + 2) div 3) (uid0 a) (uid1 a) enc"

definition Int63 :: "uid \<Rightarrow> int" where
  "Int63 a = sint (drop_bit 1 (uid0 a + uid1 a))"

section \<open>The 128-bit reading\<close>

lemma uval_bound: "uval u < 2 ^ 128"
proof -
  have "uval u < Suc (unat (uid0 u)) * 2 ^ 64"
    using unat64_less [of "uid1 u"] by (simp add: uval_def)
  also have "\<dots> \<le> 2 ^ 64 * 2 ^ 64"
    by (intro mult_le_mono1 Suc_leI unat64_less)
  also have "(2 ^ 64 * 2 ^ 64 :: nat) = 2 ^ 128" by simp
  finally show ?thesis .
qed

lemma mod_split64: "l < (2 ^ 64 :: nat) \<Longrightarrow> (h * 2 ^ 64 + l) mod 2 ^ 128 = (h mod 2 ^ 64) * 2 ^ 64 + l"
proof -
  assume l: "l < 2 ^ 64"
  have "(h * 2 ^ 64 + l) mod (2 ^ 64 * 2 ^ 64)
      = 2 ^ 64 * ((h * 2 ^ 64 + l) div 2 ^ 64 mod 2 ^ 64) + (h * 2 ^ 64 + l) mod 2 ^ 64"
    by (rule mod_mult2_eq)
  also have "(h * 2 ^ 64 + l) div 2 ^ 64 = h" using l by simp
  also have "(h * 2 ^ 64 + l) mod 2 ^ 64 = l" using l by simp
  finally show ?thesis by simp
qed

lemma uval_uid_of: "uval (uid_of n) = n mod 2 ^ 128"
proof -
  have "uval (uid_of n) = (n div 2 ^ 64 mod 2 ^ 64) * 2 ^ 64 + n mod 2 ^ 64"
    by (simp only: uval_def uid_of_def uid.sel unat64_of_nat)
  also have "\<dots> = ((n div 2 ^ 64) * 2 ^ 64 + n mod 2 ^ 64) mod 2 ^ 128"
    by (rule mod_split64 [symmetric]) simp
  also have "(n div 2 ^ 64) * 2 ^ 64 + n mod 2 ^ 64 = n" by (rule div_mult_mod_eq)
  finally show ?thesis .
qed

lemma uval_div: "uval u div 2 ^ 64 = unat (uid0 u)"
  using unat64_less [of "uid1 u"] by (simp add: uval_def)

lemma uval_mod: "uval u mod 2 ^ 64 = unat (uid1 u)"
  using unat64_less [of "uid1 u"] by (simp add: uval_def)

lemma uid_of_uval [simp]: "uid_of (uval u) = u"
proof (cases u)
  case (UID a b)
  have "word_of_nat (uval u) = (word_of_nat (unat (uid1 u)) :: u64)"
    by (simp only: uval_mod [symmetric] word64_of_mod)
  then have "word_of_nat (uval u) = b" using UID by simp
  moreover have "word_of_nat (uval u div 2 ^ 64) = a"
    by (simp only: uval_div) (simp add: UID)
  ultimately show ?thesis using UID by (simp only: uid_of_def)
qed

lemma uval_inject [simp]: "uval u = uval v \<longleftrightarrow> u = v"
  by (metis uid_of_uval)

lemma uval_eqI: "uval u = uval v \<Longrightarrow> u = v"
  by simp

lemma uval_less_iff:
  "uval a < uval b \<longleftrightarrow> uid0 a < uid0 b \<or> (uid0 a = uid0 b \<and> uid1 a < uid1 b)"
proof -
  have lt: "uval p < uval q" if "uid0 p < uid0 q" for p q
  proof -
    have "uval p < Suc (unat (uid0 p)) * 2 ^ 64"
      using unat64_less [of "uid1 p"] by (simp add: uval_def)
    also have "\<dots> \<le> unat (uid0 q) * 2 ^ 64"
      using that by (intro mult_le_mono1) (simp add: word_less_nat_alt)
    also have "\<dots> \<le> uval q" by (simp add: uval_def)
    finally show ?thesis .
  qed
  show ?thesis
  proof (cases "uid0 a = uid0 b")
    case True
    then show ?thesis by (simp add: uval_def word_less_nat_alt)
  next
    case False
    then show ?thesis using lt [of a b] lt [of b a] by (meson linorder_neqE not_less_iff_gr_or_eq)
  qed
qed

lemma uval_nil [simp]: "uval nilUID = 0"
  by (simp add: uval_def nilUID_def)

lemma uval_0_iff: "uval u = 0 \<longleftrightarrow> u = nilUID"
  by (metis uval_inject uval_nil)

lemma IsNil_iff [uid_simps]: "IsNil u \<longleftrightarrow> u = nilUID"
  by (cases u) (simp add: IsNil_def nilUID_def)

lemma CompareTo_uval: "CompareTo a b = cmp_int (uval a) (uval b)"
  by (cases "uid0 a" "uid0 b" rule: linorder_cases; cases "uid1 a" "uid1 b" rule: linorder_cases)
     (simp_all add: CompareTo_def cmp_int_def uval_less_iff)

text \<open>UIDs are linearly ordered by \<open>CompareTo\<close>, so the library's order lemmas apply.\<close>

instantiation uid :: linorder
begin
definition less_eq_uid :: "uid \<Rightarrow> uid \<Rightarrow> bool" where "less_eq_uid a b \<longleftrightarrow> CompareTo a b \<le> 0"
definition less_uid :: "uid \<Rightarrow> uid \<Rightarrow> bool" where "less_uid a b \<longleftrightarrow> CompareTo a b < 0"
instance
  by standard (auto simp: less_eq_uid_def less_uid_def CompareTo_uval cmp_int_def split: if_splits)
end

lemma less_eq_uid_iff: "a \<le> b \<longleftrightarrow> uval a \<le> uval b" for a b :: uid
  by (auto simp: less_eq_uid_def CompareTo_uval cmp_int_def)

lemma less_uid_iff: "a < b \<longleftrightarrow> uval a < uval b" for a b :: uid
  by (auto simp: less_uid_def CompareTo_uval cmp_int_def)

lemma CompareTo_simps [uid_simps]:
  "CompareTo a b < 0 \<longleftrightarrow> a < b"
  "CompareTo a b \<le> 0 \<longleftrightarrow> a \<le> b"
  "CompareTo a b = 0 \<longleftrightarrow> a = b"
  "0 < CompareTo a b \<longleftrightarrow> b < a"
  "0 \<le> CompareTo a b \<longleftrightarrow> b \<le> a"
  by (auto simp: less_uid_iff less_eq_uid_iff CompareTo_uval cmp_int_def)

section \<open>Arithmetic\<close>

lemma uval_Add: "uval (UID_Add a b) = (uval a + uval b) mod 2 ^ 128"
proof -
  obtain s k where sk: "add64 (uid1 a) (uid1 b) 0 = (s, k)" by force
  have ex: "unat k * 2 ^ 64 + unat s = unat (uid1 a) + unat (uid1 b)"
    using add64_exact [OF _ sk] by simp
  have "uval (UID_Add a b)
      = ((unat (uid0 a) + unat (uid0 b) + unat k) mod 2 ^ 64) * 2 ^ 64 + unat s"
    by (simp only: UID_Add_def sk uval_def prod.case Let_def uid.sel unat64_add mod_simps)
  also have "\<dots> = ((unat (uid0 a) + unat (uid0 b) + unat k) * 2 ^ 64 + unat s) mod 2 ^ 128"
    by (rule mod_split64 [symmetric]) (rule unat64_less)
  also have "(unat (uid0 a) + unat (uid0 b) + unat k) * 2 ^ 64 + unat s = uval a + uval b"
    using ex by (simp only: uval_def add_mult_distrib)
  finally show ?thesis .
qed

lemma Add_commute: "UID_Add a b = UID_Add b a"
  by (rule uval_eqI) (simp only: uval_Add add.commute)

lemma Add_assoc: "UID_Add (UID_Add a b) c = UID_Add a (UID_Add b c)"
  by (rule uval_eqI) (simp only: uval_Add mod_simps add.assoc)

lemma Add_nil [simp]: "UID_Add a nilUID = a"
  by (rule uval_eqI) (use uval_bound [of a] in \<open>simp add: uval_Add\<close>)

lemma Add_exact: "uval a + uval b < 2 ^ 128 \<Longrightarrow> uval (UID_Add a b) = uval a + uval b"
  by (simp add: uval_Add)

lemma Subtract_Add: "UID_Add (UID_Subtract a b) b = a"
proof -
  let ?l = "uid1 a" and ?m = "uid1 b"
  have carry: "2 ^ 64 \<le> unat (?l - ?m) + unat ?m \<longleftrightarrow> unat ?l < unat ?m"
  proof (cases "unat ?l < unat ?m")
    case True
    then have "unat (?l - ?m) = unat ?l + (2 ^ 64 - unat ?m)"
      by (simp only: unat64_sub) (use unat64_less [of ?m] in simp)
    with True unat64_less [of ?m] show ?thesis by simp
  next
    case False
    then have "unat (?l - ?m) = unat ?l - unat ?m"
      by (simp add: unat_sub word_le_nat_alt)
    with False unat64_less [of ?l] show ?thesis by simp
  qed
  show ?thesis
    by (cases a; cases b) (use carry in \<open>auto simp: UID_Add_def UID_Subtract_def add64_def sub64_def\<close>)
qed

lemma uval_Subtract: "uval (UID_Subtract a b) = (uval a + (2 ^ 128 - uval b)) mod 2 ^ 128"
proof -
  let ?r = "uval (UID_Subtract a b)" and ?M = "2 ^ 128 :: nat"
  have "(?r + uval b) mod ?M = uval a"
    by (simp only: uval_Add [symmetric] Subtract_Add)
  then have "(uval a + (?M - uval b)) mod ?M = (?r + uval b + (?M - uval b)) mod ?M"
    by (metis mod_add_left_eq)
  also have "?r + uval b + (?M - uval b) = ?r + ?M"
    using uval_bound [of b] by linarith
  also have "(?r + ?M) mod ?M = ?r"
    using uval_bound [of "UID_Subtract a b"] by (simp only: mod_add_self2 mod_less)
  finally show ?thesis by (rule sym)
qed

lemma Subtract_exact: "b \<le> a \<Longrightarrow> uval (UID_Subtract a b) = uval a - uval b"
proof -
  assume "b \<le> a"
  then have le: "uval b \<le> uval a" by (simp only: less_eq_uid_iff)
  then have "uval a + (2 ^ 128 - uval b) = (uval a - uval b) + 2 ^ 128"
    using uval_bound [of b] by linarith
  then show ?thesis
    using uval_bound [of a] le by (simp only: uval_Subtract mod_add_self2) simp
qed

lemma midpoint_halves:
  "(x div 2 + c * 2 ^ 63) * 2 ^ 64 + (y div 2 + (x mod 2) * 2 ^ 63)
     = ((c * 2 ^ 64 + x) * 2 ^ 64 + y) div (2 :: nat)"
proof -
  obtain q r where qr: "q = x div 2" "r = x mod 2" by simp
  then have x: "x = 2 * q + r" by simp
  have "(c * 2 ^ 64 + x) * 2 ^ 64 + y = y + 2 * ((q + c * 2 ^ 63) * 2 ^ 64 + r * 2 ^ 63)"
    unfolding x by (simp add: algebra_simps)
  then have "((c * 2 ^ 64 + x) * 2 ^ 64 + y) div 2 = (q + c * 2 ^ 63) * 2 ^ 64 + r * 2 ^ 63 + y div 2"
    by (simp only: div_mult_self2 [OF zero_neq_numeral [symmetric]])
  then show ?thesis by (simp only: qr ac_simps)
qed

lemma uval_Midpoint: "uval (Midpoint a b) = (uval a + uval b) div 2"
proof -
  obtain s1 c1 where l: "add64 (uid1 a) (uid1 b) 0 = (s1, c1)" by force
  obtain s0 c0 where h: "add64 (uid0 a) (uid0 b) c1 = (s0, c0)" by force
  have lo: "unat c1 * 2 ^ 64 + unat s1 = unat (uid1 a) + unat (uid1 b)" "unat c1 \<le> 1"
    using add64_exact [OF _ l] by simp_all
  have hi: "unat c0 * 2 ^ 64 + unat s0 = unat (uid0 a) + unat (uid0 b) + unat c1" "unat c0 \<le> 1"
    using add64_exact [OF lo(2) h] by simp_all
  have sum: "uval a + uval b = (unat c0 * 2 ^ 64 + unat s0) * 2 ^ 64 + unat s1"
    using lo(1) hi(1) by (simp add: uval_def)
  have sh: "unat (drop_bit 1 w) < 2 ^ 63" for w :: u64
    using unat64_less [of w] by (simp only: unat64_shr) simp
  have m0: "unat (drop_bit 1 s0 OR push_bit 63 c0) = unat s0 div 2 + unat c0 * 2 ^ 63"
    using unat64_join [OF sh, of c0 1 s0] hi(2) by (simp only: unat64_shr) simp
  have b: "unat (s0 AND 1) = unat s0 mod 2"
    using nat_and_mask [of "unat s0" 1] by (simp add: unat64_and)
  have m1: "unat (drop_bit 1 s1 OR push_bit 63 (s0 AND 1)) = unat s1 div 2 + (unat s0 mod 2) * 2 ^ 63"
    using unat64_join [OF sh, of "s0 AND 1" 1 s1] b by (simp only: unat64_shr) simp
  have "uval (Midpoint a b)
      = (unat s0 div 2 + unat c0 * 2 ^ 63) * 2 ^ 64 + (unat s1 div 2 + (unat s0 mod 2) * 2 ^ 63)"
    by (simp only: Midpoint_def l h prod.case Let_def uval_def uid.sel m0 m1)
  also have "\<dots> = ((unat c0 * 2 ^ 64 + unat s0) * 2 ^ 64 + unat s1) div 2"
    by (rule midpoint_halves)
  finally show ?thesis by (simp only: sum)
qed

section \<open>Shifts across the word boundary\<close>

lemma push_high: "k \<le> 64 \<Longrightarrow> unat (push_bit (64 - k) (w :: u64)) = (unat w mod 2 ^ k) * 2 ^ (64 - k)"
proof -
  assume k: "k \<le> 64"
  then have "(2 :: nat) ^ 64 = 2 ^ k * 2 ^ (64 - k)" by (simp flip: power_add)
  then show ?thesis by (simp only: unat64_shl mult_mod_left)
qed

lemma shr_high: "k \<le> 64 \<Longrightarrow> unat (drop_bit (64 - k) (w :: u64)) < 2 ^ k"
proof -
  assume k: "k \<le> 64"
  then have "(2 :: nat) ^ 64 = 2 ^ k * 2 ^ (64 - k)" by (simp flip: power_add)
  then have "unat w < 2 ^ k * 2 ^ (64 - k)" using unat64_less [of w] by simp
  then show ?thesis by (simp only: unat64_shr less_mult_imp_div_less)
qed

lemma shr_low: "k \<le> 64 \<Longrightarrow> unat (drop_bit k (w :: u64)) < 2 ^ (64 - k)"
  using shr_high [of "64 - k" w] by simp

text \<open>A right shift of the pair by \<open>k\<close> bits divides the value by \<open>2 ^ k\<close>.\<close>

lemma uid_shr:
  assumes k: "k \<le> 64"
  shows "uval (UID (drop_bit k a) (drop_bit k b OR push_bit (64 - k) a)) = uval (UID a b) div 2 ^ k"
proof -
  have lo: "unat (drop_bit k b OR push_bit (64 - k) a)
      = unat b div 2 ^ k + (unat a mod 2 ^ k) * 2 ^ (64 - k)"
    using nat_or_disjoint [OF shr_low [OF k]]
    by (simp only: unat64_or push_high [OF k] unat64_shr)
  have p: "(2 :: nat) ^ 64 = 2 ^ k * 2 ^ (64 - k)" using k by (simp flip: power_add)
  have "uval (UID a b) div 2 ^ k = (unat b + 2 ^ k * (unat a * 2 ^ (64 - k))) div 2 ^ k"
    by (simp only: uval_def uid.sel p ac_simps)
  also have "\<dots> = unat a * 2 ^ (64 - k) + unat b div 2 ^ k" by simp
  also have "unat a = unat a div 2 ^ k * 2 ^ k + unat a mod 2 ^ k"
    by (rule div_mult_mod_eq [symmetric])
  also have "(unat a div 2 ^ k * 2 ^ k + unat a mod 2 ^ k) * 2 ^ (64 - k) + unat b div 2 ^ k
      = (unat a div 2 ^ k) * 2 ^ 64 + (unat b div 2 ^ k + (unat a mod 2 ^ k) * 2 ^ (64 - k))"
    by (simp only: p algebra_simps)
  finally show ?thesis by (simp only: uval_def uid.sel lo unat64_shr)
qed

text \<open>A left shift by \<open>k\<close> bits with \<open>d\<close> inserted at the right.\<close>

lemma uid_shl:
  assumes k: "k \<le> 64" and d: "unat d < 2 ^ k"
  shows "uval (UID (push_bit k a OR drop_bit (64 - k) b) (push_bit k b OR d))
       = (uval (UID a b) * 2 ^ k + unat d) mod 2 ^ 128"
proof -
  let ?A = "unat a" and ?B = "unat b"
  have p: "(2 :: nat) ^ 64 = 2 ^ (64 - k) * 2 ^ k" using k by (simp flip: power_add)
  have shl: "unat (push_bit k w) = (unat w mod 2 ^ (64 - k)) * 2 ^ k" for w :: u64
    using push_high [of "64 - k" w] k by simp
  have hi: "unat (push_bit k a OR drop_bit (64 - k) b) = (?A mod 2 ^ (64 - k)) * 2 ^ k + ?B div 2 ^ (64 - k)"
    using nat_or_disjoint [OF shr_high [OF k, of b], of "?A mod 2 ^ (64 - k)"]
    by (simp only: unat64_or shl unat64_shr) (simp only: ac_simps or.commute)
  have lo: "unat (push_bit k b OR d) = (?B mod 2 ^ (64 - k)) * 2 ^ k + unat d"
    using nat_or_disjoint [OF d, of "?B mod 2 ^ (64 - k)"]
    by (simp only: unat64_or shl) (simp only: ac_simps or.commute)
  have hi': "unat (push_bit k a OR drop_bit (64 - k) b) = (?A * 2 ^ k + ?B div 2 ^ (64 - k)) mod 2 ^ 64"
  proof -
    have "?B div 2 ^ (64 - k) < 2 ^ k" using shr_high [OF k, of b] by (simp only: unat64_shr)
    then have "(?A * 2 ^ k + ?B div 2 ^ (64 - k)) mod (2 ^ k * 2 ^ (64 - k))
        = 2 ^ k * (?A mod 2 ^ (64 - k)) + ?B div 2 ^ (64 - k)"
      by (simp only: mod_mult2_eq) simp
    then show ?thesis using hi by (simp only: p ac_simps)
  qed
  have "uval (UID a b) * 2 ^ k + unat d = (?A * 2 ^ k) * 2 ^ 64 + ?B * 2 ^ k + unat d"
    by (simp only: uval_def uid.sel algebra_simps)
  also have "?B * 2 ^ k = (?B div 2 ^ (64 - k)) * 2 ^ 64 + (?B mod 2 ^ (64 - k)) * 2 ^ k"
  proof -
    have "?B * 2 ^ k = (?B div 2 ^ (64 - k) * 2 ^ (64 - k) + ?B mod 2 ^ (64 - k)) * 2 ^ k"
      by (simp only: div_mult_mod_eq)
    then show ?thesis by (simp only: p add_mult_distrib mult.assoc)
  qed
  finally have "uval (UID a b) * 2 ^ k + unat d
      = (?A * 2 ^ k + ?B div 2 ^ (64 - k)) * 2 ^ 64 + unat (push_bit k b OR d)"
    by (simp only: lo algebra_simps)
  then show ?thesis
    by (simp only: mod_split64 [OF unat64_less] uval_def uid.sel hi')
qed

section \<open>Increment and decrement\<close>

lemma unat64_Suc: "w \<noteq> - 1 \<Longrightarrow> unat (w + 1 :: u64) = unat w + 1"
  using unatSuc [of w] by (simp add: add.commute eq_neg_iff_add_eq_0)

lemma uval_MaxID: "uval MaxID = 2 ^ 128 - 16"
  by (simp add: uval_def MaxID_def UID_0_Max_def UID_1_Max_def)

lemma Increment_lt: "a < MaxID \<longleftrightarrow> uid0 a \<noteq> UID_0_Max \<or> uid1 a < UID_1_Max"
proof -
  have "uid0 a < UID_0_Max \<longleftrightarrow> uid0 a \<noteq> UID_0_Max"
    using word_order.not_eq_extremum [of "uid0 a"] by (simp only: UID_0_Max_def max64)
  then show ?thesis by (auto simp: less_uid_iff uval_less_iff MaxID_def)
qed

lemma carry_step: "(h * 2 ^ 64 + (2 ^ 64 - 1)) + 1 = (h + 1) * (2 ^ 64 :: nat)"
  by simp

lemma Increment_spec:
  "Increment a = (if a < MaxID then (uid_of (uval a + 1), True) else (a, False))"
proof (cases "a < MaxID")
  case False
  then show ?thesis by (simp add: Increment_lt Increment_def)
next
  case True
  let ?r = "if uid1 a \<noteq> - 1 then UID (uid0 a) (uid1 a + 1) else UID (uid0 a + 1) 0"
  have small: "w < UID_1_Max \<Longrightarrow> w \<noteq> - 1" for w :: u64
    using word_order.extremum_strict [of UID_1_Max] by auto
  have inc: "Increment a = (?r, True)"
    using True small word_order.not_eq_extremum [of "uid1 a"]
    by (auto simp: Increment_lt Increment_def max64)
  have "uval ?r = uval a + 1"
  proof (cases "uid1 a = - 1")
    case True
    then have ne: "uid0 a \<noteq> - 1"
      using \<open>a < MaxID\<close> by (auto simp: Increment_lt UID_0_Max_def UID_1_Max_def)
    have "uval (UID (uid0 a + 1) 0) = (unat (uid0 a) + 1) * 2 ^ 64"
      by (simp only: uval_def uid.sel unat64_Suc [OF ne] unsigned_0 add_0_right)
    moreover have "uval a = unat (uid0 a) * 2 ^ 64 + (2 ^ 64 - 1)"
      by (simp only: uval_def True unat_max64)
    ultimately show ?thesis using True carry_step
      by (simp only: not_True_eq_False if_False simp_thms)
  next
    case False
    have "uval (UID (uid0 a) (uid1 a + 1)) = uval a + 1"
      by (simp only: uval_def uid.sel unat64_Suc [OF False] add.assoc)
    with False show ?thesis by (simp only: if_True simp_thms)
  qed
  then have "uid_of (uval ?r) = uid_of (uval a + 1)" by (rule arg_cong)
  then have "?r = uid_of (uval a + 1)" by (simp only: uid_of_uval)
  with inc True show ?thesis by (simp only: if_True)
qed

lemma uval_uid_of_exact: "n < 2 ^ 128 \<Longrightarrow> uval (uid_of n) = n"
  by (simp add: uval_uid_of)

lemma Decrement_spec:
  "Decrement a = (if a = nilUID then (a, False) else (uid_of (uval a - 1), True))"
proof (cases "a = nilUID")
  case True
  then show ?thesis by (simp add: Decrement_def nilUID_def)
next
  case False
  let ?r = "if uid1 a > 0 then UID (uid0 a) (uid1 a - 1) else UID (uid0 a - 1) (- 1)"
  have dec: "Decrement a = (?r, True)"
    using False by (cases a) (auto simp: Decrement_def nilUID_def word_gt_0 max64)
  have pred: "w > 0 \<Longrightarrow> unat (w - 1 :: u64) = unat w - 1 \<and> 0 < unat w" for w
    by (simp add: unat_minus_one word_gt_0 unat_gt_0)
  have "uval ?r = uval a - 1"
  proof (cases "uid1 a > 0")
    case True
    then show ?thesis using pred [OF True] by (simp add: uval_def)
  next
    case f: False
    with False have pos: "uid0 a > 0" by (cases a) (auto simp: nilUID_def word_gt_0)
    have z: "unat (uid1 a) = 0" using f by (simp add: word_gt_0)
    obtain h where h: "unat (uid0 a) = h + 1" "unat (uid0 a - 1) = h"
      using pred [OF pos] by (metis Suc_eq_plus1 Suc_pred')
    have "uval (UID (uid0 a - 1) (- 1)) = h * 2 ^ 64 + (2 ^ 64 - 1)"
      by (simp only: uval_def uid.sel h unat_max64)
    moreover have "uval a = (h + 1) * 2 ^ 64" by (simp only: uval_def h z add_0_right)
    ultimately show ?thesis using f carry_step [of h] by (simp only: if_False)
  qed
  then have "uid_of (uval ?r) = uid_of (uval a - 1)" by (rule arg_cong)
  then have "?r = uid_of (uval a - 1)" by (simp only: uid_of_uval)
  with dec False show ?thesis by (simp only: if_False)
qed

section \<open>Byte and octal images\<close>

lemma length_AppendTo [simp, uid_simps]: "length (UID_AppendTo a dst) = length dst + 16"
  by (simp add: UID_AppendTo_def)

lemma AppendTo_append: "UID_AppendTo a dst = dst @ UID_AppendTo a []"
  by (simp add: UID_AppendTo_def)

lemma be_val_AppendTo [simp, uid_simps]: "be_val (UID_AppendTo a []) = uval a"
  by (simp add: UID_AppendTo_def be_val_append uval_def)

lemma AppendTo_inject: "UID_AppendTo a [] = UID_AppendTo b [] \<longleftrightarrow> a = b"
  by (metis be_val_AppendTo uval_inject)

definition octal_value :: "byte list \<Rightarrow> nat" where
  "octal_value ds = foldr (\<lambda>d v. unat d + 8 * v) ds 0"

lemma octal_digit: "unat (ucast (w AND 7 :: u64) :: byte) = unat w mod 8"
proof -
  have "unat (w AND 7) = unat w mod 8"
    using nat_and_mask [of "unat w" 3] by (simp add: unat64_and)
  then show ?thesis by (simp add: unsigned_ucast_eq take_bit_eq_mod)
qed

lemma octal_loop_spec:
  "\<exists>ds. octal_loop n r0 r1 enc = enc @ ds \<and> length ds = n \<and> (\<forall>d \<in> set ds. d < 8) \<and>
        octal_value ds = uval (UID r0 r1) mod 8 ^ n"
proof (induction n arbitrary: r0 r1 enc)
  case 0
  show ?case by (simp add: octal_value_def)
next
  case (Suc n)
  let ?d = "ucast (r1 AND 7) :: byte"
  obtain ds where ds: "octal_loop (Suc n) r0 r1 enc = (enc @ [?d]) @ ds" "length ds = n"
      "\<forall>d \<in> set ds. d < 8"
      "octal_value ds = uval (UID (drop_bit 3 r0) (drop_bit 3 r1 OR push_bit 61 r0)) mod 8 ^ n"
    using Suc.IH by (metis octal_loop.simps(2))
  have v: "octal_value ds = uval (UID r0 r1) div 8 mod 8 ^ n"
    using uid_shr [of 3 r0 r1] ds(4) by simp
  have d: "unat ?d = uval (UID r0 r1) mod 8"
  proof -
    have "uval (UID r0 r1) mod 8 = (unat r1 + 8 * (unat r0 * 2 ^ 61)) mod 8"
      by (simp add: uval_def ac_simps)
    also have "\<dots> = unat r1 mod 8" by (rule mod_mult_self2)
    finally show ?thesis by (simp only: octal_digit)
  qed
  have "octal_value (?d # ds) = uval (UID r0 r1) mod (8 * 8 ^ n)"
    using mod_mult2_eq [of "uval (UID r0 r1)" 8 "8 ^ n"] v d
    by (simp add: octal_value_def)
  moreover have "?d < 8"
    by (simp add: word_less_nat_alt octal_digit)
  ultimately show ?case using ds by (intro exI [of _ "?d # ds"]) simp
qed

lemma Octal_spec:
  "\<exists>ds. Octal a enc = enc @ ds \<and> length ds = 43 \<and> (\<forall>d \<in> set ds. d < 8) \<and> octal_value ds = uval a"
proof -
  have "uval a mod 8 ^ 43 = uval a"
    using uval_bound [of a] by (intro mod_less) simp
  then show ?thesis
    using octal_loop_spec [of 43 "uid0 a" "uid1 a" enc] by (simp add: Octal_def)
qed

end
