(* ===== verification/UidTime.thy ===== *)
theory UidTime
  imports Uid
begin

text \<open>
  UIDs as timestamps (\<open>stdlib/tag/tag.id.go\<close>): \<open>UID_FromTime\<close>, the entropy fold of
  \<open>NowID\<close> with its process-wide entropy word, and the reading back by \<open>Unix\<close> and
  \<open>AsTime\<close>.  The wall clock is an argument.  A time is its whole Unix seconds and its
  nanoseconds, as \<open>time.Time\<close> reports them.
\<close>

section \<open>Timestamps\<close>

record gotime =
  unix_sec :: int
  nanosec :: nat

definition TickStep64 :: u64 where "TickStep64 = 0x44B82FA1C"
definition EntropyMask :: u64 where "EntropyMask = push_bit 50 1 - 1"
definition rot1 :: u64 where "rot1 = push_bit 63 1 - 471"
definition rot2 :: u64 where "rot2 = push_bit 62 1 - 143"

definition UID_FromTime :: "gotime \<Rightarrow> uid" where
  "UID_FromTime t =
     (let ns_b10 = word_of_nat (nanosec t) :: u64;
          ns_f64 = ns_b10 * TickStep64;
          t_00_06 = push_bit 16 (word_of_int (unix_sec t) :: u64);
          t_06_08 = drop_bit 48 ns_f64;
          t_08_15 = push_bit 16 ns_f64
      in UID (t_00_06 OR t_06_08) t_08_15)"

text \<open>One call of \<open>NowID\<close> at wall-clock time \<open>t\<close>: the successful pass of its
  compare-and-swap loop reads the entropy word \<open>g\<close> and writes its successor.\<close>

definition NowID :: "gotime \<Rightarrow> u64 \<Rightarrow> uid \<times> u64" where
  "NowID t g =
     (let u = UID_FromTime t;
          entropy = (rot1 * uid1 u) XOR g
      in (UID (uid0 u) (uid1 u XOR (entropy AND EntropyMask)), rot2 * entropy))"

definition UID_Unix :: "uid \<Rightarrow> int" where
  "UID_Unix a = sint (drop_bit 16 (uid0 a))"

definition AsTime :: "uid \<Rightarrow> gotime" where
  "AsTime a =
     (let unix = UID_Unix a;
          ns_f64 = push_bit 48 (uid0 a AND 0xFFFF) OR drop_bit 16 (uid1 a);
          ns_b10 = 1 + ns_f64 div (1 + TickStep64)
      in \<lparr>unix_sec = unix + int (unat ns_b10 div 1000000000),
          nanosec = unat ns_b10 mod 1000000000\<rparr>)"

section \<open>The value of a timestamp\<close>

text \<open>The times a UID can carry: 48 bits of seconds since 1970.\<close>

definition valid_time :: "gotime \<Rightarrow> bool" where
  "valid_time t \<longleftrightarrow> 0 \<le> unix_sec t \<and> unix_sec t < 2 ^ 48 \<and> nanosec t < 10 ^ 9"

definition total_ns :: "gotime \<Rightarrow> int" where
  "total_ns t = unix_sec t * 10 ^ 9 + int (nanosec t)"

lemma unat_TickStep64: "unat TickStep64 = 18446744092"
  by (simp add: TickStep64_def)

lemma ns_f64_exact:
  assumes "n < 10 ^ 9"
  shows "unat (word_of_nat n * TickStep64) = n * 18446744092"
proof -
  have "n * 18446744092 \<le> (10 ^ 9 - 1) * 18446744092"
    using assms by (intro mult_le_mono1) simp
  then have lt: "n * 18446744092 < 2 ^ 64" by simp
  have "n mod 2 ^ 64 = n" using assms by (intro mod_less) simp
  with lt show ?thesis by (simp only: unat64_mult unat64_of_nat unat_TickStep64 mod_less)
qed

lemma timestamp_fields:
  "(q + s * 2 ^ 16) * 2 ^ 64 + r * 2 ^ 16 = s * 2 ^ 80 + (q * 2 ^ 48 + r) * (2 ^ 16 :: nat)"
  by (simp add: algebra_simps)

lemma FromTime_fields:
  assumes "valid_time t"
  shows "unat (uid0 (UID_FromTime t)) = nat (unix_sec t) * 2 ^ 16 + nanosec t * 18446744092 div 2 ^ 48"
    and "unat (uid1 (UID_FromTime t)) = nanosec t * 18446744092 mod 2 ^ 48 * 2 ^ 16"
    and "nanosec t * 18446744092 div 2 ^ 48 < 2 ^ 16"
proof -
  let ?s = "word_of_int (unix_sec t) :: u64"
  let ?f = "word_of_nat (nanosec t) * TickStep64"
  let ?F = "nanosec t * 18446744092"
  have s: "unat ?s = nat (unix_sec t)"
    using assms by (simp add: valid_time_def unsigned_of_int take_bit_int_eq_self)
  have f: "unat ?f = ?F" using assms by (intro ns_f64_exact) (simp add: valid_time_def)
  have s48: "unat ?s < 2 ^ 48" using assms by (simp add: s valid_time_def nat_less_iff)
  have lo: "unat (drop_bit 48 ?f) < 2 ^ 16" using shr_high [of 16 ?f] by simp
  then show "?F div 2 ^ 48 < 2 ^ 16" by (simp only: unat64_shr f)
  have "unat (push_bit 16 ?s OR drop_bit 48 ?f) = ?F div 2 ^ 48 + nat (unix_sec t) * 2 ^ 16"
    using unat64_join [OF lo s48] by (simp only: or.commute [of "push_bit 16 ?s"] unat64_shr f s)
  then show "unat (uid0 (UID_FromTime t)) = nat (unix_sec t) * 2 ^ 16 + ?F div 2 ^ 48"
    by (simp only: UID_FromTime_def Let_def uid.sel add.commute)
  have "unat (push_bit 16 ?f) = ?F mod 2 ^ 48 * 2 ^ 16"
    using push_high [of 48 ?f] by (simp add: f)
  then show "unat (uid1 (UID_FromTime t)) = ?F mod 2 ^ 48 * 2 ^ 16"
    by (simp only: UID_FromTime_def Let_def uid.sel)
qed

lemma uval_FromTime:
  assumes "valid_time t"
  shows "uval (UID_FromTime t) = nat (unix_sec t) * 2 ^ 80 + nanosec t * 18446744092 * 2 ^ 16"
proof -
  let ?F = "nanosec t * 18446744092"
  have "uval (UID_FromTime t)
      = (?F div 2 ^ 48 + nat (unix_sec t) * 2 ^ 16) * 2 ^ 64 + ?F mod 2 ^ 48 * 2 ^ 16"
    by (simp only: uval_def FromTime_fields [OF assms] add.commute)
  also have "\<dots> = nat (unix_sec t) * 2 ^ 80 + (?F div 2 ^ 48 * 2 ^ 48 + ?F mod 2 ^ 48) * 2 ^ 16"
    by (rule timestamp_fields)
  also have "?F div 2 ^ 48 * 2 ^ 48 + ?F mod 2 ^ 48 = ?F" by (rule div_mult_mod_eq)
  finally show ?thesis .
qed

section \<open>NowID\<close>

lemma unat_xor_mask_div:
  assumes "k \<le> 64"
  shows "unat (w XOR (e AND mask k) :: u64) div 2 ^ k = unat w div 2 ^ k"
proof -
  have "drop_bit k (w XOR (e AND mask k)) = drop_bit k w"
    by (rule bit_eqI) (auto simp: bit_simps)
  then show ?thesis by (simp only: unat64_shr [symmetric])
qed

lemma EntropyMask_mask: "EntropyMask = mask 50"
  by (simp add: EntropyMask_def mask_eq_exp_minus_1)

lemma uval_div50: "uval (UID a b) div 2 ^ 50 = unat a * 2 ^ 14 + unat b div 2 ^ 50"
proof -
  have "uval (UID a b) = unat b + 2 ^ 50 * (unat a * 2 ^ 14)"
    by (simp add: uval_def algebra_simps)
  then show ?thesis by (simp only: div_mult_self2 [OF power_not_zero [OF zero_neq_numeral [symmetric]]])
qed

text \<open>The entropy fold leaves everything above the 50 entropy bits alone.\<close>

lemma NowID_high: "uval (fst (NowID t g)) div 2 ^ 50 = uval (UID_FromTime t) div 2 ^ 50"
proof -
  obtain a b where ab: "UID_FromTime t = UID a b" by (cases "UID_FromTime t")
  show ?thesis
    by (simp only: NowID_def ab Let_def uid.sel fst_conv uval_div50 EntropyMask_mask
        unat_xor_mask_div [of 50] numeral_le_iff semiring_norm)
qed

text \<open>A later nanosecond moves the part of the value above the entropy bits: inside a second
  one tick is more than \<open>2 ^ 50\<close>, and a new second starts on a multiple of it.\<close>

lemma total_ns_less:
  assumes "valid_time t" "valid_time t'" "total_ns t < total_ns t'"
  shows "uval (UID_FromTime t) div 2 ^ 50 < uval (UID_FromTime t') div 2 ^ 50"
proof -
  let ?s = "nat (unix_sec t)" and ?s' = "nat (unix_sec t')"
  let ?n = "nanosec t" and ?n' = "nanosec t'"
  have n: "?n < 10 ^ 9" "?n' < 10 ^ 9" using assms(1,2) by (simp_all add: valid_time_def)
  have "int (?s * 10 ^ 9 + ?n) < int (?s' * 10 ^ 9 + ?n')"
    using assms by (simp add: valid_time_def total_ns_def)
  then have lt: "?s * 10 ^ 9 + ?n < ?s' * 10 ^ 9 + ?n'" by (simp only: of_nat_less_iff)
  have "(?s * 2 ^ 80 + ?n * 18446744092 * 2 ^ 16) div 2 ^ 50
      < (?s' * 2 ^ 80 + ?n' * 18446744092 * 2 ^ 16) div 2 ^ 50"
  proof (cases "?s = ?s'")
    case True
    with lt have "?n + 1 \<le> ?n'" by simp
    then have "(?n + 1) * (18446744092 * 2 ^ 16) \<le> ?n' * (18446744092 * 2 ^ 16)"
      by (rule mult_le_mono1)
    with True have "?s * 2 ^ 80 + ?n * 18446744092 * 2 ^ 16 + 2 ^ 50
        \<le> ?s' * 2 ^ 80 + ?n' * 18446744092 * 2 ^ 16" by simp
    then have "(?s * 2 ^ 80 + ?n * 18446744092 * 2 ^ 16 + 2 ^ 50) div 2 ^ 50
        \<le> (?s' * 2 ^ 80 + ?n' * 18446744092 * 2 ^ 16) div 2 ^ 50" by (rule div_le_mono)
    then show ?thesis by (simp only: div_add_self2 [OF power_not_zero [OF zero_neq_numeral [symmetric]]])
  next
    case False
    with lt n have s: "?s + 1 \<le> ?s'" by simp
    have "?n * 18446744092 * 2 ^ 16 \<le> (10 ^ 9 - 1) * (18446744092 * 2 ^ 16)"
      using n by (simp only: mult.assoc) (intro mult_le_mono1, simp)
    then have "?s * 2 ^ 80 + ?n * 18446744092 * 2 ^ 16 < (?s + 1) * 2 ^ 30 * 2 ^ 50" by simp
    then have "(?s * 2 ^ 80 + ?n * 18446744092 * 2 ^ 16) div 2 ^ 50 < (?s + 1) * 2 ^ 30"
      by (rule less_mult_imp_div_less)
    also have "(?s + 1) * 2 ^ 30 \<le> ?s' * 2 ^ 30" using s by (rule mult_le_mono1)
    also have "?s' * 2 ^ 30 = (?s' * 2 ^ 80) div 2 ^ 50"
      by (simp add: mult.commute)
    also have "\<dots> \<le> (?s' * 2 ^ 80 + ?n' * 18446744092 * 2 ^ 16) div 2 ^ 50"
      by (intro div_le_mono le_add1)
    finally show ?thesis .
  qed
  then show ?thesis using assms by (simp only: uval_FromTime)
qed

lemma NowID_less:
  assumes "valid_time t" "valid_time t'" "total_ns t < total_ns t'"
  shows "fst (NowID t g) < fst (NowID t' g')"
proof -
  have "uval (fst (NowID t g)) div 2 ^ 50 < uval (fst (NowID t' g')) div 2 ^ 50"
    using total_ns_less [OF assms] by (simp only: NowID_high)
  then have "uval (fst (NowID t g)) < uval (fst (NowID t' g'))"
    using div_le_mono leD le_less_linear by blast
  then show ?thesis by (simp only: less_uid_iff)
qed

section \<open>Reading the time back\<close>

lemma as_time_seconds:
  "unat h = s * 2 ^ 16 + x \<Longrightarrow> x < 2 ^ 16 \<Longrightarrow> s < 2 ^ 47 \<Longrightarrow> UID_Unix (UID h l) = int s"
proof -
  assume h: "unat h = s * 2 ^ 16 + x" and x: "x < 2 ^ 16" and s: "s < 2 ^ 47"
  have "unat (drop_bit 16 h) = s" using h x by (simp only: unat64_shr) simp
  then have "drop_bit 16 h = word_of_nat s"
    by (intro word_unat_eq_iff [THEN iffD2]) (use s in \<open>simp add: unat64_of_nat\<close>)
  moreover have "sint (word_of_nat s :: u64) = int s"
    using s by (simp add: signed_of_nat signed_take_bit_int_eq_self)
  ultimately show ?thesis by (simp only: UID_Unix_def uid.sel)
qed

lemma total_ns_AsTime:
  assumes h: "unat h = s * 2 ^ 16 + x" and x: "x < 2 ^ 16" and s: "s < 2 ^ 47"
  shows "total_ns (AsTime (UID h l))
       = int s * 10 ^ 9 + 1 + int ((x * 2 ^ 48 + unat l div 2 ^ 16) div 18446744093)"
proof -
  let ?f = "push_bit 48 (h AND 0xFFFF) OR drop_bit 16 l"
  let ?F = "x * 2 ^ 48 + unat l div 2 ^ 16"
  have "unat (h AND 0xFFFF) = unat h mod 2 ^ 16"
    using nat_and_mask [of "unat h" 16] by (simp add: unat64_and)
  then have hx: "unat (h AND 0xFFFF) = x" using h x by simp
  have lo: "unat (drop_bit 16 l) < 2 ^ 48" using shr_low [of 16 l] by simp
  have f: "unat ?f = ?F"
    using unat64_join [OF lo, of "h AND 0xFFFF" 16] hx x
    by (simp only: or.commute [of "push_bit 48 (h AND 0xFFFF)"] unat64_shr)
  have T: "unat (1 + TickStep64) = 18446744093" by (simp add: TickStep64_def)
  have "?F < 2 ^ 64" using f unat64_less [of ?f] by simp
  then have q: "?F div 18446744093 < 10 ^ 9" by simp
  have "unat (1 + ?f div (1 + TickStep64)) = (1 + ?F div 18446744093) mod 2 ^ 64"
    by (simp only: unat64_add [of 1 "?f div (1 + TickStep64)"] unat_div f T unsigned_1)
  also have "\<dots> = 1 + ?F div 18446744093" using q by (intro mod_less) simp
  finally have b: "unat (1 + ?f div (1 + TickStep64)) = 1 + ?F div 18446744093" .
  have split: "int (m div 1000000000) * 10 ^ 9 + int (m mod 1000000000) = int m" for m
    by (simp add: zdiv_int zmod_int)
  have "total_ns (AsTime (UID h l))
      = (int s + int ((1 + ?F div 18446744093) div 1000000000)) * 10 ^ 9
        + int ((1 + ?F div 18446744093) mod 1000000000)"
    by (simp only: AsTime_def Let_def uid.sel total_ns_def gotime.simps b as_time_seconds [OF h x s])
  also have "\<dots> = int s * 10 ^ 9 + int (1 + ?F div 18446744093)"
    using split [of "1 + ?F div 18446744093"] by (simp only: distrib_right add.assoc)
  finally show ?thesis by simp
qed

lemma tick_div:
  assumes n: "n < 10 ^ 9" and F: "F div 2 ^ 34 = (n * 18446744092) div (2 ^ 34 :: nat)"
  shows "F div 18446744093 + 1 = n \<or> F div 18446744093 = n"
proof -
  let ?G = "n * 18446744092" and ?p = "2 ^ 34 :: nat"
  have "F < (?G div ?p + 1) * ?p" using F by (metis dividend_less_div_times add.commute
      mult.commute zero_less_power zero_less_numeral distrib_right mult_1)
  moreover have "?G div ?p * ?p \<le> ?G" by (rule div_times_less_eq_dividend)
  ultimately have up: "F < ?G + ?p" by simp
  have "?G < (F div ?p + 1) * ?p" using F by (metis dividend_less_div_times add.commute
      mult.commute zero_less_power zero_less_numeral distrib_right mult_1)
  moreover have "F div ?p * ?p \<le> F" by (rule div_times_less_eq_dividend)
  ultimately have dn: "?G < F + ?p" by simp
  have "F < (n + 1) * 18446744093" using up n by simp
  then have "F div 18446744093 < n + 1" by (rule less_mult_imp_div_less)
  moreover have "n \<le> F div 18446744093 + 1"
  proof (cases n)
    case (Suc m)
    have "m * 18446744093 \<le> F" using dn n Suc by simp
    then have "m \<le> F div 18446744093" by (simp add: less_eq_div_iff_mult_less_eq)
    with Suc show ?thesis by simp
  qed simp
  ultimately show ?thesis by linarith
qed

lemma nat_seconds: "valid_time t \<Longrightarrow> unix_sec t < 2 ^ 47 \<Longrightarrow> nat (unix_sec t) < 2 ^ 47"
  by (simp add: valid_time_def nat_less_iff)

lemma FromTime_AsTime:
  assumes t: "valid_time t" "unix_sec t < 2 ^ 47"
  shows "total_ns (AsTime (UID_FromTime t)) = total_ns t + (if nanosec t = 0 then 1 else 0)"
proof -
  let ?F = "nanosec t * 18446744092"
  obtain h l where u: "UID_FromTime t = UID h l" by (cases "UID_FromTime t")
  note fld = FromTime_fields [OF t(1), unfolded u uid.sel]
  have "unat l div 2 ^ 16 = ?F mod 2 ^ 48" by (simp only: fld) simp
  then have "total_ns (AsTime (UID h l)) = unix_sec t * 10 ^ 9 + 1
      + int ((?F div 2 ^ 48 * 2 ^ 48 + ?F mod 2 ^ 48) div 18446744093)"
    using t by (simp only: total_ns_AsTime [OF fld(1) fld(3) nat_seconds [OF t]])
      (simp add: valid_time_def)
  also have "?F div 2 ^ 48 * 2 ^ 48 + ?F mod 2 ^ 48 = ?F" by (rule div_mult_mod_eq)
  also have "?F div 18446744093 = nanosec t - 1"
  proof (cases "nanosec t")
    case (Suc m)
    then have "m < 999999999" using t(1) by (simp add: valid_time_def)
    then have "?F div 18446744093 = m"
      unfolding Suc by (intro div_nat_eqI) simp_all
    with Suc show ?thesis by simp
  qed simp
  finally show ?thesis by (simp add: u total_ns_def)
qed

lemma NowID_AsTime:
  assumes t: "valid_time t" "unix_sec t < 2 ^ 47"
  shows "total_ns (AsTime (fst (NowID t g))) - total_ns t \<in> {0, 1}"
proof -
  let ?F = "nanosec t * 18446744092"
  obtain h b where u: "UID_FromTime t = UID h b" by (cases "UID_FromTime t")
  note fld = FromTime_fields [OF t(1), unfolded u uid.sel]
  define l where "l = b XOR ((rot1 * b XOR g) AND EntropyMask)"
  have now: "fst (NowID t g) = UID h l" by (simp add: NowID_def u Let_def l_def)
  have l50: "unat l div 2 ^ 50 = unat b div 2 ^ 50"
    by (simp only: l_def EntropyMask_mask unat_xor_mask_div [of 50] numeral_le_iff semiring_norm)
  let ?G = "?F div 2 ^ 48 * 2 ^ 48 + unat l div 2 ^ 16"
  have d: "(x div 2 ^ 16) div 2 ^ 34 = x div (2 ^ 50 :: nat)" for x
    by (simp add: div_mult2_eq [symmetric])
  have e: "(q * 2 ^ 48 + r) div 2 ^ 34 = q * 2 ^ 14 + r div (2 ^ 34 :: nat)" for q r
    using div_mult_self2 [of "2 ^ 34" r "q * 2 ^ 14"] by (simp add: ac_simps)
  have "?G div 2 ^ 34 = ?F div 2 ^ 48 * 2 ^ 14 + (unat b div 2 ^ 16) div 2 ^ 34"
    by (simp only: e d l50)
  also have "unat b div 2 ^ 16 = ?F mod 2 ^ 48" by (simp only: fld) simp
  also have "?F div 2 ^ 48 * 2 ^ 14 + (?F mod 2 ^ 48) div 2 ^ 34
      = (?F div 2 ^ 48 * 2 ^ 48 + ?F mod 2 ^ 48) div 2 ^ 34" by (simp only: e)
  also have "?F div 2 ^ 48 * 2 ^ 48 + ?F mod 2 ^ 48 = ?F" by (rule div_mult_mod_eq)
  finally have G: "?G div 2 ^ 34 = ?F div 2 ^ 34" .
  have n: "nanosec t < 10 ^ 9" using t by (simp add: valid_time_def)
  have "total_ns (AsTime (UID h l)) = unix_sec t * 10 ^ 9 + 1 + int (?G div 18446744093)"
    using t by (simp only: total_ns_AsTime [OF fld(1) fld(3) nat_seconds [OF t]])
      (simp add: valid_time_def)
  with tick_div [OF n G] show ?thesis by (auto simp: now total_ns_def)
qed

end
