(* ===== verification/Base32.thy ===== *)
theory Base32
  imports Uid
begin

text \<open>
  Text forms of a UID: the grouped base32 render and its tolerant parser, the log label
  and the trimmed hexadecimal form (\<open>stdlib/tag/tag.id.go\<close>, with the alphabets of
  \<open>stdlib/encode/encode.go\<close>).  A Go string is its list of UTF-8 bytes, here \<open>string\<close>.
\<close>

section \<open>Characters\<close>

abbreviation ord :: "char \<Rightarrow> nat" where "ord \<equiv> of_char"

text \<open>\<open>unicode.IsSpace\<close> on a single byte read as a rune (the Latin-1 cases).\<close>

definition IsSpace :: "char \<Rightarrow> bool" where
  "IsSpace c \<longleftrightarrow> ord c \<in> {9, 10, 11, 12, 13, 32, 0x85, 0xA0}"

definition Base32Alphabet_Upper :: string where
  "Base32Alphabet_Upper = ''0123456789BCDEFGHJKMNPQRSTUVWXYZ''"

definition Base32Alphabet_Lower :: string where
  "Base32Alphabet_Lower = ''0123456789bcdefghjkmnpqrstuvwxyz''"

text \<open>The ellipsis U+2026 in UTF-8.\<close>

definition ellipsis :: string where
  "ellipsis = [CHR 0xE2, CHR 0x80, CHR 0xA6]"

section \<open>Base32 render\<close>

text \<open>The loop fills the 29 slots from the right; slots 3, 14 and 25 hold a dash.\<close>

fun base32_loop :: "nat \<Rightarrow> u64 \<Rightarrow> u64 \<Rightarrow> bool \<Rightarrow> string \<Rightarrow> bool \<times> string" where
  "base32_loop 0 x0 x1 isZero out = (isZero, out)"
| "base32_loop (Suc i) x0 x1 isZero out =
     (if i mod 11 = 3 then base32_loop i x0 x1 isZero (CHR ''-'' # out)
      else let b32 = (ucast x1 :: byte) AND 0x1F
           in base32_loop i (drop_bit 5 x0)
                (push_bit 59 (x0 AND 0x1F) OR drop_bit 5 x1)
                (if b32 \<noteq> 0 then False else isZero)
                (Base32Alphabet_Lower ! unat b32 # out))"

definition Base32 :: "uid \<Rightarrow> string" where
  "Base32 a =
     (let (isZero, out) = base32_loop 29 (uid0 a) (uid1 a) True []
      in if isZero then ''0'' else out)"

definition UID_AsLabel :: "uid \<Rightarrow> string" where
  "UID_AsLabel a =
     (let full = Base32 a
      in if length full \<le> 5 then full
         else take 1 full @ ellipsis @ drop (length full - 3) full)"

section \<open>Base32 parser\<close>

fun index_of :: "'a \<Rightarrow> 'a list \<Rightarrow> nat option" where
  "index_of c [] = None"
| "index_of c (x # xs) = (if x = c then Some 0 else map_option Suc (index_of c xs))"

text \<open>The lookup table holds the digit plus one; the upper-case alphabet is entered last.\<close>

definition base32Lookup :: "char \<Rightarrow> nat" where
  "base32Lookup c =
     (case index_of c Base32Alphabet_Upper of
        Some i \<Rightarrow> i + 1
      | None \<Rightarrow> (case index_of c Base32Alphabet_Lower of Some i \<Rightarrow> i + 1 | None \<Rightarrow> 0))"

fun parse_digits :: "string \<Rightarrow> nat list \<Rightarrow> nat list outcome" where
  "parse_digits [] digits = Inr digits"
| "parse_digits (c # cs) digits =
     (if IsSpace c \<or> c = CHR ''-'' then parse_digits cs digits
      else let digit = (if ord c > 32 \<and> ord c < 127 then base32Lookup c else 0)
           in if digit = 0 \<or> length digits \<ge> 26 then Inl ErrUnrecognizedFormat
              else parse_digits cs (digits @ [digit - 1]))"

definition shift_in :: "uid \<Rightarrow> nat \<Rightarrow> uid" where
  "shift_in a b32 =
     UID (push_bit 5 (uid0 a) OR drop_bit 59 (uid1 a)) (push_bit 5 (uid1 a) OR word_of_nat b32)"

definition UID_ParseBase32 :: "string \<Rightarrow> uid outcome" where
  "UID_ParseBase32 text =
     and_then (parse_digits text [])
       (\<lambda>digits. if digits = [] then Inl ErrUnrecognizedFormat
                 else Inr (foldl shift_in nilUID digits))"

section \<open>Hexadecimal render\<close>

definition HexChars :: string where "HexChars = ''0123456789ABCDEF''"

fun nibbles :: "nat \<Rightarrow> u64 \<Rightarrow> nat list" where
  "nibbles 0 w = []"
| "nibbles (Suc n) w = unat (drop_bit (4 * n) w AND 0xF) # nibbles n w"

definition Base16 :: "uid \<Rightarrow> string" where
  "Base16 a =
     (let digits = dropWhile (\<lambda>d. d = 0) (nibbles 16 (uid0 a) @ nibbles 16 (uid1 a))
      in if digits = [] then ''0'' else ''0x'' @ map (\<lambda>d. HexChars ! d) digits)"

section \<open>Round trip\<close>

definition b32_val :: "nat list \<Rightarrow> nat" where
  "b32_val ds = foldl (\<lambda>a d. a * 32 + d) 0 ds"

lemma b32_val_simps [simp]: "b32_val [] = 0" "b32_val (ds @ [d]) = b32_val ds * 32 + d"
  by (simp_all add: b32_val_def)

lemma uval_shift_in: "d < 32 \<Longrightarrow> uval (shift_in a d) = (uval a * 32 + d) mod 2 ^ 128"
proof -
  assume d: "d < 32"
  then have "unat (word_of_nat d :: u64) = d" by (simp add: unat64_of_nat)
  with d uid_shl [of 5 "word_of_nat d" "uid0 a" "uid1 a"] show ?thesis
    by (simp add: shift_in_def)
qed

lemma foldl_shift_in:
  "\<forall>d \<in> set ds. d < 32 \<Longrightarrow> uval (foldl shift_in nilUID ds) = b32_val ds mod 2 ^ 128"
proof (induction ds rule: rev_induct)
  case Nil
  show ?case by simp
next
  case (snoc d ds)
  then show ?case by (simp add: uval_shift_in del: power_numeral) (simp only: mod_horner)
qed

lemma lower_digit:
  "\<forall>d \<in> set [0..<32]. base32Lookup (Base32Alphabet_Lower ! d) = d + 1 \<and>
     \<not> IsSpace (Base32Alphabet_Lower ! d) \<and> Base32Alphabet_Lower ! d \<noteq> CHR ''-'' \<and>
     32 < ord (Base32Alphabet_Lower ! d) \<and> ord (Base32Alphabet_Lower ! d) < (127 :: nat) \<and>
     ord (Base32Alphabet_Lower ! d) \<notin> {46, 47, 58, 92 :: nat}"
  by code_simp

lemma parse_lower_digit:
  "d < 32 \<Longrightarrow> length acc < 26 \<Longrightarrow>
     parse_digits (Base32Alphabet_Lower ! d # cs) acc = parse_digits cs (acc @ [d])"
  using lower_digit by simp

definition digit_slots :: "nat \<Rightarrow> nat" where
  "digit_slots n = length (filter (\<lambda>k. k mod 11 \<noteq> 3) [0..<n])"

lemma low5: "unat ((ucast (w :: u64) :: byte) AND 0x1F) = unat w mod 32"
proof -
  have "unat ((ucast w :: byte) AND 0x1F) = unat (ucast w :: byte) AND unat (0x1F :: byte)"
    by (rule unsigned_and_eq)
  also have "\<dots> = unat w mod 256 mod 32"
    using nat_and_mask [of "unat (ucast w :: byte)" 5]
    by (simp add: unsigned_ucast_eq take_bit_eq_mod)
  also have "\<dots> = unat w mod 32" by (simp add: mod_mod_cancel)
  finally show ?thesis .
qed

lemma render_shift: "push_bit 59 (x0 AND 0x1F) OR drop_bit 5 x1 = drop_bit 5 x1 OR push_bit 59 (x0 :: u64)"
proof -
  have "push_bit 59 (x0 AND mask 5) = push_bit 59 x0"
    by (rule bit_eqI) (auto simp: bit_simps)
  then show ?thesis by (simp add: or.commute mask_numeral)
qed

lemma mod32_snoc: "v mod 32 ^ Suc n = (v div 32 mod 32 ^ n) * 32 + v mod (32 :: nat)"
  using mod_mult2_eq [of v 32 "32 ^ n"] by (simp add: ac_simps)

text \<open>\<open>rendered i v pre ds\<close>: \<open>pre\<close> is a render of the low base-32 digits \<open>ds\<close> of \<open>v\<close>
  in the first \<open>i\<close> slots, and the parser reads exactly \<open>ds\<close> from it.\<close>

definition rendered :: "nat \<Rightarrow> nat \<Rightarrow> string \<Rightarrow> nat list \<Rightarrow> bool" where
  "rendered i v pre ds \<longleftrightarrow>
     length pre = i \<and> length ds = digit_slots i \<and> (\<forall>d \<in> set ds. d < 32) \<and>
     b32_val ds = v mod 32 ^ digit_slots i \<and>
     (\<forall>c \<in> set pre. c = CHR ''-'' \<or> c \<in> set Base32Alphabet_Lower) \<and>
     (\<forall>rest acc. length acc + length ds \<le> 26 \<longrightarrow>
        parse_digits (pre @ rest) acc = parse_digits rest (acc @ ds))"

lemma renderedD:
  assumes "rendered i v pre ds"
  shows "length pre = i" "length ds = digit_slots i" "\<forall>d \<in> set ds. d < 32"
    "b32_val ds = v mod 32 ^ digit_slots i"
    "\<forall>c \<in> set pre. c = CHR ''-'' \<or> c \<in> set Base32Alphabet_Lower"
  by (intro assms [unfolded rendered_def, THEN conjunct1]
      assms [unfolded rendered_def, THEN conjunct2, THEN conjunct1]
      assms [unfolded rendered_def, THEN conjunct2, THEN conjunct2, THEN conjunct1]
      assms [unfolded rendered_def, THEN conjunct2, THEN conjunct2, THEN conjunct2, THEN conjunct1]
      assms [unfolded rendered_def, THEN conjunct2, THEN conjunct2, THEN conjunct2, THEN conjunct2,
        THEN conjunct1])+

lemma rendered_parse:
  "rendered i v pre ds \<Longrightarrow> length acc + length ds \<le> 26 \<Longrightarrow>
     parse_digits (pre @ rest) acc = parse_digits rest (acc @ ds)"
  unfolding rendered_def by blast

lemma rendered_Nil: "rendered 0 v [] []"
  by (simp add: rendered_def digit_slots_def)

lemma rendered_dash:
  assumes r: "rendered i v pre ds" and i: "i mod 11 = 3"
  shows "rendered (Suc i) v (pre @ ''-'') ds"
proof -
  have "digit_slots (Suc i) = digit_slots i" using i by (simp add: digit_slots_def)
  moreover have "parse_digits (CHR ''-'' # rest) acc = parse_digits rest acc" for rest acc by simp
  ultimately show ?thesis using r by (simp add: rendered_def del: parse_digits.simps)
qed

lemma rendered_digit:
  assumes r: "rendered i (v div 32) pre ds" and i: "i mod 11 \<noteq> 3" and d: "d = v mod 32"
  shows "rendered (Suc i) v (pre @ [Base32Alphabet_Lower ! d]) (ds @ [d])"
proof -
  have s: "digit_slots (Suc i) = Suc (digit_slots i)" using i by (simp add: digit_slots_def)
  have d32: "d < 32" using d by simp
  have mem: "Base32Alphabet_Lower ! d \<in> set Base32Alphabet_Lower"
    using d32 by (intro nth_mem) (simp add: Base32Alphabet_Lower_def)
  have "b32_val (ds @ [d]) = v mod 32 ^ Suc (digit_slots i)"
    using r by (simp only: mod32_snoc b32_val_simps rendered_def d)
  moreover have "parse_digits ((pre @ [Base32Alphabet_Lower ! d]) @ rest) acc
      = parse_digits rest (acc @ ds @ [d])" if "length acc + length (ds @ [d]) \<le> 26" for rest acc
    using that r parse_lower_digit [OF d32, of "acc @ ds" rest]
    by (simp add: rendered_def del: parse_digits.simps)
  ultimately show ?thesis using r s d32 mem by (simp add: rendered_def del: parse_digits.simps)
qed

lemma low_digit: "unat ((ucast x1 :: byte) AND 0x1F) = uval (UID x0 x1) mod 32"
proof -
  have "uval (UID x0 x1) mod 32 = (unat x1 + 32 * (unat x0 * 2 ^ 59)) mod 32"
    by (simp add: uval_def ac_simps)
  also have "\<dots> = unat x1 mod 32" by (rule mod_mult_self2)
  finally show ?thesis by (simp only: low5)
qed

lemma base32_loop_spec:
  "\<exists>pre ds. base32_loop i x0 x1 z out = (z \<and> (\<forall>d \<in> set ds. d = 0), pre @ out) \<and>
     rendered i (uval (UID x0 x1)) pre ds"
proof (induction i arbitrary: x0 x1 z out)
  case 0
  show ?case using rendered_Nil by force
next
  case (Suc i)
  show ?case
  proof (cases "i mod 11 = 3")
    case True
    then show ?thesis
      using Suc.IH [of x0 x1 z "CHR ''-'' # out"] rendered_dash [OF _ True] by fastforce
  next
    case False
    let ?d = "unat ((ucast x1 :: byte) AND 0x1F)"
    let ?y0 = "drop_bit 5 x0" and ?y1 = "push_bit 59 (x0 AND 0x1F) OR drop_bit 5 x1"
    let ?z = "if (ucast x1 :: byte) AND 0x1F \<noteq> 0 then False else z"
    obtain pre ds where IH: "base32_loop i ?y0 ?y1 ?z (Base32Alphabet_Lower ! ?d # out)
          = (?z \<and> (\<forall>d \<in> set ds. d = 0), pre @ Base32Alphabet_Lower ! ?d # out)"
        "rendered i (uval (UID ?y0 ?y1)) pre ds"
      using Suc.IH [of ?y0 ?y1 ?z "Base32Alphabet_Lower ! ?d # out"] by blast
    have "uval (UID ?y0 (drop_bit 5 x1 OR push_bit 59 x0)) = uval (UID x0 x1) div 32"
      using uid_shr [of 5 x0 x1] by simp
    then have "uval (UID ?y0 ?y1) = uval (UID x0 x1) div 32" by (simp only: render_shift)
    with IH(2) have "rendered (Suc i) (uval (UID x0 x1)) (pre @ [Base32Alphabet_Lower ! ?d]) (ds @ [?d])"
      using rendered_digit [OF _ False low_digit [of x1 x0]] by (simp only:)
    moreover have "(ucast x1 :: byte) AND 0x1F = 0 \<longleftrightarrow> ?d = 0" by (simp add: unat_eq_0)
    then have "base32_loop (Suc i) x0 x1 z out
        = (z \<and> (\<forall>d \<in> set (ds @ [?d]). d = 0), (pre @ [Base32Alphabet_Lower ! ?d]) @ out)"
      using False IH(1) by (auto simp: Let_def)
    ultimately show ?thesis by blast
  qed
qed

lemma b32_val_zero: "\<forall>d \<in> set ds. d = 0 \<Longrightarrow> b32_val ds = 0"
  by (induction ds rule: rev_induct) auto

lemma digit_slots_29: "digit_slots 29 = 26"
  by code_simp

text \<open>The three facts about the render that the rest of the development uses.\<close>

lemma Base32_digits:
  "\<exists>ds. (\<forall>d \<in> set ds. d < 32) \<and> ds \<noteq> [] \<and> b32_val ds = uval a \<and>
        parse_digits (Base32 a) [] = Inr ds"
  and Base32_chars: "\<forall>c \<in> set (Base32 a). c = CHR ''-'' \<or> c \<in> set Base32Alphabet_Lower"
  and Base32_length: "length (Base32 a) = (if a = nilUID then 1 else 29)"
proof -
  obtain pre ds where sp: "base32_loop 29 (uid0 a) (uid1 a) True [] = ((\<forall>d \<in> set ds. d = 0), pre)"
      "rendered 29 (uval a) pre ds"
    using base32_loop_spec [of 29 "uid0 a" "uid1 a" True "[]"] by auto
  have v: "b32_val ds = uval a"
  proof -
    have "uval a < 32 ^ 26" using uval_bound [of a] by simp
    then show ?thesis using sp(2) by (simp only: rendered_def digit_slots_29 mod_less)
  qed
  have b: "Base32 a = (if \<forall>d \<in> set ds. d = 0 then ''0'' else pre)"
    using sp(1) by (simp add: Base32_def)
  have len: "length ds = 26" using renderedD(2) [OF sp(2)] by (simp only: digit_slots_29)
  have parse: "parse_digits pre [] = Inr ds"
    using rendered_parse [OF sp(2), of "[]" "[]"] len by simp
  have p0: "parse_digits ''0'' [] = Inr [0]"
    by (simp add: IsSpace_def base32Lookup_def Base32Alphabet_Upper_def)
  have ne: "ds \<noteq> []" using len by auto
  have z: "(\<forall>d \<in> set ds. d = 0) \<longleftrightarrow> a = nilUID"
  proof
    assume "\<forall>d \<in> set ds. d = 0"
    then have "uval a = 0" using b32_val_zero [of ds] v by simp
    then show "a = nilUID" by (simp only: uval_0_iff)
  next
    have "\<forall>d \<in> set ds. d = 0" if "b32_val ds = 0"
      using that by (induction ds rule: rev_induct) auto
    then show "a = nilUID \<Longrightarrow> \<forall>d \<in> set ds. d = 0" using v by simp
  qed
  show "\<exists>ds. (\<forall>d \<in> set ds. d < 32) \<and> ds \<noteq> [] \<and> b32_val ds = uval a \<and>
        parse_digits (Base32 a) [] = Inr ds"
  proof (cases "a = nilUID")
    case True
    then show ?thesis using z b p0 by (intro exI [of _ "[0]"]) (simp add: b32_val_def)
  next
    case False
    then have "Base32 a = pre" using z b by auto
    then show ?thesis using parse ne v renderedD(3) [OF sp(2)] by (intro exI [of _ ds]) simp
  qed
  show "\<forall>c \<in> set (Base32 a). c = CHR ''-'' \<or> c \<in> set Base32Alphabet_Lower"
    using renderedD(5) [OF sp(2)] b by (auto simp: Base32Alphabet_Lower_def)
  show "length (Base32 a) = (if a = nilUID then 1 else 29)"
    using renderedD(1) [OF sp(2)] b z by simp
qed

lemma ParseBase32_Base32: "UID_ParseBase32 (Base32 a) = Inr a"
proof -
  obtain ds where ds: "\<forall>d \<in> set ds. d < 32" "ds \<noteq> []" "b32_val ds = uval a"
      "parse_digits (Base32 a) [] = Inr ds"
    using Base32_digits [of a] by blast
  have "uval (foldl shift_in nilUID ds) = uval a"
    using foldl_shift_in [OF ds(1)] ds(3) uval_bound [of a] by (simp only: mod_less)
  then show ?thesis using ds by (simp add: UID_ParseBase32_def)
qed

lemma Base32_inject: "Base32 a = Base32 b \<Longrightarrow> a = b"
  by (metis ParseBase32_Base32 sum.inject(2))

end
