(* ===== verification/TagName.thy ===== *)
theory TagName
  imports Base32
begin

text \<open>
  Tag names: the canonization of tag expressions and the identifiers derived from them
  (\<open>stdlib/tag/tag.id.go\<close>).  The hash \<open>blake2s.Sum256\<close> is third-party code and is the
  parameter \<open>H\<close> of every definition that hashes.  A Go string is its UTF-8 byte list.
\<close>

record tag_name =
  NameID :: uid
  NameText :: string

definition emptyName :: tag_name where
  "emptyName = \<lparr>NameID = nilUID, NameText = []\<rparr>"

definition CanonicWildcard :: string where "CanonicWildcard = ''*''"

definition Wildcard :: tag_name where
  "Wildcard = \<lparr>NameID = WildcardID, NameText = ''*''\<rparr>"

section \<open>Character classes and string helpers\<close>

definition sep_byte :: "char \<Rightarrow> bool" where
  "sep_byte c \<longleftrightarrow>
     c \<in> set ''.,!:?&()[]{}<>+- '' \<or> ord c \<in> {9, 10, 12, 13, 34 :: nat}"

text \<open>\<open>SeparatorRegex\<close> with \<open>ReplaceAllString(_, ".")\<close>: every maximal run of separators
  becomes one dot.  Besides the ASCII separators the class holds U+00BF, two bytes.\<close>

fun replace_seps :: "bool \<Rightarrow> string \<Rightarrow> string" where
  "replace_seps in_run [] = []"
| "replace_seps in_run (c # cs) =
     (if sep_byte c then (if in_run then [] else ''.'') @ replace_seps True cs
      else if c = CHR 0xC2 \<and> cs \<noteq> [] \<and> hd cs = CHR 0xBF
      then (if in_run then [] else ''.'') @ replace_seps True (tl cs)
      else c # replace_seps False cs)"

text \<open>\<open>strings.TrimSpace\<close>: the UTF-8 encodings of the Unicode white space runes are
  stripped from both ends.\<close>

definition space_runes :: "string list" where
  "space_runes =
     [[CHR 9], [CHR 10], [CHR 11], [CHR 12], [CHR 13], [CHR 32],
      [CHR 0xC2, CHR 0x85], [CHR 0xC2, CHR 0xA0], [CHR 0xE1, CHR 0x9A, CHR 0x80],
      [CHR 0xE2, CHR 0x80, CHR 0x80], [CHR 0xE2, CHR 0x80, CHR 0x81],
      [CHR 0xE2, CHR 0x80, CHR 0x82], [CHR 0xE2, CHR 0x80, CHR 0x83],
      [CHR 0xE2, CHR 0x80, CHR 0x84], [CHR 0xE2, CHR 0x80, CHR 0x85],
      [CHR 0xE2, CHR 0x80, CHR 0x86], [CHR 0xE2, CHR 0x80, CHR 0x87],
      [CHR 0xE2, CHR 0x80, CHR 0x88], [CHR 0xE2, CHR 0x80, CHR 0x89],
      [CHR 0xE2, CHR 0x80, CHR 0x8A], [CHR 0xE2, CHR 0x80, CHR 0xA8],
      [CHR 0xE2, CHR 0x80, CHR 0xA9], [CHR 0xE2, CHR 0x80, CHR 0xAF],
      [CHR 0xE2, CHR 0x81, CHR 0x9F], [CHR 0xE3, CHR 0x80, CHR 0x80]]"

function trim_front :: "string list \<Rightarrow> string \<Rightarrow> string" where
  "trim_front ws s =
     (case find (\<lambda>w. w \<noteq> [] \<and> take (length w) s = w) ws of
        None \<Rightarrow> s
      | Some w \<Rightarrow> trim_front ws (drop (length w) s))"
  by pat_completeness auto
termination
proof (relation "measure (\<lambda>(ws, s). length s)")
  fix ws :: "string list" and s w :: string
  assume "find (\<lambda>w. w \<noteq> [] \<and> take (length w) s = w) ws = Some w"
  then have "w \<noteq> []" "take (length w) s = w" by (auto simp: find_Some_iff)
  then have "s \<noteq> []" by auto
  with \<open>w \<noteq> []\<close> show "((ws, drop (length w) s), ws, s) \<in> measure (\<lambda>(ws, s). length s)" by simp
qed simp

declare trim_front.simps [simp del]

definition TrimSpace :: "string \<Rightarrow> string" where
  "TrimSpace s = rev (trim_front (map rev space_runes) (rev (trim_front space_runes s)))"

definition is_trigger :: "char \<Rightarrow> bool" where
  "is_trigger c \<longleftrightarrow> c = CHR '':'' \<or> c = CHR ''/'' \<or> c = CHR 0x5C"

text \<open>\<open>PathStart\<close>: the index of the first URL trigger; \<open>None\<close> stands for -1.\<close>

fun PathStart :: "string \<Rightarrow> nat option" where
  "PathStart [] = None"
| "PathStart (c # cs) = (if is_trigger c then Some 0 else map_option Suc (PathStart cs))"

definition name_part :: "string \<Rightarrow> string" where
  "name_part s = (case PathStart s of Some i \<Rightarrow> take i s | None \<Rightarrow> s)"

definition url_part :: "string \<Rightarrow> string" where
  "url_part s = (case PathStart s of Some i \<Rightarrow> drop i s | None \<Rightarrow> [])"

definition is_lower :: "char \<Rightarrow> bool" where
  "is_lower c \<longleftrightarrow> 97 \<le> (ord c :: nat) \<and> (ord c :: nat) \<le> 122"
definition is_upper :: "char \<Rightarrow> bool" where
  "is_upper c \<longleftrightarrow> 65 \<le> (ord c :: nat) \<and> (ord c :: nat) \<le> 90"
definition is_digit :: "char \<Rightarrow> bool" where
  "is_digit c \<longleftrightarrow> 48 \<le> (ord c :: nat) \<and> (ord c :: nat) \<le> 57"

definition isScheme :: "string \<Rightarrow> bool" where
  "isScheme s =
     (case s of [] \<Rightarrow> False
      | c0 # cs \<Rightarrow> (is_lower c0 \<or> is_upper c0) \<and>
          list_all (\<lambda>c. is_lower c \<or> is_upper c \<or> is_digit c \<or>
                        c = CHR ''+'' \<or> c = CHR ''-'' \<or> c = CHR ''.'') cs)"

definition fold_byte :: "char \<Rightarrow> char" where
  "fold_byte c = (if is_upper c then char_of (ord c + 32 :: nat) else c)"

definition foldSegment :: "string \<Rightarrow> string" where
  "foldSegment term = (if list_ex is_upper term then map fold_byte term else term)"

text \<open>The word loop of \<open>With\<close> and \<open>canonize\<close>: skip dots, take a word, append it to the
  body behind a dot; \<open>f\<close> is what is done to the word.\<close>

function join_words :: "(string \<Rightarrow> string) \<Rightarrow> string \<Rightarrow> string \<Rightarrow> string" where
  "join_words f body s =
     (let s' = dropWhile (\<lambda>c. c = CHR ''.'') s
      in if s' = [] then body
         else let w = takeWhile (\<lambda>c. c \<noteq> CHR ''.'') s'
              in join_words f (body @ (if body \<noteq> [] then ''.'' else []) @ f w)
                   (drop (length w + 1) s'))"
  by pat_completeness auto
termination
proof (relation "measure (\<lambda>(f, body, s). length s)")
  fix f :: "string \<Rightarrow> string" and body s s' w :: string
  assume s': "s' = dropWhile (\<lambda>c. c = CHR ''.'') s" and "s' \<noteq> []"
  have "length s' \<le> length s" unfolding s' by (rule length_dropWhile_le)
  moreover have "0 < length s'" using \<open>s' \<noteq> []\<close> by simp
  ultimately have "length (drop (length w + 1) s') < length s"
    by (simp only: length_drop)
  then show "((f, body @ (if body \<noteq> [] then ''.'' else []) @ f w, drop (length w + 1) s'), f, body, s)
      \<in> measure (\<lambda>(f, body, s). length s)" by simp
qed simp

declare join_words.simps [simp del]

section \<open>Names from expressions\<close>

definition UID_HashLiteral :: "(byte list \<Rightarrow> byte list) \<Rightarrow> byte list \<Rightarrow> uid" where
  "UID_HashLiteral H literal =
     (if literal = [] then nilUID
      else let hash = H literal;
               h0 = rd64 (rev (take 8 hash));
               h1 = rd64 (rev (take 8 (drop 8 hash)));
               h2 = rd64 (rev (take 8 (drop 16 hash)));
               h3 = rd64 (rev (take 8 (drop 24 hash)))
           in UID (h0 XOR h2) (h1 XOR h3))"

definition canonize :: "string \<Rightarrow> string" where
  "canonize text =
     (if text = [] then []
      else let namePart = name_part text; urlPart = url_part text
           in (if urlPart \<noteq> [] \<and> isScheme namePart then foldSegment namePart
               else join_words foldSegment [] namePart) @ urlPart)"

definition canonicID :: "(byte list \<Rightarrow> byte list) \<Rightarrow> string \<Rightarrow> uid" where
  "canonicID H canonic =
     (case PathStart canonic of
        Some split \<Rightarrow>
          UID_With (UID_HashLiteral H (go_bytes (take split canonic)))
                   (UID_HashLiteral H (go_bytes (drop split canonic)))
      | None \<Rightarrow> UID_HashLiteral H (go_bytes canonic))"

definition with_text :: "string \<Rightarrow> string \<Rightarrow> string" where
  "with_text text expr =
     (let namePart = name_part expr; urlPart = url_part expr
      in (if urlPart \<noteq> [] \<and> isScheme namePart
          then text @ (if text \<noteq> [] then ''.'' else []) @ namePart
          else join_words (\<lambda>w. w) text (replace_seps False namePart)) @ urlPart)"

definition Name_With :: "(byte list \<Rightarrow> byte list) \<Rightarrow> tag_name \<Rightarrow> string \<Rightarrow> tag_name" where
  "Name_With H name expr0 =
     (let expr = TrimSpace expr0
      in if expr = [] then name
         else if expr = CanonicWildcard then Wildcard
         else let text = with_text (NameText name) expr
              in \<lparr>NameID = canonicID H (canonize text), NameText = text\<rparr>)"

definition HashName :: "(byte list \<Rightarrow> byte list) \<Rightarrow> string \<Rightarrow> tag_name" where
  "HashName H s = Name_With H emptyName s"

definition UID_FromName :: "(byte list \<Rightarrow> byte list) \<Rightarrow> string \<Rightarrow> uid" where
  "UID_FromName H tagsExpr = NameID (Name_With H emptyName tagsExpr)"

definition Parse :: "(byte list \<Rightarrow> byte list) \<Rightarrow> string \<Rightarrow> tag_name" where
  "Parse H s =
     (if CHR ''.'' \<in> set s \<or> PathStart s \<noteq> None then Name_With H emptyName s
      else case UID_ParseBase32 s of
             Inr i \<Rightarrow> \<lparr>NameID = i, NameText = []\<rparr>
           | Inl _ \<Rightarrow> Name_With H emptyName s)"

definition ParseUID :: "(byte list \<Rightarrow> byte list) \<Rightarrow> string \<Rightarrow> uid" where
  "ParseUID H s = NameID (Parse H s)"

definition Filename :: "tag_name \<Rightarrow> string" where
  "Filename name = (if NameText name \<noteq> [] then NameText name else Base32 (NameID name))"

definition Name_IsWildcard :: "tag_name \<Rightarrow> bool" where
  "Name_IsWildcard name \<longleftrightarrow> IsWildcard (NameID name) \<or> NameText name = CanonicWildcard"

definition Canonic :: "tag_name \<Rightarrow> string" where
  "Canonic name = canonize (NameText name)"

text \<open>\<open>Elide\<close> on the runes of a string.\<close>

definition Elide :: "nat list \<Rightarrow> int \<Rightarrow> nat list" where
  "Elide runes maxRunes =
     (if int (length runes) \<le> maxRunes \<or> maxRunes < 2 then runes
      else let hd' = nat (maxRunes div 2); tl' = nat (maxRunes - maxRunes div 2 - 1)
           in take hd' runes @ [0x2026] @ drop (length runes - tl') runes)"

fun leaf_loop :: "nat \<Rightarrow> int \<Rightarrow> string \<Rightarrow> string \<times> string" where
  "leaf_loop 0 n text = ([], text)"
| "leaf_loop (Suc p) n text =
     (if text ! p = CHR ''.'' then
        (if n - 1 \<le> 0 then (take p text, drop (p + 1) text) else leaf_loop p (n - 1) text)
      else leaf_loop p n text)"

definition LeafTags :: "tag_name \<Rightarrow> int \<Rightarrow> string \<times> string" where
  "LeafTags name n =
     (if n \<le> 0 then (NameText name, [])
      else leaf_loop (length (NameText name)) n (NameText name))"

section \<open>Derived identifiers\<close>

definition HashLiteral :: "(byte list \<Rightarrow> byte list) \<Rightarrow> uid \<Rightarrow> byte list \<Rightarrow> uid" where
  "HashLiteral H a tagLiteral = UID_HashLiteral H (UID_AppendTo a [] @ tagLiteral)"

definition HashString :: "(byte list \<Rightarrow> byte list) \<Rightarrow> uid \<Rightarrow> string \<Rightarrow> uid" where
  "HashString H a tagToken = HashLiteral H a (go_bytes tagToken)"

definition WithName :: "(byte list \<Rightarrow> byte list) \<Rightarrow> uid \<Rightarrow> string \<Rightarrow> uid" where
  "WithName H a nm = HashLiteral H a (UID_AppendTo (UID_FromName H nm) [])"

section \<open>JSON\<close>

definition UID_MarshalJSON :: "uid \<Rightarrow> string" where
  "UID_MarshalJSON a = (if IsNil a then [CHR 34, CHR 34] else [CHR 34] @ Base32 a @ [CHR 34])"

definition UID_UnmarshalJSON :: "(byte list \<Rightarrow> byte list) \<Rightarrow> string \<Rightarrow> uid outcome" where
  "UID_UnmarshalJSON H b =
     (if b = [] \<or> b = ''null'' then Inr nilUID
      else if length b < 2 \<or> hd b \<noteq> CHR 34 \<or> last b \<noteq> CHR 34 then Inl Other
      else let s = butlast (tl b)
           in if s = [] then Inr nilUID else Inr (ParseUID H s))"

section \<open>The fold\<close>

lemma fold_byte_idem [simp]: "fold_byte (fold_byte c) = fold_byte c"
proof -
  have "is_upper c \<Longrightarrow> \<not> is_upper (char_of (ord c + 32 :: nat))"
    by (simp add: is_upper_def)
  then show ?thesis by (simp add: fold_byte_def)
qed

lemma foldSegment_map: "foldSegment s = map fold_byte s"
proof -
  have "map fold_byte s = s" if "\<not> list_ex is_upper s"
    using that by (induction s) (auto simp: fold_byte_def)
  then show ?thesis by (simp add: foldSegment_def)
qed

lemma foldSegment_idem [simp]: "foldSegment (foldSegment s) = foldSegment s"
  by (simp add: foldSegment_map o_def)

lemma fold_byte_eq: "\<not> is_lower d \<Longrightarrow> \<not> is_upper d \<Longrightarrow> fold_byte c = d \<longleftrightarrow> c = d"
proof -
  assume d: "\<not> is_lower d" "\<not> is_upper d"
  have "is_upper c \<Longrightarrow> is_lower (char_of (ord c + 32 :: nat))"
    by (simp add: is_upper_def is_lower_def)
  with d show ?thesis by (auto simp: fold_byte_def)
qed

lemma letter_facts [simp]:
  "\<not> is_lower CHR ''.''" "\<not> is_upper CHR ''.''" "\<not> is_lower CHR 0xC2" "\<not> is_upper CHR 0xC2"
  "\<not> is_lower CHR 0xBF" "\<not> is_upper CHR 0xBF"
  by (simp_all add: is_lower_def is_upper_def)

section \<open>Words\<close>

text \<open>The words a dotted string consists of, and the dotted string of a list of words.\<close>

definition word :: "string \<Rightarrow> bool" where
  "word w \<longleftrightarrow> w \<noteq> [] \<and> CHR ''.'' \<notin> set w"

fun dotted :: "string list \<Rightarrow> string" where
  "dotted [] = []"
| "dotted [w] = w"
| "dotted (w # ws) = w @ CHR ''.'' # dotted ws"

lemma dotted_Cons: "ws \<noteq> [] \<Longrightarrow> dotted (w # ws) = w @ CHR ''.'' # dotted ws"
  by (cases ws) auto

lemma takeWhile_word:
  "CHR ''.'' \<notin> set w \<Longrightarrow> takeWhile (\<lambda>c. c \<noteq> CHR ''.'') (w @ CHR ''.'' # t) = w"
  by (induction w) auto

lemma takeWhile_all: "CHR ''.'' \<notin> set w \<Longrightarrow> takeWhile (\<lambda>c. c \<noteq> CHR ''.'') w = w"
  by (induction w) auto

lemma dropWhile_word: "word w \<Longrightarrow> dropWhile (\<lambda>c. c = CHR ''.'') (w @ t) = w @ t"
  by (cases w) (auto simp: word_def)

lemma join_words_Nil [simp]: "join_words f body [] = body"
  by (subst join_words.simps) simp

lemma join_words_word:
  "word w \<Longrightarrow> join_words f body w = body @ (if body \<noteq> [] then ''.'' else []) @ f w"
  using dropWhile_word [of w "[]"]
  by (subst join_words.simps) (simp add: Let_def takeWhile_all word_def)

lemma join_words_step:
  "word w \<Longrightarrow> join_words f body (w @ CHR ''.'' # t)
     = join_words f (body @ (if body \<noteq> [] then ''.'' else []) @ f w) t"
  using dropWhile_word [of w "CHR ''.'' # t"]
  by (subst join_words.simps) (simp add: Let_def takeWhile_word word_def)

lemma join_words_dotted_ne:
  "\<forall>w \<in> set ws. word w \<Longrightarrow> body \<noteq> [] \<Longrightarrow>
     join_words f body (dotted ws) = body @ concat (map (\<lambda>w. CHR ''.'' # f w) ws)"
proof (induction ws arbitrary: body rule: dotted.induct)
  case (2 w)
  then show ?case by (simp add: join_words_word)
next
  case (3 w v vs)
  then show ?case by (simp add: join_words_step)
qed simp

lemma concat_dotted: "ws \<noteq> [] \<Longrightarrow> CHR ''.'' # dotted ws = concat (map (\<lambda>w. CHR ''.'' # w) ws)"
  by (induction ws rule: dotted.induct) auto

lemma join_words_dotted:
  assumes "\<forall>w \<in> set ws. word w \<and> f w \<noteq> []"
  shows "join_words f [] (dotted ws) = dotted (map f ws)"
proof (cases ws)
  case (Cons w vs)
  show ?thesis
  proof (cases "vs = []")
    case True
    with Cons assms show ?thesis by (simp add: join_words_word)
  next
    case False
    have "join_words f [] (dotted ws) = join_words f (f w) (dotted vs)"
      using Cons False assms by (simp add: dotted_Cons join_words_step)
    also have "\<dots> = f w @ concat (map (\<lambda>w. CHR ''.'' # w) (map f vs))"
      using Cons assms by (simp add: join_words_dotted_ne o_def)
    also have "\<dots> = dotted (map f ws)"
      using Cons False concat_dotted [of "map f vs"] by (simp add: dotted_Cons)
    finally show ?thesis .
  qed
qed simp

text \<open>Every run of the loop from an empty body is over the words of some list.\<close>

lemma join_words_split:
  "\<exists>ws. (\<forall>w \<in> set ws. word w \<and> (\<exists>u v. s = u @ w @ v)) \<and>
        (\<forall>f body. join_words f body s
           = (if body = [] then join_words f [] (dotted ws) else join_words f body (dotted ws)))"
proof (induction "length s" arbitrary: s rule: less_induct)
  case less
  let ?s' = "dropWhile (\<lambda>c. c = CHR ''.'') s"
  show ?case
  proof (cases "?s' = []")
    case True
    then have "join_words f body s = body" for f body
      by (subst join_words.simps) (simp only: Let_def if_True simp_thms)
    then show ?thesis by (intro exI [of _ "[]"]) simp
  next
    case False
    let ?w = "takeWhile (\<lambda>c. c \<noteq> CHR ''.'') ?s'"
    let ?r = "drop (length ?w + 1) ?s'"
    have len: "length ?r < length s"
      using False length_dropWhile_le [of "\<lambda>c. c = CHR ''.''" s] by (cases "?s'") auto
    have w: "word ?w"
    proof -
      have "hd ?s' \<noteq> CHR ''.''" using hd_dropWhile [OF False] by simp
      then have "?w \<noteq> []" using False by (cases "?s'") auto
      then show ?thesis by (auto simp: word_def dest: set_takeWhileD)
    qed
    obtain p where p: "s = p @ ?s'" by (metis takeWhile_dropWhile_id)
    obtain q where q: "?s' = ?w @ q" by (metis takeWhile_dropWhile_id)
    have sub: "\<exists>u v. s = u @ ?w @ v" using p q by metis
    have rest: "\<exists>u. s = u @ ?r" using p by (metis append_assoc append_take_drop_id)
    obtain ws where ws: "\<forall>w \<in> set ws. word w \<and> (\<exists>u v. ?r = u @ w @ v)"
        "\<And>f body. join_words f body ?r
           = (if body = [] then join_words f [] (dotted ws) else join_words f body (dotted ws))"
      using less.hyps [OF len] by blast
    have "join_words f body s = join_words f body (dotted (?w # ws))" for f body
    proof -
      have "join_words f body s = join_words f (body @ (if body \<noteq> [] then ''.'' else []) @ f ?w) ?r"
        using False by (subst join_words.simps) (simp only: Let_def if_False)
      also have "\<dots> = join_words f body (dotted (?w # ws))"
      proof (cases "ws = []")
        case True
        then show ?thesis using w ws(2) by (simp add: join_words_word split: if_splits)
      next
        case False
        then show ?thesis using w ws(2) by (simp add: dotted_Cons join_words_step split: if_splits)
      qed
      finally show ?thesis .
    qed
    moreover have "\<forall>w \<in> set (?w # ws). word w \<and> (\<exists>u v. s = u @ w @ v)"
      using w sub ws(1) rest by (metis append_assoc set_ConsD)
    ultimately show ?thesis by (intro exI [of _ "?w # ws"]) simp
  qed
qed

lemma join_words_ex:
  "\<exists>ws. (\<forall>w \<in> set ws. word w \<and> (\<exists>u v. s = u @ w @ v)) \<and>
        (\<forall>f. (\<forall>w. w \<noteq> [] \<longrightarrow> f w \<noteq> []) \<longrightarrow> join_words f [] s = dotted (map f ws))"
proof -
  obtain ws where ws: "\<forall>w \<in> set ws. word w \<and> (\<exists>u v. s = u @ w @ v)"
      "\<And>f. join_words f [] s = join_words f [] (dotted ws)"
    using join_words_split [of s] by auto
  have "join_words f [] s = dotted (map f ws)" if "\<forall>w. w \<noteq> [] \<longrightarrow> f w \<noteq> []" for f
    using that ws by (simp add: join_words_dotted word_def)
  with ws(1) show ?thesis by blast
qed

lemma join_words_self: "\<forall>w \<in> set ws. word w \<Longrightarrow> join_words (\<lambda>w. w) [] (dotted ws) = dotted ws"
  using join_words_dotted [of ws "\<lambda>w. w"] by (simp add: word_def)

lemma set_dotted: "set (dotted ws) \<subseteq> insert CHR ''.'' (\<Union>w \<in> set ws. set w)"
  by (induction ws rule: dotted.induct) auto

lemma join_words_map:
  assumes g: "\<And>c. g c = CHR ''.'' \<longleftrightarrow> c = CHR ''.''"
  shows "join_words (\<lambda>w. w) (map g body) (map g s) = map g (join_words (\<lambda>w. w) body s)"
proof (induction "length s" arbitrary: body s rule: less_induct)
  case less
  let ?s' = "dropWhile (\<lambda>c. c = CHR ''.'') s"
  have dw: "dropWhile (\<lambda>c. c = CHR ''.'') (map g s) = map g ?s'"
    by (simp add: dropWhile_map o_def g)
  show ?case
  proof (cases "?s' = []")
    case True
    have "join_words (\<lambda>w. w) (map g body) (map g s) = map g body"
      by (subst join_words.simps) (simp only: Let_def dw True list.map if_True simp_thms)
    moreover have "join_words (\<lambda>w. w) body s = body"
      by (subst join_words.simps) (simp only: Let_def True if_True simp_thms)
    ultimately show ?thesis by simp
  next
    case False
    let ?w = "takeWhile (\<lambda>c. c \<noteq> CHR ''.'') ?s'"
    let ?r = "drop (length ?w + 1) ?s'"
    have len: "length ?r < length s"
      using False length_dropWhile_le [of "\<lambda>c. c = CHR ''.''" s] by (cases "?s'") auto
    have tw: "takeWhile (\<lambda>c. c \<noteq> CHR ''.'') (map g ?s') = map g ?w"
      by (simp add: takeWhile_map o_def g)
    have ne: "map g ?s' \<noteq> []" using False by simp
    have "join_words (\<lambda>w. w) (map g body) (map g s)
        = join_words (\<lambda>w. w) (map g (body @ (if body \<noteq> [] then ''.'' else []) @ ?w)) (map g ?r)"
      using g [of "CHR ''.''"] ne
      by (subst join_words.simps) (auto simp add: Let_def dw tw drop_map)
    also have "\<dots> = map g (join_words (\<lambda>w. w) (body @ (if body \<noteq> [] then ''.'' else []) @ ?w) ?r)"
      by (rule less.hyps [OF len])
    also have "join_words (\<lambda>w. w) (body @ (if body \<noteq> [] then ''.'' else []) @ ?w) ?r
        = join_words (\<lambda>w. w) body s"
      using False by (subst (2) join_words.simps) (simp only: Let_def if_False)
    finally show ?thesis .
  qed
qed

section \<open>Separators\<close>

fun no_pair :: "string \<Rightarrow> bool" where
  "no_pair [] = True"
| "no_pair (c # cs) = (\<not> (c = CHR 0xC2 \<and> cs \<noteq> [] \<and> hd cs = CHR 0xBF) \<and> no_pair cs)"

definition sepfree :: "string \<Rightarrow> bool" where
  "sepfree w \<longleftrightarrow> (\<forall>c \<in> set w. \<not> sep_byte c) \<and> no_pair w"

lemma no_pair_append: "no_pair (u @ v) \<Longrightarrow> no_pair u \<and> no_pair v"
  by (induction u) (auto simp: hd_append)

lemma sep_byte_dot [simp]: "sep_byte CHR ''.''"
  by (simp add: sep_byte_def)

lemma sep_byte_high [simp]: "\<not> sep_byte CHR 0xC2" "\<not> sep_byte CHR 0xBF"
  by (simp_all add: sep_byte_def)

lemma replace_seps_chars: "c \<in> set (replace_seps b s) \<Longrightarrow> c = CHR ''.'' \<or> (c \<in> set s \<and> \<not> sep_byte c)"
proof (induction b s rule: replace_seps.induct)
  case (2 b d cs)
  then show ?case by (auto split: if_splits dest: list.set_sel(2) [rotated])
qed simp

lemma replace_seps_hd: "replace_seps False s \<noteq> [] \<Longrightarrow> hd (replace_seps False s) \<noteq> CHR ''.'' \<Longrightarrow>
    s \<noteq> [] \<and> hd (replace_seps False s) = hd s"
  by (cases s) (auto split: if_splits)

lemma replace_seps_no_pair: "no_pair (replace_seps b s)"
proof (induction b s rule: replace_seps.induct)
  case (2 b c cs)
  then show ?case using replace_seps_hd [of cs] by (auto split: if_splits)
qed simp

lemma replace_seps_word:
  "sepfree w \<Longrightarrow> w \<noteq> [] \<Longrightarrow> t = [] \<or> hd t = CHR ''.'' \<Longrightarrow>
     replace_seps b (w @ t) = w @ replace_seps False t"
proof (induction w arbitrary: b)
  case (Cons c w)
  have c: "\<not> sep_byte c" and w: "sepfree w" and np: "\<not> (c = CHR 0xC2 \<and> w \<noteq> [] \<and> hd w = CHR 0xBF)"
    using Cons.prems(1) by (auto simp: sepfree_def)
  have "\<not> (c = CHR 0xC2 \<and> w @ t \<noteq> [] \<and> hd (w @ t) = CHR 0xBF)"
    using np Cons.prems(3) by (auto simp: hd_append)
  then have "replace_seps b ((c # w) @ t) = c # replace_seps False (w @ t)"
    using c by auto
  then show ?case
    using Cons.IH [OF w, of False] Cons.prems(3) by (cases "w = []") auto
qed simp

lemma replace_seps_dotted:
  "\<forall>w \<in> set ws. sepfree w \<and> w \<noteq> [] \<Longrightarrow> replace_seps b (dotted ws) = dotted ws"
proof (induction ws arbitrary: b rule: dotted.induct)
  case (2 w)
  then show ?case using replace_seps_word [of w "[]" b] by simp
next
  case (3 w v vs)
  then show ?case using replace_seps_word [of w "CHR ''.'' # dotted (v # vs)" b] by simp
qed simp

lemma infix_word_sepfree:
  "replace_seps b s = u @ w @ v \<Longrightarrow> CHR ''.'' \<notin> set w \<Longrightarrow> sepfree w"
proof -
  assume eq: "replace_seps b s = u @ w @ v" and dot: "CHR ''.'' \<notin> set w"
  have "no_pair w" using replace_seps_no_pair [of b s] eq no_pair_append by metis
  moreover have "\<not> sep_byte c" if "c \<in> set w" for c
  proof -
    have "c \<in> set (replace_seps b s)" using that eq by simp
    then show ?thesis using replace_seps_chars dot that by metis
  qed
  ultimately show ?thesis by (simp add: sepfree_def)
qed

section \<open>The name part and the URL part\<close>

lemma PathStart_None: "PathStart s = None \<longleftrightarrow> (\<forall>c \<in> set s. \<not> is_trigger c)"
  by (induction s) auto

lemma PathStart_Some:
  "PathStart s = Some i \<Longrightarrow> i < length s \<and> is_trigger (s ! i) \<and> (\<forall>c \<in> set (take i s). \<not> is_trigger c)"
  by (induction s arbitrary: i) (auto split: if_splits)

lemma parts_append [simp]: "name_part s @ url_part s = s"
  by (simp add: name_part_def url_part_def split: option.splits)

lemma name_part_free: "c \<in> set (name_part s) \<Longrightarrow> \<not> is_trigger c"
  by (auto simp: name_part_def PathStart_None dest: PathStart_Some split: option.splits)

lemma url_part_trigger: "url_part s = [] \<or> is_trigger (hd (url_part s))"
  by (auto simp: url_part_def hd_drop_conv_nth dest: PathStart_Some split: option.splits)

lemma PathStart_append:
  "\<forall>c \<in> set n. \<not> is_trigger c \<Longrightarrow> u = [] \<or> is_trigger (hd u) \<Longrightarrow>
     PathStart (n @ u) = (if u = [] then None else Some (length n))"
  by (induction n) (cases u; auto)+

lemma parts_of_append:
  assumes "\<forall>c \<in> set n. \<not> is_trigger c" "u = [] \<or> is_trigger (hd u)"
  shows "name_part (n @ u) = n" "url_part (n @ u) = u"
  using PathStart_append [OF assms] by (auto simp: name_part_def url_part_def)

lemma is_trigger_dot [simp]: "\<not> is_trigger CHR ''.''"
  by (simp add: is_trigger_def)

section \<open>Stability of the canonic form\<close>

lemma with_text_idem: "with_text [] (with_text [] e) = with_text [] e"
proof -
  let ?n = "name_part e" and ?u = "url_part e"
  show ?thesis
  proof (cases "?u \<noteq> [] \<and> isScheme ?n")
    case True
    then have "with_text [] e = e" by (simp add: with_text_def Let_def)
    then show ?thesis by simp
  next
    case False
    obtain ws where ws: "\<forall>w \<in> set ws. word w \<and> (\<exists>u v. replace_seps False ?n = u @ w @ v)"
        "join_words (\<lambda>w. w) [] (replace_seps False ?n) = dotted ws"
    proof -
      obtain ws where ws: "\<forall>w \<in> set ws. word w \<and> (\<exists>u v. replace_seps False ?n = u @ w @ v)"
          "\<And>f. (\<forall>w. w \<noteq> [] \<longrightarrow> f w \<noteq> []) \<Longrightarrow>
             join_words f [] (replace_seps False ?n) = dotted (map f ws)"
        using join_words_ex [of "replace_seps False ?n"] by blast
      from ws(2) [of "\<lambda>w. w"] have "join_words (\<lambda>w. w) [] (replace_seps False ?n) = dotted ws"
        by simp
      with ws(1) that show ?thesis by blast
    qed
    have sf: "\<forall>w \<in> set ws. sepfree w \<and> w \<noteq> []"
      using ws(1) infix_word_sepfree by (metis word_def)
    have free: "\<forall>c \<in> set (dotted ws). \<not> is_trigger c"
    proof
      fix c assume "c \<in> set (dotted ws)"
      then consider "c = CHR ''.''" | w where "w \<in> set ws" "c \<in> set w"
        using set_dotted [of ws] by auto
      then show "\<not> is_trigger c"
      proof cases
        case 2
        then have "c \<in> set (replace_seps False ?n)" using ws(1) by fastforce
        then show ?thesis using replace_seps_chars name_part_free is_trigger_dot by metis
      qed simp
    qed
    have e: "with_text [] e = dotted ws @ ?u"
      using False ws(2) by (auto simp add: with_text_def Let_def)
    have parts: "name_part (dotted ws @ ?u) = dotted ws" "url_part (dotted ws @ ?u) = ?u"
      using parts_of_append [OF free url_part_trigger] by simp_all
    have "join_words (\<lambda>w. w) [] (replace_seps False (dotted ws)) = dotted ws"
      using ws(1) sf by (simp add: replace_seps_dotted join_words_self)
    then have "with_text [] (dotted ws @ ?u) = dotted ws @ ?u"
      by (simp add: with_text_def Let_def parts)
    then show ?thesis by (simp only: e)
  qed
qed

lemma canonize_split: "canonize text
    = (if url_part text \<noteq> [] \<and> isScheme (name_part text) then foldSegment (name_part text)
       else join_words foldSegment [] (name_part text)) @ url_part text"
  by (cases "text = []") (simp_all add: canonize_def Let_def name_part_def url_part_def)

lemma fold_byte_trigger: "is_trigger (fold_byte c) = is_trigger c"
  by (simp add: is_trigger_def fold_byte_eq is_lower_def is_upper_def)

lemma fold_byte_dot: "fold_byte c = CHR ''.'' \<longleftrightarrow> c = CHR ''.''"
  by (simp add: fold_byte_eq)

lemma foldSegment_ne: "w \<noteq> [] \<longrightarrow> foldSegment w \<noteq> []"
  by (simp add: foldSegment_map)

lemma word_foldSegment: "word w \<Longrightarrow> word (foldSegment w)"
  by (simp add: word_def foldSegment_map image_iff) (metis fold_byte_dot)

lemma map_dotted: "g CHR ''.'' = CHR ''.'' \<Longrightarrow> map g (dotted ws) = dotted (map (map g) ws)"
  by (induction ws rule: dotted.induct) auto

lemma canonize_idem: "canonize (canonize t) = canonize t"
proof -
  let ?n = "name_part t" and ?u = "url_part t"
  have stable: "canonize (v @ ?u) = v @ ?u"
    if v: "\<forall>c \<in> set v. \<not> is_trigger c" "foldSegment v = v"
      and w: "\<not> (?u \<noteq> [] \<and> isScheme v) \<Longrightarrow> join_words foldSegment [] v = v" for v
    using parts_of_append [OF v(1) url_part_trigger] v(2) w by (simp add: canonize_split)
  show ?thesis
  proof (cases "?u \<noteq> [] \<and> isScheme ?n")
    case True
    have "isScheme (foldSegment ?n)"
    proof -
      have l: "is_upper c \<Longrightarrow> is_lower (fold_byte c)" for c
        by (simp add: fold_byte_def is_upper_def is_lower_def)
      have k: "\<not> is_upper c \<Longrightarrow> fold_byte c = c" for c by (simp add: fold_byte_def)
      show ?thesis using True
        by (auto simp: isScheme_def foldSegment_map list_all_iff split: list.splits)
           (metis l k)+
    qed
    then have "canonize (foldSegment ?n @ ?u) = foldSegment ?n @ ?u"
      using True name_part_free by (intro stable) (auto simp: foldSegment_map fold_byte_trigger)
    with True show ?thesis by (simp add: canonize_split [of t])
  next
    case False
    obtain ws where ws: "\<forall>w \<in> set ws. word w \<and> (\<exists>u v. ?n = u @ w @ v)"
        "join_words foldSegment [] ?n = dotted (map foldSegment ws)"
      using join_words_ex [of ?n] foldSegment_ne by blast
    let ?v = "dotted (map foldSegment ws)"
    have fv: "foldSegment ?v = ?v"
      by (simp add: foldSegment_map map_dotted fold_byte_dot o_def foldSegment_map [abs_def])
    have "join_words foldSegment [] ?v = dotted (map foldSegment (map foldSegment ws))"
      using ws(1) word_foldSegment foldSegment_ne
      by (intro join_words_dotted) (auto simp: word_def foldSegment_map fold_byte_dot)
    then have jv: "join_words foldSegment [] ?v = ?v" by (simp add: o_def)
    have free: "\<forall>c \<in> set ?v. \<not> is_trigger c"
    proof
      fix c assume "c \<in> set ?v"
      then consider "c = CHR ''.''" | w d where "w \<in> set ws" "d \<in> set w" "c = fold_byte d"
        using set_dotted [of "map foldSegment ws"] by (auto simp: foldSegment_map)
      then show "\<not> is_trigger c"
      proof cases
        case 2
        then have "d \<in> set ?n" using ws(1) by fastforce
        then show ?thesis using 2 name_part_free fold_byte_trigger by metis
      qed simp
    qed
    have "canonize (?v @ ?u) = ?v @ ?u" using free fv jv by (rule stable)
    moreover have "canonize t = ?v @ ?u" using False ws(2) by (auto simp add: canonize_split)
    ultimately show ?thesis by simp
  qed
qed

lemma with_text_Nil: "with_text [] [] = []"
  by (simp add: with_text_def name_part_def url_part_def)

lemma canonicID_Nil: "canonicID H (canonize []) = nilUID"
  by (simp add: canonize_def canonicID_def UID_HashLiteral_def go_bytes_def)

lemma reparse_text:
  assumes "TrimSpace t = t" "t \<noteq> CanonicWildcard" "t = NameText (HashName H s)"
  shows "HashName H t = HashName H s"
proof -
  let ?e = "TrimSpace s"
  consider "?e = []" | "?e = CanonicWildcard" | "?e \<noteq> []" "?e \<noteq> CanonicWildcard" by blast
  then show ?thesis
  proof cases
    case 1
    then have "HashName H s = emptyName" by (simp add: HashName_def Name_With_def)
    with assms show ?thesis by (simp add: HashName_def Name_With_def emptyName_def)
  next
    case 2
    then have "t = CanonicWildcard"
      using assms(3) by (simp add: HashName_def Name_With_def Wildcard_def CanonicWildcard_def)
    with assms(2) show ?thesis by simp
  next
    case 3
    then have s: "HashName H s = \<lparr>NameID = canonicID H (canonize t), NameText = t\<rparr>"
      and t: "t = with_text [] ?e"
      using assms(3) by (simp_all add: HashName_def Name_With_def Let_def emptyName_def)
    show ?thesis
    proof (cases "t = []")
      case True
      then show ?thesis
        using assms(1) s by (simp add: HashName_def Name_With_def emptyName_def canonicID_Nil)
    next
      case False
      then show ?thesis
        using assms(1,2) s with_text_idem [of ?e, folded t]
        by (simp add: HashName_def Name_With_def Let_def emptyName_def)
    qed
  qed
qed

section \<open>ASCII case\<close>

lemma sep_byte_not_letter: "sep_byte c \<Longrightarrow> \<not> is_lower c \<and> \<not> is_upper c"
  by (auto simp: sep_byte_def is_lower_def is_upper_def)

lemma fold_seps: "sep_byte (fold_byte c) = sep_byte c"
proof (cases "is_upper c")
  case True
  then have "is_lower (fold_byte c)" by (simp add: fold_byte_def is_upper_def is_lower_def)
  with True show ?thesis using sep_byte_not_letter by blast
qed (simp add: fold_byte_def)

lemma replace_seps_fold: "replace_seps b (map fold_byte s) = map fold_byte (replace_seps b s)"
proof (induction b s rule: replace_seps.induct)
  case (2 b c cs)
  have "(fold_byte c = CHR 0xC2 \<and> map fold_byte cs \<noteq> [] \<and> hd (map fold_byte cs) = CHR 0xBF)
      = (c = CHR 0xC2 \<and> cs \<noteq> [] \<and> hd cs = CHR 0xBF)"
    by (cases cs) (simp_all add: fold_byte_eq)
  moreover have "fold_byte CHR ''.'' = CHR ''.''" by (simp add: fold_byte_dot)
  ultimately show ?case using 2 by (auto simp add: fold_seps map_tl)
qed simp

definition caseless :: "string \<Rightarrow> bool" where
  "caseless w \<longleftrightarrow> list_all (\<lambda>c. \<not> is_lower c \<and> \<not> is_upper c) w"

lemma caseless_take: "caseless w \<Longrightarrow> take (length w) (map fold_byte s) = w \<longleftrightarrow> take (length w) s = w"
proof (induction w arbitrary: s)
  case (Cons c w)
  then show ?case by (cases s) (auto simp: caseless_def fold_byte_eq)
qed simp

lemma trim_front_fold:
  "\<forall>w \<in> set ws. caseless w \<Longrightarrow> trim_front ws (map fold_byte s) = map fold_byte (trim_front ws s)"
proof (induction ws s rule: trim_front.induct)
  case (1 ws s)
  have eq: "find (\<lambda>w. w \<noteq> [] \<and> take (length w) (map fold_byte s) = w) ws
      = find (\<lambda>w. w \<noteq> [] \<and> take (length w) s = w) ws"
    using "1.prems" by (intro find_cong) (auto simp: caseless_take)
  show ?case
  proof (cases "find (\<lambda>w. w \<noteq> [] \<and> take (length w) s = w) ws")
    case None
    then show ?thesis by (simp add: trim_front.simps [of ws "map fold_byte s"] trim_front.simps [of ws s] eq)
  next
    case (Some w)
    then show ?thesis using "1.IH" [OF Some] "1.prems"
      by (simp add: trim_front.simps [of ws "map fold_byte s"] trim_front.simps [of ws s] eq drop_map)
  qed
qed

lemma space_runes_caseless: "\<forall>w \<in> set space_runes. caseless w"
  by (simp add: space_runes_def caseless_def is_lower_def is_upper_def)

lemma TrimSpace_fold: "TrimSpace (map fold_byte s) = map fold_byte (TrimSpace s)"
proof -
  have "\<forall>w \<in> set (map rev space_runes). caseless w"
    using space_runes_caseless by (auto simp: caseless_def)
  then show ?thesis
    by (simp add: TrimSpace_def trim_front_fold [OF space_runes_caseless] trim_front_fold rev_map)
qed

lemma set_trim_front: "set (trim_front ws s) \<subseteq> set s"
proof (induction ws s rule: trim_front.induct)
  case (1 ws s)
  then show ?case
    by (subst trim_front.simps) (auto split: option.splits dest: in_set_dropD)
qed

lemma set_TrimSpace: "set (TrimSpace s) \<subseteq> set s"
  using set_trim_front [of "map rev space_runes" "rev (trim_front space_runes s)"]
    set_trim_front [of space_runes s] by (auto simp: TrimSpace_def)

lemma name_only: "PathStart s = None \<Longrightarrow> name_part s = s \<and> url_part s = []"
  by (simp add: name_part_def url_part_def)

lemma canonize_with_text_fold:
  assumes "PathStart e = None"
  shows "canonize (with_text [] (map fold_byte e)) = canonize (with_text [] e)"
proof -
  let ?r = "replace_seps False e"
  have pf: "PathStart (map fold_byte e) = None"
    using assms by (simp add: PathStart_None fold_byte_trigger)
  have t: "with_text [] e = join_words (\<lambda>w. w) [] ?r"
    using name_only [OF assms] by (simp add: with_text_def)
  have tf: "with_text [] (map fold_byte e) = map fold_byte (join_words (\<lambda>w. w) [] ?r)"
    using name_only [OF pf] join_words_map [of fold_byte "[]" ?r, OF fold_byte_dot]
    by (simp add: with_text_def replace_seps_fold)
  obtain ws where ws: "\<forall>w \<in> set ws. word w \<and> (\<exists>u v. ?r = u @ w @ v)"
      "\<forall>f. (\<forall>w. w \<noteq> [] \<longrightarrow> f w \<noteq> []) \<longrightarrow> join_words f [] ?r = dotted (map f ws)"
    using join_words_ex [of ?r] by blast
  have d: "join_words (\<lambda>w. w) [] ?r = dotted ws"
    using ws(2) [rule_format, of "\<lambda>w. w"] by simp
  have nt: "PathStart (dotted ws) = None"
  proof -
    have "\<not> is_trigger c" if "c \<in> set (dotted ws)" for c
    proof -
      from that consider "c = CHR ''.''" | w where "w \<in> set ws" "c \<in> set w"
        using set_dotted [of ws] by auto
      then show ?thesis
      proof cases
        case 2
        then have "c \<in> set ?r" using ws(1) by fastforce
        then show ?thesis using replace_seps_chars assms PathStart_None is_trigger_dot by metis
      qed simp
    qed
    then show ?thesis by (simp add: PathStart_None)
  qed
  have c: "canonize (dotted vs) = dotted (map foldSegment vs)"
    if "\<forall>w \<in> set vs. word w" "PathStart (dotted vs) = None" for vs
    using that name_only [OF that(2)] foldSegment_ne
    by (simp add: canonize_split join_words_dotted word_def)
  have "PathStart (dotted (map foldSegment ws)) = None"
    using nt by (simp add: PathStart_None fold_byte_trigger fold_byte_dot
        map_dotted [of fold_byte, symmetric] foldSegment_map [abs_def])
  then have "canonize (dotted (map foldSegment ws)) = dotted (map foldSegment (map foldSegment ws))"
    using ws(1) word_foldSegment by (intro c) auto
  then show ?thesis
    using c [OF _ nt] ws(1)
    by (simp add: t tf d map_dotted fold_byte_dot foldSegment_map [abs_def] o_def)
qed

lemma NameText_HashName:
  "NameText (HashName H s) =
     (let e = TrimSpace s
      in if e = [] then [] else if e = CanonicWildcard then CanonicWildcard else with_text [] e)"
  by (simp add: HashName_def Name_With_def emptyName_def Wildcard_def CanonicWildcard_def Let_def)

section \<open>Parsing an identifier or a name\<close>

lemma Base32_plain:
  "CHR ''.'' \<notin> set (Base32 a)" "PathStart (Base32 a) = None" "Base32 a \<noteq> []"
  "CHR 34 \<notin> set (Base32 a)"
proof -
  have c: "c = CHR ''-'' \<or> c \<in> set Base32Alphabet_Lower" if "c \<in> set (Base32 a)" for c
    using Base32_chars [of a] that by (rule bspec)
  have plain: "\<forall>c \<in> set (CHR ''-'' # Base32Alphabet_Lower). c \<noteq> CHR ''.'' \<and> \<not> is_trigger c \<and> c \<noteq> CHR 34"
    by (simp add: Base32Alphabet_Lower_def is_trigger_def)
  show "CHR ''.'' \<notin> set (Base32 a)" "PathStart (Base32 a) = None" "CHR 34 \<notin> set (Base32 a)"
    using c plain unfolding PathStart_None by (metis list.set_intros insertI1 insertI2 list.simps(15))+
  show "Base32 a \<noteq> []" using ParseBase32_Base32 [of a] by (auto simp: UID_ParseBase32_def)
qed

lemma Parse_id: "Parse H (Base32 a) = \<lparr>NameID = a, NameText = []\<rparr>"
  using Base32_plain [of a] by (simp add: Parse_def ParseBase32_Base32)

text \<open>Every identifier prints to a Base32 text that \<open>Parse\<close> reads back as that
  identifier and not as a name to hash, whatever the hash function.\<close>

theorem Parse_Filename_roundtrip:
  "Parse H (Filename \<lparr>NameID = a, NameText = []\<rparr>) = \<lparr>NameID = a, NameText = []\<rparr>"
  by (simp add: Filename_def Parse_id)

text \<open>The JSON codec of identifiers is lossless: the wildcard, nil and every other
  identifier survive \<open>MarshalJSON\<close> followed by \<open>UnmarshalJSON\<close>.\<close>

theorem UID_JSON_roundtrip: "UID_UnmarshalJSON H (UID_MarshalJSON a) = Inr a"
proof (cases "IsNil a")
  case True
  then show ?thesis by (simp add: UID_MarshalJSON_def UID_UnmarshalJSON_def IsNil_iff)
next
  case False
  then show ?thesis using Base32_plain [of a]
    by (simp add: UID_MarshalJSON_def UID_UnmarshalJSON_def ParseUID_def Parse_id butlast_append)
qed

text \<open>The canonic form is a normal form: canonizing it again changes nothing, so the
  identifier computed from a canonic text is the identifier of that text.\<close>

theorem Canonic_normal:
  "canonize (Canonic n) = Canonic n \<and>
   canonicID H (canonize (Canonic n)) = canonicID H (Canonic n)"
  by (simp add: Canonic_def canonize_idem)

text \<open>A name and its own display text denote the same identifier: hashing the text that
  \<open>HashName\<close> stored gives back the same name, text and identifier, unless that text carries
  outer white space or is the wildcard sign.\<close>

theorem HashName_reparse:
  assumes "TrimSpace (NameText (HashName H s)) = NameText (HashName H s)"
    and "NameText (HashName H s) \<noteq> CanonicWildcard"
  shows "HashName H (NameText (HashName H s)) = HashName H s"
  using assms reparse_text [OF assms refl] by simp

theorem HashName_reparse_witness:
  "HashName (\<lambda>b. b) (NameText (HashName (\<lambda>b. b) ''Art  Media'')) = HashName (\<lambda>b. b) ''Art  Media''"
  by (rule HashName_reparse; simp only: NameText_HashName; code_simp)

text \<open>The exclusion of the wildcard sign in the previous statement is needed: the text
  of the name of \<open>.*\<close> is the wildcard sign, but its identifier is the hash of that sign.\<close>

theorem wildcard_text_not_wildcard:
  "NameText (HashName H ''.*'') = CanonicWildcard \<and>
   NameID (HashName H ''.*'') = UID_HashLiteral H [42] \<and>
   NameID (HashName H (NameText (HashName H ''.*''))) = WildcardID"
proof -
  have t: "TrimSpace ''.*'' = ''.*''" "TrimSpace ''*'' = ''*''" by code_simp+
  have w: "with_text [] ''.*'' = ''*''" "canonize ''*'' = ''*''" by code_simp+
  have e: "HashName H ''.*'' = \<lparr>NameID = canonicID H ''*'', NameText = ''*''\<rparr>"
    by (simp add: HashName_def Name_With_def t w emptyName_def CanonicWildcard_def Let_def)
  show ?thesis
    by (simp only: e tag_name.simps)
       (simp add: canonicID_def go_bytes_def is_trigger_def HashName_def Name_With_def t
          Wildcard_def CanonicWildcard_def)
qed

text \<open>Names are case-insensitive in ASCII: folding the letters of an expression that has
  no URL part does not change the identifier it hashes to.\<close>

theorem UID_FromName_caseless:
  assumes "PathStart (TrimSpace s) = None"
  shows "UID_FromName H (map fold_byte s) = UID_FromName H s"
proof -
  have star: "map fold_byte t = CanonicWildcard \<longleftrightarrow> t = CanonicWildcard" for t
  proof -
    have "fold_byte c = CHR ''*'' \<longleftrightarrow> c = CHR ''*''" for c
      by (rule fold_byte_eq) (simp_all add: is_lower_def is_upper_def)
    then show ?thesis by (auto simp: CanonicWildcard_def map_eq_Cons_conv)
  qed
  show ?thesis
    by (simp add: UID_FromName_def Name_With_def TrimSpace_fold star emptyName_def Let_def
        canonize_with_text_fold [OF assms])
qed

theorem UID_FromName_caseless_witness:
  "UID_FromName (\<lambda>b. b) (map fold_byte '' Art.Media'') = UID_FromName (\<lambda>b. b) '' Art.Media''"
  by (rule UID_FromName_caseless; code_simp)

end
