(* ===== verification/Rank.thy ===== *)
theory Rank
  imports Uid
begin

text \<open>
  Fractional-index ranks (\<open>stdlib/tag/rank.go\<close>): a rank is an identifier drawn at random
  strictly between two others.  Randomness is an argument: the list of the 16-byte seeds that
  successive reads of \<open>crypto/rand\<close> return.  A rejection loop that has consumed all given
  seeds has not returned, which is the value \<open>None\<close>.
\<close>

definition RankCeil :: uid where "RankCeil = UID UID_0_Max UID_1_Max"

definition RankRebalanceGap :: uid where "RankRebalanceGap = UID 0 (push_bit 16 1)"

text \<open>\<open>bits.Len64\<close> on the value; \<open>LeadingZeros64 x = 64 - Len64 x\<close>.\<close>

fun nat_len :: "nat \<Rightarrow> nat" where
  "nat_len n = (if n = 0 then 0 else Suc (nat_len (n div 2)))"

declare nat_len.simps [simp del]

definition LeadingZeros64 :: "u64 \<Rightarrow> nat" where
  "LeadingZeros64 w = 64 - nat_len (unat w)"

definition leadingZeros128 :: "uid \<Rightarrow> nat" where
  "leadingZeros128 i =
     (if uid0 i \<noteq> 0 then LeadingZeros64 (uid0 i) else 64 + LeadingZeros64 (uid1 i))"

definition seed_uid :: "byte list \<Rightarrow> uid" where
  "seed_uid seed = UID (rd64 (rev (take 8 seed))) (rd64 (rev (drop 8 seed)))"

definition mask_draw :: "nat \<Rightarrow> uid \<Rightarrow> uid" where
  "mask_draw boundBits draw =
     (if boundBits \<le> 64 then
        UID 0 (if boundBits < 64 then uid1 draw AND (push_bit boundBits 1 - 1) else uid1 draw)
      else if boundBits < 128 then
        UID (uid0 draw AND (push_bit (boundBits - 64) 1 - 1)) (uid1 draw)
      else draw)"

fun draw_loop :: "nat \<Rightarrow> uid \<Rightarrow> byte list list \<Rightarrow> (uid \<times> byte list list) option" where
  "draw_loop boundBits bound [] = None"
| "draw_loop boundBits bound (seed # seeds) =
     (let draw = mask_draw boundBits (seed_uid seed)
      in if CompareTo draw bound < 0 then Some (draw, seeds)
         else draw_loop boundBits bound seeds)"

definition randBelow :: "uid \<Rightarrow> byte list list \<Rightarrow> (uid \<times> byte list list) option" where
  "randBelow bound seeds =
     (if IsNil bound then Some (nilUID, seeds)
      else draw_loop (128 - leadingZeros128 bound) bound seeds)"

definition mulScalar :: "uid \<Rightarrow> u64 \<Rightarrow> uid" where
  "mulScalar i scalar =
     (let (hi, lo) = mul64 (uid1 i) scalar in UID (uid0 i * scalar + hi) lo)"

text \<open>\<open>divScalar\<close>: \<open>None\<close> is the run-time panic of a zero divisor.\<close>

definition divScalar :: "uid \<Rightarrow> u64 \<Rightarrow> uid option" where
  "divScalar i scalar =
     (if scalar = 0 then None
      else case div64 (uid0 i mod scalar) (uid1 i) scalar of
             None \<Rightarrow> None
           | Some (quoLo, _) \<Rightarrow> Some (UID (uid0 i div scalar) quoLo))"

text \<open>The result of \<open>RankBetween\<close> and \<open>RanksAcross\<close>: \<open>None\<close> is not returned
  (yet), \<open>Some (_, False)\<close> the refusal.\<close>

definition RankBetween :: "uid \<Rightarrow> uid \<Rightarrow> byte list list \<Rightarrow> (uid \<times> bool \<times> byte list list) option" where
  "RankBetween lo hi seeds =
     (if CompareTo hi lo \<le> 0 then Some (nilUID, False, seeds)
      else let gap = UID_Subtract hi lo
           in if uid0 gap = 0 \<and> uid1 gap \<le> 1 then Some (nilUID, False, seeds)
              else let interior = fst (Decrement gap)
                   in case randBelow interior seeds of
                        None \<Rightarrow> None
                      | Some (r, seeds') \<Rightarrow>
                          Some (UID_Add (UID_Add lo (UID 0 1)) r, True, seeds'))"

fun ranks_loop :: "uid \<Rightarrow> uid \<Rightarrow> nat \<Rightarrow> nat \<Rightarrow> byte list list \<Rightarrow> (uid list \<times> byte list list) option" where
  "ranks_loop lo stride i 0 seeds = Some ([], seeds)"
| "ranks_loop lo stride i (Suc k) seeds =
     (let floor = UID_Add lo (mulScalar stride (word_of_nat (i + 1)))
      in case randBelow stride seeds of
           None \<Rightarrow> None
         | Some (r, seeds') \<Rightarrow>
             (case ranks_loop lo stride (i + 1) k seeds' of
                None \<Rightarrow> None
              | Some (rs, seeds'') \<Rightarrow> Some (UID_Add floor r # rs, seeds'')))"

text \<open>\<open>count\<close> is a Go \<open>int\<close>, so \<open>uint64(count) + 1\<close> does not wrap here.  \<open>None\<close> is a draw that has not ended
  when the random source does; the panic of a division by zero, which has the same value, cannot occur,
  since the divisor is positive.\<close>

definition RanksAcross :: "uid \<Rightarrow> uid \<Rightarrow> int \<Rightarrow> byte list list \<Rightarrow> (uid list \<times> bool) option" where
  "RanksAcross lo hi count seeds =
     (if count \<le> 0 then Some ([], count = 0)
      else if CompareTo hi lo \<le> 0 then Some ([], False)
      else let gap = UID_Subtract hi lo; slots = word_of_int count + 1
           in if uid0 gap = 0 \<and> uid1 gap < slots then Some ([], False)
              else case divScalar gap slots of
                     None \<Rightarrow> None
                   | Some stride \<Rightarrow>
                       (case ranks_loop lo stride 0 (nat count) seeds of
                          None \<Rightarrow> None
                        | Some (ranks, _) \<Rightarrow> Some (ranks, True)))"

section \<open>Scalar arithmetic\<close>

lemma uval_mulScalar: "uval (mulScalar a s) = uval a * unat s mod 2 ^ 128"
proof -
  let ?h = "unat (uid0 a)" and ?l = "unat (uid1 a)" and ?s = "unat s"
  have hi: "unat (uid0 (mulScalar a s)) = (?h * ?s + ?l * ?s div 2 ^ 64) mod 2 ^ 64"
    by (simp only: mulScalar_def mul64_def Let_def prod.case uid.sel unat64_add unat64_mult
        unat64_of_nat mod_simps)
  have lo: "unat (uid1 (mulScalar a s)) = ?l * ?s mod 2 ^ 64"
    by (simp only: mulScalar_def mul64_def Let_def prod.case uid.sel unat64_mult)
  have "uval (mulScalar a s) = (?h * ?s + ?l * ?s div 2 ^ 64) mod 2 ^ 64 * 2 ^ 64 + ?l * ?s mod 2 ^ 64"
    by (simp only: uval_def hi lo)
  also have "\<dots> = ((?h * ?s + ?l * ?s div 2 ^ 64) * 2 ^ 64 + ?l * ?s mod 2 ^ 64) mod 2 ^ 128"
    by (rule mod_split64 [symmetric]) simp
  also have "(?h * ?s + ?l * ?s div 2 ^ 64) * 2 ^ 64 + ?l * ?s mod 2 ^ 64 = uval a * ?s"
    by (simp only: uval_def add_mult_distrib mult.assoc mult.commute [of ?s] add.assoc div_mult_mod_eq)
  finally show ?thesis .
qed

lemma div_split:
  fixes h l s m :: nat
  assumes "0 < s" "l < m"
  shows "(h mod s * m + l) div s < m \<and> h div s * m + (h mod s * m + l) div s = (h * m + l) div s"
proof -
  have "h mod s * m + l < s * m"
  proof -
    have "h mod s * m + l < (h mod s + 1) * m" using assms(2) by simp
    also have "\<dots> \<le> s * m" using mod_less_divisor [OF assms(1), of h] by (intro mult_le_mono1) simp
    finally show ?thesis .
  qed
  then have "(h mod s * m + l) div s < m" by (simp add: less_mult_imp_div_less mult.commute)
  moreover have "h * m + l = (h mod s * m + l) + h div s * m * s"
    using div_mult_mod_eq [of h s] by (metis add.assoc add.commute add_mult_distrib mult.assoc mult.commute)
  then have "(h * m + l) div s = h div s * m + (h mod s * m + l) div s"
    using div_mult_self1 [of s "h mod s * m + l" "h div s * m"] assms(1) by (metis less_numeral_extra(3))
  ultimately show ?thesis by simp
qed

lemma uval_divScalar:
  assumes "s \<noteq> 0"
  obtains q where "divScalar a s = Some q" "uval q = uval a div unat s"
proof -
  let ?h = "unat (uid0 a)" and ?l = "unat (uid1 a)" and ?s = "unat s"
  have s: "0 < ?s" using assms by (simp add: unat_gt_0)
  note ds = div_split [OF s unat64_less [of "uid1 a"], of ?h]
  have m: "unat (uid0 a mod s) = ?h mod ?s" by (rule unat_mod_distrib)
  have "\<not> s \<le> uid0 a mod s"
    using s by (simp only: word_le_nat_alt m not_le mod_less_divisor)
  then have d: "div64 (uid0 a mod s) (uid1 a) s
      = Some (word_of_nat ((?h mod ?s * 2 ^ 64 + ?l) div ?s),
              word_of_nat ((?h mod ?s * 2 ^ 64 + ?l) mod ?s))"
    by (simp only: div64_def if_False Let_def m)
  let ?q = "UID (uid0 a div s) (word_of_nat ((?h mod ?s * 2 ^ 64 + ?l) div ?s))"
  have "divScalar a s = Some ?q"
    using assms by (simp only: divScalar_def d option.case prod.case if_False)
  moreover have "unat (uid1 ?q) = (?h mod ?s * 2 ^ 64 + ?l) div ?s"
    using ds by (simp only: uid.sel unat64_of_nat mod_less)
  moreover have "unat (uid0 ?q) = ?h div ?s" by (simp only: uid.sel unat_div_distrib)
  ultimately show thesis using ds that by (simp only: uval_def)
qed

section \<open>Drawing below a bound\<close>

lemma nat_len_less: "n < 2 ^ nat_len n"
proof (induction n rule: nat_len.induct)
  case (1 n)
  show ?case
  proof (cases "n = 0")
    case False
    then have "n div 2 < 2 ^ nat_len (n div 2)" using 1 by simp
    then have "n < 2 * 2 ^ nat_len (n div 2)" by linarith
    with False show ?thesis by (simp add: nat_len.simps [of n])
  qed (simp add: nat_len.simps)
qed

lemma nat_len_le: "n < 2 ^ k \<Longrightarrow> nat_len n \<le> k"
proof (induction k arbitrary: n)
  case 0
  then show ?case by (simp add: nat_len.simps)
next
  case (Suc k)
  then have "n div 2 < 2 ^ k" by simp
  from Suc.IH [OF this] show ?case by (simp add: nat_len.simps [of n])
qed

lemma and_mask_id: "unat (w :: u64) < 2 ^ k \<Longrightarrow> k < 64 \<Longrightarrow> w AND (push_bit k 1 - 1) = w"
proof -
  assume "unat w < 2 ^ k" "k < 64"
  have "push_bit k 1 - 1 = (mask k :: u64)" by (simp add: mask_eq_exp_minus_1 push_bit_of_1)
  moreover have "take_bit k w = w"
    using \<open>unat w < 2 ^ k\<close>
    by (simp add: word_unat_eq_iff unsigned_take_bit_eq take_bit_nat_eq_self)
  ultimately show ?thesis by (simp add: take_bit_eq_mask)
qed

definition seed_of :: "uid \<Rightarrow> byte list" where
  "seed_of v = rev (be64 (uid0 v)) @ rev (be64 (uid1 v))"

lemma seed_uid_of [simp]: "seed_uid (seed_of v) = v"
  by (simp add: seed_uid_def seed_of_def)

lemma mask_draw_below: "v < bound \<Longrightarrow> mask_draw (128 - leadingZeros128 bound) v = v"
proof -
  assume "v < bound"
  then have v: "uid0 v < uid0 bound \<or> uid0 v = uid0 bound \<and> uid1 v < uid1 bound"
    by (simp add: less_uid_iff uval_less_iff)
  have len: "nat_len (unat (w :: u64)) \<le> 64" for w
    by (rule nat_len_le) (rule unat64_less)
  have below: "x \<le> w \<Longrightarrow> k = nat_len (unat w) \<Longrightarrow> k < 64 \<Longrightarrow> x AND (push_bit k 1 - 1) = x" for x w :: u64 and k
    using nat_len_less [of "unat w"] by (intro and_mask_id) (auto simp: word_le_nat_alt)
  show ?thesis
  proof (cases "uid0 bound = 0")
    case True
    let ?k = "nat_len (unat (uid1 bound))"
    have "128 - leadingZeros128 bound = ?k"
      using True len [of "uid1 bound"] by (simp add: leadingZeros128_def LeadingZeros64_def)
    moreover have "uid0 v = 0" "uid1 v \<le> uid1 bound" using v True by auto
    ultimately show ?thesis using below [of "uid1 v" "uid1 bound" ?k] len [of "uid1 bound"]
      by (cases v) (auto simp: mask_draw_def)
  next
    case False
    let ?k = "nat_len (unat (uid0 bound))"
    have "0 < ?k" using False by (simp add: nat_len.simps unat_eq_zero)
    moreover have "128 - leadingZeros128 bound = 64 + ?k"
      using False len [of "uid0 bound"] by (simp add: leadingZeros128_def LeadingZeros64_def)
    moreover have "uid0 v \<le> uid0 bound" using v by auto
    ultimately show ?thesis using below [of "uid0 v" "uid0 bound" ?k] len [of "uid0 bound"]
      by (cases v) (auto simp: mask_draw_def)
  qed
qed

lemma draw_loop_less: "draw_loop k bound seeds = Some (r, rest) \<Longrightarrow> r < bound"
  by (induction seeds) (auto simp: Let_def CompareTo_simps split: if_splits)

lemma randBelow_less: "randBelow bound seeds = Some (r, rest) \<Longrightarrow> bound \<noteq> nilUID \<Longrightarrow> r < bound"
  by (auto simp: randBelow_def IsNil_iff dest: draw_loop_less)

lemma randBelow_reach: "v < bound \<Longrightarrow> randBelow bound (seed_of v # seeds) = Some (v, seeds)"
proof -
  assume v: "v < bound"
  then have "bound \<noteq> nilUID" using less_uid_iff by fastforce
  then show ?thesis
    using v by (simp add: randBelow_def IsNil_iff mask_draw_below CompareTo_simps)
qed

section \<open>Ranks between two others\<close>

lemma uval_one: "uval (UID 0 1) = 1"
  by (simp add: uval_def)

lemma small_gap: "uid0 g = 0 \<and> uid1 g \<le> 1 \<longleftrightarrow> uval g \<le> 1"
proof -
  have "\<not> uval g \<le> 1" if "uid0 g \<noteq> 0"
  proof -
    have "1 * 2 ^ 64 \<le> unat (uid0 g) * 2 ^ 64"
      using that unat_gt_0 [of "uid0 g"] by (intro mult_le_mono1) simp
    then have "2 ^ 64 \<le> uval g" unfolding uval_def by linarith
    then show ?thesis by simp
  qed
  then show ?thesis by (auto simp: uval_def word_le_nat_alt)
qed

lemma RankBetween_cases:
  "RankBetween lo hi seeds =
     (if uval hi \<le> uval lo + 1 then Some (nilUID, False, seeds)
      else case randBelow (uid_of (uval hi - uval lo - 1)) seeds of
             None \<Rightarrow> None
           | Some (r, rest) \<Rightarrow> Some (UID_Add (UID_Add lo (UID 0 1)) r, True, rest))"
proof (cases "hi \<le> lo")
  case True
  then show ?thesis by (simp add: RankBetween_def CompareTo_simps less_eq_uid_iff)
next
  case False
  then have lt: "uval lo < uval hi" by (simp add: less_eq_uid_iff)
  have g: "uval (UID_Subtract hi lo) = uval hi - uval lo"
    using False by (intro Subtract_exact) simp
  have n: "UID_Subtract hi lo \<noteq> nilUID" using g lt by (metis uval_nil zero_less_diff less_irrefl)
  show ?thesis
    using False lt
    by (simp add: RankBetween_def CompareTo_simps small_gap Let_def Decrement_spec n g le_diff_conv)
qed

lemma interior_bound: "uval (uid_of (uval hi - uval lo - 1)) = uval hi - uval lo - 1"
  using uval_bound [of hi] by (intro uval_uid_of_exact) linarith

lemma rank_point:
  assumes "uval r < uval hi - uval lo - 1"
  shows "uval (UID_Add (UID_Add lo (UID 0 1)) r) = uval lo + 1 + uval r"
proof -
  have "uval (UID_Add lo (UID 0 1)) = uval lo + 1"
    using assms uval_bound [of hi] by (simp only: uval_one Add_exact [of lo "UID 0 1", unfolded uval_one])
  then show ?thesis using assms uval_bound [of hi] by (subst Add_exact) linarith+
qed

lemma RankBetween_inside:
  assumes "RankBetween lo hi seeds = Some (rank, True, rest)"
  shows "lo < rank \<and> rank < hi"
proof -
  from assms have gap: "\<not> uval hi \<le> uval lo + 1"
    by (auto simp: RankBetween_cases split: if_splits)
  then obtain r where r: "randBelow (uid_of (uval hi - uval lo - 1)) seeds = Some (r, rest)"
      "rank = UID_Add (UID_Add lo (UID 0 1)) r"
    using assms by (auto simp: RankBetween_cases split: option.splits)
  have "uid_of (uval hi - uval lo - 1) \<noteq> nilUID"
    using gap interior_bound [of hi lo] by (metis uval_nil diff_diff_left diff_is_0_eq)
  then have "uval r < uval hi - uval lo - 1"
    using randBelow_less [OF r(1)] interior_bound [of hi lo] by (metis less_uid_iff)
  from rank_point [OF this] this show ?thesis
    by (simp only: r(2) less_uid_iff) linarith
qed

lemma RankBetween_reach:
  assumes "lo < v" "v < hi"
  shows "RankBetween lo hi (seed_of (uid_of (uval v - uval lo - 1)) # seeds) = Some (v, True, seeds)"
proof -
  let ?d = "uid_of (uval v - uval lo - 1)"
  have b: "uval lo < uval v" "uval v < uval hi" using assms by (simp_all add: less_uid_iff)
  have d: "uval ?d = uval v - uval lo - 1" by (rule interior_bound)
  then have "?d < uid_of (uval hi - uval lo - 1)"
    using b by (simp only: less_uid_iff interior_bound)
  from randBelow_reach [OF this]
  have r: "randBelow (uid_of (uval hi - uval lo - 1)) (seed_of ?d # seeds) = Some (?d, seeds)" .
  have "uval (UID_Add (UID_Add lo (UID 0 1)) ?d) = uval v"
    using rank_point [of ?d hi lo] b d by linarith
  then have "UID_Add (UID_Add lo (UID 0 1)) ?d = v" by (rule uval_eqI)
  moreover have "\<not> uval hi \<le> uval lo + 1" using b by linarith
  ultimately show ?thesis by (simp only: RankBetween_cases r if_False option.case prod.case)
qed

section \<open>Bulk ranks\<close>

text \<open>Rank \<open>j\<close> of the loop lies in its own slot of the stride.\<close>

lemma ranks_loop_slots:
  assumes "ranks_loop lo stride i k seeds = Some (rs, rest)" "stride \<noteq> nilUID"
    and "uval lo + uval stride * (i + k + 1) < 2 ^ 128" "i + k < 2 ^ 64"
  shows "length rs = k \<and> (\<forall>j < k. uval lo + uval stride * (i + j + 1) \<le> uval (rs ! j) \<and>
           uval (rs ! j) < uval lo + uval stride * (i + j + 2))"
  using assms
proof (induction lo stride i k seeds arbitrary: rs rest rule: ranks_loop.induct)
  case (2 lo stride i k seeds)
  let ?f = "UID_Add lo (mulScalar stride (word_of_nat (i + 1)))"
  obtain r s' rs' where r: "randBelow stride seeds = Some (r, s')"
      "ranks_loop lo stride (i + 1) k s' = Some (rs', rest)" "rs = UID_Add ?f r # rs'"
    using "2.prems"(1) by (auto simp: Let_def split: option.splits)
  have rl: "uval r < uval stride" using randBelow_less [OF r(1) "2.prems"(2)] by (simp add: less_uid_iff)
  have top: "uval lo + uval stride * (i + 2) < 2 ^ 128"
    using "2.prems"(3) mult_le_mono2 [of "i + 2" "i + Suc k + 1" "uval stride"] by linarith
  have n: "unat (word_of_nat (i + 1) :: u64) = i + 1"
    using "2.prems"(4) by (subst unat64_of_nat) (rule mod_less, linarith)
  have e: "uval stride * (i + 2) = uval stride * (i + 1) + uval stride" by (simp add: algebra_simps)
  have m: "uval (mulScalar stride (word_of_nat (i + 1))) = uval stride * (i + 1)"
    using top e unfolding uval_mulScalar n by (intro mod_less) linarith
  have f: "uval ?f = uval lo + uval stride * (i + 1)"
    using top e by (subst Add_exact) (simp_all only: m, linarith?)
  have h: "uval (UID_Add ?f r) = uval lo + uval stride * (i + 1) + uval r"
    using top e rl by (subst Add_exact) (simp_all only: f, linarith?)
  have "length rs' = k \<and> (\<forall>j < k. uval lo + uval stride * (i + 1 + j + 1) \<le> uval (rs' ! j) \<and>
           uval (rs' ! j) < uval lo + uval stride * (i + 1 + j + 2))"
    using "2.prems" by (intro "2.IH" [OF refl r(1)[symmetric, THEN sym] refl r(2)]) (simp_all add: ac_simps)
  then show ?case
    using r(3) h rl e by (auto simp: nth_Cons ac_simps less_Suc_eq_0_disj)
qed simp

lemma slots_strict:
  fixes a s :: nat
  assumes "\<forall>j < k. a + s * (j + 1) \<le> f j \<and> f j < a + s * (j + 2)" "i < j" "j < k"
  shows "f i < f j"
proof -
  have "f i < a + s * (i + 2)" using assms by simp
  also have "\<dots> \<le> a + s * (j + 1)" using assms(2) by (intro add_left_mono mult_le_mono2) simp
  also have "\<dots> \<le> f j" using assms by simp
  finally show ?thesis .
qed

lemma large_gap: "uid0 g = 0 \<and> uid1 g < s \<longleftrightarrow> uval g < unat (s :: u64)"
proof -
  have "2 ^ 64 \<le> uval g" if "uid0 g \<noteq> 0"
  proof -
    have "1 * 2 ^ 64 \<le> unat (uid0 g) * 2 ^ 64"
      using that unat_gt_0 [of "uid0 g"] by (intro mult_le_mono1) simp
    then show ?thesis unfolding uval_def by linarith
  qed
  then show ?thesis using unat64_less [of s] by (fastforce simp: uval_def word_less_nat_alt)
qed

lemma slots_count: "0 < count \<Longrightarrow> count < 2 ^ 63 \<Longrightarrow> unat (word_of_int count + 1 :: u64) = nat count + 1"
proof -
  assume c: "0 < count" "count < 2 ^ 63"
  then have n: "nat count < 2 ^ 63" by (simp add: nat_less_iff)
  have "word_of_int count + 1 = (word_of_nat (nat count + 1) :: u64)" using c by simp
  moreover have "nat count + 1 < 2 ^ 64" using n by simp
  ultimately show ?thesis by (simp only: unat64_of_nat mod_less)
qed

lemma RanksAcross_slots:
  assumes "RanksAcross lo hi count seeds = Some (ranks, True)" "0 < count" "count < 2 ^ 63"
  obtains st where "0 < st" "uval lo + st * (nat count + 1) \<le> uval hi" "length ranks = nat count"
    "\<forall>j < nat count. uval lo + st * (j + 1) \<le> uval (ranks ! j) \<and> uval (ranks ! j) < uval lo + st * (j + 2)"
proof -
  let ?gap = "UID_Subtract hi lo" and ?n = "nat count + 1"
  note sl = slots_count [OF assms(2,3)]
  have lt: "\<not> hi \<le> lo" "\<not> (uid0 ?gap = 0 \<and> uid1 ?gap < word_of_int count + 1)"
    using assms(1,2) by (auto simp: RanksAcross_def CompareTo_simps Let_def split: if_splits)
  have g: "uval ?gap = uval hi - uval lo" using lt(1) by (intro Subtract_exact) simp
  have big: "?n \<le> uval hi - uval lo" using lt(2) unfolding large_gap sl g by simp
  have nz: "(word_of_int count + 1 :: u64) \<noteq> 0"
  proof
    assume "(word_of_int count + 1 :: u64) = 0"
    then have "unat (word_of_int count + 1 :: u64) = 0" by (simp only: unsigned_0)
    with sl show False by simp
  qed
  obtain q where q: "divScalar ?gap (word_of_int count + 1) = Some q"
      "uval q = uval ?gap div unat (word_of_int count + 1 :: u64)"
    by (rule uval_divScalar [OF nz])
  have uq: "uval q = (uval hi - uval lo) div ?n" by (simp only: q(2) g sl)
  have pos: "0 < uval q" using big unfolding uq by (simp add: div_greater_zero_iff)
  have le: "uval q * ?n \<le> uval hi - uval lo" unfolding uq by (rule div_times_less_eq_dividend)
  obtain rest where l: "ranks_loop lo q 0 (nat count) seeds = Some (ranks, rest)"
    using assms(1,2) lt q(1)
    by (auto simp: RanksAcross_def CompareTo_simps Let_def split: if_splits option.splits)
  have c64: "0 + nat count < 2 ^ 64" using assms(3) by (simp add: nat_less_iff)
  have top: "uval lo + uval q * (0 + nat count + 1) < 2 ^ 128"
    using le big uval_bound [of hi] by simp
  have nn: "q \<noteq> nilUID" using pos by auto
  note slots = ranks_loop_slots [OF l nn top c64]
  show thesis
    by (rule that [OF pos]) (use slots le big in auto)
qed

lemma RanksAcross_ranks:
  assumes "RanksAcross lo hi count seeds = Some (ranks, True)" "0 < count" "count < 2 ^ 63"
  shows "length ranks = nat count \<and> sorted_wrt (<) (lo # ranks @ [hi])"
proof -
  obtain st where st: "0 < st" "uval lo + st * (nat count + 1) \<le> uval hi" "length ranks = nat count"
    "\<forall>j < nat count. uval lo + st * (j + 1) \<le> uval (ranks ! j) \<and> uval (ranks ! j) < uval lo + st * (j + 2)"
    using RanksAcross_slots [OF assms] by blast
  have "sorted_wrt (<) ranks"
    using st(3) slots_strict [OF st(4)] by (auto simp: sorted_wrt_iff_nth_less less_uid_iff)
  moreover have "lo < r \<and> r < hi" if r: "r \<in> set ranks" for r
  proof -
    obtain j where j: "j < nat count" "r = ranks ! j" using r st(3) by (metis in_set_conv_nth)
    have "st * (j + 2) \<le> st * (nat count + 1)" using j(1) by (intro mult_le_mono2) simp
    moreover have "st * 1 \<le> st * (j + 1)" by (intro mult_le_mono2) simp
    ultimately show ?thesis using st(1,2,4) j by (fastforce simp: less_uid_iff)
  qed
  moreover have "lo < hi" using st(1,2) by (simp add: less_uid_iff)
  ultimately show ?thesis using st(3) by (auto simp: sorted_wrt_append)
qed

section \<open>Properties\<close>

text \<open>A minted rank lies strictly inside the open interval, and minting is refused exactly
  when the interval has no interior point, whatever the random source returns.\<close>

theorem RankBetween_strict:
  assumes "RankBetween lo hi seeds = Some (rank, ok, rest)"
  shows "(ok \<longleftrightarrow> (\<exists>v. lo < v \<and> v < hi)) \<and> (ok \<longrightarrow> lo < rank \<and> rank < hi)"
proof (cases ok)
  case True
  then have "lo < rank \<and> rank < hi" using assms by (intro RankBetween_inside) simp
  with True show ?thesis by blast
next
  case False
  then have "uval hi \<le> uval lo + 1"
    using assms by (auto simp: RankBetween_cases split: if_splits option.splits)
  then show ?thesis using False by (auto simp: less_uid_iff)
qed

theorem RankBetween_strict_witness: "UID 0 4 < UID 0 7 \<and> UID 0 7 < UID 0 9"
proof -
  have "uid_of (uval (UID 0 7) - uval (UID 0 4) - 1) = UID 0 2" by (simp add: uval_def uid_of_def)
  then have "RankBetween (UID 0 4) (UID 0 9) [seed_of (UID 0 2)] = Some (UID 0 7, True, [])"
    using RankBetween_reach [of "UID 0 4" "UID 0 7" "UID 0 9" "[]"]
    by (simp add: less_uid_iff uval_def)
  from RankBetween_strict [OF this] show ?thesis by (rule conjunct2 [THEN mp, OF _ TrueI])
qed

text \<open>No interior point is excluded: for each of them there is a seed that mints it at the
  first draw, so the rejection loop can end everywhere in the interval.\<close>

theorem RankBetween_onto:
  assumes "lo < v" "v < hi"
  shows "\<exists>seed. length seed = 16 \<and> RankBetween lo hi (seed # seeds) = Some (v, True, seeds)"
  using RankBetween_reach [OF assms] by (metis seed_of_def length_append length_be(1) length_rev numeral_Bit0)

theorem RankBetween_onto_witness:
  "\<exists>seed. length seed = 16 \<and> RankBetween nilUID RankCeil (seed # []) = Some (UID 1 0, True, [])"
  by (rule RankBetween_onto)
    (simp_all add: less_uid_iff uval_def RankCeil_def UID_0_Max_def UID_1_Max_def nilUID_def)

text \<open>C37. A bulk insert yields exactly the requested number of ranks, strictly increasing and
  strictly between the two fences.\<close>

theorem RanksAcross_increasing:
  assumes "RanksAcross lo hi count seeds = Some (ranks, True)" "count < 2 ^ 63"
  shows "length ranks = nat count \<and> (0 < count \<longrightarrow> sorted_wrt (<) (lo # ranks @ [hi]))"
proof (cases "0 < count")
  case False
  then show ?thesis using assms(1) by (simp add: RanksAcross_def)
next
  case True
  from RanksAcross_ranks [OF assms(1) this assms(2)] show ?thesis by simp
qed

theorem RanksAcross_increasing_witness:
  "sorted_wrt (<) (UID 0 0 # [UID 0 11, UID 0 20] @ [UID 0 30])"
proof -
  have d: "randBelow (UID 0 10) (seed_of v # s) = Some (v, s)" if "v < UID 0 10" for v s
    using randBelow_reach that by blast
  have "divScalar (UID 0 30) 3 = Some (UID 0 10)" by (simp add: divScalar_def div64_def)
  moreover have "ranks_loop (UID 0 0) (UID 0 10) 0 (Suc (Suc 0)) [seed_of (UID 0 1), seed_of (UID 0 0)]
      = Some ([UID 0 11, UID 0 20], [])"
    by (simp add: d less_uid_iff uval_def UID_Add_def add64_def mulScalar_def mul64_def)
  then have "ranks_loop (UID 0 0) (UID 0 10) 0 2 [seed_of (UID 0 1), seed_of (UID 0 0)]
      = Some ([UID 0 11, UID 0 20], [])"
    by (simp only: numeral_2_eq_2)
  ultimately have "RanksAcross (UID 0 0) (UID 0 30) 2 [seed_of (UID 0 1), seed_of (UID 0 0)]
      = Some ([UID 0 11, UID 0 20], True)"
    by (simp add: RanksAcross_def UID_Subtract_def sub64_def CompareTo_def)
  from RanksAcross_increasing [OF this] show ?thesis by simp
qed

end
