(* ===== verification/Address.thy ===== *)
theory Address
  imports Uid
begin

text \<open>
  Element and edit addresses and their LSM keys (\<open>stdlib/tag/tag.address.go\<close>).  A Go byte
  array is a byte list of that length.  \<open>AddressLSM\<close> is 64 bytes: node, attribute, item and
  edit identifiers in this order, each big-endian; \<open>ElementLSM\<close> is its first 48.
\<close>

section \<open>Data\<close>

record element_id =
  NodeID :: uid
  AttrID :: uid
  ItemID :: uid

record address = element_id +
  EditID :: uid

definition nilAddress :: address where
  "nilAddress = \<lparr>NodeID = nilUID, AttrID = nilUID, ItemID = nilUID, EditID = nilUID\<rparr>"

section \<open>Comparison\<close>

definition CompareElementID :: "'a element_id_scheme \<Rightarrow> 'b element_id_scheme \<Rightarrow> int" where
  "CompareElementID a b =
     (if uid0 (NodeID a) < uid0 (NodeID b) then -1
      else if uid0 (NodeID a) > uid0 (NodeID b) then 1
      else if uid1 (NodeID a) < uid1 (NodeID b) then -1
      else if uid1 (NodeID a) > uid1 (NodeID b) then 1
      else if uid0 (AttrID a) < uid0 (AttrID b) then -1
      else if uid0 (AttrID a) > uid0 (AttrID b) then 1
      else if uid1 (AttrID a) < uid1 (AttrID b) then -1
      else if uid1 (AttrID a) > uid1 (AttrID b) then 1
      else if uid0 (ItemID a) < uid0 (ItemID b) then -1
      else if uid0 (ItemID a) > uid0 (ItemID b) then 1
      else if uid1 (ItemID a) < uid1 (ItemID b) then -1
      else if uid1 (ItemID a) > uid1 (ItemID b) then 1
      else 0)"

definition Compare :: "address \<Rightarrow> address \<Rightarrow> int" where
  "Compare a b =
     (let diff = CompareElementID a b
      in if diff \<noteq> 0 then diff
         else if uid0 (EditID b) < uid0 (EditID a) then -1
         else if uid0 (EditID b) > uid0 (EditID a) then 1
         else if uid1 (EditID b) < uid1 (EditID a) then -1
         else if uid1 (EditID b) > uid1 (EditID a) then 1
         else 0)"

section \<open>Keys\<close>

text \<open>\<open>put64 i w lsm\<close> is \<open>PutUint64(lsm[i:i+8], w)\<close> and \<open>get64 i lsm\<close> reads
  the same slice.\<close>

definition put64 :: "nat \<Rightarrow> u64 \<Rightarrow> byte list \<Rightarrow> byte list" where
  "put64 i w lsm = take i lsm @ be64 w @ drop (i + 8) lsm"

definition get64 :: "nat \<Rightarrow> byte list \<Rightarrow> u64" where
  "get64 i lsm = rd64 (take 8 (drop i lsm))"

definition putElementLSM :: "'a element_id_scheme \<Rightarrow> byte list \<Rightarrow> byte list" where
  "putElementLSM addr lsm =
     (let lsm = put64 0 (uid0 (NodeID addr)) lsm;
          lsm = put64 8 (uid1 (NodeID addr)) lsm;
          lsm = put64 16 (uid0 (AttrID addr)) lsm;
          lsm = put64 24 (uid1 (AttrID addr)) lsm;
          lsm = put64 32 (uid0 (ItemID addr)) lsm
      in put64 40 (uid1 (ItemID addr)) lsm)"

definition ElementLSM :: "'a element_id_scheme \<Rightarrow> byte list" where
  "ElementLSM addr = putElementLSM addr (replicate 48 0)"

text \<open>\<open>AsLSM\<close> writes into a caller's buffer; the last slice \<open>lsm[56:64]\<close> panics
  when the buffer is shorter.\<close>

definition AsLSM :: "address \<Rightarrow> byte list \<Rightarrow> byte list outcome" where
  "AsLSM addr lsm =
     guard_or (64 \<le> length lsm) Panic
       (Inr (put64 56 (uid1 (EditID addr)) (put64 48 (uid0 (EditID addr)) (putElementLSM addr lsm))))"

definition FromLSM :: "byte list \<Rightarrow> address outcome" where
  "FromLSM lsm =
     guard_or (64 \<le> length lsm) Panic
       (Inr \<lparr>NodeID = UID (get64 0 lsm) (get64 8 lsm), AttrID = UID (get64 16 lsm) (get64 24 lsm),
             ItemID = UID (get64 32 lsm) (get64 40 lsm), EditID = UID (get64 48 lsm) (get64 56 lsm)\<rparr>)"

definition LSM_NodeID :: "byte list \<Rightarrow> uid" where
  "LSM_NodeID lsm = UID (get64 0 lsm) (get64 8 lsm)"
definition LSM_AttrID :: "byte list \<Rightarrow> uid" where
  "LSM_AttrID lsm = UID (get64 16 lsm) (get64 24 lsm)"
definition LSM_ItemID :: "byte list \<Rightarrow> uid" where
  "LSM_ItemID lsm = UID (get64 32 lsm) (get64 40 lsm)"

definition ElementID :: "byte list \<Rightarrow> element_id" where
  "ElementID lsm =
     \<lparr>NodeID = UID (get64 0 lsm) (get64 8 lsm), AttrID = UID (get64 16 lsm) (get64 24 lsm),
      ItemID = UID (get64 32 lsm) (get64 40 lsm)\<rparr>"

definition LSM_Set :: "uid \<Rightarrow> uid \<Rightarrow> uid \<Rightarrow> byte list \<Rightarrow> byte list" where
  "LSM_Set nodeID attrID itemID lsm =
     (let lsm = put64 0 (uid0 nodeID) lsm;
          lsm = put64 8 (uid1 nodeID) lsm;
          lsm = put64 16 (uid0 attrID) lsm;
          lsm = put64 24 (uid1 attrID) lsm;
          lsm = put64 32 (uid0 itemID) lsm
      in put64 40 (uid1 itemID) lsm)"

definition SetNodeID :: "uid \<Rightarrow> byte list \<Rightarrow> byte list" where
  "SetNodeID nodeID lsm = put64 8 (uid1 nodeID) (put64 0 (uid0 nodeID) lsm)"
definition SetAttrID :: "uid \<Rightarrow> byte list \<Rightarrow> byte list" where
  "SetAttrID attrID lsm = put64 24 (uid1 attrID) (put64 16 (uid0 attrID) lsm)"
definition SetItemID :: "uid \<Rightarrow> byte list \<Rightarrow> byte list" where
  "SetItemID itemID lsm = put64 40 (uid1 itemID) (put64 32 (uid0 itemID) lsm)"

section \<open>Stepping a key field\<close>

text \<open>The two loops walk \<open>j\<close> from the last byte of the field at \<open>offset\<close> to its
  first; the counter is the number of bytes left.\<close>

fun dec_loop :: "nat \<Rightarrow> nat \<Rightarrow> byte list \<Rightarrow> byte list \<times> bool" where
  "dec_loop offset 0 lsm = (lsm, False)"
| "dec_loop offset (Suc j) lsm =
     (let idx = offset + j
      in if lsm ! idx > 0 then (lsm[idx := lsm ! idx - 1], True)
         else dec_loop offset j (lsm[idx := 0xFF]))"

fun inc_loop :: "nat \<Rightarrow> nat \<Rightarrow> byte list \<Rightarrow> byte list \<times> bool" where
  "inc_loop offset 0 lsm = (lsm, False)"
| "inc_loop offset (Suc j) lsm =
     (let idx = offset + j
      in if lsm ! idx < 0xFF then (lsm[idx := lsm ! idx + 1], True)
         else inc_loop offset j (lsm[idx := 0]))"

definition decrement :: "nat \<Rightarrow> byte list \<Rightarrow> byte list \<times> bool" where
  "decrement offset lsm = dec_loop offset 16 lsm"
definition increment :: "nat \<Rightarrow> byte list \<Rightarrow> byte list \<times> bool" where
  "increment offset lsm = inc_loop offset 16 lsm"

definition DecrementNodeID :: "byte list \<Rightarrow> byte list \<times> bool" where
  "DecrementNodeID lsm = decrement 0 lsm"
definition DecrementAttrID :: "byte list \<Rightarrow> byte list \<times> bool" where
  "DecrementAttrID lsm = decrement 16 lsm"
definition DecrementItemID :: "byte list \<Rightarrow> byte list \<times> bool" where
  "DecrementItemID lsm = decrement (2 * 16) lsm"
definition IncrementNodeID :: "byte list \<Rightarrow> byte list \<times> bool" where
  "IncrementNodeID lsm = increment 0 lsm"
definition IncrementAttrID :: "byte list \<Rightarrow> byte list \<times> bool" where
  "IncrementAttrID lsm = increment 16 lsm"
definition IncrementItemID :: "byte list \<Rightarrow> byte list \<times> bool" where
  "IncrementItemID lsm = increment (2 * 16) lsm"

section \<open>Lemmas: the layout of a key\<close>

definition id_bytes :: "uid \<Rightarrow> byte list" where
  "id_bytes u = be64 (uid0 u) @ be64 (uid1 u)"

lemma length_id_bytes [simp]: "length (id_bytes u) = 16"
  by (simp add: id_bytes_def)

lemma be_val_id_bytes [simp]: "be_val (id_bytes u) = uval u"
  using be_val_AppendTo [of u] by (simp add: id_bytes_def UID_AppendTo_def)

definition element_bytes :: "'a element_id_scheme \<Rightarrow> byte list" where
  "element_bytes a = id_bytes (NodeID a) @ id_bytes (AttrID a) @ id_bytes (ItemID a)"

lemma length_element_bytes [simp]: "length (element_bytes a) = 48"
  by (simp add: element_bytes_def)

lemma length_put64 [simp]: "i + 8 \<le> length l \<Longrightarrow> length (put64 i w l) = length l"
  by (simp add: put64_def)

lemma put64_step:
  "length p = i \<Longrightarrow> put64 i w (p @ drop i l) = (p @ be64 w) @ drop (i + 8) l"
  by (simp add: put64_def add.commute)

lemma putElementLSM_bytes: "putElementLSM a l = element_bytes a @ drop 48 l"
proof -
  have 1: "put64 0 w l = be64 w @ drop 8 l" for w by (simp add: put64_def)
  show ?thesis
    unfolding putElementLSM_def Let_def 1
    using put64_step [of "be64 (uid0 (NodeID a))" 8 "uid1 (NodeID a)" l]
      put64_step [of "be64 (uid0 (NodeID a)) @ be64 (uid1 (NodeID a))" 16 "uid0 (AttrID a)" l]
      put64_step [of "(be64 (uid0 (NodeID a)) @ be64 (uid1 (NodeID a))) @ be64 (uid0 (AttrID a))" 24
        "uid1 (AttrID a)" l]
      put64_step [of "((be64 (uid0 (NodeID a)) @ be64 (uid1 (NodeID a))) @ be64 (uid0 (AttrID a)))
        @ be64 (uid1 (AttrID a))" 32 "uid0 (ItemID a)" l]
      put64_step [of "(((be64 (uid0 (NodeID a)) @ be64 (uid1 (NodeID a))) @ be64 (uid0 (AttrID a)))
        @ be64 (uid1 (AttrID a))) @ be64 (uid0 (ItemID a))" 40 "uid1 (ItemID a)" l]
    by (simp add: element_bytes_def id_bytes_def)
qed

lemma ElementLSM_bytes: "ElementLSM a = element_bytes a"
  by (simp add: ElementLSM_def putElementLSM_bytes)

lemma AsLSM_bytes:
  "64 \<le> length l \<Longrightarrow> AsLSM a l = Inr (element_bytes a @ id_bytes (EditID a) @ drop 64 l)"
  using put64_step [of "element_bytes a" 48 "uid0 (EditID a)" l]
    put64_step [of "element_bytes a @ be64 (uid0 (EditID a))" 56 "uid1 (EditID a)" l]
  by (simp add: AsLSM_def guard_or_def putElementLSM_bytes id_bytes_def)

lemma get64_at: "length p = i \<Longrightarrow> get64 i (p @ be64 w @ r) = w"
  by (simp add: get64_def)

lemma get_id: "length p = i \<Longrightarrow> get64 i (p @ id_bytes u @ r) = uid0 u"
  "length p = j \<Longrightarrow> i = j + 8 \<Longrightarrow> get64 i (p @ id_bytes u @ r) = uid1 u"
  using get64_at [of p i "uid0 u" "be64 (uid1 u) @ r"] get64_at [of "p @ be64 (uid0 u)" i "uid1 u" r]
  by (simp_all add: id_bytes_def)

lemma get_element:
  "get64 0 (element_bytes a @ r) = uid0 (NodeID a)" "get64 8 (element_bytes a @ r) = uid1 (NodeID a)"
  "get64 16 (element_bytes a @ r) = uid0 (AttrID a)" "get64 24 (element_bytes a @ r) = uid1 (AttrID a)"
  "get64 32 (element_bytes a @ r) = uid0 (ItemID a)" "get64 40 (element_bytes a @ r) = uid1 (ItemID a)"
  using get_id [where p = "[]" and u = "NodeID a" and r = "id_bytes (AttrID a) @ id_bytes (ItemID a) @ r"]
    get_id [where p = "id_bytes (NodeID a)" and u = "AttrID a" and r = "id_bytes (ItemID a) @ r"]
    get_id [where p = "id_bytes (NodeID a) @ id_bytes (AttrID a)" and u = "ItemID a" and r = r]
  by (simp_all add: element_bytes_def)

lemma FromLSM_bytes: "FromLSM (element_bytes a @ id_bytes (EditID a) @ r) = Inr a"
  using get_id [where p = "element_bytes a" and u = "EditID a" and r = r]
  by (cases a) (simp add: FromLSM_def guard_or_def get_element)

lemma ElementID_bytes: "ElementID (element_bytes a) = element_id.truncate a"
  using get_element [of a "[]"] by (simp add: ElementID_def element_id.truncate_def)

section \<open>Lemmas: order\<close>

lemma bytes_compare_append:
  "length xs = length xs' \<Longrightarrow> bytes_compare (xs @ ys) (xs' @ ys')
     = (if bytes_compare xs xs' \<noteq> 0 then bytes_compare xs xs' else bytes_compare ys ys')"
  by (induction xs xs' rule: list_induct2) auto

lemma bytes_compare_id: "bytes_compare (id_bytes u) (id_bytes v) = CompareTo u v"
  by (simp add: bytes_compare_be_val CompareTo_uval)

lemma CompareElementID_lex:
  "CompareElementID a b =
     (if CompareTo (NodeID a) (NodeID b) \<noteq> 0 then CompareTo (NodeID a) (NodeID b)
      else if CompareTo (AttrID a) (AttrID b) \<noteq> 0 then CompareTo (AttrID a) (AttrID b)
      else CompareTo (ItemID a) (ItemID b))"
  by (auto simp: CompareElementID_def CompareTo_def)

lemma Compare_lex:
  "Compare a b = (if CompareElementID a b \<noteq> 0 then CompareElementID a b
                  else CompareTo (EditID b) (EditID a))"
  by (auto simp: Compare_def Let_def CompareTo_def)

lemma element_bytes_order: "bytes_compare (element_bytes a) (element_bytes b) = CompareElementID a b"
  by (simp add: element_bytes_def bytes_compare_append bytes_compare_id CompareElementID_lex)

lemma CompareTo_swap: "CompareTo u v = - CompareTo v u"
  by (auto simp: CompareTo_uval cmp_int_def)

section \<open>Lemmas: stepping\<close>

lemma byte_max: "(w :: byte) < 0xFF \<longleftrightarrow> unat w < 255"
  by (simp add: word_less_nat_alt)

lemma byte_not_max: "\<not> (w :: byte) < 0xFF \<Longrightarrow> unat w = 255"
proof -
  have "unat w < 256" using unsigned_less [of w, where ?'a = nat] by simp
  then show "\<not> w < 0xFF \<Longrightarrow> unat w = 255" by (simp add: word_less_nat_alt)
qed

lemma be_bytes_snoc: "be_bytes (Suc n) (k * 256 + unat c) = be_bytes n k @ [c]"
proof -
  have "unat c < 256" using unsigned_less [of c, where ?'a = nat] by simp
  then have "(k * 256 + unat c) div 256 = k" by simp
  moreover have "(word_of_nat (k * 256 + unat c) :: byte) = c"
    by (rule word_unat_eq_iff [THEN iffD2])
      (use \<open>unat c < 256\<close> in \<open>simp only: unat_word_of_nat_byte, simp\<close>)
  ultimately show ?thesis by (simp only: be_bytes.simps)
qed

lemma inc_loop_append:
  "length p = offset \<Longrightarrow> length f = n \<Longrightarrow> inc_loop offset n (p @ f @ r)
     = (p @ be_bytes n (be_val f + 1) @ r, be_val f + 1 < 256 ^ n)"
proof (induction n arbitrary: f r)
  case (Suc n)
  obtain g b where f: "f = g @ [b]" "length g = n" using Suc.prems(2) by (metis length_Suc_conv_rev)
  have nth: "(p @ (g @ [b]) @ r) ! (offset + n) = b" using Suc.prems(1) f(2) by (simp add: nth_append)
  have upd: "(p @ (g @ [b]) @ r)[offset + n := c] = p @ g @ [c] @ r" for c
    using Suc.prems(1) f(2) by (simp add: list_update_append)
  have step: "inc_loop offset (Suc n) (p @ f @ r)
      = (if b < 0xFF then (p @ g @ [b + 1] @ r, True) else inc_loop offset n (p @ g @ [0] @ r))"
    by (simp only: inc_loop.simps Let_def f(1) nth upd)
  show ?case
  proof (cases "b < 0xFF")
    case True
    then have b: "unat b < 255" by (simp add: byte_max)
    then have "unat (b + 1) = unat b + 1" by (simp add: unat_word_ariths)
    then have e: "be_val f + 1 = be_val g * 256 + unat (b + 1)" using f(1) by simp
    have "be_bytes (Suc n) (be_val f + 1) = g @ [b + 1]"
      unfolding e be_bytes_snoc by (simp only: be_bytes_be_val [OF f(2)])
    moreover have "be_val f + 1 < 256 ^ Suc n"
      using b be_val_bound [of g] f by simp
    ultimately show ?thesis unfolding step using True by (simp only: if_True append.assoc simp_thms)
  next
    case False
    then have "unat b = 255" by (rule byte_not_max)
    then have e: "be_val f + 1 = (be_val g + 1) * 256 + unat (0 :: byte)" using f(1) by simp
    have "inc_loop offset n (p @ g @ [0] @ r) = (p @ be_bytes n (be_val g + 1) @ [0] @ r, be_val g + 1 < 256 ^ n)"
      by (rule Suc.IH [OF Suc.prems(1) f(2)])
    moreover have "be_bytes (Suc n) (be_val f + 1) = be_bytes n (be_val g + 1) @ [0]"
      unfolding e by (rule be_bytes_snoc)
    moreover have "be_val f + 1 < 256 ^ Suc n \<longleftrightarrow> be_val g + 1 < 256 ^ n"
      unfolding e by (simp only: power_Suc unsigned_0 add_0_right mult.commute [of _ 256] mult_less_cancel1) simp
    ultimately show ?thesis unfolding step using False by (simp only: if_False append.assoc)
  qed
qed simp

lemma be_bytes_wrap: "length g = n \<Longrightarrow> be_bytes n (be_val g + 256 ^ n) = g"
proof -
  assume l: "length g = n"
  have "be_val (be_bytes n (be_val g + 256 ^ n)) = be_val g"
    using be_val_bound [of g] l by simp
  then show ?thesis using be_bytes_be_val [OF l] be_bytes_be_val [OF length_be_bytes] by metis
qed

lemma dec_loop_append:
  "length p = offset \<Longrightarrow> length f = n \<Longrightarrow> dec_loop offset n (p @ f @ r)
     = (p @ be_bytes n (be_val f + 256 ^ n - 1) @ r, 0 < be_val f)"
proof (induction n arbitrary: f r)
  case (Suc n)
  obtain g b where f: "f = g @ [b]" "length g = n" using Suc.prems(2) by (metis length_Suc_conv_rev)
  have nth: "(p @ (g @ [b]) @ r) ! (offset + n) = b" using Suc.prems(1) f(2) by (simp add: nth_append)
  have upd: "(p @ (g @ [b]) @ r)[offset + n := c] = p @ g @ [c] @ r" for c
    using Suc.prems(1) f(2) by (simp add: list_update_append)
  have step: "dec_loop offset (Suc n) (p @ f @ r)
      = (if b > 0 then (p @ g @ [b - 1] @ r, True) else dec_loop offset n (p @ g @ [0xFF] @ r))"
    by (simp only: dec_loop.simps Let_def f(1) nth upd)
  have pow: "1 \<le> (256 ^ n :: nat)" by simp
  show ?case
  proof (cases "b > 0")
    case True
    then have b: "0 < unat b" "unat (b - 1) = unat b - 1"
      by (simp_all add: word_gt_0 unat_gt_0 unat_minus_one)
    have e: "be_val f + 256 ^ Suc n - 1 = (be_val g + 256 ^ n) * 256 + unat (b - 1)"
      using b f(1) pow by (simp add: algebra_simps)
    have "be_bytes (Suc n) (be_val f + 256 ^ Suc n - 1) = g @ [b - 1]"
      unfolding e be_bytes_snoc by (simp only: be_bytes_wrap [OF f(2)])
    moreover have "0 < be_val f" using b f(1) by simp
    ultimately show ?thesis unfolding step using True by (simp only: if_True append.assoc simp_thms)
  next
    case False
    then have b: "unat b = 0" by (simp add: word_gt_0)
    obtain q where q: "(256 :: nat) ^ n = q + 1" using pow by (metis le_add_diff_inverse2)
    have "unat (0xFF :: byte) = 255" by simp
    then have e: "be_val f + 256 ^ Suc n - 1 = (be_val g + 256 ^ n - 1) * 256 + unat (0xFF :: byte)"
      using f(1) b q by (simp only: power_Suc be_val_snoc) simp
    have "dec_loop offset n (p @ g @ [0xFF] @ r)
        = (p @ be_bytes n (be_val g + 256 ^ n - 1) @ [0xFF] @ r, 0 < be_val g)"
      by (rule Suc.IH [OF Suc.prems(1) f(2)])
    moreover have "be_bytes (Suc n) (be_val f + 256 ^ Suc n - 1) = be_bytes n (be_val g + 256 ^ n - 1) @ [0xFF]"
      unfolding e by (rule be_bytes_snoc)
    moreover have "0 < be_val f \<longleftrightarrow> 0 < be_val g" using b f(1) by simp
    ultimately show ?thesis unfolding step using False by (simp only: if_False append.assoc)
  qed
qed simp

text \<open>A step of one field of a key: the identifier in it moves by one, the rest stays.\<close>

lemma pow128: "(256 :: nat) ^ 16 = 2 ^ 128"
  by simp

lemma field_increment:
  "length p = offset \<Longrightarrow> increment offset (p @ id_bytes u @ r)
     = (p @ be_bytes 16 (uval u + 1) @ r, uval u + 1 < 2 ^ 128)"
  using inc_loop_append [of p offset "id_bytes u" 16 r, OF _ length_id_bytes]
  by (simp only: increment_def be_val_id_bytes pow128)

lemma field_decrement:
  "length p = offset \<Longrightarrow> decrement offset (p @ id_bytes u @ r)
     = (p @ be_bytes 16 (uval u + 2 ^ 128 - 1) @ r, u \<noteq> nilUID)"
  using dec_loop_append [of p offset "id_bytes u" 16 r, OF _ length_id_bytes] uval_0_iff [of u]
  by (simp only: decrement_def be_val_id_bytes pow128 neq0_conv [symmetric] simp_thms)

lemma id_bytes_of: "be_bytes 16 n = id_bytes (uid_of n)"
proof -
  have "be_val (id_bytes (uid_of n)) = n mod 256 ^ 16" by (simp add: uval_uid_of)
  then have "be_bytes 16 (n mod 256 ^ 16) = id_bytes (uid_of n)"
    using be_bytes_be_val [of "id_bytes (uid_of n)" 16] by simp
  moreover have "be_bytes 16 (n mod 256 ^ 16) = be_bytes 16 n"
    using be_bytes_be_val [of "be_bytes 16 n" 16] by simp
  ultimately show ?thesis by simp
qed

lemma IncrementItemID_bytes:
  "IncrementItemID (ElementLSM a)
     = (ElementLSM (a\<lparr>ItemID := uid_of (uval (ItemID a) + 1)\<rparr>), uval (ItemID a) + 1 < 2 ^ 128)"
  using field_increment [of "id_bytes (NodeID a) @ id_bytes (AttrID a)" 32 "ItemID a" "[]"]
  by (simp add: IncrementItemID_def ElementLSM_bytes element_bytes_def id_bytes_of)

section \<open>Order-preserving keys\<close>

text \<open>The contract between an LSM store, which orders byte strings, and its clients, which
  order values: keys of one length whose byte order is the client's comparison.\<close>

locale ordered_key =
  fixes enc :: "'a \<Rightarrow> byte list" and cmp :: "'a \<Rightarrow> 'a \<Rightarrow> int" and width :: nat
  assumes width: "length (enc a) = width"
    and order: "bytes_compare (enc a) (enc b) = cmp a b"
begin

lemma cmp_val: "cmp a b = cmp_int (be_val (enc a)) (be_val (enc b))"
  using bytes_compare_be_val [of "enc a" "enc b"] by (simp add: width order)

lemma key_eq_iff: "cmp a b = 0 \<longleftrightarrow> enc a = enc b"
proof
  assume "cmp a b = 0"
  then have "be_val (enc a) = be_val (enc b)" by (simp add: cmp_val cmp_int_def split: if_splits)
  then show "enc a = enc b" by (metis be_bytes_be_val [OF width])
qed (simp add: cmp_val cmp_int_def)

lemma cmp_trans: "cmp a b \<le> 0 \<Longrightarrow> cmp b c \<le> 0 \<Longrightarrow> cmp a c \<le> 0"
  by (auto simp: cmp_val cmp_int_def split: if_splits)

lemma cmp_swap: "cmp b a = - cmp a b"
  by (auto simp: cmp_val cmp_int_def)

lemma cmp_total: "cmp a b \<le> 0 \<or> cmp b a \<le> 0"
  by (auto simp: cmp_val cmp_int_def)

lemma scan_order:
  "sorted_wrt (\<lambda>x y. bytes_compare x y < 0) (map enc xs) \<longleftrightarrow> sorted_wrt (\<lambda>a b. cmp a b < 0) xs"
  by (simp add: sorted_wrt_map order)

text \<open>A key \<open>k\<close> whose value is one more than that of \<open>a\<close> starts the range after
  \<open>a\<close>: no key lies between.\<close>

lemma successor:
  assumes "be_val (enc b) = be_val (enc a) + 1"
  shows "cmp a b < 0" "cmp a c < 0 \<longleftrightarrow> cmp b c \<le> 0"
  using assms by (auto simp: cmp_val cmp_int_def)

end

interpretation uid_key: ordered_key id_bytes CompareTo 16
  by unfold_locales (simp_all add: bytes_compare_id)

interpretation element_key:
  ordered_key "ElementLSM :: element_id \<Rightarrow> byte list" CompareElementID 48
  by unfold_locales (simp_all add: ElementLSM_bytes element_bytes_order)

definition address_bytes :: "address \<Rightarrow> byte list" where
  "address_bytes a = element_bytes a @ id_bytes (EditID a)"

definition lsm_order :: "address \<Rightarrow> address \<Rightarrow> int" where
  "lsm_order a b = (if CompareElementID a b \<noteq> 0 then Compare a b else Compare b a)"

lemma address_bytes_order: "bytes_compare (address_bytes a) (address_bytes b) = lsm_order a b"
proof -
  have "CompareElementID b a = 0" if "CompareElementID a b = 0"
    using that CompareTo_swap [of "NodeID a"] CompareTo_swap [of "AttrID a"] CompareTo_swap [of "ItemID a"]
    by (auto simp: CompareElementID_lex split: if_splits)
  then show ?thesis
    by (auto simp: address_bytes_def bytes_compare_append element_bytes_order bytes_compare_id
        lsm_order_def Compare_lex)
qed

interpretation address_key: ordered_key address_bytes lsm_order 64
  by unfold_locales (simp_all add: address_bytes_order, simp add: address_bytes_def)

lemma IncrementItemID_val:
  fixes a :: element_id
  assumes "uval (ItemID a) + 1 < 2 ^ 128"
  shows "be_val (ElementLSM (a\<lparr>ItemID := uid_of (uval (ItemID a) + 1)\<rparr>)) = be_val (ElementLSM a) + 1"
  using assms by (simp add: ElementLSM_bytes element_bytes_def be_val_append uval_uid_of_exact)

section \<open>Properties\<close>

text \<open>C38. The byte order of element keys is the comparison of element identifiers, so a scan of
  the store that yields strictly ascending keys visits the elements in strictly ascending
  \<open>CompareElementID\<close> order, and two elements share a key only when they are the same.\<close>

theorem ElementLSM_scan_order:
  fixes es :: "element_id list"
  shows "(sorted_wrt (\<lambda>x y. bytes_compare x y < 0) (map ElementLSM es)
            \<longleftrightarrow> sorted_wrt (\<lambda>a b. CompareElementID a b < 0) es)
       \<and> (ElementLSM (e :: element_id) = ElementLSM f \<longleftrightarrow> e = f)"
proof -
  have "ElementLSM e = ElementLSM f \<Longrightarrow> e = f"
    using ElementID_bytes [of e] ElementID_bytes [of f]
    by (simp add: ElementLSM_bytes element_id.truncate_def)
  then show ?thesis using element_key.scan_order by blast
qed

text \<open>Writing an address into a 64-byte or larger buffer and reading it back gives the
  address; a shorter buffer is a panic of the write.\<close>

theorem AddressLSM_roundtrip:
  "and_then (AsLSM a buf) FromLSM = (if 64 \<le> length buf then Inr a else Inl Panic)"
  by (simp add: AsLSM_bytes FromLSM_bytes) (simp add: AsLSM_def guard_or_def)

text \<open>Across elements address keys sort as \<open>Compare\<close> does; within one element they
  sort the other way, oldest edit first, where \<open>Compare\<close> puts the newest edit first.\<close>

theorem AddressLSM_order:
  "AsLSM a (replicate 64 0) = Inr ka \<Longrightarrow> AsLSM b (replicate 64 0) = Inr kb \<Longrightarrow>
     bytes_compare ka kb = (if CompareElementID a b \<noteq> 0 then Compare a b else Compare b a)"
  using address_key.order [of a b] by (simp add: AsLSM_bytes address_bytes_def lsm_order_def)

theorem AddressLSM_order_witness:
  "bytes_compare (address_bytes nilAddress) (address_bytes (nilAddress\<lparr>EditID := UID 0 1\<rparr>))
     = (if CompareElementID nilAddress (nilAddress\<lparr>EditID := UID 0 1\<rparr>) \<noteq> 0
        then Compare nilAddress (nilAddress\<lparr>EditID := UID 0 1\<rparr>)
        else Compare (nilAddress\<lparr>EditID := UID 0 1\<rparr>) nilAddress)"
  by (rule AddressLSM_order) (simp_all add: AsLSM_bytes address_bytes_def)

text \<open>\<open>IncrementItemID\<close> on an element key gives the key of the next element: the item
  identifier grows by one, no key lies between, and success is refused exactly at the largest
  item identifier.\<close>

theorem IncrementItemID_successor:
  fixes a :: element_id
  assumes "IncrementItemID (ElementLSM a) = (k, ok)"
  shows "(ok \<longleftrightarrow> uval (ItemID a) + 1 < 2 ^ 128) \<and>
    (ok \<longrightarrow> (\<exists>b :: element_id. k = ElementLSM b \<and> uval (ItemID b) = uval (ItemID a) + 1 \<and> CompareElementID a b < 0 \<and>
              (\<forall>c :: element_id. CompareElementID a c < 0 \<longleftrightarrow> CompareElementID b c \<le> 0)))"
proof -
  let ?b = "a\<lparr>ItemID := uid_of (uval (ItemID a) + 1)\<rparr>"
  have k: "k = ElementLSM ?b" "ok \<longleftrightarrow> uval (ItemID a) + 1 < 2 ^ 128"
    using assms by (simp_all add: IncrementItemID_bytes)
  moreover have "CompareElementID a ?b < 0 \<and>
      (\<forall>c :: element_id. CompareElementID a c < 0 \<longleftrightarrow> CompareElementID ?b c \<le> 0)"
    if "uval (ItemID a) + 1 < 2 ^ 128"
    by (intro conjI allI) (rule element_key.successor [OF IncrementItemID_val [OF that]])+
  moreover have "uval (ItemID ?b) = uval (ItemID a) + 1" if "uval (ItemID a) + 1 < 2 ^ 128"
    using uval_uid_of_exact [OF that] by simp
  ultimately show ?thesis by blast
qed

theorem IncrementItemID_successor_witness:
  "\<exists>b :: element_id. ElementLSM \<lparr>NodeID = nilUID, AttrID = nilUID, ItemID = UID 0 1\<rparr> = ElementLSM b \<and>
       uval (ItemID b) = 1 \<and> CompareElementID (ElementID (replicate 48 0)) b < 0"
proof -
  have z: "ElementID (replicate 48 0) = \<lparr>NodeID = nilUID, AttrID = nilUID, ItemID = nilUID\<rparr>"
    by code_simp
  have "IncrementItemID (ElementLSM (ElementID (replicate 48 0)))
      = (ElementLSM \<lparr>NodeID = nilUID, AttrID = nilUID, ItemID = UID 0 1\<rparr>, True)"
    unfolding z IncrementItemID_bytes by (simp add: uid_of_def)
  from IncrementItemID_successor [OF this] show ?thesis by (auto simp: z)
qed

end
