(* ===== verification/TxOps.thy ===== *)
theory TxOps
  imports Address
begin

text \<open>
  The ops section of a transaction on the wire (\<open>amp/amp.support.tx.go\<close>): the uvarints of
  \<open>encoding/binary\<close>, the delta-compressed encoder \<open>appendOps\<close> and the decoder
  \<open>readOps\<close>.  Positions are Go \<open>int\<close>s: where the code can wrap them or make them
  negative the model computes with \<open>go_int\<close>, and an out-of-range slice is the fault
  \<open>Panic\<close>.  A decoder loop that never returns has the value \<open>None\<close>.
\<close>

section \<open>Uvarints\<close>

function put_uvarint :: "u64 \<Rightarrow> byte list" where
  "put_uvarint x =
     (if x \<ge> 0x80 then (ucast x OR 0x80) # put_uvarint (drop_bit 7 x) else [ucast x])"
  by pat_completeness auto
termination
proof (relation "measure unat")
  fix x :: u64
  assume "0x80 \<le> x"
  then have "unat x div 2 ^ 7 < unat x" by (simp add: word_le_nat_alt)
  then show "(drop_bit 7 x, x) \<in> measure unat" by (simp only: in_measure unat64_shr)
qed simp

declare put_uvarint.simps [simp del]

text \<open>\<open>binary.Uvarint\<close>: the value and the number of bytes read; 0 means the buffer is too
  short and a negative number an overflow.\<close>

fun uvarint_loop :: "nat \<Rightarrow> u64 \<Rightarrow> byte list \<Rightarrow> u64 \<times> int" where
  "uvarint_loop i x [] = (0, 0)"
| "uvarint_loop i x (b # bs) =
     (if i = 10 then (0, - (int i + 1))
      else if b < 0x80 then
        (if i = 9 \<and> b > 1 then (0, - (int i + 1))
         else (x OR push_bit (7 * i) (ucast b), int i + 1))
      else uvarint_loop (i + 1) (x OR push_bit (7 * i) (ucast (b AND 0x7F))) bs)"

definition Uvarint :: "byte list \<Rightarrow> u64 \<times> int" where
  "Uvarint buf = uvarint_loop 0 0 buf"

section \<open>Operations of a transaction\<close>

text \<open>\<open>Flags\<close> is the protobuf enum \<open>TxOpFlags\<close>, an \<open>int32\<close>.\<close>

record tx_op =
  Addr :: address
  Flags :: u32
  Logical :: u64
  DataOfs :: u64
  DataLen :: u64

definition TxField_MaxFields :: nat where "TxField_MaxFields = 16"

definition op_fields :: "tx_op \<Rightarrow> u64 list" where
  "op_fields op =
     [uid0 (ItemID (Addr op)), uid1 (ItemID (Addr op)), uid0 (AttrID (Addr op)), uid1 (AttrID (Addr op)),
      uid0 (NodeID (Addr op)), uid1 (NodeID (Addr op))] @ replicate 10 0"

definition has_fields :: "u64 list \<Rightarrow> u64 list \<Rightarrow> u64" where
  "has_fields cur prv =
     foldl (\<lambda>h i. if cur ! i \<noteq> prv ! i then h OR push_bit i 1 else h) 0 [0..<TxField_MaxFields]"

definition put_fields :: "u64 \<Rightarrow> u64 list \<Rightarrow> byte list" where
  "put_fields hasFields cur =
     concat (map (\<lambda>i. if hasFields AND push_bit i 1 \<noteq> 0 then be64 (cur ! i) else [])
                 [0..<TxField_MaxFields])"

definition put_op :: "u64 list \<Rightarrow> tx_op \<Rightarrow> byte list" where
  "put_op op_prv op =
     (let op_cur = op_fields op; hasFields = has_fields op_cur op_prv
      in [ucast (Flags op)] @ put_uvarint (Logical op) @ put_uvarint (DataOfs op) @
         put_uvarint (DataLen op) @ put_uvarint 0 @ put_uvarint hasFields @ put_fields hasFields op_cur)"

fun put_ops :: "u64 list \<Rightarrow> tx_op list \<Rightarrow> byte list" where
  "put_ops op_prv [] = []"
| "put_ops op_prv (op # ops) = put_op op_prv op @ put_ops (op_fields op) ops"

definition appendOps :: "byte list \<Rightarrow> tx_op list \<Rightarrow> byte list" where
  "appendOps dst ops =
     (let body = put_ops (replicate TxField_MaxFields 0) ops
      in dst @ be32 (word_of_nat (length body)) @ body)"

section \<open>The decoder\<close>

text \<open>A uvarint at position \<open>p\<close>: its value and the position after it.\<close>

definition read_uvarint :: "byte list \<Rightarrow> nat \<Rightarrow> (u64 \<times> nat) outcome" where
  "read_uvarint src p =
     (case Uvarint (drop p src) of (v, n) \<Rightarrow>
        if n \<le> 0 then Inl ErrMalformedTx else Inr (v, p + nat n))"

fun read_fields :: "byte list \<Rightarrow> u64 \<Rightarrow> nat list \<Rightarrow> nat \<Rightarrow> u64 list \<Rightarrow> (u64 list \<times> nat) outcome" where
  "read_fields src hasFields [] p cur = Inr (cur, p)"
| "read_fields src hasFields (j # js) p cur =
     (if hasFields AND push_bit j 1 \<noteq> 0
      then (if p + 8 > length src then Inl ErrMalformedTx
            else read_fields src hasFields js (p + 8) (cur[j := rd64 (take 8 (drop p src))]))
      else read_fields src hasFields js p cur)"

definition fields_addr :: "u64 list \<Rightarrow> address" where
  "fields_addr cur =
     \<lparr>NodeID = UID (cur ! 4) (cur ! 5), AttrID = UID (cur ! 2) (cur ! 3),
      ItemID = UID (cur ! 0) (cur ! 1), EditID = nilUID\<rparr>"

text \<open>One iteration of \<open>readOps\<close> at \<open>p < len(src)\<close>: the op, the next position and
  the next delta state.\<close>

definition read_op :: "byte list \<Rightarrow> nat \<Rightarrow> u64 list \<Rightarrow> (tx_op \<times> nat \<times> u64 list) outcome" where
  "read_op src p cur =
     and_then (read_uvarint src (p + 1)) (\<lambda>(logical, p1).
     and_then (read_uvarint src p1) (\<lambda>(ofs, p2).
     and_then (read_uvarint src p2) (\<lambda>(len, p3).
     and_then (read_uvarint src p3) (\<lambda>(skip, p4).
     let q = go_int (int p4 + sint skip)
     in if q > int (length src) then Inl ErrMalformedTx
        else if q < 0 then Inl Panic
        else and_then (read_uvarint src (nat q)) (\<lambda>(hasFields, p5).
             and_then (read_fields src hasFields [0..<TxField_MaxFields] p5 cur) (\<lambda>(cur', p6).
             Inr (\<lparr>Addr = fields_addr cur', Flags = ucast (src ! p), Logical = logical,
                   DataOfs = ofs, DataLen = len\<rparr>, p6, cur')))))))"

partial_function (option) readOps_loop ::
  "byte list \<Rightarrow> nat \<Rightarrow> u64 list \<Rightarrow> tx_op list \<Rightarrow> tx_op list outcome option" where
  "readOps_loop src p cur ops =
     (if p < length src then
        (case read_op src p cur of
           Inl e \<Rightarrow> Some (Inl e)
         | Inr (op, p', cur') \<Rightarrow> readOps_loop src p' cur' (ops @ [op]))
      else Some (Inr ops))"

definition readOps :: "tx_op list \<Rightarrow> byte list \<Rightarrow> tx_op list outcome option" where
  "readOps ops src = readOps_loop src 0 (replicate TxField_MaxFields 0) ops"

text \<open>\<open>readOpsSection\<close> at position \<open>p\<close>: the ops and the position after the
  section.\<close>

definition readOpsSection :: "tx_op list \<Rightarrow> byte list \<Rightarrow> nat \<Rightarrow> (tx_op list \<times> nat) outcome option" where
  "readOpsSection ops src p =
     (if p + 4 > length src then Some (Inl ErrMalformedTx)
      else let opsLen = be_val (take 4 (drop p src)); p = p + 4
           in if int opsLen > int (length src) - int p then Some (Inl ErrMalformedTx)
              else case readOps ops (take opsLen (drop p src)) of
                     None \<Rightarrow> None
                   | Some (Inl e) \<Rightarrow> Some (Inl e)
                   | Some (Inr ops') \<Rightarrow> Some (Inr (ops', p + opsLen)))"

section \<open>Uvarint round trip\<close>

lemma length_put_uvarint_pos: "put_uvarint x \<noteq> []"
  by (simp add: put_uvarint.simps [of x])

lemma byte_or80: "unat ((ucast (x :: u64) OR 0x80 :: byte) AND 0x7F) = unat x mod 128"
  "\<not> (ucast x OR 0x80 :: byte) < 0x80"
proof -
  have "(ucast x OR 0x80 :: byte) AND 0x7F = ucast x AND 0x7F"
    by (simp add: bit.conj_disj_distrib2)
  moreover have "unat (ucast x AND 0x7F :: byte) = unat x mod 128"
  proof -
    have m: "(0x7F :: byte) = mask 7" by (simp add: mask_eq_exp_minus_1)
    have "unat (ucast x AND mask 7 :: byte) = take_bit 7 (take_bit 8 (unat x))"
      by (simp only: take_bit_eq_mask [symmetric] unsigned_take_bit_eq unsigned_ucast_eq) simp
    then have "unat (ucast x AND 0x7F :: byte) = take_bit 7 (take_bit 8 (unat x))"
      unfolding m .
    then show ?thesis by (simp only: take_bit_take_bit) (simp add: take_bit_eq_mod)
  qed
  ultimately show "unat ((ucast x OR 0x80 :: byte) AND 0x7F) = unat x mod 128" by simp
  have "(0x80 :: byte) \<le> ucast x OR 0x80" by (metis le_word_or1 le_word_or2 or.commute)
  then show "\<not> (ucast x OR 0x80 :: byte) < 0x80" by simp
qed

lemma unat_ucast_byte: "unat (ucast (b :: byte) :: u64) = unat b"
proof -
  have "unat b < 256" using unsigned_less [of b, where ?'a = nat] by simp
  then show ?thesis by (simp add: unsigned_ucast_eq take_bit_nat_eq_self)
qed

lemma unat_ucast_small: "x < 0x80 \<Longrightarrow> unat (ucast (x :: u64) :: byte) = unat x"
  by (simp add: unsigned_ucast_eq take_bit_nat_eq_self word_less_nat_alt)

lemma join7:
  assumes "i \<le> 9" "unat x < 2 ^ (7 * i)" "unat b < 2 ^ (64 - 7 * i)"
  shows "unat (x OR push_bit (7 * i) (ucast (b :: byte)) :: u64) = unat x + unat b * 2 ^ (7 * i)"
  using assms by (subst unat64_join [of x "7 * i" _ "64 - 7 * i"]) (simp_all add: unat_ucast_byte)

lemma uvarint_loop_put:
  "i \<le> 9 \<Longrightarrow> unat x < 2 ^ (7 * i) \<Longrightarrow> unat y < 2 ^ (64 - 7 * i) \<Longrightarrow>
     uvarint_loop i x (put_uvarint y @ rest)
       = (word_of_nat (unat x + unat y * 2 ^ (7 * i)), int (i + length (put_uvarint y)))"
proof (induction y arbitrary: i x rule: put_uvarint.induct)
  case (1 y)
  show ?case
  proof (cases "0x80 \<le> y")
    case True
    let ?b = "(ucast y OR 0x80 :: byte)"
    let ?x = "x OR push_bit (7 * i) (ucast (?b AND 0x7F))"
    have y: "2 ^ 7 \<le> unat y" using True by (simp add: word_le_nat_alt)
    have "(2 :: nat) ^ 7 < 2 ^ (64 - 7 * i)" using y "1.prems"(3) by (rule le_less_trans)
    then have "i \<noteq> 9" by auto
    then have i8: "i \<le> 8" using "1.prems"(1) by simp
    have m: "unat (?b AND 0x7F) = unat y mod 128" by (rule byte_or80)
    have "unat y mod 128 < 2 ^ 7" by simp
    also have "(2 :: nat) ^ 7 \<le> 2 ^ (64 - 7 * i)" using i8 by (intro power_increasing) auto
    finally have x: "unat ?x = unat x + unat y mod 128 * 2 ^ (7 * i)"
      using "1.prems" by (subst join7) (simp_all only: m)
    have "unat x + unat y mod 128 * 2 ^ (7 * i) < 2 ^ (7 * (i + 1))"
    proof -
      have "unat y mod 128 * 2 ^ (7 * i) \<le> 127 * 2 ^ (7 * i)" by (intro mult_le_mono1) simp
      then have "unat x + unat y mod 128 * 2 ^ (7 * i) < 128 * 2 ^ (7 * i)" using "1.prems"(2) by linarith
      then show ?thesis by (simp add: power_add)
    qed
    moreover have "unat (drop_bit 7 y) < 2 ^ (64 - 7 * (i + 1))"
    proof -
      have "64 - 7 * i = (64 - 7 * (i + 1)) + 7" using i8 by simp
      then have "unat y < 2 ^ (64 - 7 * (i + 1)) * 2 ^ 7" using "1.prems"(3) by (simp only: power_add)
      then show ?thesis by (simp only: unat64_shr less_mult_imp_div_less)
    qed
    ultimately have "uvarint_loop (i + 1) ?x (put_uvarint (drop_bit 7 y) @ rest)
        = (word_of_nat (unat ?x + unat (drop_bit 7 y) * 2 ^ (7 * (i + 1))),
           int (i + 1 + length (put_uvarint (drop_bit 7 y))))"
      using i8 by (intro "1.IH" [OF True]) (simp_all only: x)
    moreover have "unat ?x + unat (drop_bit 7 y) * 2 ^ (7 * (i + 1)) = unat x + unat y * 2 ^ (7 * i)"
    proof -
      have "unat y mod 128 + unat y div 128 * 128 = unat y" by simp
      then have "unat y * 2 ^ (7 * i) = unat y mod 128 * 2 ^ (7 * i) + unat y div 128 * (128 * 2 ^ (7 * i))"
        by (metis add_mult_distrib mult.assoc)
      moreover have "(2 :: nat) ^ (7 * (i + 1)) = 128 * 2 ^ (7 * i)" by (simp add: power_add)
      moreover have "unat (drop_bit 7 y) = unat y div 128" by (simp only: unat64_shr) simp
      ultimately show ?thesis by (simp only: x)
    qed
    ultimately show ?thesis
      using True i8 byte_or80(2) [of y] by (simp only: put_uvarint.simps [of y] if_True append_Cons
          uvarint_loop.simps if_False) simp
  next
    case False
    have b: "unat (ucast y :: byte) = unat y" using False by (intro unat_ucast_small) simp
    have "unat y < 128" using False by (simp add: word_le_nat_alt)
    then have "(ucast y :: byte) < 0x80" using b by (simp add: word_less_nat_alt)
    moreover have "\<not> (i = 9 \<and> (ucast y :: byte) > 1)"
      using "1.prems"(3) b by (auto simp: word_less_nat_alt)
    moreover have "x OR push_bit (7 * i) (ucast (ucast y :: byte)) = word_of_nat (unat x + unat y * 2 ^ (7 * i))"
    proof -
      have "unat (x OR push_bit (7 * i) (ucast (ucast y :: byte))) = unat x + unat y * 2 ^ (7 * i)"
        using join7 [of i x "ucast y"] "1.prems" by (simp only: b)
      from arg_cong [OF this, of "word_of_nat :: nat \<Rightarrow> u64"] show ?thesis by (simp only: of_nat_unat ucast_id)
    qed
    ultimately show ?thesis
      using False "1.prems"(1) by (simp add: put_uvarint.simps [of y])
  qed
qed

lemma Uvarint_put: "Uvarint (put_uvarint y @ rest) = (y, int (length (put_uvarint y)))"
  using uvarint_loop_put [of 0 0 y rest] unat64_less [of y] by (simp add: Uvarint_def)

lemma read_uvarint_at:
  "drop p src = put_uvarint y @ rest \<Longrightarrow> read_uvarint src p = Inr (y, p + length (put_uvarint y))"
  using length_put_uvarint_pos [of y] by (simp add: read_uvarint_def Uvarint_put)

section \<open>Delta compression\<close>

lemma test_bit: "hf AND push_bit j 1 \<noteq> 0 \<longleftrightarrow> bit (hf :: u64) j"
  by (simp add: bit_iff_and_push_bit_not_eq_0)

lemma bit_collect:
  "j < 64 \<Longrightarrow> bit (foldl (\<lambda>h i. if P i then h OR push_bit i 1 else h) h0 is :: u64) j
     \<longleftrightarrow> bit h0 j \<or> j \<in> set is \<and> P j"
  by (induction "is" arbitrary: h0) (auto simp: bit_simps)

lemma bit_has_fields: "j < 16 \<Longrightarrow> bit (has_fields cur prv) j \<longleftrightarrow> cur ! j \<noteq> prv ! j"
  by (simp add: has_fields_def bit_collect TxField_MaxFields_def)

lemma length_op_fields [simp]: "length (op_fields op) = 16"
  by (simp add: op_fields_def)

lemma fields_addr_op: "fields_addr (op_fields op) = (Addr op)\<lparr>EditID := nilUID\<rparr>"
  by (cases "Addr op") (simp add: fields_addr_def op_fields_def)

lemma read_fields_at:
  "drop p src = concat (map (\<lambda>i. if hf AND push_bit i 1 \<noteq> 0 then be64 (cur ! i) else []) js) @ rest \<Longrightarrow>
     read_fields src hf js p prv =
       Inr (foldl (\<lambda>c j. if hf AND push_bit j 1 \<noteq> 0 then c[j := cur ! j] else c) prv js,
            p + length (concat (map (\<lambda>i. if hf AND push_bit i 1 \<noteq> 0 then be64 (cur ! i) else []) js)))"
proof (induction js arbitrary: p prv)
  case (Cons j js)
  let ?tl = "concat (map (\<lambda>i. if hf AND push_bit i 1 \<noteq> 0 then be64 (cur ! i) else []) js)"
  show ?case
  proof (cases "hf AND push_bit j 1 \<noteq> 0")
    case True
    then have d: "drop p src = be64 (cur ! j) @ ?tl @ rest" using Cons.prems by simp
    have "length (drop p src) = 8 + length (?tl @ rest)" by (subst d) simp
    then have l: "\<not> p + 8 > length src" by simp
    have "drop (p + 8) src = drop 8 (drop p src)" by (simp add: add.commute)
    then have "drop (p + 8) src = ?tl @ rest" by (simp add: d)
    from Cons.IH [OF this, of "prv[j := cur ! j]"] show ?thesis using True l d by simp
  next
    case False
    then show ?thesis using Cons by simp
  qed
qed simp

lemma foldl_update:
  "distinct js \<Longrightarrow> length prv = n \<Longrightarrow> k < n \<Longrightarrow>
     length (foldl (\<lambda>c j. if Q j then c[j := f j] else c) prv js) = n \<and>
     foldl (\<lambda>c j. if Q j then c[j := f j] else c) prv js ! k
       = (if k \<in> set js \<and> Q k then f k else prv ! k)"
proof (induction js arbitrary: prv)
  case (Cons a js)
  then show ?case by (cases "k = a") auto
qed simp

lemma put_fields_apply:
  assumes "length prv = 16" "length cur = 16"
  shows "foldl (\<lambda>c j. if has_fields cur prv AND push_bit j 1 \<noteq> 0 then c[j := cur ! j] else c) prv
           [0..<TxField_MaxFields] = cur"
  unfolding test_bit
proof (rule nth_equalityI)
  let ?l = "foldl (\<lambda>c j. if bit (has_fields cur prv) j then c[j := cur ! j] else c) prv [0..<TxField_MaxFields]"
  have u: "length ?l = 16 \<and> ?l ! k = (if k < 16 \<and> bit (has_fields cur prv) k then cur ! k else prv ! k)"
    if "k < 16" for k
    using foldl_update [of "[0..<TxField_MaxFields]" prv 16 k] that assms
    by (simp add: TxField_MaxFields_def)
  show "length ?l = length cur" using u [of 0] assms by simp
  fix k assume "k < length ?l"
  then have "k < 16" using u [of 0] by simp
  then show "?l ! k = cur ! k" using u [of k] bit_has_fields [of k cur prv] by auto
qed

text \<open>What an op looks like after a trip over the wire: the edit identifier is not carried
  and only the low byte of the flags is.\<close>

definition wire_image :: "tx_op \<Rightarrow> tx_op" where
  "wire_image op = op\<lparr>Addr := (Addr op)\<lparr>EditID := nilUID\<rparr>, Flags := ucast (ucast (Flags op) :: byte)\<rparr>"

lemma drop_next: "drop p src = xs @ ys \<Longrightarrow> drop (p + length xs) src = ys"
proof -
  assume eq: "drop p src = xs @ ys"
  have "drop (p + length xs) src = drop (length xs) (drop p src)" by (simp add: add.commute)
  then show ?thesis by (simp add: eq)
qed

lemma read_op_at:
  assumes prv: "length prv = 16" and src: "drop p src = put_op prv op @ rest"
    and len: "length src < 2 ^ 63"
  shows "read_op src p prv = Inr (wire_image op, p + length (put_op prv op), op_fields op)"
proof -
  let ?hf = "has_fields (op_fields op) prv"
  let ?u1 = "put_uvarint (Logical op)" and ?u2 = "put_uvarint (DataOfs op)"
    and ?u3 = "put_uvarint (DataLen op)" and ?u4 = "put_uvarint 0" and ?u5 = "put_uvarint ?hf"
    and ?f = "put_fields ?hf (op_fields op)"
  have d0: "drop p src = [ucast (Flags op)] @ ?u1 @ ?u2 @ ?u3 @ ?u4 @ ?u5 @ ?f @ rest"
    using src by (simp add: put_op_def Let_def)
  have lp: "p < length src" using d0 by (metis append_Cons drop_all leI list.distinct(1) append_Nil)
  have f: "src ! p = ucast (Flags op)"
    using d0 lp by (metis append_Cons Cons_nth_drop_Suc list.inject)
  note d1 = drop_next [OF d0, simplified length_Cons list.size(3)]
  define p1 where "p1 = p + 1"
  define p2 where "p2 = p1 + length ?u1"
  define p3 where "p3 = p2 + length ?u2"
  define p4 where "p4 = p3 + length ?u3"
  define p5 where "p5 = p4 + length ?u4"
  define p6 where "p6 = p5 + length ?u5"
  have e1: "drop p1 src = ?u1 @ ?u2 @ ?u3 @ ?u4 @ ?u5 @ ?f @ rest" using d1 by (simp add: p1_def)
  have e2: "drop p2 src = ?u2 @ ?u3 @ ?u4 @ ?u5 @ ?f @ rest" unfolding p2_def by (rule drop_next [OF e1])
  have e3: "drop p3 src = ?u3 @ ?u4 @ ?u5 @ ?f @ rest" unfolding p3_def by (rule drop_next [OF e2])
  have e4: "drop p4 src = ?u4 @ ?u5 @ ?f @ rest" unfolding p4_def by (rule drop_next [OF e3])
  have e5: "drop p5 src = ?u5 @ ?f @ rest" unfolding p5_def by (rule drop_next [OF e4])
  have e6: "drop p6 src = ?f @ rest" unfolding p6_def by (rule drop_next [OF e5])
  have "drop p5 src \<noteq> []" using e5 length_put_uvarint_pos by simp
  then have p5: "p5 < length src" by (metis drop_all leI)
  then have q: "go_int (int p5) = int p5" using len by (simp add: go_int_id)
  have rf: "read_fields src ?hf [0..<TxField_MaxFields] p6 prv = Inr (op_fields op, p6 + length ?f)"
    using read_fields_at [OF e6 [unfolded put_fields_def], of prv] put_fields_apply [OF prv length_op_fields]
    by (simp add: put_fields_def)
  have r: "read_uvarint src p1 = Inr (Logical op, p2)" "read_uvarint src p2 = Inr (DataOfs op, p3)"
    "read_uvarint src p3 = Inr (DataLen op, p4)" "read_uvarint src p4 = Inr (0, p5)"
    "read_uvarint src p5 = Inr (?hf, p6)"
    using read_uvarint_at [OF e1] read_uvarint_at [OF e2] read_uvarint_at [OF e3]
      read_uvarint_at [OF e4] read_uvarint_at [OF e5]
    by (simp_all only: p2_def p3_def p4_def p5_def p6_def)
  have "p6 + length ?f = p + length (put_op prv op)"
    by (simp add: p1_def p2_def p3_def p4_def p5_def p6_def put_op_def Let_def)
  then show ?thesis
    using p5 unfolding read_op_def p1_def [symmetric]
    by (simp add: r q rf f fields_addr_op wire_image_def Let_def) 
qed

section \<open>The section round trip\<close>

lemma readOps_loop_put:
  "length prv = 16 \<Longrightarrow> length src < 2 ^ 63 \<Longrightarrow> drop p src = put_ops prv ops \<Longrightarrow>
     readOps_loop src p prv acc = Some (Inr (acc @ map wire_image ops))"
proof (induction ops arbitrary: p prv acc)
  case Nil
  then show ?case by (simp add: readOps_loop.simps [of src p])
next
  case (Cons op ops)
  have d: "drop p src = put_op prv op @ put_ops (op_fields op) ops" using Cons.prems(3) by simp
  have "p < length src"
  proof (rule ccontr)
    assume "\<not> p < length src"
    then have "drop p src = []" by simp
    with d show False by (simp add: put_op_def Let_def)
  qed
  moreover have "readOps_loop src (p + length (put_op prv op)) (op_fields op) (acc @ [wire_image op])
      = Some (Inr ((acc @ [wire_image op]) @ map wire_image ops))"
    by (rule Cons.IH [OF length_op_fields Cons.prems(2) drop_next [OF d]])
  ultimately show ?case
    by (simp add: readOps_loop.simps [of src p] read_op_at [OF Cons.prems(1) d Cons.prems(2)])
qed

lemma readOps_put:
  "length (put_ops (replicate 16 0) ops) < 2 ^ 63 \<Longrightarrow>
     readOps acc (put_ops (replicate 16 0) ops) = Some (Inr (acc @ map wire_image ops))"
  using readOps_loop_put [of "replicate 16 0" _ 0 ops acc] by (simp add: readOps_def TxField_MaxFields_def)

abbreviation ops_bytes :: "tx_op list \<Rightarrow> byte list" where
  "ops_bytes ops \<equiv> put_ops (replicate TxField_MaxFields 0) ops"

lemma length_appendOps: "length (appendOps dst ops) = length dst + 4 + length (ops_bytes ops)"
  by (simp add: appendOps_def Let_def)

lemma readOpsSection_append:
  assumes "length (ops_bytes ops) < 2 ^ 32"
  shows "readOpsSection acc (appendOps dst ops @ rest) (length dst)
           = Some (Inr (acc @ map wire_image ops, length (appendOps dst ops)))"
proof -
  let ?b = "ops_bytes ops"
  have n: "unat (word_of_nat (length ?b) :: u32) = length ?b"
    using assms by (simp add: unat_of_nat)
  have "length ?b < 2 ^ 63" using assms by simp
  then have r: "readOps acc ?b = Some (Inr (acc @ map wire_image ops))"
    using readOps_put [of ops acc] by (simp add: TxField_MaxFields_def)
  show ?thesis
    by (simp add: readOpsSection_def appendOps_def Let_def n r)
qed

text \<open>Sizes: a uvarint has at most 10 bytes, an op at most 179.\<close>

lemma length_put_uvarint_le: "unat x < 2 ^ (7 * Suc k) \<Longrightarrow> length (put_uvarint x) \<le> Suc k"
proof (induction k arbitrary: x)
  case 0
  then have "\<not> 0x80 \<le> x" by (simp add: word_le_nat_alt)
  then show ?case by (simp add: put_uvarint.simps [of x])
next
  case (Suc k)
  have "unat x < 2 ^ (7 * Suc k) * 2 ^ 7"
    using Suc.prems by (simp only: power_add [symmetric]) (simp add: add.commute)
  then have "unat (drop_bit 7 x) < 2 ^ (7 * Suc k)"
    by (simp only: unat64_shr less_mult_imp_div_less)
  from Suc.IH [OF this] show ?case by (simp add: put_uvarint.simps [of x])
qed

lemma length_put_uvarint_10: "length (put_uvarint x) \<le> 10"
proof -
  have "unat x < 2 ^ (7 * Suc 9)" by (rule less_trans [OF unat64_less]) simp
  from length_put_uvarint_le [OF this] show ?thesis by simp
qed

lemma length_put_fields_le: "length (put_fields hf cur) \<le> 128"
proof -
  have "length (concat (map (\<lambda>i. if Q i then be64 (cur ! i) else []) js)) \<le> 8 * length js" for Q js
    by (induction js) auto
  from this [of "\<lambda>i. hf AND push_bit i 1 \<noteq> 0" "[0..<16]"]
  show ?thesis by (simp only: put_fields_def TxField_MaxFields_def) simp
qed

lemma length_put_ops_le: "length (put_ops prv ops) \<le> 179 * length ops"
proof (induction ops arbitrary: prv)
  case (Cons op ops)
  have "length (put_op prv op) \<le> 179"
    using length_put_uvarint_10 [of "Logical op"] length_put_uvarint_10 [of "DataOfs op"]
      length_put_uvarint_10 [of "DataLen op"] length_put_uvarint_10 [of 0]
      length_put_uvarint_10 [of "has_fields (op_fields op) prv"]
      length_put_fields_le [of "has_fields (op_fields op) prv" "op_fields op"]
    by (simp add: put_op_def Let_def)
  then show ?case using Cons [of "op_fields op"] by simp
qed simp

lemma ops_bytes_fit: "length ops \<le> 2 ^ 24 \<Longrightarrow> length (ops_bytes ops) < 2 ^ 32"
proof -
  assume "length ops \<le> 2 ^ 24"
  then have "179 * length ops \<le> 179 * 2 ^ 24" by simp
  also have "(179 * 2 ^ 24 :: nat) < 2 ^ 32" by simp
  finally show ?thesis using length_put_ops_le [of _ ops] by (rule le_less_trans [rotated])
qed

section \<open>Hostile sections\<close>

text \<open>The reserved skip is added to the position as a Go \<open>int\<close>, so a skip of at least
  \<open>2^63\<close> moves it backwards.  The bytes of \<open>looping_ops\<close> make each op read
  its field mask from position 0 and continue at position 1.\<close>

definition looping_ops :: "byte list" where
  "looping_ops =
     [0, 0, 0, 0, 0xF2, 0xFF, 0xFF, 0xFF, 0xFF, 0xFF, 0xFF, 0xFF, 0xFF, 1,
      0xE8, 0xFF, 0xFF, 0xFF, 0xFF, 0xFF, 0xFF, 0xFF, 0xFF, 1]"

definition panicking_ops :: "byte list" where
  "panicking_ops = [0, 0, 0, 0, 0xF1, 0xFF, 0xFF, 0xFF, 0xFF, 0xFF, 0xFF, 0xFF, 0xFF, 1]"

lemma looping_step:
  "\<exists>op. read_op looping_ops 0 (replicate 16 0) = Inr (op, 1, replicate 16 0)"
  "\<exists>op. read_op looping_ops 1 (replicate 16 0) = Inr (op, 1, replicate 16 0)"
  by (rule exI, code_simp)+

lemma looping_diverges: "readOps_loop looping_ops 1 (replicate 16 0) acc = None"
proof -
  have "src = looping_ops \<longrightarrow> p = 1 \<longrightarrow> cur \<noteq> replicate 16 0"
    if "readOps_loop src p cur acc = Some r" for src p cur acc r
  proof (rule readOps_loop.raw_induct [OF _ that])
    fix f src p cur acc r
    assume IH: "\<And>src p cur acc r. f src p cur acc = Some r \<Longrightarrow>
        src = looping_ops \<longrightarrow> p = 1 \<longrightarrow> cur \<noteq> replicate 16 0"
      and eq: "(if p < length src then
          (case read_op src p cur of Inl e \<Rightarrow> Some (Inl e) | Inr (op, p', cur') \<Rightarrow> f src p' cur' (acc @ [op]))
        else Some (Inr acc)) = Some r"
    show "src = looping_ops \<longrightarrow> p = 1 \<longrightarrow> cur \<noteq> replicate 16 0"
    proof (intro impI notI)
      assume e: "src = looping_ops" "p = 1" "cur = replicate 16 0"
      obtain op where op: "read_op looping_ops 1 (replicate 16 0) = Inr (op, 1, replicate 16 0)"
        using looping_step(2) by blast
      have "1 < length looping_ops" by (simp add: looping_ops_def)
      then have "f looping_ops 1 (replicate 16 0) (acc @ [op]) = Some r"
        using eq e op by simp
      then show False using IH by blast
    qed
  qed
  then show ?thesis by (metis not_None_eq)
qed

lemma looping_section: "readOpsSection acc (be32 24 @ looping_ops) 0 = None"
proof -
  obtain op where op: "read_op looping_ops 0 (replicate 16 0) = Inr (op, 1, replicate 16 0)"
    using looping_step(1) by blast
  have l: "length looping_ops = 24" by (simp add: looping_ops_def)
  have "readOps acc looping_ops = readOps_loop looping_ops 1 (replicate 16 0) (acc @ [op])"
    using op l by (simp add: readOps_def TxField_MaxFields_def readOps_loop.simps [of looping_ops 0])
  then show ?thesis by (simp add: readOpsSection_def l looping_diverges del: One_nat_def)
qed

lemma panicking_section: "readOpsSection acc (be32 14 @ panicking_ops) 0 = Some (Inl Panic)"
proof -
  have op: "read_op panicking_ops 0 (replicate 16 0) = Inl Panic" by code_simp
  have l: "length panicking_ops = 14" by (simp add: panicking_ops_def)
  have "readOps acc panicking_ops = Some (Inl Panic)"
    using op l by (simp add: readOps_def TxField_MaxFields_def readOps_loop.simps [of panicking_ops 0])
  then show ?thesis by (simp add: readOpsSection_def l)
qed

section \<open>Properties\<close>

text \<open>C16. The ops section is lossless: whatever ops are encoded after whatever bytes, the
  decoder started at the section returns them (up to \<open>2^24\<close> ops, so that the 32-bit length
  prefix cannot wrap), with the edit identifier cleared and the flags
  cut to their low byte, and stops exactly at the end of the section.\<close>

theorem ops_section_roundtrip:
  assumes "length ops \<le> 2 ^ 24"
  shows "readOpsSection acc (appendOps dst ops @ rest) (length dst)
           = Some (Inr (acc @ map wire_image ops, length (appendOps dst ops)))"
  using ops_bytes_fit [OF assms] by (rule readOpsSection_append)

theorem ops_section_roundtrip_witness:
  "readOpsSection [] (appendOps [1, 2] [\<lparr>Addr = nilAddress, Flags = 4, Logical = 0, DataOfs = 7, DataLen = 300\<rparr>] @ [3])
      (length [1 :: byte, 2])
     = Some (Inr ([] @ map wire_image [\<lparr>Addr = nilAddress, Flags = 4, Logical = 0, DataOfs = 7, DataLen = 300\<rparr>],
         length (appendOps [1, 2] [\<lparr>Addr = nilAddress, Flags = 4, Logical = 0, DataOfs = 7, DataLen = 300\<rparr>])))"
  by (rule ops_section_roundtrip) simp

text \<open>The decoder is not safe on hostile input: a 28-byte section makes \<open>readOps\<close>
  loop for ever (appending an op each time), and an 18-byte one makes it slice at a negative
  position and panic.\<close>

theorem hostile_ops_sections:
  "readOpsSection acc (be32 24 @ looping_ops) 0 = None \<and>
   readOpsSection acc (be32 14 @ panicking_ops) 0 = Some (Inl Panic)"
  using looping_section panicking_section by blast

end
