(* ===== verification/TxMsg.thy ===== *)
theory TxMsg
  imports TxOps "HOL-Library.Multiset"
begin

text \<open>
  The in-memory transaction of \<open>amp/amp.support.tx.go\<close> and \<open>amp/api.apps.go\<close>: envelope
  and header accessors, normalization, value lookup, op authoring, and the reconstruction of
  edit identifiers after decode.  The codec of protobuf values is generated code and a
  parameter (\<open>marshal\<close>, \<open>unmarshal\<close>); the nested \<open>PinRequest\<close> of a header is kept
  as its serialized bytes.
\<close>

section \<open>State\<close>

record tx_envelope =
  TxID_0 :: u64
  TxID_1 :: u64
  Planet_0 :: u64
  Planet_1 :: u64
  Epoch_0 :: u64
  Epoch_1 :: u64
  MemberProof :: "byte list"
  PlanetEpoch_0 :: u64
  PlanetEpoch_1 :: u64

record tx_header =
  ContextID_0 :: u64
  ContextID_1 :: u64
  FromID_0 :: u64
  FromID_1 :: u64
  Status :: u32
  Request :: "byte list option"

record tx_msg =
  TxEnvelope :: tx_envelope
  TxHeader :: tx_header
  Ops :: "tx_op list"
  DataStore :: "byte list"
  Normalized :: bool
  cryptOfs :: u64

definition emptyEnvelope :: tx_envelope where
  "emptyEnvelope = \<lparr>TxID_0 = 0, TxID_1 = 0, Planet_0 = 0, Planet_1 = 0, Epoch_0 = 0, Epoch_1 = 0,
     MemberProof = [], PlanetEpoch_0 = 0, PlanetEpoch_1 = 0\<rparr>"

definition emptyHeader :: tx_header where
  "emptyHeader = \<lparr>ContextID_0 = 0, ContextID_1 = 0, FromID_0 = 0, FromID_1 = 0, Status = 0, Request = None\<rparr>"

definition TxNew :: tx_msg where
  "TxNew = \<lparr>TxEnvelope = emptyEnvelope, TxHeader = emptyHeader, Ops = [], DataStore = [],
     Normalized = False, cryptOfs = 0\<rparr>"

section \<open>Envelope and header accessors\<close>

definition TxID :: "tx_envelope \<Rightarrow> uid" where "TxID tx = UID (TxID_0 tx) (TxID_1 tx)"
definition SetTxID :: "uid \<Rightarrow> tx_envelope \<Rightarrow> tx_envelope" where
  "SetTxID i tx = tx\<lparr>TxID_0 := uid0 i, TxID_1 := uid1 i\<rparr>"
definition MemberProofInput :: "tx_envelope \<Rightarrow> byte list" where
  "MemberProofInput tx = UID_AppendTo (TxID tx) []"
definition PlanetID :: "tx_envelope \<Rightarrow> uid" where "PlanetID tx = UID (Planet_0 tx) (Planet_1 tx)"
definition SetPlanetID :: "uid \<Rightarrow> tx_envelope \<Rightarrow> tx_envelope" where
  "SetPlanetID i tx = tx\<lparr>Planet_0 := uid0 i, Planet_1 := uid1 i\<rparr>"
definition EpochID :: "tx_envelope \<Rightarrow> uid" where "EpochID tx = UID (Epoch_0 tx) (Epoch_1 tx)"
definition SetEpochID :: "uid \<Rightarrow> tx_envelope \<Rightarrow> tx_envelope" where
  "SetEpochID i tx = tx\<lparr>Epoch_0 := uid0 i, Epoch_1 := uid1 i\<rparr>"
definition IsPublic :: "tx_envelope \<Rightarrow> bool" where
  "IsPublic tx \<longleftrightarrow> Epoch_0 tx = 0 \<and> Epoch_1 tx = 0"
definition PlanetEpochID :: "tx_envelope \<Rightarrow> uid" where
  "PlanetEpochID tx = UID (PlanetEpoch_0 tx) (PlanetEpoch_1 tx)"
definition SetPlanetEpochID :: "uid \<Rightarrow> tx_envelope \<Rightarrow> tx_envelope" where
  "SetPlanetEpochID i tx = tx\<lparr>PlanetEpoch_0 := uid0 i, PlanetEpoch_1 := uid1 i\<rparr>"
definition FromID :: "tx_header \<Rightarrow> uid" where "FromID tx = UID (FromID_0 tx) (FromID_1 tx)"
definition SetFromID :: "uid \<Rightarrow> tx_header \<Rightarrow> tx_header" where
  "SetFromID i tx = tx\<lparr>FromID_0 := uid0 i, FromID_1 := uid1 i\<rparr>"
definition SetContextID :: "uid \<Rightarrow> tx_header \<Rightarrow> tx_header" where
  "SetContextID i tx = tx\<lparr>ContextID_0 := uid0 i, ContextID_1 := uid1 i\<rparr>"
definition ContextID :: "tx_header \<Rightarrow> uid" where "ContextID tx = UID (ContextID_0 tx) (ContextID_1 tx)"

section \<open>Reading values\<close>

definition skip_header :: "byte \<Rightarrow> u64 \<Rightarrow> u64" where
  "skip_header UIDs ofs =
     foldl (\<lambda>o' i. if UIDs AND push_bit i 1 \<noteq> 0 then o' + 16 else o') (ofs + 1) [0..<4]"

definition OpValueBytes :: "tx_msg \<Rightarrow> int \<Rightarrow> byte list outcome" where
  "OpValueBytes tx opIndex =
     (if opIndex < 0 \<or> opIndex \<ge> int (length (Ops tx)) then Inl ErrMalformedTx
      else let op = Ops tx ! nat opIndex; ofs = DataOfs op; end' = ofs + DataLen op
           in if DataLen op < 1 \<or> ofs > end' \<or> unat end' > length (DataStore tx) then Inl ErrBadTxOp
              else let ofs' = skip_header (DataStore tx ! unat ofs) ofs
                   in if ofs' > end' then Inl ErrBadTxOp
                      else Inr (take (unat end' - unat ofs') (drop (unat ofs') (DataStore tx))))"

definition UnmarshalOpValue :: "(byte list \<Rightarrow> 'v outcome) \<Rightarrow> tx_msg \<Rightarrow> int \<Rightarrow> 'v outcome" where
  "UnmarshalOpValue unmarshal tx opIndex = and_then (OpValueBytes tx opIndex) unmarshal"

fun find_index_from :: "nat \<Rightarrow> (tx_op \<Rightarrow> bool) \<Rightarrow> tx_op list \<Rightarrow> nat option" where
  "find_index_from i p [] = None"
| "find_index_from i p (op # ops) = (if p op then Some i else find_index_from (Suc i) p ops)"

definition ExtractValue :: "(byte list \<Rightarrow> 'v outcome) \<Rightarrow> tx_msg \<Rightarrow> uid \<Rightarrow> uid \<Rightarrow> 'v outcome" where
  "ExtractValue unmarshal tx attrID itemID =
     (case find_index_from 0 (\<lambda>op. AttrID (Addr op) = attrID \<and> ItemID (Addr op) = itemID) (Ops tx) of
        Some i \<Rightarrow> UnmarshalOpValue unmarshal tx (int i)
      | None \<Rightarrow> Inl ErrAttrNotFound)"

section \<open>Normalization\<close>

fun check_ops :: "nat \<Rightarrow> tx_op list \<Rightarrow> unit outcome" where
  "check_ops storeLen [] = Inr ()"
| "check_ops storeLen (op # ops) =
     (if IsNil (EditID (Addr op)) then Inl ErrBadTxEdit
      else let spanEnd = DataOfs op + DataLen op
           in if spanEnd < DataOfs op \<or> unat spanEnd > storeLen then Inl ErrBadTxOp
              else check_ops storeLen ops)"

text \<open>\<open>sort.Slice\<close> with \<open>Compare < 0\<close>.  It is not stable; the order it leaves among
  equal addresses is visible only on a transaction that is then rejected.\<close>

fun insert_op :: "tx_op \<Rightarrow> tx_op list \<Rightarrow> tx_op list" where
  "insert_op x [] = [x]"
| "insert_op x (y # ys) = (if Compare (Addr x) (Addr y) < 0 then x # y # ys else y # insert_op x ys)"

fun sort_ops :: "tx_op list \<Rightarrow> tx_op list" where
  "sort_ops [] = []"
| "sort_ops (x # xs) = insert_op x (sort_ops xs)"

fun has_duplicate :: "tx_op list \<Rightarrow> bool" where
  "has_duplicate (x # y # ys) = (Compare (Addr x) (Addr y) = 0 \<or> has_duplicate (y # ys))"
| "has_duplicate _ = False"

definition Normalize :: "bool \<Rightarrow> tx_msg \<Rightarrow> tx_msg \<times> unit outcome" where
  "Normalize force tx =
     (if \<not> force \<and> Normalized tx then (tx, Inr ())
      else case check_ops (length (DataStore tx)) (Ops tx) of
             Inl e \<Rightarrow> (tx, Inl e)
           | Inr _ \<Rightarrow>
               let tx' = tx\<lparr>Ops := sort_ops (Ops tx)\<rparr>
               in if has_duplicate (Ops tx') then (tx', Inl ErrBadTxOp)
                  else (tx'\<lparr>Normalized := True\<rparr>, Inr ()))"

section \<open>Lookup\<close>

text \<open>\<open>sort.Find\<close>: the smallest index at which \<open>cmp\<close> is not positive, by binary
  search.\<close>

function find_loop :: "(nat \<Rightarrow> int) \<Rightarrow> nat \<Rightarrow> nat \<Rightarrow> nat" where
  "find_loop cmp i j =
     (if i < j then
        (let h = (i + j) div 2
         in if cmp h > 0 then find_loop cmp (h + 1) j else find_loop cmp i h)
      else i)"
  by pat_completeness auto
termination by (relation "measure (\<lambda>(cmp, i, j). j - i)") auto

declare find_loop.simps [simp del]

definition LoadValue ::
  "(byte list \<Rightarrow> 'v outcome) \<Rightarrow> tx_msg \<Rightarrow> address \<Rightarrow> tx_msg \<times> 'v outcome" where
  "LoadValue unmarshal tx0 want =
     (let tx = fst (Normalize False tx0)
      in (tx,
          if IsWildcard (ItemID want) then
            (case find_index_from 0
                    (\<lambda>op. NodeID (Addr op) = NodeID want \<and> AttrID (Addr op) = AttrID want) (Ops tx) of
               Some i \<Rightarrow> UnmarshalOpValue unmarshal tx (int i)
             | None \<Rightarrow> Inl ErrAttrNotFound)
          else
            let N = length (Ops tx);
                idx = find_loop (\<lambda>i. CompareElementID (Addr (Ops tx ! i)) want) 0 N
            in if idx \<ge> N then Inl ErrAttrNotFound
               else if ElementLSM (Addr (Ops tx ! idx)) \<noteq> ElementLSM want then Inl ErrAttrNotFound
               else UnmarshalOpValue unmarshal tx (int idx)))"

section \<open>Authoring\<close>

text \<open>\<open>MarshalOp\<close> updates the transaction and the op through pointers.  \<open>check\<close> stands
  for \<open>checkTagSyntax\<close> on the value; on an error only the op's edit identifier has changed.\<close>

definition MarshalOp ::
  "('v \<Rightarrow> unit outcome) \<Rightarrow> ('v \<Rightarrow> byte list outcome) \<Rightarrow> tx_msg \<Rightarrow> tx_op \<Rightarrow> 'v option
     \<Rightarrow> (tx_msg \<times> tx_op) \<times> unit outcome" where
  "MarshalOp check marshal tx op0 val =
     (let op = op0\<lparr>Addr := (Addr op0)\<lparr>EditID := TxID (TxEnvelope tx)\<rparr>\<rparr>;
          startOfs = length (DataStore tx);
          ds = DataStore tx @ [1] @ be64 (FromID_0 (TxHeader tx)) @ be64 (FromID_1 (TxHeader tx));
          content = (case val of None \<Rightarrow> Inr []
                     | Some v \<Rightarrow> and_then (check v) (\<lambda>_. marshal v))
      in case content of
           Inl e \<Rightarrow> ((tx, op), Inl e)
         | Inr bytes \<Rightarrow>
             let ds = ds @ bytes;
                 op = op\<lparr>DataLen := word_of_nat (length ds - startOfs), DataOfs := word_of_nat startOfs\<rparr>
             in ((tx\<lparr>DataStore := ds, Ops := Ops tx @ [op], Normalized := False\<rparr>, op), Inr ()))"

definition Upsert ::
  "('v \<Rightarrow> unit outcome) \<Rightarrow> ('v \<Rightarrow> byte list outcome) \<Rightarrow> tx_msg \<Rightarrow> uid \<Rightarrow> uid \<Rightarrow> uid \<Rightarrow> 'v option
     \<Rightarrow> tx_msg \<times> unit outcome" where
  "Upsert check marshal tx nodeID attrID itemID val =
     (let op = \<lparr>Addr = \<lparr>NodeID = nodeID, AttrID = attrID, ItemID = itemID, EditID = nilUID\<rparr>,
                Flags = 4, Logical = 0, DataOfs = 0, DataLen = 0\<rparr>;
          (r, res) = MarshalOp check marshal tx op val
      in (fst r, res))"

definition Delete ::
  "('v \<Rightarrow> unit outcome) \<Rightarrow> ('v \<Rightarrow> byte list outcome) \<Rightarrow> tx_msg \<Rightarrow> element_id \<Rightarrow> 'v option
     \<Rightarrow> tx_msg \<times> unit outcome" where
  "Delete check marshal tx elemID val =
     (let op = \<lparr>Addr = \<lparr>NodeID = NodeID elemID, AttrID = AttrID elemID, ItemID = ItemID elemID, EditID = nilUID\<rparr>,
                Flags = 8, Logical = 0, DataOfs = 0, DataLen = 0\<rparr>;
          (r, res) = MarshalOp check marshal tx op val
      in (fst r, res))"

definition MarshalOpAndData :: "tx_msg \<Rightarrow> tx_op \<Rightarrow> byte list \<Rightarrow> tx_msg" where
  "MarshalOpAndData tx op0 opValue =
     (let op = op0\<lparr>DataOfs := word_of_nat (length (DataStore tx)), DataLen := word_of_nat (length opValue)\<rparr>
      in tx\<lparr>DataStore := DataStore tx @ opValue, Ops := Ops tx @ [op], Normalized := False\<rparr>)"

section \<open>Edit identifiers after decode\<close>

definition reconstruct_op :: "uid \<Rightarrow> byte list \<Rightarrow> tx_op \<Rightarrow> tx_op" where
  "reconstruct_op txID store op0 =
     (let op = op0\<lparr>Addr := (Addr op0)\<lparr>EditID := txID\<rparr>\<rparr>
      in if DataLen op = 0 \<or> unat (DataOfs op) \<ge> length store then op
         else let headerFlags = store ! unat (DataOfs op)
              in if headerFlags AND 2 = 0 then op
                 else let txIDOfs = DataOfs op + 1 + (if headerFlags AND 1 \<noteq> 0 then 16 else 0)
                      in if txIDOfs + 16 > DataOfs op + DataLen op \<or> unat (txIDOfs + 16) > length store
                         then op
                         else op\<lparr>Addr := (Addr op)\<lparr>EditID :=
                                  UID (get64 (unat txIDOfs) store) (get64 (unat (txIDOfs + 8)) store)\<rparr>\<rparr>)"

definition reconstructEditIDs :: "tx_msg \<Rightarrow> tx_msg" where
  "reconstructEditIDs tx =
     tx\<lparr>Ops := map (reconstruct_op (TxID (TxEnvelope tx)) (DataStore tx)) (Ops tx)\<rparr>"

section \<open>The address order as a number\<close>

definition addr_rank :: "address \<Rightarrow> nat" where
  "addr_rank a = be_val (element_bytes a) * 2 ^ 128 + (2 ^ 128 - 1 - uval (EditID a))"

lemma cmp_pair:
  fixes M :: nat
  assumes "p < M" "q < M"
  shows "cmp_int (x * M + p) (y * M + q) = (if x \<noteq> y then cmp_int x y else cmp_int p q)"
proof -
  have lt: "a * M + c < b * M + d" if "a < b" "c < M" for a b c d
  proof -
    have "a * M + c < Suc a * M" using that by simp
    also have "\<dots> \<le> b * M" using that by (intro mult_le_mono1) simp
    finally show ?thesis by simp
  qed
  consider "x < y" | "y < x" | "x = y" by (meson linorder_neqE_nat)
  then show ?thesis
    using lt [of x y p q] lt [of y x q p] assms by cases (auto simp: cmp_int_def)
qed

lemma cmp_mirror: "p \<le> K \<Longrightarrow> q \<le> K \<Longrightarrow> cmp_int (K - p) (K - q) = cmp_int q p"
  by (auto simp: cmp_int_def)

lemma Compare_rank: "Compare a b = cmp_int (addr_rank a) (addr_rank b)"
proof -
  have e: "CompareElementID a b = cmp_int (be_val (element_bytes a)) (be_val (element_bytes b))"
    by (simp add: bytes_compare_be_val flip: element_bytes_order)
  have u: "2 ^ 128 - 1 - uval u < 2 ^ 128" for u
    by (rule le_less_trans [OF diff_le_self]) simp
  have n: "cmp_int (2 ^ 128 - 1 - uval (EditID a)) (2 ^ 128 - 1 - uval (EditID b))
      = cmp_int (uval (EditID b)) (uval (EditID a))"
    using uval_bound [of "EditID a"] uval_bound [of "EditID b"] by (intro cmp_mirror) linarith+
  show ?thesis
    unfolding Compare_lex e addr_rank_def cmp_pair [OF u u] n CompareTo_uval
    by (auto simp: cmp_int_def)
qed

lemma addr_rank_inject: "addr_rank a = addr_rank b \<longleftrightarrow> a = b"
proof
  assume "addr_rank a = addr_rank b"
  then have z: "Compare a b = 0" by (simp add: Compare_rank cmp_int_def)
  then have c: "CompareElementID a b = 0" by (auto simp: Compare_lex split: if_splits)
  then have "CompareTo (EditID b) (EditID a) = 0" using z by (simp add: Compare_lex)
  then have ed: "EditID a = EditID b" by (simp add: CompareTo_simps)
  have "NodeID a = NodeID b \<and> AttrID a = AttrID b \<and> ItemID a = ItemID b"
    using c by (auto simp: CompareElementID_lex CompareTo_simps split: if_splits)
  with ed show "a = b" by simp
qed simp

lemma Compare_zero: "Compare a b = 0 \<longleftrightarrow> a = b"
  by (simp add: Compare_rank cmp_int_def flip: addr_rank_inject)

abbreviation op_rank :: "tx_op \<Rightarrow> nat" where "op_rank op \<equiv> addr_rank (Addr op)"

lemma Compare_less: "Compare (Addr x) (Addr y) < 0 \<longleftrightarrow> op_rank x < op_rank y"
  by (simp add: Compare_rank cmp_int_def)

section \<open>Normalization: lemmas\<close>

lemma mset_insert_op [simp]: "mset (insert_op x ys) = add_mset x (mset ys)"
  by (induction ys) auto

lemma mset_sort_ops [simp]: "mset (sort_ops xs) = mset xs"
  by (induction xs) auto

lemma set_sort_ops [simp]: "set (sort_ops xs) = set xs"
  using mset_sort_ops by (metis set_mset_mset)

lemma set_insert_op: "set (insert_op x ys) = insert x (set ys)"
  by (induction ys) auto

lemma sorted_insert_op: "sorted (map op_rank ys) \<Longrightarrow> sorted (map op_rank (insert_op x ys))"
  by (induction ys) (auto simp: Compare_less set_insert_op)

lemma sorted_sort_ops: "sorted (map op_rank (sort_ops xs))"
  by (induction xs) (auto intro: sorted_insert_op)

lemma no_duplicate:
  "sorted (map op_rank xs) \<Longrightarrow> \<not> has_duplicate xs \<longleftrightarrow> distinct (map Addr xs)"
proof (induction xs rule: has_duplicate.induct)
  case (1 x y ys)
  have "Addr x \<notin> Addr ` set (y # ys)" if "Addr x \<noteq> Addr y" "\<not> has_duplicate (y # ys)"
  proof
    assume "Addr x \<in> Addr ` set (y # ys)"
    then obtain z where z: "z \<in> set (y # ys)" "Addr z = Addr x" by (metis imageE)
    have "op_rank x \<le> op_rank y" "op_rank y \<le> op_rank z" using "1.prems" z(1) by auto
    then have "op_rank x = op_rank y" using z(2) by simp
    with that(1) show False by (simp add: addr_rank_inject)
  qed
  then show ?case using 1 by (auto simp: Compare_zero)
qed auto

definition span_ok :: "nat \<Rightarrow> tx_op \<Rightarrow> bool" where
  "span_ok storeLen op \<longleftrightarrow> unat (DataOfs op) + unat (DataLen op) \<le> storeLen \<and>
     unat (DataOfs op) + unat (DataLen op) < 2 ^ 64"

lemma no_wrap:
  "(a + b :: u64) < a \<longleftrightarrow> 2 ^ 64 \<le> unat a + unat b"
  "\<not> 2 ^ 64 \<le> unat a + unat b \<Longrightarrow> unat (a + b) = unat a + unat b"
proof -
  have s: "unat (a + b) = (unat a + unat b) mod 2 ^ 64" by (rule unat64_add)
  then show "\<not> 2 ^ 64 \<le> unat a + unat b \<Longrightarrow> unat (a + b) = unat a + unat b" by simp
  have "unat (a + b) < unat a" if "2 ^ 64 \<le> unat a + unat b"
  proof -
    have "unat (a + b) = unat a + unat b - 2 ^ 64"
      unfolding s using that unat64_less [of a] unat64_less [of b]
      by (simp add: mod_if)
    then show ?thesis using unat64_less [of b] that by linarith
  qed
  then show "(a + b :: u64) < a \<longleftrightarrow> 2 ^ 64 \<le> unat a + unat b"
    using s by (cases "2 ^ 64 \<le> unat a + unat b") (simp_all only: word_less_nat_alt mod_less not_le, simp_all)
qed

lemma check_ops_ok:
  "check_ops n ops = Inr () \<longleftrightarrow> (\<forall>op \<in> set ops. EditID (Addr op) \<noteq> nilUID \<and> span_ok n op)"
proof (induction ops)
  case (Cons op ops)
  have "\<not> (DataOfs op + DataLen op < DataOfs op \<or> unat (DataOfs op + DataLen op) > n) \<longleftrightarrow> span_ok n op"
    using no_wrap [of "DataOfs op" "DataLen op"] by (auto simp: span_ok_def)
  then show ?case using Cons by (cases "span_ok n op") (simp_all add: IsNil_iff Let_def)
qed simp

lemma Normalize_run:
  assumes "force \<or> \<not> Normalized tx" "check_ops (length (DataStore tx)) (Ops tx) = Inr ()"
  shows "Normalize force tx =
    (if distinct (map Addr (Ops tx)) then (tx\<lparr>Ops := sort_ops (Ops tx), Normalized := True\<rparr>, Inr ())
     else (tx\<lparr>Ops := sort_ops (Ops tx)\<rparr>, Inl ErrBadTxOp))"
proof -
  have "distinct (map Addr (sort_ops (Ops tx))) \<longleftrightarrow> distinct (map Addr (Ops tx))"
    by (metis mset_map mset_sort_ops mset_eq_imp_distinct_iff)
  then show ?thesis
    using assms no_duplicate [OF sorted_sort_ops, of "Ops tx"] by (auto simp: Normalize_def Let_def)
qed

lemma sorted_strict:
  "sorted (map op_rank xs) \<Longrightarrow> distinct (map Addr xs) \<Longrightarrow>
     sorted_wrt (\<lambda>x y. Compare (Addr x) (Addr y) < 0) xs"
  unfolding Compare_less
  by (induction xs) (auto simp: le_less addr_rank_inject image_iff)

section \<open>Lookup: lemmas\<close>

lemma find_loop_bounds: "i \<le> j \<Longrightarrow> i \<le> find_loop cmp i j \<and> find_loop cmp i j \<le> j"
proof (induction cmp i j rule: find_loop.induct)
  case (1 cmp i j)
  then show ?case by (subst (1 2) find_loop.simps) (fastforce simp: Let_def)
qed

lemma find_loop_left:
  "i \<le> j \<Longrightarrow> find_loop cmp i j = i \<or> 0 < cmp (find_loop cmp i j - 1)"
proof (induction cmp i j rule: find_loop.induct)
  case (1 cmp i j)
  let ?h = "(i + j) div 2"
  show ?case
  proof (cases "i < j")
    case True
    then show ?thesis
    proof (cases "cmp ?h > 0")
      case c: True
      then have "find_loop cmp i j = find_loop cmp (?h + 1) j"
        using True by (subst find_loop.simps) (simp add: Let_def)
      then show ?thesis using "1.IH"(1) [OF True refl c] c True by auto
    next
      case False
      then have "find_loop cmp i j = find_loop cmp i ?h"
        using True by (subst find_loop.simps) (simp add: Let_def)
      then show ?thesis using "1.IH"(2) [OF True refl False] True by auto
    qed
  qed (simp add: find_loop.simps)
qed

lemma find_loop_zero: "i < j \<Longrightarrow> find_loop cmp i j = i \<Longrightarrow> \<not> 0 < cmp ((i + j) div 2)"
proof
  let ?h = "(i + j) div 2"
  assume a: "i < j" "find_loop cmp i j = i" "0 < cmp ?h"
  then have "find_loop cmp i j = find_loop cmp (?h + 1) j" by (subst find_loop.simps) (simp add: Let_def)
  moreover have "?h + 1 \<le> find_loop cmp (?h + 1) j"
    using find_loop_bounds [of "?h + 1" j cmp] a(1) by auto
  ultimately show False using a by auto
qed

text \<open>With the elements in ascending order the comparison passed to \<open>sort.Find\<close> ascends
  too, where \<open>sort.Find\<close> needs it to descend: among two or more elements the search never
  ends on the wanted one.\<close>

lemma find_wrong_way:
  fixes want :: address
  assumes asc: "sorted_wrt (\<lambda>x y. CompareElementID (Addr x) (Addr y) < 0) ops" and n: "2 \<le> length ops"
    and idx: "idx = find_loop (\<lambda>i. CompareElementID (Addr (ops ! i)) want) 0 (length ops)"
      "idx < length ops"
  shows "ElementLSM (Addr (ops ! idx)) \<noteq> ElementLSM want"
proof
  let ?v = "\<lambda>a :: address. be_val (element_bytes a)"
  have cmp: "CompareElementID a b = cmp_int (?v a) (?v b)" for a b :: address
    by (simp add: bytes_compare_be_val flip: element_bytes_order)
  assume "ElementLSM (Addr (ops ! idx)) = ElementLSM want"
  then have w: "?v want = ?v (Addr (ops ! idx))" by (simp add: ElementLSM_bytes)
  have lt: "?v (Addr (ops ! i)) < ?v (Addr (ops ! j))" if "i < j" "j < length ops" for i j
    using asc that by (fastforce simp: sorted_wrt_iff_nth_less cmp cmp_int_def split: if_splits)
  have left: "idx = 0 \<or> 0 < CompareElementID (Addr (ops ! (idx - 1))) want"
    using find_loop_left [of 0 "length ops"] by (simp add: idx(1))
  show False
  proof (cases "idx = 0")
    case True
    let ?h = "(0 + length ops) div 2"
    have "0 < ?h" "?h < length ops" using n by auto
    then have "?v (Addr (ops ! 0)) < ?v (Addr (ops ! ?h))" by (rule lt)
    then have "0 < CompareElementID (Addr (ops ! ?h)) want"
      using w True by (simp add: cmp cmp_int_def)
    moreover have "\<not> 0 < CompareElementID (Addr (ops ! ?h)) want"
      using find_loop_zero [of 0 "length ops" "\<lambda>i. CompareElementID (Addr (ops ! i)) want"]
        \<open>?h < length ops\<close> idx(1) True by (metis gr_implies_not0 neq0_conv)
    ultimately show False by blast
  next
    case False
    then have "?v (Addr (ops ! (idx - 1))) < ?v (Addr (ops ! idx))" using idx(2) by (intro lt) auto
    then show False using left False w by (simp add: cmp cmp_int_def)
  qed
qed

section \<open>Authoring: lemmas\<close>

lemma skip_header_author: "skip_header 1 ofs = ofs + 17"
  by (simp add: skip_header_def upt_rec add.assoc)

lemma value_span:
  assumes "unat ofs = length pre" "unat len = 17 + length bytes"
    and "length pre + 17 + length bytes < 2 ^ 64" "length hdr = 16"
  shows "(let end' = ofs + len
          in if len < 1 \<or> ofs > end' \<or> unat end' > length (pre @ [1] @ hdr @ bytes @ post) then Inl ErrBadTxOp
             else let ofs' = skip_header ((pre @ [1] @ hdr @ bytes @ post) ! unat ofs) ofs
                  in if ofs' > end' then Inl ErrBadTxOp
                     else Inr (take (unat end' - unat ofs') (drop (unat ofs') (pre @ [1] @ hdr @ bytes @ post))))
         = Inr bytes"
proof -
  have e: "unat (ofs + len) = length pre + 17 + length bytes"
    using no_wrap(2) [of ofs len] assms by simp
  have o17: "unat (ofs + 17) = length pre + 17"
    using no_wrap(2) [of ofs 17] assms by simp
  have h: "(pre @ [1] @ hdr @ bytes @ post) ! unat ofs = 1" using assms(1) by simp
  have "\<not> len < 1" using assms(2) by (simp add: word_less_nat_alt)
  moreover have "\<not> ofs > ofs + len" using assms(1) e by (simp add: word_less_nat_alt)
  moreover have "\<not> ofs + 17 > ofs + len" using o17 e by (simp add: word_less_nat_alt)
  ultimately show ?thesis
    using assms(1,4) by (simp add: Let_def h skip_header_author e o17)
qed

lemma MarshalOp_ok:
  assumes "MarshalOp check marshal tx op val = ((tx', op'), Inr ())"
  obtains bytes where "val = None \<and> bytes = [] \<or> (\<exists>v. val = Some v \<and> check v = Inr () \<and> marshal v = Inr bytes)"
    "DataStore tx' = DataStore tx @ [1] @ (be64 (FromID_0 (TxHeader tx)) @ be64 (FromID_1 (TxHeader tx))) @ bytes"
    "Ops tx' = Ops tx @ [op']" "DataOfs op' = word_of_nat (length (DataStore tx))"
    "DataLen op' = word_of_nat (17 + length bytes)"
    "Addr op' = (Addr op)\<lparr>EditID := TxID (TxEnvelope tx)\<rparr>" "Flags op' = Flags op" "\<not> Normalized tx'"
proof -
  let ?c = "case val of None \<Rightarrow> Inr [] | Some v \<Rightarrow> and_then (check v) (\<lambda>_. marshal v)"
  obtain bytes where c: "?c = Inr bytes"
    using assms by (cases ?c) (auto simp: MarshalOp_def Let_def)
  then have "val = None \<and> bytes = [] \<or> (\<exists>v. val = Some v \<and> check v = Inr () \<and> marshal v = Inr bytes)"
    by (auto split: option.splits simp: and_then_eq_Inr)
  then show thesis
    using assms c by (intro that [of bytes]) (auto simp: MarshalOp_def Let_def)
qed

lemma OpValueBytes_grow:
  assumes "OpValueBytes tx i = Inr b" "Ops tx' = Ops tx @ ops" "DataStore tx' = DataStore tx @ ds"
  shows "OpValueBytes tx' i = Inr b"
proof -
  let ?op = "Ops tx ! nat i"
  let ?e = "DataOfs ?op + DataLen ?op"
  let ?o = "skip_header (DataStore tx ! unat (DataOfs ?op)) (DataOfs ?op)"
  have i: "\<not> (i < 0 \<or> i \<ge> int (length (Ops tx)))"
    and c: "\<not> (DataLen ?op < 1 \<or> DataOfs ?op > ?e \<or> unat ?e > length (DataStore tx))"
    and h: "\<not> ?o > ?e" and b: "b = take (unat ?e - unat ?o) (drop (unat ?o) (DataStore tx))"
    using assms(1) by (auto simp: OpValueBytes_def Let_def split: if_splits)
  have "DataOfs ?op < ?e"
  proof -
    have "?e \<noteq> DataOfs ?op" using c by simp
    then show ?thesis using c by (simp add: not_less order.order_iff_strict)
  qed
  then have o': "unat (DataOfs ?op) < length (DataStore tx)" using c by (simp add: word_less_nat_alt)
  have "unat ?o \<le> unat ?e" using h by (simp add: word_less_nat_alt not_less)
  then have "take (unat ?e - unat ?o) (drop (unat ?o) (DataStore tx @ ds)) = b"
    using c b by simp
  moreover have "Ops tx' ! nat i = ?op" using i assms(2) by (simp add: nth_append nat_less_iff)
  moreover have "(DataStore tx @ ds) ! unat (DataOfs ?op) = DataStore tx ! unat (DataOfs ?op)"
    using o' by (simp add: nth_append)
  ultimately show ?thesis
    using i c h assms(2,3) by (simp add: OpValueBytes_def Let_def)
qed

lemma MarshalOp_reads_back:
  assumes "MarshalOp check marshal tx op (Some v) = ((tx', op'), Inr ())" "length (DataStore tx') < 2 ^ 64"
  shows "OpValueBytes tx' (int (length (Ops tx))) = marshal v"
proof -
  obtain bytes where b: "marshal v = Inr bytes"
    "DataStore tx' = DataStore tx @ [1] @ (be64 (FromID_0 (TxHeader tx)) @ be64 (FromID_1 (TxHeader tx))) @ bytes"
    "Ops tx' = Ops tx @ [op']" "DataOfs op' = word_of_nat (length (DataStore tx))"
    "DataLen op' = word_of_nat (17 + length bytes)"
    using MarshalOp_ok [OF assms(1)] by (metis option.distinct(1) option.inject)
  have l: "length (DataStore tx) + 17 + length bytes < 2 ^ 64" using assms(2) b(2) by simp
  have o: "unat (DataOfs op') = length (DataStore tx)" "unat (DataLen op') = 17 + length bytes"
    using l by (simp_all only: b unat64_of_nat, simp_all)
  show ?thesis
    using value_span [OF o l, of "be64 (FromID_0 (TxHeader tx)) @ be64 (FromID_1 (TxHeader tx))" "[]",
        unfolded append_Nil2, folded b(2)] b(1,3)
    by (simp add: OpValueBytes_def Let_def)
qed

section \<open>Identity: lemmas\<close>

lemma reconstruct_authored:
  "store ! unat (DataOfs op) AND 2 = 0 \<Longrightarrow> EditID (Addr (reconstruct_op txID store op)) = txID"
  by (simp add: reconstruct_op_def Let_def)

lemma reconstruct_served:
  assumes "unat (DataOfs op) = length pre" "unat (DataLen op) = 33 + length bytes"
    "length pre + 33 + length bytes < 2 ^ 64"
  shows "EditID (Addr (reconstruct_op txID (pre @ [3] @ id_bytes f @ id_bytes t @ bytes @ post) op)) = t"
proof -
  let ?s = "pre @ [3] @ id_bytes f @ id_bytes t @ bytes @ post"
  have u: "unat (DataOfs op + k) = length pre + unat k" if "unat k \<le> 33" for k
    using no_wrap(2) [of "DataOfs op" k] assms(1,3) that by simp
  have e: "unat (DataOfs op + DataLen op) = length pre + 33 + length bytes"
    using no_wrap(2) [of "DataOfs op" "DataLen op"] assms by simp
  have n: "?s ! unat (DataOfs op) = 3" using assms(1) by simp
  have g: "get64 (length pre + 17) ?s = uid0 t" "get64 (length pre + 25) ?s = uid1 t"
    using get_id(1) [of "pre @ [3] @ id_bytes f" "length pre + 17" t "bytes @ post"]
      get_id(2) [of "pre @ [3] @ id_bytes f" "length pre + 17" "length pre + 25" t "bytes @ post"]
    by simp_all
  have "DataLen op \<noteq> 0" using assms(2) by auto
  moreover have "\<not> DataOfs op + 33 > DataOfs op + DataLen op"
    using u [of 33] e by (simp add: word_less_nat_alt)
  ultimately show ?thesis
    using assms(1) u [of 17] u [of 25] u [of 33] g
    by (simp add: reconstruct_op_def Let_def n add.assoc)
qed

section \<open>Properties\<close>

text \<open>C17. \<open>Normalize\<close> accepts a transaction exactly when every op carries an edit
  identifier and a value span inside the data store and no two ops share an address; then it
  has only reordered the ops, into strictly ascending address order.\<close>

theorem Normalize_correct:
  assumes "Normalize force tx = (tx', res)" "force \<or> \<not> Normalized tx"
  shows "(res = Inr () \<longleftrightarrow>
            (\<forall>op \<in> set (Ops tx). EditID (Addr op) \<noteq> nilUID \<and> span_ok (length (DataStore tx)) op) \<and>
            distinct (map Addr (Ops tx))) \<and>
         (res = Inr () \<longrightarrow>
            mset (Ops tx') = mset (Ops tx) \<and> DataStore tx' = DataStore tx \<and> Normalized tx' \<and>
            sorted_wrt (\<lambda>x y. Compare (Addr x) (Addr y) < 0) (Ops tx'))"
proof (cases "check_ops (length (DataStore tx)) (Ops tx)")
  case (Inl e)
  then have "res = Inl e" using assms by (auto simp: Normalize_def)
  then show ?thesis using Inl check_ops_ok by (metis sum.distinct(1))
next
  case (Inr u)
  then have ok: "check_ops (length (DataStore tx)) (Ops tx) = Inr ()" by simp
  have "distinct (map Addr (sort_ops (Ops tx)))" if "distinct (map Addr (Ops tx))"
    using that by (metis mset_map mset_sort_ops mset_eq_imp_distinct_iff)
  then show ?thesis
    using assms(1) Normalize_run [OF assms(2) ok] ok [unfolded check_ops_ok]
      sorted_strict [OF sorted_sort_ops, of "Ops tx"]
    by (auto split: if_splits)
qed

text \<open>Two ops of one transaction, out of order.\<close>

definition sample_op :: "u64 \<Rightarrow> u64 \<Rightarrow> tx_op" where
  "sample_op item ofs =
     \<lparr>Addr = \<lparr>NodeID = UID 0 1, AttrID = UID 0 2, ItemID = UID 0 item, EditID = UID 0 9\<rparr>,
      Flags = 4, Logical = 0, DataOfs = ofs, DataLen = 1\<rparr>"

definition sample_tx :: tx_msg where
  "sample_tx = TxNew\<lparr>Ops := [sample_op 6 0, sample_op 5 1], DataStore := [0, 0]\<rparr>"

lemma sample_normalizes:
  "Normalize False sample_tx = (sample_tx\<lparr>Ops := [sample_op 5 1, sample_op 6 0], Normalized := True\<rparr>, Inr ())"
  by code_simp

theorem Normalize_correct_witness:
  "sorted_wrt (\<lambda>x y. Compare (Addr x) (Addr y) < 0) [sample_op 5 1, sample_op 6 0]"
  using Normalize_correct [OF sample_normalizes] by (simp add: sample_tx_def TxNew_def)

text \<open>\<open>LoadValue\<close> of a concrete element never succeeds on a transaction with two or
  more ops: its comparison has the sign that \<open>sort.Find\<close> does not expect, so even an element
  the transaction holds is reported as not found.\<close>

theorem LoadValue_never_finds:
  assumes "Normalize False tx = (tx', Inr ())" "\<not> Normalized tx"
    and "\<forall>op \<in> set (Ops tx). EditID (Addr op) = e"
    and "2 \<le> length (Ops tx)" "\<not> IsWildcard (ItemID want)"
  shows "snd (LoadValue unmarshal tx want) = Inl ErrAttrNotFound"
proof -
  have m: "mset (Ops tx') = mset (Ops tx)"
    and srt: "sorted_wrt (\<lambda>x y. Compare (Addr x) (Addr y) < 0) (Ops tx')"
  proof -
    have ok: "check_ops (length (DataStore tx)) (Ops tx) = Inr ()"
      using assms(1,2) by (auto simp: Normalize_def split: sum.splits)
    have d: "distinct (map Addr (Ops tx))"
      using Normalize_run [OF _ ok, of False] assms(1,2) by (auto split: if_splits)
    then have t: "Ops tx' = sort_ops (Ops tx)"
      using Normalize_run [OF _ ok, of False] assms(1,2) by auto
    have "distinct (map Addr (sort_ops (Ops tx)))"
      using d by (metis mset_map mset_sort_ops mset_eq_imp_distinct_iff)
    from sorted_strict [OF sorted_sort_ops this]
    show "mset (Ops tx') = mset (Ops tx)"
      "sorted_wrt (\<lambda>x y. Compare (Addr x) (Addr y) < 0) (Ops tx')" by (simp_all add: t)
  qed
  have ed: "EditID (Addr op) = e" if "op \<in> set (Ops tx')" for op
    using assms(3) that m by (metis set_mset_mset)
  have "sorted_wrt (\<lambda>x y. CompareElementID (Addr x) (Addr y) < 0) (Ops tx')"
  proof (rule sorted_wrt_mono_rel [OF _ srt])
    fix x y assume "x \<in> set (Ops tx')" "y \<in> set (Ops tx')" "Compare (Addr x) (Addr y) < 0"
    then show "CompareElementID (Addr x) (Addr y) < 0"
      using ed by (auto simp: Compare_lex CompareTo_uval cmp_int_def split: if_splits)
  qed
  moreover have "2 \<le> length (Ops tx')" using assms(4) m by (metis size_mset)
  ultimately show ?thesis
    using find_wrong_way [of "Ops tx'" _ want] assms(1,5) by (simp add: LoadValue_def Let_def)
qed

theorem LoadValue_never_finds_witness:
  "Addr (sample_op 5 1) \<in> Addr ` set (Ops sample_tx) \<and>
   snd (LoadValue Inr sample_tx (Addr (sample_op 5 1))) = Inl ErrAttrNotFound"
  using LoadValue_never_finds [OF sample_normalizes, of "UID 0 9" "Addr (sample_op 5 1)"]
  by (simp add: sample_tx_def TxNew_def sample_op_def IsWildcard_def UID_0_Max_def)

text \<open>A value written by \<open>MarshalOp\<close> reads back as the bytes that were marshalled, past
  the value header; its op carries the transaction's identity; and every value that was
  readable before stays readable unchanged.\<close>

theorem MarshalOp_reads:
  assumes "MarshalOp check marshal tx op (Some v) = ((tx', op'), Inr ())"
    and "length (DataStore tx') < 2 ^ 64"
  shows "OpValueBytes tx' (int (length (Ops tx))) = marshal v \<and>
         EditID (Addr (last (Ops tx'))) = TxID (TxEnvelope tx') \<and>
         (\<forall>i b. OpValueBytes tx i = Inr b \<longrightarrow> OpValueBytes tx' i = Inr b)"
proof -
  obtain bytes where b: 
    "DataStore tx' = DataStore tx @ [1] @ (be64 (FromID_0 (TxHeader tx)) @ be64 (FromID_1 (TxHeader tx))) @ bytes"
    "Ops tx' = Ops tx @ [op']" "Addr op' = (Addr op)\<lparr>EditID := TxID (TxEnvelope tx)\<rparr>"
    using MarshalOp_ok [OF assms(1)] by metis
  moreover have "TxEnvelope tx' = TxEnvelope tx"
    using assms(1) by (auto simp: MarshalOp_def Let_def split: sum.splits)
  ultimately show ?thesis
    using MarshalOp_reads_back [OF assms] OpValueBytes_grow [OF _ b(2,1)] by simp
qed

theorem MarshalOp_reads_witness:
  "OpValueBytes (fst (fst (MarshalOp (\<lambda>_. Inr ()) Inr sample_tx (sample_op 7 0) (Some [42])))) (int (length (Ops sample_tx)))
     = Inr [42]"
proof -
  let ?r = "MarshalOp (\<lambda>_. Inr ()) Inr sample_tx (sample_op 7 0) (Some [42])"
  have r: "?r = ((fst (fst ?r), snd (fst ?r)), Inr ())" by (simp add: MarshalOp_def Let_def)
  have "length (DataStore (fst (fst ?r))) < 2 ^ 64"
    by (simp add: MarshalOp_def Let_def sample_tx_def)
  from MarshalOp_reads [OF r this] show ?thesis by blast
qed

text \<open>Identity survives re-bundling: an op whose stored value carries its authoring
  transaction keeps that identity under any envelope, while an op authored by
  \<open>MarshalOp\<close> takes the identity of the envelope.\<close>

theorem served_identity:
  assumes "length (DataStore tx) + 33 + length bytes < 2 ^ 64"
  shows "EditID (Addr (last (Ops (reconstructEditIDs
           (MarshalOpAndData tx op ([3] @ id_bytes from @ id_bytes txid @ bytes)))))) = txid \<and>
         EditID (Addr (last (Ops (reconstructEditIDs
           (MarshalOpAndData tx op ([1] @ id_bytes from @ bytes)))))) = TxID (TxEnvelope tx)"
proof -
  have n: "unat (word_of_nat (length (DataStore tx)) :: u64) = length (DataStore tx)"
    "unat (word_of_nat (33 + length bytes) :: u64) = 33 + length bytes"
    using assms by (simp_all only: unat64_of_nat, simp_all)
  show ?thesis
    using reconstruct_served [of _ "DataStore tx" bytes, where post = "[]" and f = "from" and t = txid] assms n
    by (simp add: reconstructEditIDs_def MarshalOpAndData_def Let_def reconstruct_authored add.commute)
qed

theorem served_identity_witness:
  "EditID (Addr (last (Ops (reconstructEditIDs
      (MarshalOpAndData sample_tx (sample_op 7 0) ([3] @ id_bytes (UID 1 1) @ id_bytes (UID 2 2) @ [5])))))) = UID 2 2"
  using served_identity [of sample_tx "[5]"] by (simp add: sample_tx_def TxNew_def)

end
