(* ===== verification/Signing.thy ===== *)
theory Signing
  imports Prelude
begin

text \<open>
  Framing of signed and hashed data (\<open>stdlib/safe/safe.sign.go\<close>) and the contract every
  framing in the program relies on: a sequence of framed pieces can be cut in one way only.
  The hash kits and signature kits are cryptographic code and parameters.
\<close>

section \<open>Unambiguous framing\<close>

text \<open>The contract of a frame: two concatenations that start with a frame start with the same
  piece.  \<open>valid\<close> is what the encoder accepts.\<close>

locale prefix_code =
  fixes enc :: "'a \<Rightarrow> byte list" and valid :: "'a \<Rightarrow> bool"
  assumes unique: "valid a \<Longrightarrow> valid b \<Longrightarrow> enc a @ r = enc b @ s \<Longrightarrow> a = b \<and> r = s"
    and nonempty: "enc a \<noteq> []"
begin

lemma inject: "valid a \<Longrightarrow> valid b \<Longrightarrow> enc a = enc b \<Longrightarrow> a = b"
  using unique [of a b "[]" "[]"] by simp

lemma concat_inject:
  "list_all valid xs \<Longrightarrow> list_all valid ys \<Longrightarrow> concat (map enc xs) = concat (map enc ys) \<Longrightarrow> xs = ys"
proof (induction xs arbitrary: ys)
  case Nil
  then show ?case by (cases ys) (simp_all add: nonempty)
next
  case (Cons x xs)
  obtain y zs where "ys = y # zs" using Cons.prems(3) by (cases ys) (simp_all add: nonempty)
  then have v: "valid x" "valid y" "list_all valid xs" "list_all valid zs"
    and eq: "enc x @ concat (map enc xs) = enc y @ concat (map enc zs)"
    using Cons.prems by simp_all
  have "x = y \<and> concat (map enc xs) = concat (map enc zs)" by (rule unique [OF v(1,2) eq])
  then show ?case using Cons.IH [OF v(3,4)] \<open>ys = y # zs\<close> by blast
qed

lemma then_inject:
  "valid a \<Longrightarrow> valid b \<Longrightarrow> enc a @ concat (map enc xs) = enc b @ concat (map enc ys) \<Longrightarrow>
     list_all valid xs \<Longrightarrow> list_all valid ys \<Longrightarrow> a = b \<and> xs = ys"
  using unique concat_inject by blast

end

text \<open>A length prefix of fixed width.\<close>

locale length_frame =
  fixes lenc :: "nat \<Rightarrow> byte list" and width bound :: nat
  assumes width: "length (lenc n) = width" "0 < width"
    and lenc_inject: "n < bound \<Longrightarrow> m < bound \<Longrightarrow> lenc n = lenc m \<Longrightarrow> n = m"

sublocale length_frame \<subseteq> framed: prefix_code "\<lambda>b. lenc (length b) @ b" "\<lambda>b. length b < bound"
proof
  fix a b r s :: "byte list"
  assume v: "length a < bound" "length b < bound"
    and eq: "(lenc (length a) @ a) @ r = (lenc (length b) @ b) @ s"
  then have "lenc (length a) = lenc (length b)"
    using width(1) by (metis append.assoc append_eq_append_conv)
  then have "length a = length b" using lenc_inject v by blast
  with eq show "a = b \<and> r = s" using width(1) by simp
next
  show "lenc (length a) @ a \<noteq> []" for a using width by (metis append_is_Nil_conv list.size(3) less_irrefl)
qed

lemma be_bytes_inject: "n < 256 ^ k \<Longrightarrow> m < 256 ^ k \<Longrightarrow> be_bytes k n = be_bytes k m \<Longrightarrow> n = m"
  by (metis be_val_be_bytes mod_less)

interpretation frame8: length_frame "be_bytes 1" 1 "256 ^ 1"
  by unfold_locales (rule length_be_bytes, simp, rule be_bytes_inject)

interpretation frame32: length_frame "be_bytes 4" 4 "256 ^ 4"
  by unfold_locales (rule length_be_bytes, simp, rule be_bytes_inject)

interpretation frame64: length_frame "be_bytes 8" 8 "256 ^ 8"
  by unfold_locales (rule length_be_bytes, simp, rule be_bytes_inject)

section \<open>Signing domains\<close>

type_synonym SigningDomain = string

definition SigningDomain_Login :: SigningDomain where "SigningDomain_Login = ''amp.sig.login.v1''"
definition SigningDomain_TxAuthor :: SigningDomain where "SigningDomain_TxAuthor = ''amp.sig.tx.v1''"
definition SigningDomain_EpochCoSign :: SigningDomain where "SigningDomain_EpochCoSign = ''amp.sig.epoch.v1''"
definition SigningDomain_MemberToken :: SigningDomain where "SigningDomain_MemberToken = ''amp.sig.token.v1''"
definition SigningDomain_VaultNode :: SigningDomain where "SigningDomain_VaultNode = ''amp.sig.vault.v1''"
definition SigningDomain_InviteRedeem :: SigningDomain where "SigningDomain_InviteRedeem = ''amp.sig.invite.v1''"
definition SigningDomain_FounderSet :: SigningDomain where "SigningDomain_FounderSet = ''amp.fp.founders.v1''"
definition SigningDomain_MemberReKey :: SigningDomain where "SigningDomain_MemberReKey = ''amp.sig.rekey.v1''"

definition AllSigningDomains :: "SigningDomain list" where
  "AllSigningDomains =
     [SigningDomain_Login, SigningDomain_TxAuthor, SigningDomain_EpochCoSign, SigningDomain_MemberToken,
      SigningDomain_VaultNode, SigningDomain_InviteRedeem, SigningDomain_FounderSet, SigningDomain_MemberReKey]"

lemmas signing_domains =
  SigningDomain_Login_def SigningDomain_TxAuthor_def SigningDomain_EpochCoSign_def
  SigningDomain_MemberToken_def SigningDomain_VaultNode_def SigningDomain_InviteRedeem_def
  SigningDomain_FounderSet_def SigningDomain_MemberReKey_def

definition SigningDomainTag :: "SigningDomain \<Rightarrow> byte list" where
  "SigningDomainTag domain = [word_of_nat (length domain)] @ go_bytes domain"

fun frame_parts :: "byte list list \<Rightarrow> byte list list outcome" where
  "frame_parts [] = Inr []"
| "frame_parts (part # parts) =
     (if 2 ^ 32 - 1 < length part then Inl BadRequest
      else and_then (frame_parts parts)
             (\<lambda>framed. Inr (be32 (word_of_nat (length part)) # part # framed)))"

definition SigningParts :: "SigningDomain \<Rightarrow> byte list list \<Rightarrow> byte list list outcome" where
  "SigningParts domain parts =
     and_then (frame_parts parts) (\<lambda>framed. Inr (SigningDomainTag domain # framed))"

text \<open>The registered hash kits: \<open>NewHashKit\<close>, a \<open>Write\<close> of every segment and
  \<open>Sum\<close>; \<open>newHash kit\<close> fails for an unknown kit.\<close>

definition SigningDigest ::
  "('k \<Rightarrow> (byte list \<Rightarrow> byte list) outcome) \<Rightarrow> 'k \<Rightarrow> SigningDomain \<Rightarrow> byte list list \<Rightarrow> byte list outcome" where
  "SigningDigest newHash hashKit domain parts =
     and_then (SigningParts domain parts) (\<lambda>framed.
     and_then (newHash hashKit) (\<lambda>H. Inr (H (concat framed))))"

definition SignDomain ::
  "('k \<Rightarrow> (byte list \<Rightarrow> byte list) outcome) \<Rightarrow> (byte list \<Rightarrow> byte list outcome)
     \<Rightarrow> 'k \<Rightarrow> SigningDomain \<Rightarrow> byte list list \<Rightarrow> byte list outcome" where
  "SignDomain newHash signRaw hashKit domain parts =
     and_then (SigningDigest newHash hashKit domain parts) signRaw"

definition VerifyDomain ::
  "('k \<Rightarrow> (byte list \<Rightarrow> byte list) outcome) \<Rightarrow> ('c \<Rightarrow> byte list \<Rightarrow> byte list \<Rightarrow> byte list \<Rightarrow> unit outcome)
     \<Rightarrow> 'c \<Rightarrow> 'k \<Rightarrow> SigningDomain \<Rightarrow> byte list \<Rightarrow> byte list \<Rightarrow> byte list list \<Rightarrow> unit outcome" where
  "VerifyDomain newHash verifySignature cryptoKit hashKit domain sig signerPubKey parts =
     and_then (SigningDigest newHash hashKit domain parts)
       (\<lambda>digest. verifySignature cryptoKit sig digest signerPubKey)"

section \<open>Lemmas\<close>

lemma be32_be_bytes: "n < 256 ^ 4 \<Longrightarrow> be32 (word_of_nat n) = be_bytes 4 n"
  by (simp add: be32_def unat_of_nat)

lemma frame_parts_Inr:
  "frame_parts parts = Inr framed \<Longrightarrow>
     list_all (\<lambda>b. length b < 256 ^ 4) parts \<and>
     concat framed = concat (map (\<lambda>b. be_bytes 4 (length b) @ b) parts)"
proof (induction parts arbitrary: framed)
  case (Cons part parts)
  then obtain fr where fr: "frame_parts parts = Inr fr" "framed = be32 (word_of_nat (length part)) # part # fr"
    and l: "length part < 256 ^ 4"
    by (auto simp: and_then_eq_Inr split: if_splits)
  then show ?case using Cons.IH [OF fr(1)] by (simp add: be32_be_bytes)
qed simp

lemma frame_parts_ok: "list_all (\<lambda>b. length b < 256 ^ 4) parts \<Longrightarrow> \<exists>framed. frame_parts parts = Inr framed"
  by (induction parts) auto

lemma SigningDomainTag_frame:
  "length domain < 256 \<Longrightarrow> SigningDomainTag domain = be_bytes 1 (length (go_bytes domain)) @ go_bytes domain"
  by (simp add: SigningDomainTag_def)

lemma SigningParts_unique:
  assumes "SigningParts d ps = Inr f" "SigningParts e qs = Inr g" "concat f = concat g"
    and "length d < 256" "length e < 256"
  shows "d = e \<and> ps = qs"
proof -
  obtain f' g' where f: "frame_parts ps = Inr f'" "f = SigningDomainTag d # f'"
    and g: "frame_parts qs = Inr g'" "g = SigningDomainTag e # g'"
    using assms(1,2) by (auto simp: SigningParts_def and_then_eq_Inr)
  note fr = frame_parts_Inr [OF f(1)] frame_parts_Inr [OF g(1)]
  have "(be_bytes 1 (length (go_bytes d)) @ go_bytes d) @ concat f'
      = (be_bytes 1 (length (go_bytes e)) @ go_bytes e) @ concat g'"
    using assms(3-5) f(2) g(2) by (simp only: SigningDomainTag_frame concat.simps)
  from frame8.framed.unique [OF _ _ this]
  have "go_bytes d = go_bytes e \<and> concat f' = concat g'" using assms(4,5) by simp
  then show ?thesis using frame32.framed.concat_inject [of ps qs] fr by simp
qed

lemma signing_domains_distinct:
  "distinct AllSigningDomains" "list_all (\<lambda>d. length d < 256) AllSigningDomains"
  by (simp_all add: AllSigningDomains_def signing_domains)

section \<open>Properties\<close>

text \<open>C40. Domain separation: two signing inputs are the same byte string only when they were
  made for the same domain over the same list of parts, so no signed payload can be read as
  another one, however its parts are cut.\<close>

theorem signing_input_unambiguous:
  assumes "SigningParts d ps = Inr f" "SigningParts e qs = Inr g"
    and "d \<in> set AllSigningDomains" "e \<in> set AllSigningDomains"
  shows "concat f = concat g \<longleftrightarrow> d = e \<and> ps = qs"
proof
  assume "concat f = concat g"
  moreover have "length d < 256" "length e < 256"
    using signing_domains_distinct(2) assms(3,4) by (auto simp: list_all_iff)
  ultimately show "d = e \<and> ps = qs" using SigningParts_unique [OF assms(1,2)] by blast
next
  assume "d = e \<and> ps = qs"
  then show "concat f = concat g" using assms(1,2) by simp
qed

theorem signing_input_unambiguous_witness:
  "concat [SigningDomainTag SigningDomain_Login, [0, 0, 0, 1], [7]]
     = concat [SigningDomainTag SigningDomain_TxAuthor, [0, 0, 0, 1], [7]]
   \<longleftrightarrow> SigningDomain_Login = SigningDomain_TxAuthor \<and> [[7 :: byte]] = [[7]]"
proof (rule signing_input_unambiguous)
  have "be32 1 = [0, 0, 0, 1]" by code_simp
  then show "SigningParts SigningDomain_Login [[7]] = Inr [SigningDomainTag SigningDomain_Login, [0, 0, 0, 1], [7]]"
    "SigningParts SigningDomain_TxAuthor [[7]] = Inr [SigningDomainTag SigningDomain_TxAuthor, [0, 0, 0, 1], [7]]"
    by (simp_all add: SigningParts_def)
qed (simp_all add: AllSigningDomains_def)

end
