(* ===== verification/TxWire.thy ===== *)
theory TxWire
  imports TxMsg Signing
begin

text \<open>
  The transaction on the wire (\<open>amp/amp.support.tx.go\<close>): the length-prefixed protobuf parts,
  the plain form that is marshalled to a buffer or stream and read back, and the sealed form with
  encryption, membership proof and author signature.  The protobuf codec (\<open>pb_codec\<close>) and the
  \<open>CryptoProvider\<close> are parameters.  A destination buffer is given by the bytes of its
  backing array.  A decode that never returns has the value \<open>None\<close> (see \<open>TxOps\<close>).
\<close>

section \<open>Parameters\<close>

record pb_codec =
  marshalEnv :: "tx_envelope \<Rightarrow> byte list outcome"
  unmarshalEnv :: "byte list \<Rightarrow> tx_envelope outcome"
  marshalHdr :: "tx_header \<Rightarrow> byte list outcome"
  unmarshalHdr :: "byte list \<Rightarrow> tx_header outcome"

record crypto_provider =
  SignatureSize :: nat
  HashDigest :: "byte list list \<Rightarrow> byte list outcome"
  SignDigest :: "byte list \<Rightarrow> byte list outcome"
  VerifyDigest :: "byte list \<Rightarrow> byte list \<Rightarrow> byte list \<Rightarrow> uid \<Rightarrow> unit outcome"
  EncryptPayload :: "byte list \<Rightarrow> tx_envelope \<Rightarrow> byte list outcome"
  DecryptPayload :: "byte list \<Rightarrow> tx_envelope \<Rightarrow> byte list outcome"
  ComputeMemberProof :: "byte list \<Rightarrow> tx_envelope \<Rightarrow> byte list outcome"

definition TxPreambleSignature :: string where "TxPreambleSignature = ''AMP1''"
definition TxPreambleSize :: nat where "TxPreambleSize = 16"

section \<open>Length-prefixed messages\<close>

text \<open>\<open>writePb\<close> leaves \<open>dst\<close> as it is when marshalling fails; its callers drop the error.\<close>

definition writePb :: "byte list \<Rightarrow> byte list outcome \<Rightarrow> byte list" where
  "writePb dst marshalled =
     (case marshalled of
        Inl _ \<Rightarrow> dst
      | Inr buf \<Rightarrow> (dst @ put_uvarint (word_of_nat (length buf))) @ buf)"

definition readPb :: "byte list \<Rightarrow> nat \<Rightarrow> (byte list \<Rightarrow> 'a outcome) \<Rightarrow> ('a \<times> nat) outcome" where
  "readPb src pos unmarshal =
     (if pos \<ge> length src then Inl ErrMalformedTx
      else and_then (read_uvarint src pos) (\<lambda>(byteLen, p).
           let end' = go_int (int p + sint byteLen)
           in if end' > int (length src) then Inl ErrMalformedTx
              else if end' < int p then Inl Panic
              else case unmarshal (take (nat end' - p) (drop p src)) of
                     Inl _ \<Rightarrow> Inl ErrMalformedTx
                   | Inr v \<Rightarrow> Inr (v, nat end')))"

section \<open>Marshalling\<close>

definition MarshalHead :: "pb_codec \<Rightarrow> tx_msg \<Rightarrow> byte list \<Rightarrow> tx_msg \<times> byte list" where
  "MarshalHead pb tx dst =
     (let dst1 = writePb dst (marshalEnv pb (TxEnvelope tx));
          tx1 = tx\<lparr>cryptOfs := word_of_nat (length dst1)\<rparr>;
          dst2 = writePb dst1 (marshalHdr pb (TxHeader tx))
      in (tx1, appendOps dst2 (Ops tx)))"

definition put_preamble :: "byte list \<Rightarrow> nat \<Rightarrow> nat \<Rightarrow> byte list" where
  "put_preamble head headLen dataLen =
     go_bytes TxPreambleSignature @ be32 (word_of_nat headLen) @ be32 (word_of_nat dataLen) @ drop 12 (take 16 head)"

definition MarshalHeadAndOps :: "pb_codec \<Rightarrow> tx_msg \<Rightarrow> byte list \<Rightarrow> tx_msg \<times> byte list" where
  "MarshalHeadAndOps pb tx dst =
     (let buf = (if length dst < 300 then replicate 2048 0 else dst);
          (tx1, headAndOps) = MarshalHead pb tx (take TxPreambleSize buf)
      in (tx1, put_preamble headAndOps (length headAndOps) (length (DataStore tx)) @ drop TxPreambleSize headAndOps))"

definition MarshalToBuffer :: "pb_codec \<Rightarrow> tx_msg \<Rightarrow> byte list \<Rightarrow> tx_msg \<times> byte list" where
  "MarshalToBuffer pb tx dst =
     (let (tx1, buf) = MarshalHeadAndOps pb tx dst in (tx1, buf @ DataStore tx))"

text \<open>A writer is the list of its responses to the calls of \<open>Write\<close>: how many bytes it takes, or
  an error.  The result is what it got, and the error if there was one; the run of a writer that
  answers for ever with 0 is not a finite list.\<close>

fun write_bytes :: "nat outcome list \<Rightarrow> byte list \<Rightarrow> byte list \<times> nat outcome list outcome" where
  "write_bytes [] src = (if src = [] then ([], Inr []) else ([], Inl EndOfStream))"
| "write_bytes (r # rs) src =
     (if src = [] then ([], Inr (r # rs))
      else case r of
             Inl e \<Rightarrow> ([], Inl e)
           | Inr n \<Rightarrow> let (got, res) = write_bytes rs (drop n src) in (take n src @ got, res))"

definition MarshalToWriter ::
  "pb_codec \<Rightarrow> tx_msg \<Rightarrow> byte list \<Rightarrow> nat outcome list \<Rightarrow> byte list \<times> unit outcome" where
  "MarshalToWriter pb tx scrap w =
     (let (tx1, head) = MarshalHeadAndOps pb tx scrap; (got1, res1) = write_bytes w head
      in case res1 of
           Inl e \<Rightarrow> (got1, Inl e)
         | Inr w1 \<Rightarrow> let (got2, res2) = write_bytes w1 (DataStore tx)
                     in (got1 @ got2, and_then res2 (\<lambda>_. Inr ())))"

section \<open>Reading the plain form\<close>

definition UnmarshalHead :: "pb_codec \<Rightarrow> tx_msg \<Rightarrow> byte list \<Rightarrow> tx_msg outcome option" where
  "UnmarshalHead pb tx src =
     (case readPb src 0 (unmarshalEnv pb) of
        Inl e \<Rightarrow> Some (Inl e)
      | Inr (env, p) \<Rightarrow>
          (case readPb src p (unmarshalHdr pb) of
             Inl e \<Rightarrow> Some (Inl e)
           | Inr (hdr, p') \<Rightarrow>
               (case readOpsSection (Ops tx) src p' of
                  None \<Rightarrow> None
                | Some (Inl e) \<Rightarrow> Some (Inl e)
                | Some (Inr (ops, _)) \<Rightarrow>
                    Some (Inr (tx\<lparr>TxEnvelope := env, TxHeader := hdr, Ops := ops, Normalized := False\<rparr>)))))"

text \<open>A reader is the list of chunks it delivers, each with whether the call that hands out its last
  byte also reports the end of the stream, as \<open>io.Reader\<close> allows.  A call hands out at most
  the bytes it has room for; \<open>readBytes\<close> looks at the error first.\<close>

fun readBytes :: "nat \<Rightarrow> (byte list \<times> bool) list \<Rightarrow> (byte list \<times> (byte list \<times> bool) list) outcome" where
  "readBytes n [] = (if n = 0 then Inr ([], []) else Inl EndOfStream)"
| "readBytes n ((c, eof) # cs) =
     (if n = 0 then Inr ([], (c, eof) # cs)
      else if length c \<le> n then
        (if eof then Inl EndOfStream
         else and_then (readBytes (n - length c) cs) (\<lambda>(b, cs'). Inr (c @ b, cs')))
      else Inr (take n c, (drop n c, eof) # cs))"

definition TxHeadLen :: "byte list \<Rightarrow> nat" where "TxHeadLen preamble = be_val (take 4 (drop 4 preamble))"
definition TxDataLen :: "byte list \<Rightarrow> nat" where "TxDataLen preamble = be_val (take 4 (drop 8 preamble))"
definition TxSignatureSize :: "byte list \<Rightarrow> nat" where "TxSignatureSize preamble = be_val (take 2 (drop 12 preamble))"

definition ReadTxMsg :: "pb_codec \<Rightarrow> (byte list \<times> bool) list \<Rightarrow> tx_msg outcome option" where
  "ReadTxMsg pb stream =
     (case readBytes TxPreambleSize stream of
        Inl e \<Rightarrow> Some (Inl e)
      | Inr (preamble, s1) \<Rightarrow>
          if take 4 preamble \<noteq> go_bytes TxPreambleSignature then Some (Inl ErrMalformedTx)
          else if TxHeadLen preamble < TxPreambleSize then Some (Inl Panic)
          else (case readBytes (TxHeadLen preamble - TxPreambleSize) s1 of
                  Inl e \<Rightarrow> Some (Inl e)
                | Inr (buf, s2) \<Rightarrow>
                    (case UnmarshalHead pb TxNew buf of
                       None \<Rightarrow> None
                     | Some (Inl e) \<Rightarrow> Some (Inl e)
                     | Some (Inr tx) \<Rightarrow>
                         Some (and_then (readBytes (TxDataLen preamble) s2) (\<lambda>(ds, _).
                               Inr (reconstructEditIDs (tx\<lparr>DataStore := ds\<rparr>)))))))"

section \<open>Sealing\<close>

definition marshalPayload :: "pb_codec \<Rightarrow> tx_msg \<Rightarrow> byte list \<Rightarrow> byte list" where
  "marshalPayload pb tx dst = appendOps (writePb dst (marshalHdr pb (TxHeader tx))) (Ops tx)"

text \<open>The signed image: body and signature.\<close>

definition sign_wire :: "crypto_provider \<Rightarrow> byte list \<Rightarrow> byte list outcome" where
  "sign_wire c body =
     and_then (SigningParts SigningDomain_TxAuthor [body]) (\<lambda>framed.
     and_then (HashDigest c framed) (\<lambda>digest.
     and_then (SignDigest c digest) (\<lambda>sig.
     Inr (body @ sig))))"

definition seal_body :: "pb_codec \<Rightarrow> crypto_provider \<Rightarrow> tx_msg \<Rightarrow> byte list \<Rightarrow> byte list \<Rightarrow> byte list" where
  "seal_body pb c tx buf wirePayload =
     (let isPublic = IsPublic (TxEnvelope tx);
          envBuf = writePb [] (marshalEnv pb (TxEnvelope tx));
          headLen = TxPreambleSize + length envBuf + length wirePayload;
          dataLen = (if isPublic then length (DataStore tx) else 0);
          preamble = take 12 (put_preamble buf headLen dataLen) @ be16 (word_of_nat (SignatureSize c))
                       @ drop 14 (take 16 buf)
      in preamble @ envBuf @ wirePayload @ (if isPublic then DataStore tx else []))"

text \<open>The result is the transaction, whose envelope may have got a membership proof, and the
  wire image.\<close>

definition SealTx ::
  "pb_codec \<Rightarrow> tx_msg \<Rightarrow> crypto_provider option \<Rightarrow> byte list \<Rightarrow> tx_msg \<times> byte list outcome" where
  "SealTx pb tx crypto dst =
     (case crypto of
        None \<Rightarrow> (let (tx1, wire) = MarshalHeadAndOps pb tx dst in (tx1, Inr wire))
      | Some c \<Rightarrow>
          let buf = (if length dst < 2048 then replicate 2048 0 else dst);
              payload = marshalPayload pb tx []
          in if IsPublic (TxEnvelope tx) then (tx, sign_wire c (seal_body pb c tx buf payload))
             else case EncryptPayload c (payload @ DataStore tx) (TxEnvelope tx) of
                    Inl e \<Rightarrow> (tx, Inl e)
                  | Inr encrypted \<Rightarrow>
                      (case ComputeMemberProof c (MemberProofInput (TxEnvelope tx)) (TxEnvelope tx) of
                         Inl e \<Rightarrow> (tx, Inl e)
                       | Inr proof \<Rightarrow>
                           let tx1 = tx\<lparr>TxEnvelope := (TxEnvelope tx)\<lparr>MemberProof := proof\<rparr>\<rparr>
                           in (tx1, sign_wire c (seal_body pb c tx1 buf encrypted))))"

section \<open>Opening\<close>

definition TxSigOffset :: "byte list \<Rightarrow> nat outcome" where
  "TxSigOffset raw =
     (if length raw < TxPreambleSize then Inl ErrMalformedTx
      else let sigLen = TxSignatureSize raw
           in if sigLen = 0 \<or> sigLen > length raw - TxPreambleSize then Inl BadRequest
              else Inr (length raw - sigLen))"

definition TxSignedDigest ::
  "('k \<Rightarrow> (byte list \<Rightarrow> byte list) outcome) \<Rightarrow> byte list \<Rightarrow> 'k \<Rightarrow> (byte list \<times> byte list) outcome" where
  "TxSignedDigest newHash raw hashKit =
     and_then (TxSigOffset raw) (\<lambda>sigOfs.
     and_then (SigningDigest newHash hashKit SigningDomain_TxAuthor [take sigOfs raw]) (\<lambda>digest.
     Inr (digest, drop sigOfs raw)))"

definition verify_author :: "crypto_provider \<Rightarrow> byte list \<Rightarrow> nat \<Rightarrow> byte list \<Rightarrow> uid \<Rightarrow> unit outcome" where
  "verify_author c wire sigOfs signerPubKey signerCryptoKit =
     and_then (SigningParts SigningDomain_TxAuthor [take sigOfs wire]) (\<lambda>framed.
     and_then (HashDigest c framed) (\<lambda>digest.
     VerifyDigest c (drop sigOfs wire) digest signerPubKey signerCryptoKit))"

text \<open>Header and ops section of a payload from position \<open>p\<close>, with the position after them.\<close>

definition read_payload :: "pb_codec \<Rightarrow> tx_msg \<Rightarrow> byte list \<Rightarrow> (tx_msg \<times> nat) outcome option" where
  "read_payload pb tx src =
     (case readPb src 0 (unmarshalHdr pb) of
        Inl e \<Rightarrow> Some (Inl e)
      | Inr (hdr, hp) \<Rightarrow>
          (case readOpsSection (Ops tx) src hp of
             None \<Rightarrow> None
           | Some (Inl e) \<Rightarrow> Some (Inl e)
           | Some (Inr (ops, hp')) \<Rightarrow> Some (Inr (tx\<lparr>TxHeader := hdr, Ops := ops\<rparr>, hp'))))"

definition finish_open :: "tx_msg \<Rightarrow> tx_msg" where
  "finish_open tx = reconstructEditIDs (tx\<lparr>Normalized := False\<rparr>)"

definition openTx ::
  "pb_codec \<Rightarrow> byte list \<Rightarrow> crypto_provider option \<Rightarrow> byte list \<Rightarrow> uid \<Rightarrow> bool \<Rightarrow> tx_msg outcome option" where
  "openTx pb wire crypto signerPubKey signerCryptoKit verifySig =
     (if length wire < TxPreambleSize then Some (Inl ErrMalformedTx)
      else if take 4 wire \<noteq> go_bytes TxPreambleSignature then Some (Inl ErrMalformedTx)
      else
        let headLen = TxHeadLen wire; dataLen = TxDataLen wire
        in if headLen < TxPreambleSize \<or> headLen > length wire \<or> dataLen > length wire - headLen
           then Some (Inl ErrMalformedTx)
           else
             let headBody = drop TxPreambleSize (take headLen wire)
             in case crypto of
                  None \<Rightarrow>
                    (case UnmarshalHead pb TxNew headBody of
                       None \<Rightarrow> None
                     | Some (Inl e) \<Rightarrow> Some (Inl e)
                     | Some (Inr tx) \<Rightarrow>
                         Some (Inr (reconstructEditIDs
                           (if dataLen > 0 then tx\<lparr>DataStore := take dataLen (drop headLen wire)\<rparr> else tx))))
                | Some c \<Rightarrow>
                    (case readPb headBody 0 (unmarshalEnv pb) of
                       Inl e \<Rightarrow> Some (Inl e)
                     | Inr (env, p) \<Rightarrow>
                    (case TxSigOffset wire of
                       Inl e \<Rightarrow> Some (Inl e)
                     | Inr sigOfs \<Rightarrow>
                    (case (if verifySig then verify_author c wire sigOfs signerPubKey signerCryptoKit else Inr ()) of
                       Inl e \<Rightarrow> Some (Inl e)
                     | Inr _ \<Rightarrow>
                         let tx = TxNew\<lparr>TxEnvelope := env\<rparr>
                         in if IsPublic env then
                              (case read_payload pb tx (drop p headBody) of
                                 None \<Rightarrow> None
                               | Some (Inl e) \<Rightarrow> Some (Inl e)
                               | Some (Inr (tx1, hp)) \<Rightarrow>
                                   Some (Inr (finish_open
                                     (if dataLen > 0 then tx1\<lparr>DataStore := take dataLen (drop headLen wire)\<rparr> else tx1))))
                            else if sigOfs < TxPreambleSize + p then Some (Inl ErrMalformedTx)
                            else
                              (case DecryptPayload c (drop (TxPreambleSize + p) (take sigOfs wire)) env of
                                 Inl e \<Rightarrow> Some (Inl e)
                               | Inr plaintext \<Rightarrow>
                                   (case read_payload pb tx plaintext of
                                      None \<Rightarrow> None
                                    | Some (Inl e) \<Rightarrow> Some (Inl e)
                                    | Some (Inr (tx1, hp)) \<Rightarrow>
                                        Some (Inr (finish_open
                                          (if hp < length plaintext then tx1\<lparr>DataStore := drop hp plaintext\<rparr> else tx1)))))))))"

definition OpenTx ::
  "pb_codec \<Rightarrow> byte list \<Rightarrow> crypto_provider option \<Rightarrow> byte list \<Rightarrow> uid \<Rightarrow> tx_msg outcome option" where
  "OpenTx pb wire crypto signerPubKey signerCryptoKit = openTx pb wire crypto signerPubKey signerCryptoKit True"

definition OpenTxSansVerify :: "pb_codec \<Rightarrow> byte list \<Rightarrow> crypto_provider option \<Rightarrow> tx_msg outcome option" where
  "OpenTxSansVerify pb wire crypto = openTx pb wire crypto [] nilUID False"

definition ParseTxEnvelope :: "pb_codec \<Rightarrow> byte list \<Rightarrow> tx_envelope outcome" where
  "ParseTxEnvelope pb wire =
     (if length wire < TxPreambleSize then Inl ErrMalformedTx
      else if take 4 wire \<noteq> go_bytes TxPreambleSignature then Inl ErrMalformedTx
      else and_then (readPb (drop TxPreambleSize wire) 0 (unmarshalEnv pb)) (\<lambda>(env, _). Inr env))"

section \<open>Reading what was written\<close>

lemma writePb_append: "writePb dst m = dst @ writePb [] m"
  by (simp add: writePb_def split: sum.split)

lemma appendOps_append: "appendOps dst ops = dst @ appendOps [] ops"
  by (simp add: appendOps_def Let_def)

lemma go_int_length: "n < 2 ^ 63 \<Longrightarrow> sint (word_of_nat n :: u64) = int n"
  by (simp add: signed_of_nat signed_take_bit_int_eq_self)

lemma readPb_at:
  assumes "drop p src = writePb [] (Inr b) @ rest" "unmarshal b = Inr v" "length src < 2 ^ 63"
  shows "readPb src p unmarshal = Inr (v, p + length (writePb [] (Inr b)))"
proof -
  let ?u = "put_uvarint (word_of_nat (length b))"
  have d: "drop p src = ?u @ b @ rest" using assms(1) by (simp add: writePb_def)
  note r = read_uvarint_at [OF d]
  have d2: "drop (p + length ?u) src = b @ rest" by (rule drop_next [OF d])
  have l: "length src = p + length ?u + length b + length rest"
    using arg_cong [OF d, of length] length_put_uvarint_pos [of "word_of_nat (length b)"]
    by (cases "p < length src") auto
  have n: "sint (word_of_nat (length b) :: u64) = int (length b)"
    by (rule go_int_length) (use l assms(3) in linarith)
  have g: "go_int (int (p + length ?u) + int (length b)) = int (p + length ?u + length b)"
  proof -
    have "int (p + length ?u + length b) < 2 ^ 63" using l assms(3) by simp
    then have "go_int (int (p + length ?u + length b)) = int (p + length ?u + length b)"
      by (intro go_int_id) simp_all
    then show ?thesis by (simp only: of_nat_add)
  qed
  have "p < length src" using l length_put_uvarint_pos [of "word_of_nat (length b)"] by auto
  then show ?thesis
    using assms(2) l by (simp add: readPb_def r n g [simplified] d2 Let_def) (simp add: writePb_def)
qed

definition head_bytes :: "pb_codec \<Rightarrow> tx_msg \<Rightarrow> byte list" where
  "head_bytes pb tx =
     writePb [] (marshalEnv pb (TxEnvelope tx)) @ writePb [] (marshalHdr pb (TxHeader tx)) @ appendOps [] (Ops tx)"

text \<open>What the documentation of \<open>proto\<close> promises for the two messages of a transaction: they
  marshal, and what was marshalled unmarshals to the message.\<close>

definition codec_ok :: "pb_codec \<Rightarrow> tx_msg \<Rightarrow> bool" where
  "codec_ok pb tx \<longleftrightarrow>
     (\<exists>b. marshalEnv pb (TxEnvelope tx) = Inr b \<and> unmarshalEnv pb b = Inr (TxEnvelope tx)) \<and>
     (\<exists>b. marshalHdr pb (TxHeader tx) = Inr b \<and> unmarshalHdr pb b = Inr (TxHeader tx))"

lemma codec_okE:
  assumes "codec_ok pb tx"
  obtains e h where "marshalEnv pb (TxEnvelope tx) = Inr e" "unmarshalEnv pb e = Inr (TxEnvelope tx)"
    "marshalHdr pb (TxHeader tx) = Inr h" "unmarshalHdr pb h = Inr (TxHeader tx)"
  using assms by (auto simp: codec_ok_def)

lemma read_ops_at:
  assumes "drop p src = appendOps [] ops @ rest" "length src < 2 ^ 32"
  shows "readOpsSection acc src p = Some (Inr (acc @ map wire_image ops, p + length (appendOps [] ops)))"
proof -
  have "appendOps [] ops \<noteq> []" using length_appendOps [of "[]" ops] by auto
  then have ne: "drop p src \<noteq> []" using assms(1) by simp
  then have p: "p < length src" by auto
  have s: "src = appendOps (take p src) ops @ rest"
    using assms(1) by (simp add: appendOps_append [of "take p src"]) (metis append_take_drop_id)
  have l: "length src = p + length (appendOps [] ops) + length rest"
    using arg_cong [OF assms(1), of length] p by simp
  then have "length (ops_bytes ops) < 2 ^ 32" using assms(2) by (simp add: length_appendOps)
  from readOpsSection_append [OF this, of acc "take p src" rest] show ?thesis
    using p by (simp add: s [symmetric] length_appendOps min_def)
qed

lemma read_payload_at:
  assumes "codec_ok pb tx" "length src < 2 ^ 32" "Ops tx0 = []"
    and "src = writePb [] (marshalHdr pb (TxHeader tx)) @ appendOps [] (Ops tx) @ rest"
  shows "read_payload pb tx0 src
    = Some (Inr (tx0\<lparr>TxHeader := TxHeader tx, Ops := map wire_image (Ops tx)\<rparr>, length src - length rest))"
proof -
  obtain h where h: "marshalHdr pb (TxHeader tx) = Inr h" "unmarshalHdr pb h = Inr (TxHeader tx)"
    using assms(1) by (rule codec_okE)
  have r: "readPb src 0 (unmarshalHdr pb) = Inr (TxHeader tx, 0 + length (writePb [] (Inr h)))"
    by (rule readPb_at [of 0 src h "appendOps [] (Ops tx) @ rest"]) (use assms(2,4) h in simp_all)
  have o: "readOpsSection [] src (length (writePb [] (Inr h)))
      = Some (Inr ([] @ map wire_image (Ops tx), length (writePb [] (Inr h)) + length (appendOps [] (Ops tx))))"
    by (rule read_ops_at [of _ _ _ rest]) (use assms(2,4) h in simp_all)
  show ?thesis using r o assms(3,4) h by (simp add: read_payload_def)
qed

lemma UnmarshalHead_at:
  assumes "codec_ok pb tx" "length (head_bytes pb tx) < 2 ^ 32" "Ops tx0 = []"
  shows "UnmarshalHead pb tx0 (head_bytes pb tx)
    = Some (Inr (tx0\<lparr>TxEnvelope := TxEnvelope tx, TxHeader := TxHeader tx,
                     Ops := map wire_image (Ops tx), Normalized := False\<rparr>))"
proof -
  obtain e h where eh: "marshalEnv pb (TxEnvelope tx) = Inr e" "unmarshalEnv pb e = Inr (TxEnvelope tx)"
    "marshalHdr pb (TxHeader tx) = Inr h" "unmarshalHdr pb h = Inr (TxHeader tx)"
    using assms(1) by (rule codec_okE)
  let ?src = "head_bytes pb tx" and ?e = "writePb [] (Inr e)" and ?h = "writePb [] (Inr h)"
  have src: "?src = ?e @ ?h @ appendOps [] (Ops tx)" by (simp add: head_bytes_def eh)
  have "readPb ?src 0 (unmarshalEnv pb) = Inr (TxEnvelope tx, 0 + length ?e)"
    by (rule readPb_at [of 0 ?src e "?h @ appendOps [] (Ops tx)"]) (use assms(2) eh src in simp_all)
  moreover have "readPb ?src (length ?e) (unmarshalHdr pb) = Inr (TxHeader tx, length ?e + length ?h)"
    by (rule readPb_at [of _ ?src h "appendOps [] (Ops tx)"]) (use assms(2) eh src in simp_all)
  moreover have "readOpsSection [] ?src (length ?e + length ?h)
      = Some (Inr ([] @ map wire_image (Ops tx), length ?e + length ?h + length (appendOps [] (Ops tx))))"
    by (rule read_ops_at [of _ _ _ "[]"]) (use assms(2) src in simp_all)
  ultimately show ?thesis by (simp add: UnmarshalHead_def assms(3))
qed

section \<open>Preambles\<close>

lemma be_val_be_bytes_fit: "n < 256 ^ k \<Longrightarrow> be_val (be_bytes k n) = n"
  by simp

lemma put_preamble_fields:
  assumes "hl < 2 ^ 32" "dl < 2 ^ 32" "16 \<le> length h"
  shows "length (put_preamble h hl dl) = 16" "take 4 (put_preamble h hl dl @ r) = go_bytes TxPreambleSignature"
    "TxHeadLen (put_preamble h hl dl @ r) = hl" "TxDataLen (put_preamble h hl dl @ r) = dl"
    "TxSignatureSize (put_preamble h hl dl @ r) = be_val (take 2 (drop 12 h))"
proof -
  have u: "unat (word_of_nat hl :: u32) = hl" "unat (word_of_nat dl :: u32) = dl"
    using assms(1,2) by (simp_all add: unat_of_nat)
  have m: "length TxPreambleSignature = 4" by (simp add: TxPreambleSignature_def)
  show "length (put_preamble h hl dl) = 16" using assms(3) by (simp add: put_preamble_def m)
  show "take 4 (put_preamble h hl dl @ r) = go_bytes TxPreambleSignature" by (simp add: put_preamble_def m)
  show "TxHeadLen (put_preamble h hl dl @ r) = hl" by (simp add: TxHeadLen_def put_preamble_def m u)
  show "TxDataLen (put_preamble h hl dl @ r) = dl" by (simp add: TxDataLen_def put_preamble_def m u)
  have "take 2 (drop 12 (put_preamble h hl dl @ r)) = take 2 (drop 12 (take 16 h) @ r)"
    by (simp add: put_preamble_def m)
  also have "\<dots> = take 2 (drop 12 h)" using assms(3) by (simp add: drop_take)
  finally show "TxSignatureSize (put_preamble h hl dl @ r) = be_val (take 2 (drop 12 h))"
    by (simp add: TxSignatureSize_def)
qed

text \<open>Signature, head length, data length and signature size set: the preamble of a sealed wire.\<close>

lemma seal_preamble_fields:
  assumes "hl < 2 ^ 32" "dl < 2 ^ 32" "n < 2 ^ 16" "16 \<le> length h"
  defines "P \<equiv> take 12 (put_preamble h hl dl) @ be16 (word_of_nat n) @ drop 14 (take 16 h)"
  shows "length P = 16" "take 4 (P @ r) = go_bytes TxPreambleSignature"
    "TxHeadLen (P @ r) = hl" "TxDataLen (P @ r) = dl" "TxSignatureSize (P @ r) = n"
proof -
  have m: "length TxPreambleSignature = 4" by (simp add: TxPreambleSignature_def)
  have t: "take 12 (put_preamble h hl dl) =
      go_bytes TxPreambleSignature @ be32 (word_of_nat hl) @ be32 (word_of_nat dl)"
    by (simp add: put_preamble_def m)
  have u: "unat (word_of_nat hl :: u32) = hl" "unat (word_of_nat dl :: u32) = dl" "unat (word_of_nat n :: u16) = n"
    using assms(1-3) by (simp_all add: unat_of_nat)
  show "length P = 16" using assms(4) by (simp add: P_def t m)
  show "take 4 (P @ r) = go_bytes TxPreambleSignature" by (simp add: P_def t m)
  show "TxHeadLen (P @ r) = hl" by (simp add: TxHeadLen_def P_def t m u)
  show "TxDataLen (P @ r) = dl" by (simp add: TxDataLen_def P_def t m u)
  show "TxSignatureSize (P @ r) = n" by (simp add: TxSignatureSize_def P_def t m u)
qed

section \<open>The plain form\<close>

definition scratch :: "byte list \<Rightarrow> byte list" where
  "scratch dst = (if length dst < 300 then replicate 2048 0 else dst)"

lemma scratch_long: "16 \<le> length (scratch dst)"
  by (simp add: scratch_def)

lemma MarshalHeadAndOps_eq:
  "MarshalHeadAndOps pb tx dst =
     (fst (MarshalHeadAndOps pb tx dst),
      put_preamble (scratch dst) (16 + length (head_bytes pb tx)) (length (DataStore tx)) @ head_bytes pb tx)"
proof -
  let ?b = "take 16 (scratch dst)"
  have l: "length ?b = 16" using scratch_long [of dst] by simp
  have h: "snd (MarshalHead pb tx ?b) = ?b @ head_bytes pb tx"
    using writePb_append [of ?b] writePb_append [of "?b @ writePb [] (marshalEnv pb (TxEnvelope tx))"]
      appendOps_append [of "?b @ writePb [] (marshalEnv pb (TxEnvelope tx)) @ writePb [] (marshalHdr pb (TxHeader tx))"]
    by (simp add: MarshalHead_def Let_def head_bytes_def)
  have p: "put_preamble (?b @ head_bytes pb tx) n m = put_preamble (scratch dst) n m" for n m
    using l by (simp add: put_preamble_def)
  show ?thesis
    using l by (simp add: MarshalHeadAndOps_def scratch_def [symmetric] TxPreambleSize_def case_prod_beta Let_def h p)
qed

lemma MarshalToBuffer_eq:
  "snd (MarshalToBuffer pb tx dst) =
     put_preamble (scratch dst) (16 + length (head_bytes pb tx)) (length (DataStore tx)) @ head_bytes pb tx @ DataStore tx"
  by (subst MarshalToBuffer_def, subst MarshalHeadAndOps_eq) simp

text \<open>What a transaction is after a trip over the wire.\<close>

definition over_wire :: "tx_msg \<Rightarrow> tx_msg" where
  "over_wire tx = reconstructEditIDs
     \<lparr>TxEnvelope = TxEnvelope tx, TxHeader = TxHeader tx, Ops = map wire_image (Ops tx),
      DataStore = DataStore tx, Normalized = False, cryptOfs = 0\<rparr>"

lemma openTx_plain:
  assumes "codec_ok pb tx" "length h \<ge> 16" "16 + length (head_bytes pb tx) < 2 ^ 32" "length ds < 2 ^ 32"
  shows "openTx pb (put_preamble h (16 + length (head_bytes pb tx)) (length ds) @ head_bytes pb tx @ ds) None pub kit v
    = Some (Inr (over_wire (tx\<lparr>DataStore := ds\<rparr>)))"
proof -
  let ?hd = "head_bytes pb tx"
  let ?P = "put_preamble h (16 + length ?hd) (length ds)"
  note f = put_preamble_fields [OF assms(3,4,2)]
  have u: "UnmarshalHead pb TxNew ?hd
    = Some (Inr (TxNew\<lparr>TxEnvelope := TxEnvelope tx, TxHeader := TxHeader tx,
                     Ops := map wire_image (Ops tx), Normalized := False\<rparr>))"
    by (rule UnmarshalHead_at [OF assms(1)]) (use assms(3) in \<open>simp_all add: TxNew_def\<close>)
  have hb: "drop 16 (take (16 + length ?hd) (?P @ ?hd @ ds)) = ?hd" using f(1) by simp
  have db: "take (length ds) (drop (16 + length ?hd) (?P @ ?hd @ ds)) = ds" using f(1) by simp
  show ?thesis
    unfolding openTx_def f TxPreambleSize_def Let_def hb db
    by (simp add: u f(1) over_wire_def) (simp add: TxNew_def)
qed

lemma readBytes_chunks:
  "list_all (\<lambda>c. \<not> snd c) s \<Longrightarrow> concat (map fst s) = b @ r \<Longrightarrow>
     \<exists>s'. readBytes (length b) s = Inr (b, s') \<and> list_all (\<lambda>c. \<not> snd c) s' \<and> concat (map fst s') = r"
proof (induction s arbitrary: b)
  case Nil
  then show ?case by simp
next
  case (Cons c s)
  obtain bs where c: "c = (bs, False)" using Cons.prems(1) by (cases c) simp
  have eq: "bs @ concat (map fst s) = b @ r" using Cons.prems(2) by (simp add: c)
  consider "b = []" | "b \<noteq> []" "length bs \<le> length b" | "b \<noteq> []" "length b < length bs" by fastforce
  then show ?case
  proof cases
    case 1
    then show ?thesis using Cons.prems c by simp
  next
    case 2
    then obtain b' where b': "b = bs @ b'" "concat (map fst s) = b' @ r"
      using eq by (auto simp: append_eq_append_conv2)
    with Cons.IH [OF _ b'(2)] Cons.prems(1) 2(1) show ?thesis by (auto simp: c)
  next
    case 3
    then obtain b' where "bs = b @ b'" "r = b' @ concat (map fst s)"
      using eq by (auto simp: append_eq_append_conv2)
    with 3 Cons.prems(1) show ?thesis by (simp add: c)
  qed
qed

lemma ReadTxMsg_plain:
  assumes "codec_ok pb tx" "length h \<ge> 16" "16 + length (head_bytes pb tx) < 2 ^ 32" "length ds < 2 ^ 32"
    and s: "list_all (\<lambda>c. \<not> snd c) s"
      "concat (map fst s) = put_preamble h (16 + length (head_bytes pb tx)) (length ds) @ head_bytes pb tx @ ds @ rest"
  shows "ReadTxMsg pb s = Some (Inr (over_wire (tx\<lparr>DataStore := ds\<rparr>)))"
proof -
  let ?hd = "head_bytes pb tx"
  let ?P = "put_preamble h (16 + length ?hd) (length ds)"
  note f = put_preamble_fields(1) [OF assms(3,4,2)] put_preamble_fields(2-4) [OF assms(3,4,2), of "[]", simplified]
  obtain s1 where s1: "readBytes 16 s = Inr (?P, s1)" "list_all (\<lambda>c. \<not> snd c) s1"
      "concat (map fst s1) = ?hd @ ds @ rest"
    using readBytes_chunks [OF s] f(1) by auto
  obtain s2 where s2: "readBytes (length ?hd) s1 = Inr (?hd, s2)" "list_all (\<lambda>c. \<not> snd c) s2"
      "concat (map fst s2) = ds @ rest"
    using readBytes_chunks [OF s1(2,3)] by auto
  obtain s3 where s3: "readBytes (length ds) s2 = Inr (ds, s3)"
    using readBytes_chunks [OF s2(2,3)] by auto
  have u: "UnmarshalHead pb TxNew ?hd
    = Some (Inr (TxNew\<lparr>TxEnvelope := TxEnvelope tx, TxHeader := TxHeader tx,
                     Ops := map wire_image (Ops tx), Normalized := False\<rparr>))"
    by (rule UnmarshalHead_at [OF assms(1)]) (use assms(3) in \<open>simp_all add: TxNew_def\<close>)
  show ?thesis
    by (simp add: ReadTxMsg_def TxPreambleSize_def s1(1) f s2(1) s3 u over_wire_def) (simp add: TxNew_def)
qed

section \<open>The sealed form\<close>

text \<open>What the documentation of \<open>CryptoProvider\<close> promises: a signature has the fixed size of the
  provider and verifies under the author's key, and a payload decrypts under its envelope, in which
  only the membership proof may have been filled in.\<close>

definition provider_ok :: "crypto_provider \<Rightarrow> byte list \<Rightarrow> uid \<Rightarrow> bool" where
  "provider_ok c pub kit \<longleftrightarrow>
     0 < SignatureSize c \<and> SignatureSize c < 2 ^ 16 \<and>
     (\<forall>d sig. SignDigest c d = Inr sig \<longrightarrow> length sig = SignatureSize c \<and> VerifyDigest c sig d pub kit = Inr ()) \<and>
     (\<forall>p e proof ct. EncryptPayload c p e = Inr ct \<longrightarrow> DecryptPayload c ct (e\<lparr>MemberProof := proof\<rparr>) = Inr p)"

lemma sign_wire_ok:
  assumes "sign_wire c body = Inr wire" "provider_ok c pub kit"
  obtains sig where "wire = body @ sig" "length sig = SignatureSize c"
    "verify_author c wire (length body) pub kit = Inr ()"
proof -
  obtain framed digest sig where "SigningParts SigningDomain_TxAuthor [body] = Inr framed"
      "HashDigest c framed = Inr digest" "SignDigest c digest = Inr sig" "wire = body @ sig"
    using assms(1) by (auto simp: sign_wire_def and_then_eq_Inr)
  then show thesis using assms(2) by (intro that) (auto simp: provider_ok_def verify_author_def)
qed

lemma TxSigOffset_at:
  assumes "TxSignatureSize wire = n" "0 < n" "length wire = m + n" "16 \<le> m"
  shows "TxSigOffset wire = Inr m"
  using assms by (simp add: TxSigOffset_def TxPreambleSize_def Let_def)

lemma IsPublic_proof [simp]: "IsPublic (e\<lparr>MemberProof := p\<rparr>) = IsPublic e"
  by (simp add: IsPublic_def)

definition seal_buf :: "byte list \<Rightarrow> byte list" where
  "seal_buf dst = (if length dst < 2048 then replicate 2048 0 else dst)"

lemma seal_buf_long: "16 \<le> length (seal_buf dst)"
  by (simp add: seal_buf_def)

lemma payload_eq: "marshalPayload pb tx [] = writePb [] (marshalHdr pb (TxHeader tx)) @ appendOps [] (Ops tx)"
  by (simp add: marshalPayload_def appendOps_append [of "writePb [] (marshalHdr pb (TxHeader tx))"])

text \<open>The common part of opening a sealed wire: up to the envelope and the author check.\<close>

lemma sealed_open:
  assumes codec: "codec_ok pb tx" and prov: "provider_ok c pub kit"
    and wire: "sign_wire c (seal_body pb c tx (seal_buf dst) wp) = Inr wire"
    and len: "length wire < 2 ^ 32"
  defines "e \<equiv> writePb [] (marshalEnv pb (TxEnvelope tx))"
    and "ds \<equiv> (if IsPublic (TxEnvelope tx) then DataStore tx else [])"
  obtains P sig where "length P = 16" "wire = P @ e @ wp @ ds @ sig" "take 4 wire = go_bytes TxPreambleSignature"
    "TxHeadLen wire = 16 + length e + length wp" "TxDataLen wire = length ds"
    "TxSigOffset wire = Inr (length wire - length sig)" "length sig = SignatureSize c"
    "verify_author c wire (length wire - length sig) pub kit = Inr ()"
    "readPb (e @ wp) 0 (unmarshalEnv pb) = Inr (TxEnvelope tx, length e)"
proof -
  obtain b where b: "marshalEnv pb (TxEnvelope tx) = Inr b" "unmarshalEnv pb b = Inr (TxEnvelope tx)"
    using codec by (rule codec_okE)
  let ?n = "SignatureSize c" and ?h = "seal_buf dst"
  let ?hl = "16 + length e + length wp"
  let ?P = "take 12 (put_preamble ?h ?hl (length ds)) @ be16 (word_of_nat ?n) @ drop 14 (take 16 ?h)"
  have body: "seal_body pb c tx ?h wp = ?P @ e @ wp @ ds"
    by (simp add: seal_body_def Let_def e_def ds_def TxPreambleSize_def)
  obtain sig where sig: "wire = (?P @ e @ wp @ ds) @ sig" "length sig = ?n"
      "verify_author c wire (length (?P @ e @ wp @ ds)) pub kit = Inr ()"
    using sign_wire_ok [OF wire prov] unfolding body by blast
  have n: "?n < 2 ^ 16" "0 < ?n" using prov by (simp_all add: provider_ok_def)
  have "length wire = length ?P + length e + length wp + length ds + length sig" using sig(1) by simp
  then have fit: "?hl < 2 ^ 32" "length ds < 2 ^ 32"
    using len seal_buf_long [of dst] by (simp_all add: put_preamble_def TxPreambleSignature_def)
  note f = seal_preamble_fields [OF fit n(1) seal_buf_long]
  have w: "wire = ?P @ e @ wp @ ds @ sig" using sig(1) by simp
  have lw: "length wire - length sig = length (?P @ e @ wp @ ds)" using sig(1) by simp
  show thesis
  proof (rule that)
    show "length ?P = 16" by (rule f(1))
    show "wire = ?P @ e @ wp @ ds @ sig" by (rule w)
    show "take 4 wire = go_bytes TxPreambleSignature" "TxHeadLen wire = ?hl" "TxDataLen wire = length ds"
      using f(2-4) w by (simp_all only:)
    show "TxSigOffset wire = Inr (length wire - length sig)"
    proof (rule TxSigOffset_at [OF _ n(2)])
      show "TxSignatureSize wire = ?n" using f(5) w by (simp only:)
      have "length wire = length (?P @ e @ wp @ ds) + length sig" using sig(1) by (simp only: length_append)
      then show "length wire = length wire - length sig + ?n" using sig(2) by simp
      show "16 \<le> length wire - length sig" using f(1) by (simp only: lw length_append)
    qed
    show "length sig = ?n" by (rule sig(2))
    show "verify_author c wire (length wire - length sig) pub kit = Inr ()" using sig(3) by (simp only: lw)
    have "length (e @ wp) < 2 ^ 63" using fit(1) by simp
    from readPb_at [of 0 "e @ wp" b wp "unmarshalEnv pb", OF _ b(2) this] show "readPb (e @ wp) 0 (unmarshalEnv pb) = Inr (TxEnvelope tx, length e)"
      by (simp add: e_def b(1))
  qed
qed

lemma open_public:
  assumes codec: "codec_ok pb tx" and prov: "provider_ok c pub kit" and pub: "IsPublic (TxEnvelope tx)"
    and wire: "sign_wire c (seal_body pb c tx (seal_buf dst) (marshalPayload pb tx [])) = Inr wire"
    and len: "length wire < 2 ^ 32"
  shows "openTx pb wire (Some c) pub kit True = Some (Inr (over_wire tx))"
proof -
  let ?e = "writePb [] (marshalEnv pb (TxEnvelope tx))" and ?w = "marshalPayload pb tx []" and ?ds = "DataStore tx"
  obtain P sig where s: "length P = 16" "wire = P @ ?e @ ?w @ ?ds @ sig"
    "take 4 wire = go_bytes TxPreambleSignature" "TxHeadLen wire = 16 + length ?e + length ?w" "TxDataLen wire = length ?ds"
    "TxSigOffset wire = Inr (length wire - length sig)"
    "verify_author c wire (length wire - length sig) pub kit = Inr ()"
    "readPb (?e @ ?w) 0 (unmarshalEnv pb) = Inr (TxEnvelope tx, length ?e)"
    by (rule sealed_open [OF codec prov wire len]) (simp add: pub)
  have hb: "drop 16 (take (16 + length ?e + length ?w) wire) = ?e @ ?w"
    unfolding s(2) using s(1) by simp
  have db: "take (length ?ds) (drop (16 + length ?e + length ?w) wire) = ?ds"
    unfolding s(2) using s(1) by simp
  have lw: "length wire = 16 + length ?e + length ?w + length ?ds + length sig" using s(1,2) by simp
  have r: "read_payload pb (TxNew\<lparr>TxEnvelope := TxEnvelope tx\<rparr>) ?w
      = Some (Inr ((TxNew\<lparr>TxEnvelope := TxEnvelope tx\<rparr>)\<lparr>TxHeader := TxHeader tx, Ops := map wire_image (Ops tx)\<rparr>, length ?w - 0))"
    by (rule read_payload_at [OF codec, where rest = "[]", simplified list.size])
      (use len lw in \<open>simp_all add: payload_eq TxNew_def\<close>)
  have g: "\<not> length wire < 16" "\<not> length wire < 16 + length ?e + length ?w"
    "\<not> length wire - (16 + length ?e + length ?w) < length ?ds" using lw by simp_all
  show ?thesis
    unfolding openTx_def TxPreambleSize_def s(3-5) Let_def hb db
    by (simp add: g s(6-8) r pub over_wire_def finish_open_def) (simp add: TxNew_def)
qed

lemma open_private:
  assumes codec: "codec_ok pb tx" and prov: "provider_ok c pub kit" and priv: "\<not> IsPublic (TxEnvelope tx)"
    and wire: "sign_wire c (seal_body pb c tx (seal_buf dst) wp) = Inr wire"
    and dec: "DecryptPayload c wp (TxEnvelope tx) = Inr (marshalPayload pb tx [] @ DataStore tx)"
    and len: "length wire < 2 ^ 32" "length (marshalPayload pb tx [] @ DataStore tx) < 2 ^ 32"
  shows "openTx pb wire (Some c) pub kit True = Some (Inr (over_wire tx))"
proof -
  let ?e = "writePb [] (marshalEnv pb (TxEnvelope tx))" and ?pl = "marshalPayload pb tx []" and ?ds = "DataStore tx"
  obtain P sig where s: "length P = 16" "wire = P @ ?e @ wp @ [] @ sig"
    "take 4 wire = go_bytes TxPreambleSignature" "TxHeadLen wire = 16 + length ?e + length wp" "TxDataLen wire = 0"
    "TxSigOffset wire = Inr (length wire - length sig)"
    "verify_author c wire (length wire - length sig) pub kit = Inr ()"
    "readPb (?e @ wp) 0 (unmarshalEnv pb) = Inr (TxEnvelope tx, length ?e)"
    by (rule sealed_open [OF codec prov wire len(1)]) (simp add: priv)
  have hb: "drop 16 (take (16 + length ?e + length wp) wire) = ?e @ wp"
    unfolding s(2) using s(1) by simp
  have lw: "length wire = 16 + length ?e + length wp + length sig" using s(1,2) by simp
  have ct: "drop (16 + length ?e) (take (length wire - length sig) wire) = wp"
    unfolding lw by (subst s(2)) (use s(1) in simp)
  have r: "read_payload pb (TxNew\<lparr>TxEnvelope := TxEnvelope tx\<rparr>) (?pl @ ?ds)
      = Some (Inr ((TxNew\<lparr>TxEnvelope := TxEnvelope tx\<rparr>)\<lparr>TxHeader := TxHeader tx, Ops := map wire_image (Ops tx)\<rparr>,
          length (?pl @ ?ds) - length ?ds))"
    by (rule read_payload_at [OF codec len(2)]) (simp_all add: payload_eq TxNew_def)
  have g: "\<not> length wire < 16" "\<not> length wire < 16 + length ?e + length wp"
    "\<not> length wire - length sig < 16 + length ?e"
    using lw by simp_all
  show ?thesis
    unfolding openTx_def TxPreambleSize_def s(3-5) Let_def hb
    by (simp add: g s(6-8) ct dec r priv over_wire_def finish_open_def) (simp add: TxNew_def)
qed

lemma over_wire_seal:
  assumes "SealTx pb tx (Some c) dst = (tx', Inr wire)" "codec_ok pb tx'" "provider_ok c pub kit"
    and "length wire < 2 ^ 32" "length (marshalPayload pb tx [] @ DataStore tx) < 2 ^ 32"
  shows "openTx pb wire (Some c) pub kit True = Some (Inr (over_wire tx'))"
proof (cases "IsPublic (TxEnvelope tx)")
  case True
  then have "SealTx pb tx (Some c) dst
      = (tx, sign_wire c (seal_body pb c tx (seal_buf dst) (marshalPayload pb tx [])))"
    by (simp add: SealTx_def seal_buf_def [symmetric] Let_def)
  then have t: "tx = tx'" and w: "sign_wire c (seal_body pb c tx (seal_buf dst) (marshalPayload pb tx [])) = Inr wire"
    using assms(1) by (metis prod.inject)+
  show ?thesis by (rule open_public [OF _ assms(3) True w assms(4), unfolded t]) (rule assms(2))
next
  case False
  then obtain enc mp where p: "EncryptPayload c (marshalPayload pb tx [] @ DataStore tx) (TxEnvelope tx) = Inr enc"
    "tx' = tx\<lparr>TxEnvelope := (TxEnvelope tx)\<lparr>MemberProof := mp\<rparr>\<rparr>"
    "sign_wire c (seal_body pb c tx' (seal_buf dst) enc) = Inr wire"
    using assms(1) by (auto simp: SealTx_def seal_buf_def [symmetric] Let_def split: sum.splits)
  have same: "marshalPayload pb tx [] = marshalPayload pb tx' []" "DataStore tx = DataStore tx'"
    by (simp_all add: p(2) marshalPayload_def)
  have "DecryptPayload c enc (TxEnvelope tx') = Inr (marshalPayload pb tx [] @ DataStore tx)"
    using assms(3) p(1) by (simp add: provider_ok_def p(2))
  moreover have "\<not> IsPublic (TxEnvelope tx')" using False by (simp add: p(2))
  ultimately show ?thesis
    using open_private [OF assms(2,3) _ p(3) _ assms(4)] assms(5) unfolding same by blast
qed

section \<open>Properties\<close>

text \<open>C1. A sealed transaction opens for the holder of the keys: after \<open>SealTx\<close> the wire passes
  the author check and yields envelope, header, data store and, up to what the ops section does not
  carry, the ops of the transaction, whether public or encrypted.\<close>

theorem SealTx_OpenTx:
  assumes "SealTx pb tx (Some c) dst = (tx', Inr wire)" "codec_ok pb tx'" "provider_ok c pub kit"
    and "length wire < 2 ^ 32" "length (marshalPayload pb tx [] @ DataStore tx) < 2 ^ 32"
  shows "OpenTx pb wire (Some c) pub kit = Some (Inr (over_wire tx'))"
  unfolding OpenTx_def by (rule over_wire_seal [OF assms])

text \<open>Concrete parameters: a codec that serves one envelope and one header, a provider that
  reverses a payload.\<close>

definition toy_codec :: "tx_msg \<Rightarrow> pb_codec" where
  "toy_codec tx = \<lparr>marshalEnv = (\<lambda>_. Inr [1]), unmarshalEnv = (\<lambda>_. Inr (TxEnvelope tx)),
     marshalHdr = (\<lambda>_. Inr [2]), unmarshalHdr = (\<lambda>_. Inr (TxHeader tx))\<rparr>"

definition toy_provider :: crypto_provider where
  "toy_provider = \<lparr>SignatureSize = 2, HashDigest = (\<lambda>_. Inr [7]), SignDigest = (\<lambda>d. Inr [1, 2]),
     VerifyDigest = (\<lambda>sig d pub kit. if sig = [1, 2] then Inr () else Inl AuthFailed),
     EncryptPayload = (\<lambda>p env. Inr (rev p)), DecryptPayload = (\<lambda>c env. Inr (rev c)),
     ComputeMemberProof = (\<lambda>i env. Inr [9])\<rparr>"

definition private_tx :: tx_msg where
  "private_tx = sample_tx\<lparr>TxEnvelope := SetEpochID (UID 3 4) (TxEnvelope sample_tx)\<rparr>"

definition private_sealed :: tx_msg where
  "private_sealed = private_tx\<lparr>TxEnvelope := (TxEnvelope private_tx)\<lparr>MemberProof := [9]\<rparr>\<rparr>"

lemma toy_codec_ok: "codec_ok (toy_codec tx) tx"
  by (simp add: codec_ok_def toy_codec_def)

lemma toy_provider_ok: "provider_ok toy_provider pub kit"
  by (simp add: provider_ok_def toy_provider_def)

definition toy_wire :: "byte list" where
  "toy_wire = projr (snd (SealTx (toy_codec private_sealed) private_tx (Some toy_provider) []))"

lemma toy_wire_seal:
  "SealTx (toy_codec private_sealed) private_tx (Some toy_provider) [] = (private_sealed, Inr toy_wire)"
  "length toy_wire < 2 ^ 32"
  "length (marshalPayload (toy_codec private_sealed) private_tx [] @ DataStore private_tx) < 2 ^ 32"
proof -
  let ?r = "SealTx (toy_codec private_sealed) private_tx (Some toy_provider) []"
  have u: "put_uvarint 1 = [1]" by code_simp
  have ops: "length (appendOps [] (Ops private_tx)) \<le> 400"
    using length_put_ops_le [of "replicate TxField_MaxFields 0" "Ops private_tx"]
    by (simp add: length_appendOps private_tx_def sample_tx_def TxNew_def)
  have pl: "length (marshalPayload (toy_codec private_sealed) private_tx [] @ DataStore private_tx) \<le> 500"
    using ops by (simp add: payload_eq writePb_def toy_codec_def u private_tx_def sample_tx_def)
  define body where "body = seal_body (toy_codec private_sealed) toy_provider private_sealed (seal_buf [])
      (rev (marshalPayload (toy_codec private_sealed) private_tx [] @ DataStore private_tx))"
  have lb: "length body \<le> 600"
    using pl by (simp add: body_def seal_body_def Let_def writePb_def toy_codec_def u private_sealed_def private_tx_def
        IsPublic_def SetEpochID_def put_preamble_def TxPreambleSignature_def seal_buf_def)
  obtain fr where "SigningParts SigningDomain_TxAuthor [body] = Inr fr"
    using frame_parts_ok [of "[body]"] lb by (auto simp: SigningParts_def)
  then have w: "sign_wire toy_provider body = Inr (body @ [1, 2])"
    by (simp add: sign_wire_def toy_provider_def)
  have r: "?r = (private_sealed, sign_wire toy_provider body)"
    by (simp add: SealTx_def private_tx_def IsPublic_def SetEpochID_def Let_def toy_provider_def private_sealed_def
        body_def seal_buf_def)
  have t: "toy_wire = body @ [1, 2]" by (simp add: toy_wire_def r w)
  show "?r = (private_sealed, Inr toy_wire)" by (simp only: r w t)
  show "length toy_wire < 2 ^ 32"
    "length (marshalPayload (toy_codec private_sealed) private_tx [] @ DataStore private_tx) < 2 ^ 32"
    using lb pl by (simp_all add: t)
qed

lemma sample_sizes:
  "16 + length (head_bytes (toy_codec sample_tx) sample_tx) < 2 ^ 32" "length (DataStore sample_tx) < 2 ^ 32"
  "DataStore sample_tx \<noteq> []"
proof -
  have "length (head_bytes (toy_codec sample_tx) sample_tx) < 120" "length (DataStore sample_tx) < 120"
    "DataStore sample_tx \<noteq> []"
    by code_simp+
  then show "16 + length (head_bytes (toy_codec sample_tx) sample_tx) < 2 ^ 32" "length (DataStore sample_tx) < 2 ^ 32"
    "DataStore sample_tx \<noteq> []"
    by simp_all
qed

theorem SealTx_OpenTx_witness:
  "OpenTx (toy_codec private_sealed) toy_wire (Some toy_provider) [] nilUID = Some (Inr (over_wire private_sealed))"
  by (rule SealTx_OpenTx [OF toy_wire_seal(1) toy_codec_ok toy_provider_ok toy_wire_seal(2,3)])

text \<open>C2. Nothing is opened unverified: a wire that \<open>OpenTx\<close> accepts carries a nonempty trailing
  signature which the provider verified, under the key the caller named, over the domain-separated
  digest of every byte before it.\<close>

theorem OpenTx_authentic:
  assumes "OpenTx pb wire (Some c) pub kit = Some (Inr tx)"
  shows "\<exists>m framed digest. 16 \<le> m \<and> m < length wire \<and> TxSigOffset wire = Inr m \<and>
    SigningParts SigningDomain_TxAuthor [take m wire] = Inr framed \<and> HashDigest c framed = Inr digest \<and>
    VerifyDigest c (drop m wire) digest pub kit = Inr ()"
proof -
  obtain m where m: "TxSigOffset wire = Inr m" "verify_author c wire m pub kit = Inr ()"
    using assms by (auto simp: OpenTx_def openTx_def Let_def split: if_splits sum.splits)
  have "16 \<le> m \<and> m < length wire"
    using m(1) by (auto simp: TxSigOffset_def TxPreambleSize_def Let_def split: if_splits)
  then show ?thesis using m by (auto simp: verify_author_def and_then_eq_Inr)
qed

theorem OpenTx_authentic_witness:
  "\<exists>m framed digest. TxSigOffset toy_wire = Inr m \<and> HashDigest toy_provider framed = Inr digest \<and>
     VerifyDigest toy_provider (drop m toy_wire) digest [] nilUID = Inr ()"
proof -
  have "OpenTx (toy_codec private_sealed) toy_wire (Some toy_provider) [] nilUID = Some (Inr (over_wire private_sealed))"
    unfolding OpenTx_def by (rule over_wire_seal [OF toy_wire_seal(1) toy_codec_ok toy_provider_ok toy_wire_seal(2,3)])
  from OpenTx_authentic [OF this] show ?thesis by blast
qed

text \<open>The plain form round trips: what \<open>MarshalToBuffer\<close> writes opens to the transaction, and
  so does a stream that delivers it in any chunks, followed by anything.\<close>

theorem plain_roundtrip:
  assumes "codec_ok pb tx" "16 + length (head_bytes pb tx) < 2 ^ 32" "length (DataStore tx) < 2 ^ 32"
    and "list_all (\<lambda>c. \<not> snd c) stream" "concat (map fst stream) = snd (MarshalToBuffer pb tx dst) @ rest"
  shows "OpenTx pb (snd (MarshalToBuffer pb tx dst)) None pub kit = Some (Inr (over_wire tx)) \<and>
         ReadTxMsg pb stream = Some (Inr (over_wire tx))"
  using openTx_plain [OF assms(1) scratch_long assms(2,3)] ReadTxMsg_plain [OF assms(1) scratch_long assms(2,3,4)]
    assms(5) by (simp add: OpenTx_def MarshalToBuffer_eq)

theorem plain_roundtrip_witness:
  "ReadTxMsg (toy_codec sample_tx)
     [(take 5 (snd (MarshalToBuffer (toy_codec sample_tx) sample_tx [])), False), ([], False),
      (drop 5 (snd (MarshalToBuffer (toy_codec sample_tx) sample_tx [])) @ [42], False)]
   = Some (Inr (over_wire sample_tx))"
proof -
  let ?w = "snd (MarshalToBuffer (toy_codec sample_tx) sample_tx [])"
  have "concat (map fst [(take 5 ?w, False), ([], False), (drop 5 ?w @ [42], False)]) = ?w @ [42]"
    by (simp add: append_assoc [symmetric])
  from plain_roundtrip [OF toy_codec_ok sample_sizes(1,2) _ this, THEN conjunct2] show ?thesis by simp
qed

text \<open>\<open>ReadTxMsg\<close> looks at the error of a read before its bytes: a reader that reports the
  end of the stream together with the last bytes, as \<open>io.Reader\<close> allows, makes it lose a complete
  message.\<close>

theorem ReadTxMsg_final_chunk:
  assumes "codec_ok pb tx" "16 + length (head_bytes pb tx) < 2 ^ 32" "length (DataStore tx) < 2 ^ 32"
  shows "ReadTxMsg pb [(snd (MarshalToBuffer pb tx dst), True)] = Some (Inl EndOfStream)"
proof -
  let ?hd = "head_bytes pb tx" and ?ds = "DataStore tx"
  let ?P = "put_preamble (scratch dst) (16 + length ?hd) (length ?ds)"
  note f = put_preamble_fields(1) [OF assms(2,3) scratch_long]
    put_preamble_fields(2-4) [OF assms(2,3) scratch_long, of _ "[]", simplified]
  have ne: "?hd \<noteq> []" using length_appendOps [of "[]" "Ops tx"] by (auto simp: head_bytes_def)
  have r1: "readBytes 16 [(snd (MarshalToBuffer pb tx dst), True)] = Inr (?P, [(?hd @ ?ds, True)])"
    using ne f(1) by (simp add: MarshalToBuffer_eq)
  have u: "UnmarshalHead pb TxNew ?hd
    = Some (Inr (TxNew\<lparr>TxEnvelope := TxEnvelope tx, TxHeader := TxHeader tx,
                     Ops := map wire_image (Ops tx), Normalized := False\<rparr>))"
    by (rule UnmarshalHead_at [OF assms(1)]) (use assms(2) in \<open>simp_all add: TxNew_def\<close>)
  show ?thesis
    using ne unfolding ReadTxMsg_def TxPreambleSize_def r1 sum.case prod.case f
    by (cases "?ds = []") (simp_all add: u)
qed

theorem ReadTxMsg_final_chunk_witness:
  "ReadTxMsg (toy_codec sample_tx) [(snd (MarshalToBuffer (toy_codec sample_tx) sample_tx []), True)]
     = Some (Inl EndOfStream)"
  by (rule ReadTxMsg_final_chunk [OF toy_codec_ok sample_sizes(1,2)])

text \<open>Without a provider \<open>SealTx\<close> writes the preamble of the whole transaction but not its data
  store, so \<open>OpenTx\<close> refuses every such wire whose transaction carries data.\<close>

theorem SealTx_plain_truncates:
  assumes "16 + length (head_bytes pb tx) < 2 ^ 32" "length (DataStore tx) < 2 ^ 32" "DataStore tx \<noteq> []"
    and "SealTx pb tx None dst = (tx', Inr wire)"
  shows "OpenTx pb wire None pub kit = Some (Inl ErrMalformedTx)"
proof -
  let ?P = "put_preamble (scratch dst) (16 + length (head_bytes pb tx)) (length (DataStore tx))"
  have w: "wire = ?P @ head_bytes pb tx"
    using assms(4) by (subst (asm) SealTx_def, subst (asm) MarshalHeadAndOps_eq) simp
  note f = put_preamble_fields [OF assms(1,2) scratch_long]
  show ?thesis unfolding w OpenTx_def openTx_def f(2-4) TxPreambleSize_def Let_def
    by (simp add: f(1) assms(3))
qed

theorem SealTx_plain_truncates_witness:
  "OpenTx (toy_codec sample_tx) (projr (snd (SealTx (toy_codec sample_tx) sample_tx None []))) None [] nilUID
     = Some (Inl ErrMalformedTx)"
proof (rule SealTx_plain_truncates [OF sample_sizes])
  show "SealTx (toy_codec sample_tx) sample_tx None []
      = (fst (SealTx (toy_codec sample_tx) sample_tx None []), Inr (projr (snd (SealTx (toy_codec sample_tx) sample_tx None []))))"
    by (simp add: SealTx_def case_prod_beta)
qed

definition hostile_wire :: "byte list" where
  "hostile_wire = go_bytes ''AMP1'' @ be32 26 @ be32 0 @ [0, 2, 0, 0] @ replicate 9 0x80 @ [1]"

text \<open>A dozen bytes from anyone stop the process: a message length of \<open>2 ^ 63\<close> makes the end
  of the slice negative, in the envelope parser that relays run on unauthenticated input and in the
  opening of a transaction before its signature is checked; a stream whose head length is below the
  preamble size does the same in \<open>ReadTxMsg\<close>.\<close>

theorem hostile_wire_panics:
  "ParseTxEnvelope pb hostile_wire = Inl Panic \<and>
   OpenTx pb hostile_wire (Some c) pub kit = Some (Inl Panic) \<and>
   ReadTxMsg pb [(go_bytes ''AMP1'' @ replicate 12 0, False)] = Some (Inl Panic)"
proof -
  let ?b = "replicate 9 0x80 @ [1] :: byte list"
  have r: "readPb ?b 0 u = (Inl Panic :: (tx_envelope \<times> nat) outcome)" for u
  proof -
    have "read_uvarint ?b 0 = Inr (0x8000000000000000, 10)" by code_simp
    moreover have "go_int (int 10 + sint (0x8000000000000000 :: u64)) < 0" by code_simp
    ultimately show ?thesis by (simp add: readPb_def Let_def)
  qed
  have p: "take 4 hostile_wire = go_bytes TxPreambleSignature" "TxHeadLen hostile_wire = 26" "TxDataLen hostile_wire = 0"
    "length hostile_wire = 26" "drop 16 hostile_wire = ?b" "take 26 hostile_wire = hostile_wire"
    by code_simp+
  let ?z = "go_bytes ''AMP1'' @ replicate 12 0"
  have q: "take 4 ?z = go_bytes TxPreambleSignature" "TxHeadLen ?z = 0"
    "readBytes 16 [(?z, False)] = Inr (?z, [])"
    by code_simp+
  show ?thesis
  proof (intro conjI)
    show "ReadTxMsg pb [(?z, False)] = Some (Inl Panic)"
      unfolding ReadTxMsg_def TxPreambleSize_def q(3) sum.case prod.case q(1,2) by simp
  qed (simp_all add: ParseTxEnvelope_def OpenTx_def openTx_def TxPreambleSize_def p r Let_def)
qed

end
