(* ===== verification/Crypto.thy ===== *)
theory Crypto
  imports Signing Address
begin

text \<open>
  Sealing and key derivation (\<open>stdlib/safe/crypto.go\<close>) and the two boxes built on them:
  epoch links (\<open>amp/amp.support.epoch.go\<close>) and sealed values
  (\<open>amp/amp.support.sealed.go\<close>).  The cipher XChaCha20-Poly1305, HKDF and HMAC are
  third-party code: the record \<open>primitives\<close>.  A random source is the list of bytes it will
  yield.
\<close>

section \<open>Primitives\<close>

record primitives =
  xseal :: "byte list \<Rightarrow> byte list \<Rightarrow> byte list \<Rightarrow> byte list \<Rightarrow> byte list"
  xopen :: "byte list \<Rightarrow> byte list \<Rightarrow> byte list \<Rightarrow> byte list \<Rightarrow> byte list option"
  hkdf :: "byte list \<Rightarrow> byte list \<Rightarrow> byte list \<Rightarrow> byte list option"
  hmac256 :: "byte list \<Rightarrow> byte list \<Rightarrow> byte list"

text \<open>What \<open>cipher.AEAD\<close> documents: opening what was sealed under the same key, nonce and
  additional data gives the plaintext; and what HKDF documents: it yields the 32 bytes asked
  for.\<close>

definition aead_law :: "primitives \<Rightarrow> bool" where
  "aead_law P \<longleftrightarrow> (\<forall>k n p a. xopen P k n (xseal P k n p a) a = Some p)"

definition hkdf_law :: "primitives \<Rightarrow> bool" where
  "hkdf_law P \<longleftrightarrow> (\<forall>root salt info key. hkdf P root salt info = Some key \<longrightarrow> length key = 32)"

definition DEKSize :: nat where "DEKSize = 32"
definition NonceSize :: nat where "NonceSize = 24"

definition read_full :: "nat \<Rightarrow> byte list \<Rightarrow> (byte list \<times> byte list) outcome" where
  "read_full n rand = (if length rand < n then Inl EndOfStream else Inr (take n rand, drop n rand))"

definition NewAEAD :: "byte list \<Rightarrow> unit outcome" where
  "NewAEAD key = (if length key \<noteq> DEKSize then Inl Other else Inr ())"

definition DeriveKey :: "primitives \<Rightarrow> byte list \<Rightarrow> byte list \<Rightarrow> byte list \<Rightarrow> byte list outcome" where
  "DeriveKey P rootKey salt info =
     (case hkdf P rootKey salt info of None \<Rightarrow> Inl Other | Some derived \<Rightarrow> Inr derived)"

definition DeriveSubKey :: "primitives \<Rightarrow> byte list \<Rightarrow> string \<Rightarrow> byte list outcome" where
  "DeriveSubKey P masterKey purpose = DeriveKey P masterKey [] (go_bytes purpose)"

definition DeriveSharedKey ::
  "primitives \<Rightarrow> string \<Rightarrow> byte list \<Rightarrow> byte list \<Rightarrow> byte list \<Rightarrow> byte list outcome" where
  "DeriveSharedKey P curveLabel pubKeyA pubKeyB shared =
     (let (lo, hi) = (if bytes_compare pubKeyA pubKeyB > 0 then (pubKeyB, pubKeyA) else (pubKeyA, pubKeyB));
          info = go_bytes ''safe.'' @ go_bytes curveLabel @ go_bytes ''.'' @ lo @ hi
      in DeriveKey P shared [] info)"

definition ComputeHMAC :: "primitives \<Rightarrow> byte list \<Rightarrow> byte list \<Rightarrow> byte list" where
  "ComputeHMAC P key msg = hmac256 P key msg"

definition VerifyHMAC :: "primitives \<Rightarrow> byte list \<Rightarrow> byte list \<Rightarrow> byte list \<Rightarrow> bool" where
  "VerifyHMAC P key msg mac \<longleftrightarrow> ComputeHMAC P key msg = mac"

definition SealAEAD ::
  "primitives \<Rightarrow> byte list \<Rightarrow> byte list \<Rightarrow> byte list \<Rightarrow> byte list \<Rightarrow> (byte list \<times> byte list) outcome" where
  "SealAEAD P rand key plaintext aad =
     and_then (NewAEAD key) (\<lambda>_.
     and_then (read_full NonceSize rand) (\<lambda>(nonce, _).
     Inr (nonce, xseal P key nonce plaintext aad)))"

text \<open>\<open>OpenAEAD\<close>: \<open>aead.Open\<close> panics on a nonce of the wrong length.\<close>

definition OpenAEAD ::
  "primitives \<Rightarrow> byte list \<Rightarrow> byte list \<Rightarrow> byte list \<Rightarrow> byte list \<Rightarrow> byte list outcome" where
  "OpenAEAD P key nonce ciphertext aad =
     and_then (NewAEAD key) (\<lambda>_.
     if length nonce \<noteq> NonceSize then Inl Panic
     else case xopen P key nonce ciphertext aad of None \<Rightarrow> Inl Other | Some plaintext \<Rightarrow> Inr plaintext)"

definition GenerateDEK :: "byte list \<Rightarrow> byte list outcome" where
  "GenerateDEK rand = and_then (read_full DEKSize rand) (\<lambda>(dek, _). Inr dek)"

section \<open>Keys\<close>

record sym_key =
  CryptoKitID :: uid
  EpochID :: uid
  Role :: u32
  KeyBytes :: "byte list"

definition KeyRole_ContentKey :: u32 where "KeyRole_ContentKey = 0"

section \<open>Epoch links\<close>

record encrypted_sym_key =
  box_CryptoKitID :: uid
  box_EpochID :: uid
  box_Ciphertext :: "byte list"

record epoch_link =
  FromEpoch :: "uid option"
  ToEpoch :: "uid option"
  Box :: "encrypted_sym_key option"

text \<open>\<open>Tag.UID()\<close> of an optional tag is nil-safe.\<close>

definition Tag_UID :: "uid option \<Rightarrow> uid" where
  "Tag_UID v = (case v of None \<Rightarrow> nilUID | Some u \<Rightarrow> u)"

definition epochLinkPurpose :: string where "epochLinkPurpose = ''epoch-link''"

definition epochLinkAAD :: "uid \<Rightarrow> uid \<Rightarrow> byte list" where
  "epochLinkAAD fromEpoch toEpoch = UID_AppendTo toEpoch (UID_AppendTo fromEpoch [])"

definition SealEpochLinkBox ::
  "primitives \<Rightarrow> byte list \<Rightarrow> sym_key \<Rightarrow> sym_key \<Rightarrow> encrypted_sym_key outcome" where
  "SealEpochLinkBox P rand fromKey toKey =
     (if IsNil (EpochID fromKey) \<or> IsNil (EpochID toKey) \<or> KeyBytes fromKey = [] \<or> KeyBytes toKey = []
      then Inl BadRequest
      else if CompareTo (EpochID toKey) (EpochID fromKey) \<ge> 0 then Inl BadRequest
      else and_then (DeriveSubKey P (KeyBytes fromKey) epochLinkPurpose) (\<lambda>subKey.
           and_then (SealAEAD P rand subKey (KeyBytes toKey) (epochLinkAAD (EpochID fromKey) (EpochID toKey)))
             (\<lambda>(nonce, cipherblob).
           Inr \<lparr>box_CryptoKitID = CryptoKitID toKey, box_EpochID = EpochID toKey,
                box_Ciphertext = nonce @ cipherblob\<rparr>)))"

definition OpenEpochLinkBox :: "primitives \<Rightarrow> sym_key \<Rightarrow> epoch_link \<Rightarrow> sym_key outcome" where
  "OpenEpochLinkBox P fromKey link =
     (let fromEpoch = Tag_UID (FromEpoch link); toEpoch = Tag_UID (ToEpoch link)
      in case Box link of
           None \<Rightarrow> Inl BadRequest
         | Some box \<Rightarrow>
             if IsNil fromEpoch \<or> IsNil toEpoch then Inl BadRequest
             else if EpochID fromKey \<noteq> fromEpoch then Inl BadRequest
             else if box_EpochID box \<noteq> toEpoch then Inl BadRequest
             else if length (box_Ciphertext box) < NonceSize then Inl DecryptFailed
             else and_then (DeriveSubKey P (KeyBytes fromKey) epochLinkPurpose) (\<lambda>subKey.
                  and_then (OpenAEAD P subKey (take NonceSize (box_Ciphertext box))
                              (drop NonceSize (box_Ciphertext box)) (epochLinkAAD fromEpoch toEpoch))
                    (\<lambda>plain.
                  Inr \<lparr>CryptoKitID = box_CryptoKitID box, EpochID = toEpoch,
                       Role = KeyRole_ContentKey, KeyBytes = plain\<rparr>)))"

section \<open>Sealed values\<close>

record sealed_value =
  sv_ContainerID :: uid
  sv_EpochID :: uid
  sv_Role :: u32
  sv_ContentType :: string
  sv_Ciphertext :: "byte list"

definition sealedValuePurpose :: string where "sealedValuePurpose = ''sealed-attr''"

definition sealedValueAAD :: "address \<Rightarrow> byte list" where
  "sealedValueAAD addr = ElementLSM addr"

definition SealValueBox ::
  "primitives \<Rightarrow> byte list \<Rightarrow> sym_key \<Rightarrow> uid \<Rightarrow> address \<Rightarrow> string \<Rightarrow> byte list \<Rightarrow> sealed_value outcome" where
  "SealValueBox P rand epochKey containerID addr contentType plaintext =
     (if IsNil (EpochID epochKey) \<or> KeyBytes epochKey = [] then Inl BadRequest
      else if IsNil containerID then Inl BadRequest
      else if contentType = [] \<or> plaintext = [] then Inl BadRequest
      else and_then (DeriveSubKey P (KeyBytes epochKey) sealedValuePurpose) (\<lambda>subKey.
           and_then (SealAEAD P rand subKey plaintext (sealedValueAAD addr)) (\<lambda>(nonce, cipherblob).
           Inr \<lparr>sv_ContainerID = containerID, sv_EpochID = EpochID epochKey, sv_Role = Role epochKey,
                sv_ContentType = contentType, sv_Ciphertext = nonce @ cipherblob\<rparr>)))"

definition OpenValueBox :: "primitives \<Rightarrow> sym_key \<Rightarrow> address \<Rightarrow> sealed_value option \<Rightarrow> byte list outcome" where
  "OpenValueBox P epochKey addr box =
     (case box of
        None \<Rightarrow> Inl BadRequest
      | Some b \<Rightarrow>
          if length (sv_Ciphertext b) < NonceSize then Inl BadRequest
          else if EpochID epochKey \<noteq> sv_EpochID b then Inl BadRequest
          else if Role epochKey \<noteq> sv_Role b then Inl BadRequest
          else and_then (DeriveSubKey P (KeyBytes epochKey) sealedValuePurpose) (\<lambda>subKey.
               OpenAEAD P subKey (take NonceSize (sv_Ciphertext b)) (drop NonceSize (sv_Ciphertext b))
                 (sealedValueAAD addr)))"

section \<open>Lemmas\<close>

lemma SealAEAD_open:
  assumes "aead_law P" "SealAEAD P rand key plain aad = Inr (nonce, c)"
  shows "length nonce = NonceSize \<and> OpenAEAD P key nonce c aad = Inr plain"
  using assms by (auto simp: SealAEAD_def OpenAEAD_def read_full_def and_then_eq_Inr aead_law_def
      split: if_splits)

lemma bytes_compare_eq: "bytes_compare x y = 0 \<longleftrightarrow> x = y"
  by (induction x y rule: bytes_compare.induct) (auto simp: not_less dest: order.antisym)

lemma bytes_compare_swap: "bytes_compare y x = - bytes_compare x y"
  by (induction x y rule: bytes_compare.induct) (auto simp: not_less)

lemma UID_AppendTo_id: "UID_AppendTo a p = p @ id_bytes a"
  by (simp add: UID_AppendTo_def id_bytes_def)

lemma id_bytes_inject: "id_bytes a = id_bytes b \<longleftrightarrow> a = b"
  by (metis be_val_id_bytes uval_eqI)

lemma epochLinkAAD_inject: "epochLinkAAD a b = epochLinkAAD c d \<longleftrightarrow> a = c \<and> b = d"
  by (simp add: epochLinkAAD_def UID_AppendTo_id id_bytes_inject)

lemma sealedValueAAD_inject: "sealedValueAAD a = sealedValueAAD b \<longleftrightarrow> CompareElementID a b = 0"
proof -
  have "ElementLSM a = ElementLSM b \<longleftrightarrow> bytes_compare (ElementLSM a) (ElementLSM b) = 0"
    by (simp add: bytes_compare_eq)
  then show ?thesis by (simp add: sealedValueAAD_def ElementLSM_bytes element_bytes_order)
qed

section \<open>Properties\<close>

text \<open>The shared key of an exchange does not depend on which side derives it.\<close>

theorem DeriveSharedKey_symmetric:
  "DeriveSharedKey P curve a b shared = DeriveSharedKey P curve b a shared"
  using bytes_compare_swap [of a b] bytes_compare_eq [of a b]
  by (auto simp: DeriveSharedKey_def Let_def)

text \<open>An epoch link opens to the key that was sealed into it, for the holder of the newer
  key, and it only ever points from a newer epoch to an older one.\<close>

theorem EpochLink_roundtrip:
  assumes "aead_law P" "SealEpochLinkBox P rand fromKey toKey = Inr box"
  shows "OpenEpochLinkBox P fromKey
           \<lparr>FromEpoch = Some (EpochID fromKey), ToEpoch = Some (EpochID toKey), Box = Some box\<rparr>
           = Inr (toKey\<lparr>Role := KeyRole_ContentKey\<rparr>) \<and> EpochID toKey < EpochID fromKey"
proof -
  from assms(2) have g: "\<not> IsNil (EpochID fromKey)" "\<not> IsNil (EpochID toKey)"
    "\<not> CompareTo (EpochID toKey) (EpochID fromKey) \<ge> 0"
    by (auto simp: SealEpochLinkBox_def split: if_splits)
  then obtain subKey nonce c where k: "DeriveSubKey P (KeyBytes fromKey) epochLinkPurpose = Inr subKey"
      "SealAEAD P rand subKey (KeyBytes toKey) (epochLinkAAD (EpochID fromKey) (EpochID toKey)) = Inr (nonce, c)"
      "box = \<lparr>box_CryptoKitID = CryptoKitID toKey, box_EpochID = EpochID toKey, box_Ciphertext = nonce @ c\<rparr>"
    using assms(2) by (auto simp: SealEpochLinkBox_def and_then_eq_Inr split: if_splits)
  from SealAEAD_open [OF assms(1) k(2)] show ?thesis
    using g by (simp add: OpenEpochLinkBox_def Tag_UID_def k CompareTo_simps not_le)
qed

definition toy_primitives :: primitives where
  "toy_primitives = \<lparr>xseal = (\<lambda>k n p a. p @ a), xopen = (\<lambda>k n c a. Some (take (length c - length a) c)),
     hkdf = (\<lambda>root salt info. Some (replicate 32 7)), hmac256 = (\<lambda>k m. k @ m)\<rparr>"

lemma toy_laws: "aead_law toy_primitives" "hkdf_law toy_primitives"
  by (simp_all add: aead_law_def hkdf_law_def toy_primitives_def)

theorem EpochLink_roundtrip_witness:
  "\<exists>box. OpenEpochLinkBox toy_primitives \<lparr>CryptoKitID = nilUID, EpochID = UID 0 2, Role = 0, KeyBytes = [1]\<rparr>
     \<lparr>FromEpoch = Some (UID 0 2), ToEpoch = Some (UID 0 1), Box = Some box\<rparr>
     = Inr \<lparr>CryptoKitID = nilUID, EpochID = UID 0 1, Role = 0, KeyBytes = [2]\<rparr>"
proof -
  let ?from = "\<lparr>CryptoKitID = nilUID, EpochID = UID 0 2, Role = 0, KeyBytes = [1]\<rparr>"
  let ?to = "\<lparr>CryptoKitID = nilUID, EpochID = UID 0 1, Role = 0, KeyBytes = [2]\<rparr>"
  have "\<exists>box. SealEpochLinkBox toy_primitives (replicate 24 0) ?from ?to = Inr box"
    by (simp add: SealEpochLinkBox_def DeriveSubKey_def DeriveKey_def toy_primitives_def SealAEAD_def
        NewAEAD_def DEKSize_def read_full_def NonceSize_def IsNil_def CompareTo_def)
  then obtain box where "SealEpochLinkBox toy_primitives (replicate 24 0) ?from ?to = Inr box" by blast
  from EpochLink_roundtrip [OF toy_laws(1) this] show ?thesis
    by (intro exI [of _ box]) (simp add: KeyRole_ContentKey_def)
qed

text \<open>A sealed value opens, for the holder of the epoch key and at the element it was
  sealed for, to what was sealed; the additional data binds exactly that element, so a box read
  from any other element is opened under different additional data.\<close>

theorem SealedValue_roundtrip:
  assumes "aead_law P" "SealValueBox P rand key containerID addr contentType plain = Inr box"
  shows "OpenValueBox P key addr (Some box) = Inr plain \<and> plain \<noteq> [] \<and>
         (sealedValueAAD other = sealedValueAAD addr \<longleftrightarrow> CompareElementID other addr = 0)"
proof -
  from assms(2) have g: "plain \<noteq> []" by (auto simp: SealValueBox_def split: if_splits)
  obtain subKey nonce c where k: "DeriveSubKey P (KeyBytes key) sealedValuePurpose = Inr subKey"
      "SealAEAD P rand subKey plain (sealedValueAAD addr) = Inr (nonce, c)"
      "box = \<lparr>sv_ContainerID = containerID, sv_EpochID = EpochID key, sv_Role = Role key,
              sv_ContentType = contentType, sv_Ciphertext = nonce @ c\<rparr>"
    using assms(2) by (auto simp: SealValueBox_def and_then_eq_Inr split: if_splits)
  from SealAEAD_open [OF assms(1) k(2)] show ?thesis
    using g by (simp add: OpenValueBox_def k sealedValueAAD_inject)
qed

theorem SealedValue_roundtrip_witness:
  "\<exists>box. OpenValueBox toy_primitives \<lparr>CryptoKitID = nilUID, EpochID = UID 0 2, Role = 0, KeyBytes = [1]\<rparr>
     nilAddress (Some box) = Inr [9]"
proof -
  let ?k = "\<lparr>CryptoKitID = nilUID, EpochID = UID 0 2, Role = 0, KeyBytes = [1]\<rparr>"
  have "\<exists>box. SealValueBox toy_primitives (replicate 24 0) ?k (UID 0 5) nilAddress ''text/plain'' [9] = Inr box"
    by (simp add: SealValueBox_def DeriveSubKey_def DeriveKey_def toy_primitives_def SealAEAD_def
        NewAEAD_def DEKSize_def read_full_def NonceSize_def IsNil_def)
  then show ?thesis using SealedValue_roundtrip [OF toy_laws(1)] by blast
qed

end
