(* ===== verification/Epoch.thy ===== *)
theory Epoch
  imports Crypto "HOL-Library.List_Lexorder" "HOL-Library.Multiset"
begin

text \<open>
  Planet epochs (\<open>amp/amp.support.epoch.go\<close>, part of \<open>amp/amp.support.attrs.go\<close>): the
  verbatim-signed frame, assembly, the continuity check between an epoch and its predecessor,
  and the founder fingerprint.  The protobuf codec of the layers is generated code: the
  arguments \<open>marshal\<close> and \<open>parse\<close>; \<open>newHash\<close> is the registry of hash kits.  The
  fields of \<open>EpochTerms\<close> that this code does not read stay in the record's extension.
\<close>

section \<open>Data\<close>

type_synonym hash_kits = "u32 \<Rightarrow> (byte list \<Rightarrow> byte list) outcome"

record epoch_terms =
  EpochTag :: "uid option"
  PreviousEpoch :: "uid option"
  EpochHeight :: u64
  HashKit :: u32
  CharterHash :: "byte list"
  Seal :: u32

record planet_epoch =
  Charter :: "byte list"
  Terms :: "byte list"
  PE_EpochTag :: "uid option"

record co_signature =
  MemberTag :: "uid option"
  Signature :: "byte list"

record pub_key =
  PubKitID :: uid
  PubBytes :: "byte list"

definition SealState_Sealed :: u32 where "SealState_Sealed = 2"
definition HashKitID_Blake2s_256 :: u32 where "HashKitID_Blake2s_256 = 0"

section \<open>The signed frame\<close>

definition EpochFrame :: "byte list \<Rightarrow> byte list \<Rightarrow> byte list" where
  "EpochFrame charterBytes termsBytes =
     (((be64 (word_of_nat (length charterBytes)) @ charterBytes)
        @ be64 (word_of_nat (length termsBytes))) @ termsBytes)"

definition SignedBytes :: "planet_epoch option \<Rightarrow> byte list outcome" where
  "SignedBytes pe =
     (case pe of None \<Rightarrow> Inl BadRequest
      | Some e \<Rightarrow> if Charter e = [] \<or> Terms e = [] then Inl BadRequest
                  else Inr (EpochFrame (Charter e) (Terms e)))"

definition ParsedCharter :: "(byte list \<Rightarrow> 'c outcome) \<Rightarrow> planet_epoch option \<Rightarrow> 'c outcome" where
  "ParsedCharter parse pe =
     (case pe of None \<Rightarrow> Inl BadRequest
      | Some e \<Rightarrow> if Charter e = [] then Inl BadRequest else parse (Charter e))"

definition ParsedTerms ::
  "(byte list \<Rightarrow> 'a epoch_terms_scheme outcome) \<Rightarrow> planet_epoch option \<Rightarrow> 'a epoch_terms_scheme outcome" where
  "ParsedTerms parse pe =
     (case pe of None \<Rightarrow> Inl BadRequest
      | Some e \<Rightarrow> if Terms e = [] then Inl BadRequest else parse (Terms e))"

definition IsGenesis :: "'a epoch_terms_scheme option \<Rightarrow> bool" where
  "IsGenesis t =
     (let prev = (case t of None \<Rightarrow> None | Some t \<Rightarrow> PreviousEpoch t)
      in prev = None \<or> IsNil (Tag_UID prev))"

definition EffectiveHashKit :: "'a epoch_terms_scheme option \<Rightarrow> u32" where
  "EffectiveHashKit terms = (case terms of None \<Rightarrow> HashKitID_Blake2s_256 | Some t \<Rightarrow> HashKit t)"

definition hashBytes :: "hash_kits \<Rightarrow> u32 \<Rightarrow> byte list \<Rightarrow> byte list outcome" where
  "hashBytes newHash kitID dat = and_then (newHash kitID) (\<lambda>H. Inr (H dat))"

definition CoSignatureDigest ::
  "hash_kits \<Rightarrow> (byte list \<Rightarrow> 'a epoch_terms_scheme outcome) \<Rightarrow> planet_epoch option \<Rightarrow> byte list outcome" where
  "CoSignatureDigest newHash parse pe =
     and_then (SignedBytes pe) (\<lambda>frame.
     and_then (ParsedTerms parse pe) (\<lambda>terms.
     SigningDigest newHash (EffectiveHashKit (Some terms)) SigningDomain_EpochCoSign [frame]))"

definition VerifyCoSignature ::
  "hash_kits \<Rightarrow> (uid \<Rightarrow> byte list \<Rightarrow> byte list \<Rightarrow> byte list \<Rightarrow> unit outcome)
     \<Rightarrow> (byte list \<Rightarrow> 'a epoch_terms_scheme outcome) \<Rightarrow> planet_epoch option \<Rightarrow> co_signature option
     \<Rightarrow> byte list \<Rightarrow> uid \<Rightarrow> unit outcome" where
  "VerifyCoSignature newHash verifySignature parse pe cosig signerPubKey signerKit =
     (case cosig of
        None \<Rightarrow> Inl BadRequest
      | Some c \<Rightarrow>
          if Signature c = [] then Inl BadRequest
          else and_then (CoSignatureDigest newHash parse pe)
                 (\<lambda>digest. verifySignature signerKit (Signature c) digest signerPubKey))"

section \<open>Assembly and continuity\<close>

text \<open>\<open>AssembleEpoch\<close> also writes the kit and the hash into the caller's terms, which are
  returned with the envelope.\<close>

definition AssembleEpoch ::
  "hash_kits \<Rightarrow> ('c \<Rightarrow> byte list outcome) \<Rightarrow> ('a epoch_terms_scheme \<Rightarrow> byte list outcome)
     \<Rightarrow> 'c option \<Rightarrow> 'a epoch_terms_scheme option \<Rightarrow> u32 \<Rightarrow> (planet_epoch \<times> 'a epoch_terms_scheme) outcome" where
  "AssembleEpoch newHash marshalCharter marshalTerms charter terms hashKit =
     (case (charter, terms) of
        (Some c, Some t) \<Rightarrow>
          and_then (marshalCharter c) (\<lambda>charterBytes.
          and_then (hashBytes newHash hashKit charterBytes) (\<lambda>digest.
          let t = t\<lparr>HashKit := hashKit, CharterHash := digest\<rparr>
          in and_then (marshalTerms t) (\<lambda>termsBytes.
             Inr (\<lparr>Charter = charterBytes, Terms = termsBytes, PE_EpochTag = EpochTag t\<rparr>, t))))
      | _ \<Rightarrow> Inl BadRequest)"

text \<open>\<open>EpochFromTerms\<close> ignores a marshalling error: the envelope then has no terms.\<close>

definition EpochFromTerms ::
  "('a epoch_terms_scheme \<Rightarrow> byte list outcome) \<Rightarrow> 'a epoch_terms_scheme option \<Rightarrow> planet_epoch" where
  "EpochFromTerms marshalTerms terms =
     (case terms of
        None \<Rightarrow> \<lparr>Charter = [], Terms = [], PE_EpochTag = None\<rparr>
      | Some t \<Rightarrow> \<lparr>Charter = [], Terms = (case marshalTerms t of Inl _ \<Rightarrow> [] | Inr b \<Rightarrow> b),
                   PE_EpochTag = EpochTag t\<rparr>)"

definition VerifyCharterContinuity ::
  "hash_kits \<Rightarrow> (byte list \<Rightarrow> 'a epoch_terms_scheme outcome) \<Rightarrow> planet_epoch \<Rightarrow> planet_epoch option
     \<Rightarrow> unit outcome" where
  "VerifyCharterContinuity newHash parse pe prev =
     and_then (ParsedTerms parse (Some pe)) (\<lambda>terms.
     and_then (hashBytes newHash (HashKit terms) (Charter pe)) (\<lambda>digest.
     if digest \<noteq> CharterHash terms then Inl AuthFailed
     else case prev of
            None \<Rightarrow> Inr ()
          | Some p \<Rightarrow>
              and_then (ParsedTerms parse (Some p)) (\<lambda>prevTerms.
              if Seal prevTerms = SealState_Sealed then Inl AuthFailed
              else if Charter pe \<noteq> Charter p then Inl AuthFailed
              else if Tag_UID (PreviousEpoch terms) \<noteq> Tag_UID (EpochTag prevTerms) then Inl AuthFailed
              else if EpochHeight terms \<noteq> EpochHeight prevTerms + 1 then Inl AuthFailed
              else if HashKit terms \<noteq> HashKit prevTerms then Inl AuthFailed
              else Inr ())))"

section \<open>The founder fingerprint\<close>

definition founder_entry :: "pub_key \<Rightarrow> byte list" where
  "founder_entry pub = UID_AppendTo (PubKitID pub) [] @ PubBytes pub"

text \<open>A Go map is ranged over in an unspecified order: \<open>founderKeys\<close> lists its entries in
  the order of the run.\<close>

fun founder_entries :: "(uid \<times> pub_key) list \<Rightarrow> byte list list outcome" where
  "founder_entries [] = Inr []"
| "founder_entries ((founderID, pub) # rest) =
     (if PubBytes pub = [] then Inl BadRequest
      else and_then (founder_entries rest) (\<lambda>es. Inr (founder_entry pub # es)))"

fun insert_entry :: "byte list \<Rightarrow> byte list list \<Rightarrow> byte list list" where
  "insert_entry x [] = [x]"
| "insert_entry x (y # ys) = (if bytes_compare x y < 0 then x # y # ys else y # insert_entry x ys)"

fun sort_entries :: "byte list list \<Rightarrow> byte list list" where
  "sort_entries [] = []"
| "sort_entries (x # xs) = insert_entry x (sort_entries xs)"

definition FounderFingerprint :: "hash_kits \<Rightarrow> (uid \<times> pub_key) list \<Rightarrow> u32 \<Rightarrow> byte list outcome" where
  "FounderFingerprint newHash founderKeys requiredSignatures =
     (if founderKeys = [] then Inl BadRequest
      else and_then (founder_entries founderKeys) (\<lambda>entries.
           SigningDigest newHash HashKitID_Blake2s_256 SigningDomain_FounderSet
             (sort_entries entries @ [be32 requiredSignatures])))"

section \<open>Chains of epochs\<close>

text \<open>An epoch chain, newest first, as a receiver accepts it: the genesis is checked alone, every
  later epoch against its predecessor.\<close>

inductive epoch_chain ::
  "hash_kits \<Rightarrow> (byte list \<Rightarrow> 'a epoch_terms_scheme outcome) \<Rightarrow> planet_epoch list \<Rightarrow> bool"
  for newHash parse where
  genesis: "VerifyCharterContinuity newHash parse e None = Inr () \<Longrightarrow> epoch_chain newHash parse [e]"
| rotate: "epoch_chain newHash parse (p # es) \<Longrightarrow> VerifyCharterContinuity newHash parse e (Some p) = Inr ()
     \<Longrightarrow> epoch_chain newHash parse (e # p # es)"

inductive_cases epoch_chain_Cons: "epoch_chain newHash parse (e # es)"

lemma ContinuityD:
  assumes "VerifyCharterContinuity newHash parse e prev = Inr ()"
  obtains t H where "parse (Terms e) = Inr t" "newHash (HashKit t) = Inr H" "CharterHash t = H (Charter e)"
    "\<And>p tp. prev = Some p \<Longrightarrow> parse (Terms p) = Inr tp \<Longrightarrow>
        Seal tp \<noteq> SealState_Sealed \<and> Charter e = Charter p \<and>
        Tag_UID (PreviousEpoch t) = Tag_UID (EpochTag tp) \<and> EpochHeight t = EpochHeight tp + 1 \<and>
        HashKit t = HashKit tp"
    "\<And>p. prev = Some p \<Longrightarrow> \<exists>tp. parse (Terms p) = Inr tp"
proof -
  obtain t where t: "ParsedTerms parse (Some e) = Inr t"
    using assms by (auto simp: VerifyCharterContinuity_def and_then_eq_Inr)
  obtain H where H: "newHash (HashKit t) = Inr H" "H (Charter e) = CharterHash t"
    using assms by (auto simp: VerifyCharterContinuity_def and_then_eq_Inr t hashBytes_def split: if_splits)
  have pt: "parse (Terms e) = Inr t" using t by (auto simp: ParsedTerms_def split: if_splits)
  show thesis
  proof (rule that [OF pt H(1)])
    show "CharterHash t = H (Charter e)" using H(2) by simp
    show "Seal tp \<noteq> SealState_Sealed \<and> Charter e = Charter p \<and>
        Tag_UID (PreviousEpoch t) = Tag_UID (EpochTag tp) \<and> EpochHeight t = EpochHeight tp + 1 \<and>
        HashKit t = HashKit tp" if "prev = Some p" "parse (Terms p) = Inr tp" for p tp
      using assms that t H
      by (auto simp: VerifyCharterContinuity_def and_then_eq_Inr hashBytes_def ParsedTerms_def split: if_splits)
    show "\<exists>tp. parse (Terms p) = Inr tp" if "prev = Some p" for p
      using assms that
      by (auto simp: VerifyCharterContinuity_def and_then_eq_Inr ParsedTerms_def split: if_splits)
  qed
qed

lemma ContinuityH:
  assumes "VerifyCharterContinuity newHash parse e prev = Inr ()"
  shows "\<exists>t H. parse (Terms e) = Inr t \<and> newHash (HashKit t) = Inr H \<and> CharterHash t = H (Charter e)"
  by (rule ContinuityD [OF assms]) (intro exI conjI)

lemma epoch_chain_hd:
  "epoch_chain newHash parse (e # es) \<Longrightarrow>
     \<exists>t H. parse (Terms e) = Inr t \<and> newHash (HashKit t) = Inr H \<and> CharterHash t = H (Charter e)"
  by (erule epoch_chain_Cons) (erule ContinuityH)+

lemma epoch_chain_facts:
  "epoch_chain newHash parse es \<Longrightarrow>
     \<exists>t tg. parse (Terms (hd es)) = Inr t \<and> parse (Terms (last es)) = Inr tg \<and>
       HashKit t = HashKit tg \<and> EpochHeight t = EpochHeight tg + word_of_nat (length es - 1) \<and>
       CharterHash t = CharterHash tg \<and>
       (\<forall>e \<in> set es. Charter e = Charter (last es)) \<and>
       (\<forall>e \<in> set (tl es). \<forall>te. parse (Terms e) = Inr te \<longrightarrow> Seal te \<noteq> SealState_Sealed)"
proof (induction rule: epoch_chain.induct)
  case (genesis e)
  then show ?case by (elim ContinuityD) auto
next
  case (rotate p es e)
  obtain tp tg where IH: "parse (Terms p) = Inr tp" "parse (Terms (last (p # es))) = Inr tg"
    "HashKit tp = HashKit tg" "EpochHeight tp = EpochHeight tg + word_of_nat (length es)"
    "CharterHash tp = CharterHash tg" "\<forall>e \<in> set (p # es). Charter e = Charter (last (p # es))"
    "\<forall>e \<in> set es. \<forall>te. parse (Terms e) = Inr te \<longrightarrow> Seal te \<noteq> SealState_Sealed"
    using rotate.IH by auto
  obtain t H where t: "parse (Terms e) = Inr t" "newHash (HashKit t) = Inr H" "CharterHash t = H (Charter e)"
    "Seal tp \<noteq> SealState_Sealed" "Charter e = Charter p" "EpochHeight t = EpochHeight tp + 1"
    "HashKit t = HashKit tp"
    using rotate.hyps(2) IH(1) by (elim ContinuityD) blast
  obtain H' where H': "newHash (HashKit tp) = Inr H'" "CharterHash tp = H' (Charter p)"
    using epoch_chain_hd [OF rotate.hyps(1)] IH(1) by auto
  have HH: "H = H'" using t(2) t(7) H'(1) by simp
  show ?case
  proof (intro exI conjI)
    show "parse (Terms (hd (e # p # es))) = Inr t" by (simp only: list.sel t(1))
    show "parse (Terms (last (e # p # es))) = Inr tg" by (simp only: last.simps list.distinct if_False) (rule IH(2) [unfolded last.simps])
    show "HashKit t = HashKit tg" by (simp only: t(7) IH(3))
    show "EpochHeight t = EpochHeight tg + word_of_nat (length (e # p # es) - 1)"
      by (simp add: t(6) IH(4))
    show "CharterHash t = CharterHash tg" by (simp only: t(3) t(5) HH H'(2) [symmetric] IH(5))
    show "\<forall>x \<in> set (e # p # es). Charter x = Charter (last (e # p # es))"
    proof -
      have l: "last (e # p # es) = last (p # es)" by simp
      have "Charter x = Charter (last (p # es))" if "x \<in> set (e # p # es)" for x
      proof (cases "x = e")
        case True
        then show ?thesis using bspec [OF IH(6) list.set_intros(1)] by (simp only: t(5))
      next
        case False
        then have "x \<in> set (p # es)" using that by simp
        then show ?thesis by (rule bspec [OF IH(6)])
      qed
      then show ?thesis unfolding l by blast
    qed
    show "\<forall>e \<in> set (tl (e # p # es)). \<forall>te. parse (Terms e) = Inr te \<longrightarrow> Seal te \<noteq> SealState_Sealed"
      using IH(1,7) t(4) by (metis list.sel(3) set_ConsD sum.inject(2))
  qed
qed

section \<open>Frames and fingerprints: lemmas\<close>

lemma be64_be_bytes: "n < 256 ^ 8 \<Longrightarrow> be64 (word_of_nat n) = be_bytes 8 n"
  by (simp add: be64_def unat_of_nat)

lemma EpochFrame_frames:
  "length c < 256 ^ 8 \<Longrightarrow> length t < 256 ^ 8 \<Longrightarrow>
     EpochFrame c t = concat (map (\<lambda>b. be_bytes 8 (length b) @ b) [c, t])"
  by (simp add: EpochFrame_def be64_be_bytes)

lemma bytes_compare_lexorder: "bytes_compare x y < 0 \<longleftrightarrow> x < y"
  by (induction x y rule: bytes_compare.induct) auto

lemma mset_insert_entry [simp]: "mset (insert_entry x ys) = add_mset x (mset ys)"
  by (induction ys) auto

lemma mset_sort_entries [simp]: "mset (sort_entries xs) = mset xs"
  by (induction xs) auto

lemma sorted_insert_entry: "sorted ys \<Longrightarrow> sorted (insert_entry x ys)"
proof (induction ys)
  case (Cons y ys)
  have "set (insert_entry x ys) = insert x (set ys)"
    by (metis mset_insert_entry set_mset_add_mset_insert set_mset_mset)
  then show ?case using Cons by (auto simp: bytes_compare_lexorder)
qed simp

lemma sort_entries_sort: "sort_entries xs = sort xs"
proof -
  have "sorted (sort_entries xs)" by (induction xs) (auto intro: sorted_insert_entry)
  then show ?thesis using properties_for_sort [of "sort_entries xs" xs] by simp
qed

lemma founder_entries_eq:
  "founder_entries ks =
     (if \<exists>k \<in> set ks. PubBytes (snd k) = [] then Inl BadRequest
      else Inr (map (\<lambda>k. founder_entry (snd k)) ks))"
  by (induction ks rule: founder_entries.induct) auto

lemma sort_mset: "mset xs = mset ys \<Longrightarrow> sort xs = sort ys"
  by (metis sorted_list_of_multiset_mset)

lemma founder_entry_inject: "founder_entry p = founder_entry q \<longleftrightarrow> p = q"
  using id_bytes_inject [of "PubKitID p" "PubKitID q"]
  by (auto simp: founder_entry_def UID_AppendTo_id intro: pub_key.equality)

section \<open>Properties\<close>

text \<open>C3. Along every accepted chain of epochs the authority root never moves: all epochs carry
  the genesis charter byte for byte and commit to its hash under one hash kit, heights count up
  by one from the genesis (in 64 bits), and no epoch has a sealed predecessor.  That the hash kit is frozen is
  what \<open>VerifyCharterContinuity\<close> enforces, with the remark that migrating it is not supported yet; the
  comments on \<open>EpochTerms.HashKit\<close> and \<open>EffectiveHashKit\<close>, which call it rotatable, do not describe it.\<close>

theorem epoch_chain_authority:
  assumes "epoch_chain newHash parse es"
  shows "\<exists>t tg. parse (Terms (hd es)) = Inr t \<and> parse (Terms (last es)) = Inr tg \<and>
    HashKit t = HashKit tg \<and> CharterHash t = CharterHash tg \<and>
    EpochHeight t = EpochHeight tg + word_of_nat (length es - 1) \<and>
    (\<forall>e \<in> set es. Charter e = Charter (last es)) \<and>
    (\<forall>e \<in> set (tl es). \<forall>te. parse (Terms e) = Inr te \<longrightarrow> Seal te \<noteq> SealState_Sealed)"
  using epoch_chain_facts [OF assms] by blast

text \<open>A codec and a hash for concrete runs: terms whose wire form is one byte.\<close>

definition toy_parse :: "byte list \<Rightarrow> epoch_terms outcome" where
  "toy_parse b =
     Inr \<lparr>EpochTag = Some (UID 1 (ucast (hd b))), PreviousEpoch = (if hd b = 1 then None else Some (UID 1 (ucast (hd b) - 1))),
          EpochHeight = ucast (hd b) - 1, HashKit = 0, CharterHash = [5, 6], Seal = 0\<rparr>"

definition toy_hash :: hash_kits where
  "toy_hash k = Inr (\<lambda>b. b)"

lemma toy_chain:
  "epoch_chain toy_hash toy_parse
     [\<lparr>Charter = [5, 6], Terms = [2], PE_EpochTag = None\<rparr>, \<lparr>Charter = [5, 6], Terms = [1], PE_EpochTag = None\<rparr>]"
  by (rule epoch_chain.rotate [OF epoch_chain.genesis])
    (simp_all add: VerifyCharterContinuity_def ParsedTerms_def toy_parse_def hashBytes_def toy_hash_def
       SealState_Sealed_def Tag_UID_def)

theorem epoch_chain_authority_witness:
  "\<exists>t. toy_parse [2] = Inr t \<and> EpochHeight t = 1"
  using epoch_chain_authority [OF toy_chain] by (auto simp: toy_parse_def)

text \<open>The layers of an epoch cannot be re-cut: two envelopes have the same signed frame only
  when both the charter and the terms are the same bytes.\<close>

theorem EpochFrame_unambiguous:
  assumes "length c < 2 ^ 64" "length t < 2 ^ 64" "length c' < 2 ^ 64" "length t' < 2 ^ 64"
  shows "EpochFrame c t = EpochFrame c' t' \<longleftrightarrow> c = c' \<and> t = t'"
proof -
  have l: "(256 :: nat) ^ 8 = 2 ^ 64" by simp
  have "[c, t] = [c', t']" if "EpochFrame c t = EpochFrame c' t'"
  proof (rule frame64.framed.concat_inject)
    show "list_all (\<lambda>b. length b < 256 ^ 8) [c, t]" "list_all (\<lambda>b. length b < 256 ^ 8) [c', t']"
      using assms by simp_all
    show "concat (map (\<lambda>b. be_bytes 8 (length b) @ b) [c, t]) = concat (map (\<lambda>b. be_bytes 8 (length b) @ b) [c', t'])"
      using that EpochFrame_frames [unfolded l, OF assms(1,2)] EpochFrame_frames [unfolded l, OF assms(3,4)]
      by (simp only:)
  qed
  then show ?thesis by auto
qed

theorem EpochFrame_unambiguous_witness:
  "EpochFrame [1, 2] [3] = EpochFrame [1] [2, 3] \<longleftrightarrow> [1, 2] = [1 :: byte] \<and> [3] = [2, 3 :: byte]"
  by (rule EpochFrame_unambiguous) simp_all

text \<open>An epoch assembled from a charter and terms is accepted as a genesis, and as the
  successor of an unsealed predecessor assembled from the same charter whose tag, height and
  kit its terms continue.\<close>

theorem AssembleEpoch_accepted:
  fixes t t' :: "'a epoch_terms_scheme"
  assumes codec: "\<forall>x b. marshalTerms x = Inr b \<longrightarrow> b \<noteq> [] \<and> parse b = Inr x"
    and prev: "AssembleEpoch newHash marshalCharter marshalTerms (Some c) (Some t) kit = Inr (p, tp)"
    and succ: "AssembleEpoch newHash marshalCharter marshalTerms (Some c) (Some t') kit = Inr (e, te)"
    and cont: "Seal t \<noteq> SealState_Sealed" "PreviousEpoch t' = EpochTag t" "EpochHeight t' = EpochHeight t + 1"
  shows "epoch_chain newHash parse [e, p]"
proof -
  obtain H cb where H: "marshalCharter c = Inr cb" "newHash kit = Inr H"
    and p: "marshalTerms (t\<lparr>HashKit := kit, CharterHash := H cb\<rparr>) = Inr (Terms p)" "Charter p = cb"
    using prev by (auto simp: AssembleEpoch_def and_then_eq_Inr hashBytes_def Let_def)
  have e: "marshalTerms (t'\<lparr>HashKit := kit, CharterHash := H cb\<rparr>) = Inr (Terms e)" "Charter e = cb"
    using succ H by (auto simp: AssembleEpoch_def and_then_eq_Inr hashBytes_def Let_def)
  have pp: "Terms p \<noteq> []" "parse (Terms p) = Inr (t\<lparr>HashKit := kit, CharterHash := H cb\<rparr>)"
    and pe: "Terms e \<noteq> []" "parse (Terms e) = Inr (t'\<lparr>HashKit := kit, CharterHash := H cb\<rparr>)"
    using codec p(1) e(1) by blast+
  have "VerifyCharterContinuity newHash parse p None = Inr ()"
    using pp H p(2) by (simp add: VerifyCharterContinuity_def ParsedTerms_def hashBytes_def)
  moreover have "VerifyCharterContinuity newHash parse e (Some p) = Inr ()"
    using pp pe H p(2) e(2) cont
    by (simp add: VerifyCharterContinuity_def ParsedTerms_def hashBytes_def)
  ultimately show ?thesis by (intro epoch_chain.intros)
qed

definition toy_marshal :: "epoch_terms \<Rightarrow> byte list outcome" where
  "toy_marshal t =
     (if toy_parse [1] = Inr t then Inr [1] else if toy_parse [2] = Inr t then Inr [2] else Inl Other)"

theorem AssembleEpoch_accepted_witness:
  "\<exists>e p. epoch_chain toy_hash toy_parse [e, p]"
proof -
  let ?t = "\<lambda>b. projr (toy_parse [b])"
  have codec: "\<forall>x b. toy_marshal x = Inr b \<longrightarrow> b \<noteq> [] \<and> toy_parse b = Inr x"
    by (auto simp: toy_marshal_def split: if_splits)
  have "AssembleEpoch toy_hash (\<lambda>_. Inr [5, 6]) toy_marshal (Some ()) (Some (?t 1)) 0
      = Inr (\<lparr>Charter = [5, 6], Terms = [1], PE_EpochTag = EpochTag (?t 1)\<rparr>, ?t 1)"
    by (simp add: AssembleEpoch_def hashBytes_def toy_hash_def toy_marshal_def toy_parse_def)
  moreover have "AssembleEpoch toy_hash (\<lambda>_. Inr [5, 6]) toy_marshal (Some ()) (Some (?t 2)) 0
      = Inr (\<lparr>Charter = [5, 6], Terms = [2], PE_EpochTag = EpochTag (?t 2)\<rparr>, ?t 2)"
    by (simp add: AssembleEpoch_def hashBytes_def toy_hash_def toy_marshal_def toy_parse_def)
  ultimately have "epoch_chain toy_hash toy_parse
      [\<lparr>Charter = [5, 6], Terms = [2], PE_EpochTag = EpochTag (?t 2)\<rparr>,
       \<lparr>Charter = [5, 6], Terms = [1], PE_EpochTag = EpochTag (?t 1)\<rparr>]"
    by (rule AssembleEpoch_accepted [OF codec]) (simp_all add: toy_parse_def SealState_Sealed_def)
  then show ?thesis by blast
qed

text \<open>The founder fingerprint depends on the set of founder keys only, not on the order in
  which the map is ranged over; and where the hash has no collision it commits to exactly the
  founder keys and the quorum.\<close>

theorem FounderFingerprint_commits:
  assumes "ks \<noteq> []" "ls \<noteq> []" "\<forall>k \<in> set (ks @ ls). PubBytes (snd k) \<noteq> [] \<and> length (PubBytes (snd k)) < 2 ^ 16"
    and "newHash HashKitID_Blake2s_256 = Inr H" "inj H"
  shows "FounderFingerprint newHash ks q = FounderFingerprint newHash ls r
    \<longleftrightarrow> mset (map snd ks) = mset (map snd ls) \<and> q = r"
proof -
  let ?es = "\<lambda>ks. sort (map (\<lambda>k. founder_entry (snd k)) ks)"
  have ok: "\<exists>f. SigningParts SigningDomain_FounderSet (?es ms @ [be32 x]) = Inr f \<and>
      FounderFingerprint newHash ms x = Inr (H (concat f))"
    if "ms \<noteq> []" "set ms \<subseteq> set (ks @ ls)" for ms x
  proof -
    have "list_all (\<lambda>b. length b < 256 ^ 4) (?es ms @ [be32 x])"
    proof -
      have "length (founder_entry (snd k)) < 256 ^ 4" if k: "k \<in> set ms" for k
      proof -
        have "length (PubBytes (snd k)) < 2 ^ 16" using assms(3) \<open>set ms \<subseteq> set (ks @ ls)\<close> k by blast
        then show ?thesis by (simp add: founder_entry_def UID_AppendTo_id)
      qed
      then show ?thesis by (simp add: list_all_iff)
    qed
    from frame_parts_ok [OF this] obtain f where "SigningParts SigningDomain_FounderSet (?es ms @ [be32 x]) = Inr f"
      by (auto simp: SigningParts_def)
    moreover have "founder_entries ms = Inr (map (\<lambda>k. founder_entry (snd k)) ms)"
      using assms(3) that(2) by (auto simp: founder_entries_eq)
    ultimately show ?thesis
      using that(1) assms(4) by (auto simp: FounderFingerprint_def SigningDigest_def sort_entries_sort)
  qed
  obtain f g where f: "SigningParts SigningDomain_FounderSet (?es ks @ [be32 q]) = Inr f"
      "FounderFingerprint newHash ks q = Inr (H (concat f))"
    and g: "SigningParts SigningDomain_FounderSet (?es ls @ [be32 r]) = Inr g"
      "FounderFingerprint newHash ls r = Inr (H (concat g))"
    using ok [OF assms(1)] ok [OF assms(2)] by force
  have d: "length SigningDomain_FounderSet < 256" by (simp add: SigningDomain_FounderSet_def)
  have b: "be32 q = be32 r \<longleftrightarrow> q = r" by (metis be_val_be32 word_unat_eq_iff)
  have img: "mset (?es ms) = image_mset founder_entry (mset (map snd ms))" for ms
    by (simp add: image_mset.compositionality o_def)
  have m: "?es ks = ?es ls \<longleftrightarrow> mset (map snd ks) = mset (map snd ls)"
  proof
    assume "?es ks = ?es ls"
    then have "image_mset founder_entry (mset (map snd ks)) = image_mset founder_entry (mset (map snd ls))"
      by (simp only: img [symmetric])
    then show "mset (map snd ks) = mset (map snd ls)"
      by (rule multiset.inj_map [THEN injD, rotated]) (simp add: inj_def founder_entry_inject)
  next
    assume eq: "mset (map snd ks) = mset (map snd ls)"
    have "mset (map (\<lambda>k. founder_entry (snd k)) ks) = mset (map (\<lambda>k. founder_entry (snd k)) ls)"
      using img [of ks] img [of ls] by (simp only: eq mset_sort)
    then show "?es ks = ?es ls" by (rule sort_mset)
  qed
  have "H (concat f) = H (concat g) \<longleftrightarrow> ?es ks @ [be32 q] = ?es ls @ [be32 r]"
    using SigningParts_unique [OF f(1) g(1) _ d d] f(1) g(1) assms(5) by (auto simp: inj_eq)
  then show ?thesis unfolding f(2) g(2) sum.inject using b m by simp
qed

theorem FounderFingerprint_commits_witness:
  "FounderFingerprint toy_hash [(UID 0 1, \<lparr>PubKitID = nilUID, PubBytes = [1]\<rparr>), (UID 0 2, \<lparr>PubKitID = nilUID, PubBytes = [2]\<rparr>)] 2
     = FounderFingerprint toy_hash [(UID 0 2, \<lparr>PubKitID = nilUID, PubBytes = [2]\<rparr>), (UID 0 1, \<lparr>PubKitID = nilUID, PubBytes = [1]\<rparr>)] 2"
  using FounderFingerprint_commits [of
      "[(UID 0 1, \<lparr>PubKitID = nilUID, PubBytes = [1]\<rparr>), (UID 0 2, \<lparr>PubKitID = nilUID, PubBytes = [2]\<rparr>)]"
      "[(UID 0 2, \<lparr>PubKitID = nilUID, PubBytes = [2]\<rparr>), (UID 0 1, \<lparr>PubKitID = nilUID, PubBytes = [1]\<rparr>)]"
      toy_hash "\<lambda>b. b" 2 2]
  by (simp add: toy_hash_def)

end
