(* ===== verification/Converge.thy ===== *)
theory Converge
  imports Uid
begin

text \<open>
  The contract of a replicated fold: deliveries that may be swapped and repeated.  Every state
  that is built from transactions arriving in an arbitrary order rests on it.  The abstract
  last-writer-wins store is the specification that the attribute bindings are compared with.
\<close>

section \<open>Order and repetition of deliveries\<close>

locale convergent =
  fixes step :: "'a \<Rightarrow> 's \<Rightarrow> 's" and compatible :: "'a \<Rightarrow> 'a \<Rightarrow> bool"
  assumes commute: "compatible a b \<Longrightarrow> step a (step b s) = step b (step a s)"
    and idem: "step a (step a s) = step a s"
begin

lemma delivery_order:
  assumes "\<forall>a \<in> set xs. \<forall>b \<in> set xs. compatible a b" "set xs = set ys"
  shows "fold step xs s = fold step ys s"
proof -
  have f: "comp_fun_idem_on (set xs) step"
    by unfold_locales (use assms(1) commute idem in \<open>auto simp: fun_eq_iff\<close>)
  show ?thesis
    using comp_fun_idem_on.fold_set_fold [OF f subset_refl, of s]
      comp_fun_idem_on.fold_set_fold [OF f, of ys s] assms(2) by simp
qed

lemma redelivery:
  assumes "\<forall>a \<in> set xs. \<forall>b \<in> set xs. compatible a b" "set ys \<subseteq> set xs"
  shows "fold step ys (fold step xs s) = fold step xs s"
proof -
  have "fold step (xs @ ys) s = fold step xs s"
    using delivery_order [OF assms(1), of "xs @ ys" s] assms(2) by (simp add: Un_absorb2)
  then show ?thesis by simp
qed

end

text \<open>The weaker contract of a merger: nothing is taken twice.  \<open>absorbed a s\<close> says that
  \<open>s\<close> has seen \<open>a\<close>.\<close>

locale absorbing =
  fixes step :: "'a \<Rightarrow> 's \<Rightarrow> 's" and absorbed :: "'a \<Rightarrow> 's \<Rightarrow> bool"
  assumes absorb: "absorbed a (step a s)"
    and keep: "absorbed a s \<Longrightarrow> absorbed a (step b s)"
    and noop: "absorbed a s \<Longrightarrow> step a s = s"
begin

lemma absorbed_fold: "a \<in> set xs \<or> absorbed a s \<Longrightarrow> absorbed a (fold step xs s)"
proof (induction xs arbitrary: s)
  case (Cons x xs)
  have "a \<in> set xs \<or> absorbed a (step x s)" using Cons.prems absorb keep by auto
  then show ?case by (simp add: Cons.IH)
qed simp

lemma represent: "a \<in> set xs \<Longrightarrow> step a (fold step xs s) = fold step xs s"
  by (rule noop) (simp add: absorbed_fold)

lemma represent_all: "set ys \<subseteq> set xs \<Longrightarrow> fold step ys (fold step xs s) = fold step xs s"
  by (induction ys) (simp_all add: represent)

end

section \<open>Last writer wins\<close>

type_synonym 'c delivery = "uid \<times> uid \<times> 'c"

definition lww_step :: "'c delivery \<Rightarrow> (uid \<rightharpoonup> uid \<times> 'c) \<Rightarrow> (uid \<rightharpoonup> uid \<times> 'c)" where
  "lww_step d m =
     (let (i, e, c) = d
      in case m i of
           None \<Rightarrow> m(i \<mapsto> (e, c))
         | Some (e', c') \<Rightarrow> if e \<le> e' then m else m(i \<mapsto> (e, c)))"

definition same_edit_same_content :: "'c delivery \<Rightarrow> 'c delivery \<Rightarrow> bool" where
  "same_edit_same_content d d' \<longleftrightarrow>
     (fst d = fst d' \<and> fst (snd d) = fst (snd d') \<longrightarrow> snd (snd d) = snd (snd d'))"

lemma lww_step_at:
  "lww_step (i, e, c) m j =
     (if j \<noteq> i then m j
      else case m i of None \<Rightarrow> Some (e, c) | Some (e', c') \<Rightarrow> if e \<le> e' then Some (e', c') else Some (e, c))"
  by (auto simp: lww_step_def split: option.splits)

interpretation lww: convergent lww_step same_edit_same_content
proof
  fix d d' :: "'c delivery" and m :: "uid \<rightharpoonup> uid \<times> 'c"
  obtain i e c i' e' c' where d: "d = (i, e, c)" "d' = (i', e', c')" by (metis prod.exhaust)
  show "lww_step d (lww_step d m) = lww_step d m"
    by (rule ext) (auto simp: d lww_step_at split: option.splits)
  assume "same_edit_same_content d d'"
  then have eq: "i = i' \<Longrightarrow> e = e' \<Longrightarrow> c = c'" by (auto simp: d same_edit_same_content_def)
  show "lww_step d (lww_step d' m) = lww_step d' (lww_step d m)"
  proof (rule ext)
    fix j
    show "lww_step d (lww_step d' m) j = lww_step d' (lww_step d m) j"
      using eq by (cases e e' rule: linorder_cases) (auto simp: d lww_step_at split: option.splits)
  qed
qed

definition lww_seen :: "'c delivery \<Rightarrow> (uid \<rightharpoonup> uid \<times> 'c) \<Rightarrow> bool" where
  "lww_seen d m = (case m (fst d) of None \<Rightarrow> False | Some (e, c) \<Rightarrow> fst (snd d) \<le> e)"

interpretation lww_absorbs: absorbing lww_step lww_seen
proof
  fix d d' :: "'c delivery" and m :: "uid \<rightharpoonup> uid \<times> 'c"
  obtain i e c i' e' c' where d: "d = (i, e, c)" "d' = (i', e', c')" by (metis prod.exhaust)
  show "lww_seen d (lww_step d m)"
    by (auto simp: d lww_seen_def lww_step_at split: option.splits)
  show "lww_seen d m \<Longrightarrow> lww_seen d (lww_step d' m)"
    by (auto simp: d lww_seen_def lww_step_at split: option.splits)
  show "lww_seen d m \<Longrightarrow> lww_step d m = m"
    by (rule ext) (auto simp: d lww_seen_def lww_step_at split: option.splits)
qed

text \<open>What the store holds for an item is the delivery with the greatest edit identifier.\<close>

lemma lww_winner_gen:
  "fold lww_step xs m i = Some (e, c) \<Longrightarrow>
     ((i, e, c) \<in> set xs \<or> m i = Some (e, c)) \<and>
     (\<forall>e' c'. (i, e', c') \<in> set xs \<or> m i = Some (e', c') \<longrightarrow> e' \<le> e)"
proof (induction xs arbitrary: m)
  case (Cons d xs)
  obtain j f g where d: "d = (j, f, g)" by (metis prod.exhaust)
  have IH: "((i, e, c) \<in> set xs \<or> lww_step d m i = Some (e, c)) \<and>
     (\<forall>e' c'. (i, e', c') \<in> set xs \<or> lww_step d m i = Some (e', c') \<longrightarrow> e' \<le> e)"
    by (rule Cons.IH) (use Cons.prems in simp)
  have up: "e' \<le> e" if seen: "(i, e', c') \<in> set (d # xs) \<or> m i = Some (e', c')" for e' c'
  proof -
    consider "(i, e', c') \<in> set xs" | "d = (i, e', c')" | "m i = Some (e', c')"
      using seen by auto
    then show ?thesis
    proof cases
      case 1
      then show ?thesis using IH by blast
    next
      case 2
      then have "\<exists>e1 c1. lww_step d m i = Some (e1, c1) \<and> e' \<le> e1"
        by (auto simp: lww_step_at split: option.splits)
      then show ?thesis using IH by (meson order_trans)
    next
      case 3
      then have "\<exists>e1 c1. lww_step d m i = Some (e1, c1) \<and> e' \<le> e1"
        by (auto simp: d lww_step_at)
      then show ?thesis using IH by (meson order_trans)
    qed
  qed
  have "(i, e, c) \<in> set (d # xs) \<or> m i = Some (e, c)"
    using IH by (auto simp: d lww_step_at split: if_splits option.splits)
  with up show ?case by blast
qed auto

lemma lww_winner:
  "fold lww_step xs Map.empty i = Some (e, c) \<Longrightarrow>
     (i, e, c) \<in> set xs \<and> (\<forall>e' c'. (i, e', c') \<in> set xs \<longrightarrow> e' \<le> e)"
  using lww_winner_gen [of xs Map.empty i e c] by simp

lemma lww_step_some: "m i \<noteq> None \<Longrightarrow> lww_step d m i \<noteq> None"
  by (cases d) (auto simp: lww_step_at)

lemma lww_fold_some: "m i \<noteq> None \<Longrightarrow> fold lww_step xs m i \<noteq> None"
  by (induction xs arbitrary: m) (simp_all add: lww_step_some del: not_None_eq)

lemma lww_present: "fold lww_step xs m i = None \<longleftrightarrow> m i = None \<and> (\<forall>e c. (i, e, c) \<notin> set xs)"
proof (induction xs arbitrary: m)
  case (Cons d xs)
  obtain j f g where d: "d = (j, f, g)" by (metis prod.exhaust)
  have "lww_step d m i = None \<longleftrightarrow> m i = None \<and> i \<noteq> j"
    by (auto simp: d lww_step_at split: option.splits)
  then show ?case using Cons.IH [of "lww_step d m"] by (auto simp: d)
qed simp

end
