(* ===== verification/Bindings.thy ===== *)
theory Bindings
  imports TxMsg TagName Converge
begin

text \<open>
  Attribute bindings (\<open>amp/amp.support.bindings.go\<close>): a binding folds the ops of incoming
  transactions into a cache of the live items of one attribute, last writer wins by edit
  identifier, or through an \<open>ItemMerger\<close>.  Protobuf decoding is the parameter
  \<open>unmarshal\<close> and the empty message \<open>zero\<close>.  The callbacks \<open>OnItem\<close> and \<open>OnSync\<close> are
  the list of events that an update fires.
\<close>

section \<open>State\<close>

record node_update =
  NU_NodeID :: uid
  NU_Revision :: uid
  NU_Tx :: tx_msg

record 'v attr_item =
  AI_Addr :: address
  AI_Value :: 'v
  AI_Deleted :: bool
  AI_Tx :: "tx_msg option"

datatype 'v fold_event = OnItem "'v attr_item" | OnSync

text \<open>An \<open>ItemMerger\<close> with its state \<open>'m\<close>: \<open>MergeItem\<close> gets the cached value if
  there is one; it returns the merged value when that changed, and \<open>None\<close> for the
  result \<open>(prev, false)\<close>.\<close>

record ('v, 'm) item_merger =
  Merge :: "'m \<Rightarrow> 'v attr_item \<Rightarrow> 'v option \<Rightarrow> 'm \<times> 'v option"
  Drop :: "'m \<Rightarrow> uid \<Rightarrow> 'm"

text \<open>The veto \<open>OnAdmit\<close> is a predicate on the address and the transaction: a policy whose answer for one
  and the same op changes with the time of day or with what it has seen is not covered.\<close>

record ('v, 'm) fold_binding =
  Attr :: tag_name
  Item :: tag_name
  OnAdmit :: "(address \<Rightarrow> tx_msg \<Rightarrow> bool) option"
  Merger :: "('v, 'm) item_merger option"
  mstate :: 'm
  revision :: uid
  nodeID :: uid
  edits :: "uid \<rightharpoonup> uid"
  items :: "uid \<rightharpoonup> 'v"

definition NewFoldItemBinding :: "'m \<Rightarrow> tag_name \<Rightarrow> tag_name \<Rightarrow> ('v, 'm) fold_binding" where
  "NewFoldItemBinding m attrID itemID =
     \<lparr>Attr = attrID, Item = itemID, OnAdmit = None, Merger = None, mstate = m, revision = nilUID,
      nodeID = nilUID, edits = Map.empty, items = Map.empty\<rparr>"

definition NewFoldBinding :: "'m \<Rightarrow> tag_name \<Rightarrow> ('v, 'm) fold_binding" where
  "NewFoldBinding m attrID =
     \<lparr>Attr = attrID, Item = Wildcard, OnAdmit = None, Merger = None, mstate = m, revision = nilUID,
      nodeID = nilUID, edits = Map.empty, items = Map.empty\<rparr>"

section \<open>Reading and writing\<close>

definition HasItem :: "('v, 'm) fold_binding \<Rightarrow> uid \<Rightarrow> bool" where
  "HasItem b itemID \<longleftrightarrow> items b itemID \<noteq> None"

definition GetItem :: "('v, 'm) fold_binding \<Rightarrow> uid \<Rightarrow> 'v option" where
  "GetItem b itemID = items b itemID"

definition ItemAddress :: "('v, 'm) fold_binding \<Rightarrow> uid \<Rightarrow> address option" where
  "ItemAddress b itemID =
     (case edits b itemID of
        None \<Rightarrow> None
      | Some editID \<Rightarrow>
          Some \<lparr>NodeID = nodeID b, AttrID = NameID (Attr b), ItemID = itemID, EditID = editID\<rparr>)"

definition Clear :: "('v, 'm) fold_binding \<Rightarrow> ('v, 'm) fold_binding" where
  "Clear b = b\<lparr>edits := Map.empty, items := Map.empty, revision := nilUID\<rparr>"

definition Bind :: "uid \<Rightarrow> ('v, 'm) fold_binding \<Rightarrow> ('v, 'm) fold_binding outcome" where
  "Bind n b = (if IsSet (nodeID b) \<and> nodeID b \<noteq> n then Inl Panic else Inr (b\<lparr>nodeID := n\<rparr>))"

definition UpsertItem ::
  "('v \<Rightarrow> unit outcome) \<Rightarrow> ('v \<Rightarrow> byte list outcome) \<Rightarrow> ('v, 'm) fold_binding \<Rightarrow> tx_msg \<Rightarrow> uid \<Rightarrow> 'v
     \<Rightarrow> tx_msg \<times> unit outcome" where
  "UpsertItem check marshal b tx itemID val =
     (if IsNil (nodeID b) then (tx, Inl Panic)
      else Upsert check marshal tx (nodeID b) (NameID (Attr b)) itemID (Some val))"

definition DeleteItem ::
  "('v \<Rightarrow> unit outcome) \<Rightarrow> ('v \<Rightarrow> byte list outcome) \<Rightarrow> ('v, 'm) fold_binding \<Rightarrow> tx_msg \<Rightarrow> uid
     \<Rightarrow> tx_msg \<times> bool" where
  "DeleteItem check marshal b tx itemID =
     (case ItemAddress b itemID of
        None \<Rightarrow> (tx, False)
      | Some addr \<Rightarrow>
          (fst (Delete check marshal tx
                  \<lparr>NodeID = NodeID addr, AttrID = AttrID addr, ItemID = ItemID addr\<rparr> None), True))"

section \<open>Folding an update\<close>

definition op_is_delete :: "tx_op \<Rightarrow> bool" where
  "op_is_delete op \<longleftrightarrow> Flags op AND 8 \<noteq> 0"

text \<open>One op of the loop of \<open>OnNodeUpdate\<close>: the binding after it and the event it fires.\<close>

definition fold_op ::
  "(byte list \<Rightarrow> 'v outcome) \<Rightarrow> 'v \<Rightarrow> tx_msg \<Rightarrow> nat \<Rightarrow> tx_op \<Rightarrow> ('v, 'm) fold_binding
     \<Rightarrow> ('v, 'm) fold_binding \<times> 'v fold_event list" where
  "fold_op unmarshal zero tx idx op b =
     (let addr = Addr op; i = ItemID addr; isDelete = op_is_delete op; prevEdit = edits b i
      in if NodeID addr \<noteq> nodeID b \<or> AttrID addr \<noteq> NameID (Attr b) then (b, [])
         else if \<not> Name_IsWildcard (Item b) \<and> i \<noteq> NameID (Item b) then (b, [])
         else if (case OnAdmit b of None \<Rightarrow> False | Some admit \<Rightarrow> \<not> admit addr tx) then (b, [])
         else if (Merger b = None \<or> isDelete) \<and>
                 (case prevEdit of None \<Rightarrow> False | Some e \<Rightarrow> CompareTo e (EditID addr) \<ge> 0) then (b, [])
         else
           let b1 = (if (case prevEdit of None \<Rightarrow> True | Some e \<Rightarrow> CompareTo e (EditID addr) < 0)
                     then b\<lparr>edits := (edits b)(i \<mapsto> EditID addr)\<rparr> else b)
           in if isDelete then
                let b2 = b1\<lparr>items := (items b1)(i := None)\<rparr>;
                    b3 = (case Merger b of None \<Rightarrow> b2 | Some m \<Rightarrow> b2\<lparr>mstate := Drop m (mstate b2) i\<rparr>)
                in (b3, if prevEdit = None then []
                        else [OnItem \<lparr>AI_Addr = addr, AI_Value = zero, AI_Deleted = True, AI_Tx = Some tx\<rparr>])
              else case UnmarshalOpValue unmarshal tx (int idx) of
                     Inl _ \<Rightarrow> (b1, [])
                   | Inr v \<Rightarrow>
                       let item = \<lparr>AI_Addr = addr, AI_Value = v, AI_Deleted = False, AI_Tx = Some tx\<rparr>
                       in case Merger b of
                            None \<Rightarrow> (b1\<lparr>items := (items b1)(i \<mapsto> v)\<rparr>, [OnItem item])
                          | Some m \<Rightarrow>
                              let (m', changed) = Merge m (mstate b1) item (items b1 i);
                                  b2 = b1\<lparr>mstate := m'\<rparr>
                              in (case changed of
                                    None \<Rightarrow> b2
                                  | Some merged \<Rightarrow> b2\<lparr>items := (items b2)(i \<mapsto> merged)\<rparr>,
                                  [OnItem item]))"

fun fold_ops ::
  "(byte list \<Rightarrow> 'v outcome) \<Rightarrow> 'v \<Rightarrow> tx_msg \<Rightarrow> nat \<Rightarrow> tx_op list \<Rightarrow> ('v, 'm) fold_binding
     \<Rightarrow> ('v, 'm) fold_binding \<times> 'v fold_event list" where
  "fold_ops unmarshal zero tx idx [] b = (b, [])"
| "fold_ops unmarshal zero tx idx (op # ops) b =
     (let (b1, ev1) = fold_op unmarshal zero tx idx op b;
          (b2, ev2) = fold_ops unmarshal zero tx (Suc idx) ops b1
      in (b2, ev1 @ ev2))"

definition OnNodeUpdate ::
  "(byte list \<Rightarrow> 'v outcome) \<Rightarrow> 'v \<Rightarrow> node_update \<Rightarrow> ('v, 'm) fold_binding
     \<Rightarrow> ('v, 'm) fold_binding \<times> 'v fold_event list" where
  "OnNodeUpdate unmarshal zero update b0 =
     (let b = b0\<lparr>revision := NU_Revision update\<rparr>
      in if nodeID b \<noteq> NU_NodeID update \<and> \<not> IsNil (nodeID b) then (b, [])
         else let b1 = (if nodeID b \<noteq> NU_NodeID update then b\<lparr>nodeID := NU_NodeID update\<rparr> else b);
                  (b2, ev) = fold_ops unmarshal zero (NU_Tx update) 0 (Ops (NU_Tx update)) b1
              in (b2, ev @ [OnSync]))"

section \<open>Queries on a transaction\<close>

definition HasAttr :: "tx_msg \<Rightarrow> uid \<Rightarrow> uid \<Rightarrow> bool" where
  "HasAttr tx n a \<longleftrightarrow> list_ex (\<lambda>op. NodeID (Addr op) = n \<and> AttrID (Addr op) = a) (Ops tx)"

fun node_ids :: "uid list \<Rightarrow> tx_op list \<Rightarrow> uid list" where
  "node_ids out [] = out"
| "node_ids out (op # ops) =
     node_ids (if NodeID (Addr op) \<in> set out then out else out @ [NodeID (Addr op)]) ops"

definition EnumNodeIDs :: "tx_msg \<Rightarrow> uid list" where
  "EnumNodeIDs tx = node_ids [] (Ops tx)"

fun extract_from ::
  "(byte list \<Rightarrow> 'v outcome) \<Rightarrow> 'v \<Rightarrow> tx_msg \<Rightarrow> uid \<Rightarrow> uid \<Rightarrow> nat \<Rightarrow> tx_op list \<Rightarrow> 'v attr_item list" where
  "extract_from unmarshal zero tx n a idx [] = []"
| "extract_from unmarshal zero tx n a idx (op # ops) =
     (if NodeID (Addr op) \<noteq> n \<or> AttrID (Addr op) \<noteq> a then []
      else if op_is_delete op
      then [\<lparr>AI_Addr = Addr op, AI_Value = zero, AI_Deleted = True, AI_Tx = Some tx\<rparr>]
      else case UnmarshalOpValue unmarshal tx (int idx) of
             Inl _ \<Rightarrow> []
           | Inr v \<Rightarrow> [\<lparr>AI_Addr = Addr op, AI_Value = v, AI_Deleted = False, AI_Tx = Some tx\<rparr>])
     @ extract_from unmarshal zero tx n a (Suc idx) ops"

definition ExtractItems ::
  "(byte list \<Rightarrow> 'v outcome) \<Rightarrow> 'v \<Rightarrow> tx_msg \<Rightarrow> uid \<Rightarrow> uid \<Rightarrow> 'v attr_item list" where
  "ExtractItems unmarshal zero tx n a = extract_from unmarshal zero tx n a 0 (Ops tx)"

section \<open>The deliveries of a binding\<close>

text \<open>What a binding without merger is meant to be: a last-writer-wins store over the ops that
  its filter and its veto let through.  The content of a delivery is \<open>None\<close> for a delete
  and the outcome of decoding otherwise.\<close>

definition admits :: "('v, 'm) fold_binding \<Rightarrow> address \<Rightarrow> tx_msg \<Rightarrow> bool" where
  "admits b addr tx \<longleftrightarrow>
     NodeID addr = nodeID b \<and> AttrID addr = NameID (Attr b) \<and>
     (Name_IsWildcard (Item b) \<or> ItemID addr = NameID (Item b)) \<and>
     (case OnAdmit b of None \<Rightarrow> True | Some admit \<Rightarrow> admit addr tx)"

definition op_content :: "(byte list \<Rightarrow> 'v outcome) \<Rightarrow> tx_msg \<Rightarrow> nat \<Rightarrow> tx_op \<Rightarrow> 'v outcome option" where
  "op_content unmarshal tx idx op =
     (if op_is_delete op then None else Some (UnmarshalOpValue unmarshal tx (int idx)))"

fun deliveries ::
  "(byte list \<Rightarrow> 'v outcome) \<Rightarrow> ('v, 'm) fold_binding \<Rightarrow> tx_msg \<Rightarrow> nat \<Rightarrow> tx_op list
     \<Rightarrow> 'v outcome option delivery list" where
  "deliveries unmarshal b tx idx [] = []"
| "deliveries unmarshal b tx idx (op # ops) =
     (if admits b (Addr op) tx
      then [(ItemID (Addr op), EditID (Addr op), op_content unmarshal tx idx op)] else [])
     @ deliveries unmarshal b tx (Suc idx) ops"

definition all_deliveries ::
  "(byte list \<Rightarrow> 'v outcome) \<Rightarrow> ('v, 'm) fold_binding \<Rightarrow> node_update list \<Rightarrow> 'v outcome option delivery list" where
  "all_deliveries unmarshal b us =
     concat (map (\<lambda>u. deliveries unmarshal b (NU_Tx u) 0 (Ops (NU_Tx u))) us)"

definition receive ::
  "(byte list \<Rightarrow> 'v outcome) \<Rightarrow> 'v \<Rightarrow> node_update list \<Rightarrow> ('v, 'm) fold_binding \<Rightarrow> ('v, 'm) fold_binding" where
  "receive unmarshal zero us b = fold (\<lambda>u b. fst (OnNodeUpdate unmarshal zero u b)) us b"

definition decodes :: "'v outcome option delivery \<Rightarrow> bool" where
  "decodes d = (case snd (snd d) of Some (Inl _) \<Rightarrow> False | _ \<Rightarrow> True)"

definition binding_ok :: "('v, 'm) fold_binding \<Rightarrow> bool" where
  "binding_ok b \<longleftrightarrow> (\<forall>i. edits b i = None \<longrightarrow> items b i = None)"

definition cached :: "('v, 'm) fold_binding \<Rightarrow> (uid \<rightharpoonup> uid \<times> 'v outcome option)" where
  "cached b i = (case edits b i of None \<Rightarrow> None | Some e \<Rightarrow> Some (e, map_option Inr (items b i)))"

definition same_config :: "('v, 'm) fold_binding \<Rightarrow> ('v, 'm) fold_binding \<Rightarrow> bool" where
  "same_config b c \<longleftrightarrow>
     Attr b = Attr c \<and> Item b = Item c \<and> OnAdmit b = OnAdmit c \<and> Merger b = Merger c \<and> nodeID b = nodeID c"

named_theorems binding_simps

lemma same_config_refl [binding_simps]: "same_config b b"
  by (simp add: same_config_def)

lemma deliveries_config: "same_config b c \<Longrightarrow> deliveries unmarshal b tx idx ops = deliveries unmarshal c tx idx ops"
proof -
  assume c: "same_config b c"
  then have "admits b = admits c" by (simp add: fun_eq_iff admits_def same_config_def)
  then show ?thesis by (induction ops arbitrary: idx) simp_all
qed

lemma all_deliveries_config: "same_config b c \<Longrightarrow> all_deliveries unmarshal b us = all_deliveries unmarshal c us"
  using deliveries_config [of b c] by (simp add: all_deliveries_def)

section \<open>Folding refines the store\<close>

lemma fold_op_rejects: "\<not> admits b (Addr op) tx \<Longrightarrow> fold_op unmarshal zero tx idx op b = (b, [])"
proof -
  assume "\<not> admits b (Addr op) tx"
  then consider "NodeID (Addr op) \<noteq> nodeID b \<or> AttrID (Addr op) \<noteq> NameID (Attr b)"
    | "\<not> Name_IsWildcard (Item b) \<and> ItemID (Addr op) \<noteq> NameID (Item b)"
    | "case OnAdmit b of None \<Rightarrow> False | Some admit \<Rightarrow> \<not> admit (Addr op) tx"
    unfolding admits_def by (cases "OnAdmit b") auto
  then show ?thesis unfolding fold_op_def Let_def by cases (simp_all only: simp_thms if_True if_cancel)
qed

lemma fold_op_admits:
  assumes "admits b (Addr op) tx" "Merger b = None"
  shows "fst (fold_op unmarshal zero tx idx op b) =
    (if (case edits b (ItemID (Addr op)) of None \<Rightarrow> False | Some e \<Rightarrow> EditID (Addr op) \<le> e) then b
     else let b1 = b\<lparr>edits := (edits b)(ItemID (Addr op) \<mapsto> EditID (Addr op))\<rparr>
          in case op_content unmarshal tx idx op of
               None \<Rightarrow> b1\<lparr>items := (items b)(ItemID (Addr op) := None)\<rparr>
             | Some (Inl _) \<Rightarrow> b1
             | Some (Inr v) \<Rightarrow> b1\<lparr>items := (items b)(ItemID (Addr op) \<mapsto> v)\<rparr>)"
proof -
  have g: "\<not> (NodeID (Addr op) \<noteq> nodeID b \<or> AttrID (Addr op) \<noteq> NameID (Attr b))"
    "\<not> (\<not> Name_IsWildcard (Item b) \<and> ItemID (Addr op) \<noteq> NameID (Item b))"
    "\<not> (case OnAdmit b of None \<Rightarrow> False | Some admit \<Rightarrow> \<not> admit (Addr op) tx)"
    using assms(1) by (simp_all add: admits_def split: option.splits)
  show ?thesis
  proof (cases "case edits b (ItemID (Addr op)) of None \<Rightarrow> False | Some e \<Rightarrow> EditID (Addr op) \<le> e")
    case True
    then have "case edits b (ItemID (Addr op)) of None \<Rightarrow> False | Some e \<Rightarrow> CompareTo e (EditID (Addr op)) \<ge> 0"
      by (cases "edits b (ItemID (Addr op))") (simp_all add: CompareTo_simps)
    then show ?thesis using True unfolding fold_op_def Let_def
      by (simp only: g assms(2) simp_thms if_True if_False fst_conv)
  next
    case False
    then have n: "\<not> (case edits b (ItemID (Addr op)) of None \<Rightarrow> False | Some e \<Rightarrow> CompareTo e (EditID (Addr op)) \<ge> 0)"
      and l: "case edits b (ItemID (Addr op)) of None \<Rightarrow> True | Some e \<Rightarrow> CompareTo e (EditID (Addr op)) < 0"
      by (cases "edits b (ItemID (Addr op))", simp_all add: CompareTo_simps)+
    have st: "fold_op unmarshal zero tx idx op b =
      (let b1 = b\<lparr>edits := (edits b)(ItemID (Addr op) \<mapsto> EditID (Addr op))\<rparr>
       in if op_is_delete op then
            (b1\<lparr>items := (items b1)(ItemID (Addr op) := None)\<rparr>,
             if edits b (ItemID (Addr op)) = None then []
             else [OnItem \<lparr>AI_Addr = Addr op, AI_Value = zero, AI_Deleted = True, AI_Tx = Some tx\<rparr>])
          else case UnmarshalOpValue unmarshal tx (int idx) of
                 Inl _ \<Rightarrow> (b1, [])
               | Inr v \<Rightarrow> (b1\<lparr>items := (items b1)(ItemID (Addr op) \<mapsto> v)\<rparr>,
                    [OnItem \<lparr>AI_Addr = Addr op, AI_Value = v, AI_Deleted = False, AI_Tx = Some tx\<rparr>]))"
      unfolding fold_op_def Let_def
      by (simp only: g assms(2) n l simp_thms if_True if_False option.case fold_binding.simps)
    show ?thesis using False
      by (cases "op_is_delete op"; cases "UnmarshalOpValue unmarshal tx (int idx)")
        (simp_all add: st op_content_def Let_def)
  qed
qed

lemma fold_op_lww:
  assumes "admits b (Addr op) tx" "Merger b = None" "binding_ok b"
    and "decodes (ItemID (Addr op), EditID (Addr op), op_content unmarshal tx idx op)"
  shows "cached (fst (fold_op unmarshal zero tx idx op b))
       = lww_step (ItemID (Addr op), EditID (Addr op), op_content unmarshal tx idx op) (cached b)
     \<and> binding_ok (fst (fold_op unmarshal zero tx idx op b))
     \<and> same_config (fst (fold_op unmarshal zero tx idx op b)) b"
proof (cases "case edits b (ItemID (Addr op)) of None \<Rightarrow> False | Some e \<Rightarrow> EditID (Addr op) \<le> e")
  case True
  then have "lww_step (ItemID (Addr op), EditID (Addr op), c) (cached b) = cached b" for c
    by (auto simp: lww_step_def cached_def split: option.splits)
  with True assms(3) show ?thesis by (simp add: fold_op_admits [OF assms(1,2)] same_config_refl)
next
  case False
  then have l: "lww_step (ItemID (Addr op), EditID (Addr op), c) (cached b)
      = (cached b)(ItemID (Addr op) \<mapsto> (EditID (Addr op), c))" for c
    by (auto simp: lww_step_def cached_def split: option.splits)
  consider "op_content unmarshal tx idx op = None" | v where "op_content unmarshal tx idx op = Some (Inr v)"
    using assms(4) by (cases "op_content unmarshal tx idx op") (auto simp: decodes_def split: sum.splits)
  then show ?thesis
    using assms(3) False
    by cases (simp_all add: fold_op_admits [OF assms(1,2)] l same_config_def binding_ok_def cached_def fun_eq_iff Let_def
        split: option.split)
qed

lemma fold_ops_lww:
  "Merger b = None \<Longrightarrow> binding_ok b \<Longrightarrow> list_all decodes (deliveries unmarshal b tx idx ops) \<Longrightarrow>
   cached (fst (fold_ops unmarshal zero tx idx ops b)) = fold lww_step (deliveries unmarshal b tx idx ops) (cached b)
   \<and> binding_ok (fst (fold_ops unmarshal zero tx idx ops b))
   \<and> same_config (fst (fold_ops unmarshal zero tx idx ops b)) b"
proof (induction ops arbitrary: idx b)
  case Nil
  then show ?case by (simp add: same_config_refl)
next
  case (Cons op ops)
  let ?b = "fst (fold_op unmarshal zero tx idx op b)"
  have st: "fst (fold_ops unmarshal zero tx idx (op # ops) b) = fst (fold_ops unmarshal zero tx (Suc idx) ops ?b)"
    by (simp add: case_prod_beta Let_def)
  show ?case
  proof (cases "admits b (Addr op) tx")
    case False
    then show ?thesis using Cons.IH [of b "Suc idx"] Cons.prems unfolding st
      by (simp add: fold_op_rejects del: fold_ops.simps)
  next
    case True
    have d: "decodes (ItemID (Addr op), EditID (Addr op), op_content unmarshal tx idx op)"
      using Cons.prems(3) True by simp
    note h = fold_op_lww [OF True Cons.prems(1,2) d, where zero = zero]
    have c: "same_config ?b b" "Merger ?b = None" using h Cons.prems(1) by (simp_all add: same_config_def)
    have "list_all decodes (deliveries unmarshal ?b tx (Suc idx) ops)"
      using Cons.prems(3) True by (simp add: deliveries_config [OF c(1)])
    note ih = Cons.IH [OF c(2) _ this]
    show ?thesis using ih h c(1) True unfolding st
      by (simp add: deliveries_config [OF c(1)] same_config_def del: fold_ops.simps)
  qed
qed

lemma OnNodeUpdate_lww:
  assumes "Merger b = None" "binding_ok b" "NU_NodeID u = nodeID b"
    and "list_all decodes (deliveries unmarshal b (NU_Tx u) 0 (Ops (NU_Tx u)))"
  shows "cached (fst (OnNodeUpdate unmarshal zero u b))
       = fold lww_step (deliveries unmarshal b (NU_Tx u) 0 (Ops (NU_Tx u))) (cached b)
     \<and> binding_ok (fst (OnNodeUpdate unmarshal zero u b)) \<and> same_config (fst (OnNodeUpdate unmarshal zero u b)) b"
proof -
  let ?b = "b\<lparr>revision := NU_Revision u\<rparr>"
  have c: "same_config ?b b" "cached ?b = cached b" "binding_ok ?b" "Merger ?b = None"
    using assms(1,2) by (simp_all add: same_config_def cached_def fun_eq_iff binding_ok_def split: option.split)
  have f: "fst (OnNodeUpdate unmarshal zero u b) = fst (fold_ops unmarshal zero (NU_Tx u) 0 (Ops (NU_Tx u)) ?b)"
    using assms(3) by (simp add: OnNodeUpdate_def Let_def case_prod_beta)
  show ?thesis
    using fold_ops_lww [OF c(4,3), of unmarshal "NU_Tx u" 0 "Ops (NU_Tx u)" zero] assms(4) c(1,2)
    unfolding f by (simp add: deliveries_config [OF c(1)] same_config_def)
qed

lemma receive_lww:
  "Merger b = None \<Longrightarrow> binding_ok b \<Longrightarrow> list_all (\<lambda>u. NU_NodeID u = nodeID b) us \<Longrightarrow>
   list_all decodes (all_deliveries unmarshal b us) \<Longrightarrow>
   cached (receive unmarshal zero us b) = fold lww_step (all_deliveries unmarshal b us) (cached b)
   \<and> binding_ok (receive unmarshal zero us b) \<and> same_config (receive unmarshal zero us b) b"
proof (induction us arbitrary: b)
  case Nil
  then show ?case by (simp add: receive_def all_deliveries_def same_config_refl)
next
  case (Cons u us)
  let ?b = "fst (OnNodeUpdate unmarshal zero u b)"
  have split: "all_deliveries unmarshal b (u # us)
      = deliveries unmarshal b (NU_Tx u) 0 (Ops (NU_Tx u)) @ all_deliveries unmarshal b us"
    by (simp add: all_deliveries_def)
  have d: "list_all decodes (deliveries unmarshal b (NU_Tx u) 0 (Ops (NU_Tx u)))"
    "list_all decodes (all_deliveries unmarshal b us)"
    using Cons.prems(4) by (simp_all add: split)
  have n: "NU_NodeID u = nodeID b" using Cons.prems(3) by simp
  note h = OnNodeUpdate_lww [OF Cons.prems(1,2) n d(1), where zero = zero]
  have c: "same_config ?b b" "binding_ok ?b" using h by blast+
  have prem: "Merger ?b = None" "list_all (\<lambda>u. NU_NodeID u = nodeID ?b) us"
    "list_all decodes (all_deliveries unmarshal ?b us)"
    using c(1) Cons.prems(1,3) d(2) by (simp_all add: same_config_def all_deliveries_config [OF c(1)])
  have r: "receive unmarshal zero (u # us) b = receive unmarshal zero us ?b" by (simp add: receive_def)
  show ?case
    using Cons.IH [OF prem(1) c(2) prem(2,3)] h c(1)
    unfolding r split by (simp add: all_deliveries_config [OF c(1)] same_config_def)
qed

lemma cached_inject:
  assumes "cached b = cached c" "binding_ok b" "binding_ok c"
  shows "edits b = edits c \<and> items b = items c"
proof -
  have "edits b i = edits c i \<and> items b i = items c i" for i
  proof -
    have eq: "cached b i = cached c i" using assms(1) by simp
    show ?thesis
    proof (cases "edits b i")
      case None
      then have "edits c i = None" using eq by (auto simp: cached_def split: option.splits)
      with None show ?thesis using assms(2,3) by (simp add: binding_ok_def)
    next
      case (Some e)
      then have "edits c i = Some e" "map_option Inr (items b i) = (map_option Inr (items c i) :: 'a outcome option)"
        using eq by (auto simp: cached_def split: option.splits)
      then show ?thesis using Some by (cases "items b i"; cases "items c i") simp_all
    qed
  qed
  then show ?thesis by (simp add: fun_eq_iff)
qed

section \<open>Properties\<close>

text \<open>C4. A binding without merger is a last-writer-wins store: after any run of updates for its
  node in which every value decodes, an item is live exactly when the delivery with the greatest
  edit identifier for it is not a delete, and its value is the one that delivery carries.\<close>

theorem FoldBinding_refines_lww:
  fixes b :: "('v, 'm) fold_binding"
  assumes "Merger b = None" "edits b = Map.empty" "items b = Map.empty"
    and "list_all (\<lambda>u. NU_NodeID u = nodeID b) us"
    and "list_all decodes (all_deliveries unmarshal b us)"
  shows "(GetItem (receive unmarshal zero us b) i = Some v \<longrightarrow>
            (\<exists>e. (i, e, Some (Inr v)) \<in> set (all_deliveries unmarshal b us) \<and>
                 (\<forall>e' c. (i, e', c) \<in> set (all_deliveries unmarshal b us) \<longrightarrow> e' \<le> e)))
       \<and> (GetItem (receive unmarshal zero us b) i = None \<longrightarrow>
            (\<forall>e c. (i, e, c) \<in> set (all_deliveries unmarshal b us) \<longrightarrow>
               (\<exists>e'. (i, e', None) \<in> set (all_deliveries unmarshal b us) \<and> e \<le> e')))"
proof -
  let ?r = "receive unmarshal zero us b" and ?D = "all_deliveries unmarshal b us"
  have "cached b = Map.empty" by (simp add: cached_def assms(2) fun_eq_iff)
  then have c: "cached ?r = fold lww_step ?D Map.empty" and ok: "binding_ok ?r"
    using receive_lww [OF assms(1) _ assms(4,5), of zero] by (simp_all add: binding_ok_def assms(3))
  have live: "\<exists>e. (i, e, Some (Inr v)) \<in> set ?D \<and> (\<forall>e' c. (i, e', c) \<in> set ?D \<longrightarrow> e' \<le> e)"
    if v: "items ?r i = Some v"
  proof -
    obtain e where "edits ?r i = Some e" using v ok by (metis binding_ok_def not_None_eq)
    then have "fold lww_step ?D Map.empty i = Some (e, Some (Inr v))"
      using v unfolding c [symmetric] by (simp add: cached_def)
    from lww_winner [OF this] show ?thesis by blast
  qed
  have gone: "\<exists>e'. (i, e', None) \<in> set ?D \<and> e \<le> e'"
    if v: "items ?r i = None" and d: "(i, e, x) \<in> set ?D" for e x
  proof -
    have "fold lww_step ?D Map.empty i \<noteq> None" using d lww_present [of ?D Map.empty i] by blast
    then obtain e' y where w: "fold lww_step ?D Map.empty i = Some (e', y)" by auto
    then have "y = None" using v unfolding c [symmetric] by (simp add: cached_def split: option.splits)
    then show ?thesis using lww_winner [OF w] d by blast
  qed
  show ?thesis using live gone by (simp add: GetItem_def)
qed

text \<open>Concrete transactions: one op whose value is one byte, under its own edit identifier.  The
  byte 9 does not decode.\<close>

definition toy_update :: "u64 \<Rightarrow> u64 \<Rightarrow> byte \<Rightarrow> node_update" where
  "toy_update e flags v =
     \<lparr>NU_NodeID = UID 1 1, NU_Revision = UID 0 e,
      NU_Tx = TxNew\<lparr>Ops := [\<lparr>Addr = \<lparr>NodeID = UID 1 1, AttrID = UID 1 2, ItemID = UID 1 3, EditID = UID 0 e\<rparr>,
                            Flags = ucast flags, Logical = 0, DataOfs = 0, DataLen = 2\<rparr>],
                    DataStore := [0, v]\<rparr>\<rparr>"

definition toy_decode :: "byte list \<Rightarrow> byte outcome" where
  "toy_decode b = (if b = [9] then Inl Other else Inr (hd b))"

definition toy_binding :: "(byte, unit) fold_binding" where
  "toy_binding = (NewFoldBinding () \<lparr>NameID = UID 1 2, Text = []\<rparr>)\<lparr>nodeID := UID 1 1\<rparr>"

lemma toy_deliveries:
  "all_deliveries toy_decode toy_binding [toy_update 1 0 5, toy_update 2 0 6] =
     [(UID 1 3, UID 0 1, Some (Inr 5)), (UID 1 3, UID 0 2, Some (Inr 6))]"
  by code_simp

lemma toy_facts:
  "Merger toy_binding = None" "edits toy_binding = Map.empty" "items toy_binding = Map.empty" "binding_ok toy_binding"
  "list_all (\<lambda>u. NU_NodeID u = nodeID toy_binding) [toy_update 1 0 5, toy_update 2 0 6]"
  "list_all decodes (all_deliveries toy_decode toy_binding [toy_update 1 0 5, toy_update 2 0 6])"
  unfolding toy_deliveries
  by (simp_all add: toy_binding_def NewFoldBinding_def toy_update_def binding_ok_def decodes_def)

theorem FoldBinding_refines_lww_witness:
  "GetItem (receive toy_decode 0 [toy_update 1 0 5, toy_update 2 0 6] toy_binding) (UID 1 3) \<noteq> None"
  using FoldBinding_refines_lww [OF toy_facts(1-3,5,6), of 0 "UID 1 3", THEN conjunct2]
  unfolding toy_deliveries by fastforce

text \<open>C5. Replicas converge, under three conditions: the binding has no merger, every value of a matching op decodes, and an
  edit identifier names one content per item.  Then two bindings that receive the same set of updates of their
  node, in any order and any number of times, hold the same items under the same edit identifiers.  The
  conditions are needed: without decodable values replicas may diverge (\<open>undecodable_value_diverges\<close>), and
  so may the merged member records (\<open>member_merge_diverges\<close> in the theory of the merger).\<close>

theorem FoldBinding_converges:
  assumes "Merger b = None" "binding_ok b"
    and "list_all (\<lambda>u. NU_NodeID u = nodeID b) us"
    and "list_all decodes (all_deliveries unmarshal b us)"
    and "\<forall>x \<in> set (all_deliveries unmarshal b us). \<forall>y \<in> set (all_deliveries unmarshal b us).
           same_edit_same_content x y"
    and "set us = set vs"
  shows "items (receive unmarshal zero us b) = items (receive unmarshal zero vs b)
       \<and> edits (receive unmarshal zero us b) = edits (receive unmarshal zero vs b)"
proof -
  have s: "set (all_deliveries unmarshal b us) = set (all_deliveries unmarshal b vs)"
    using assms(6) by (simp add: all_deliveries_def)
  have vs: "list_all (\<lambda>u. NU_NodeID u = nodeID b) vs" "list_all decodes (all_deliveries unmarshal b vs)"
    using assms(3,4,6) s by (simp_all add: list_all_iff)
  note ru = receive_lww [OF assms(1-4), of zero] and rv = receive_lww [OF assms(1,2) vs, of zero]
  have "cached (receive unmarshal zero us b) = cached (receive unmarshal zero vs b)"
    using ru rv lww.delivery_order [OF assms(5) s] by metis
  then show ?thesis using cached_inject ru rv by blast
qed

theorem FoldBinding_converges_witness:
  "items (receive toy_decode 0 [toy_update 1 0 5, toy_update 2 0 6] toy_binding)
     = items (receive toy_decode 0 [toy_update 2 0 6, toy_update 1 0 5, toy_update 2 0 6] toy_binding)"
  by (rule FoldBinding_converges [OF toy_facts(1,4,5,6), THEN conjunct1])
    (simp add: toy_deliveries same_edit_same_content_def, auto)

text \<open>Convergence needs decodable values: a newer value that does not decode advances the
  edit clock but leaves the older value in the cache, so replicas that received the two updates
  in different orders serve different items for ever.\<close>

theorem undecodable_value_diverges:
  "edits (receive toy_decode 0 [toy_update 1 0 5, toy_update 2 0 9] toy_binding) (UID 1 3) = Some (UID 0 2)
   \<and> GetItem (receive toy_decode 0 [toy_update 1 0 5, toy_update 2 0 9] toy_binding) (UID 1 3) = Some 5
   \<and> edits (receive toy_decode 0 [toy_update 2 0 9, toy_update 1 0 5] toy_binding) (UID 1 3) = Some (UID 0 2)
   \<and> GetItem (receive toy_decode 0 [toy_update 2 0 9, toy_update 1 0 5] toy_binding) (UID 1 3) = None"
  by code_simp

end
