(* ===== verification/MemberMerge.thy ===== *)
theory MemberMerge
  imports Bindings
begin

text \<open>
  The per-field merge of member records (\<open>amp/amp.support.memberepoch.go\<close>), an
  \<open>ItemMerger\<close> of an attribute binding: keys are owned by the member, the status by the
  issuer, every other field by the newest record.  A \<open>Tag\<close> is its identifier; the fields of
  \<open>MemberEpoch\<close> that the merge does not read stay in the record's extension.
\<close>

section \<open>State\<close>

record key_ref =
  KR_KeyringID :: uid
  KR_Kit :: uid
  KR_Type :: u32
  KR_PubKey :: "byte list"

record member_epoch =
  SigningKey :: "key_ref option"
  EncryptKey :: "key_ref option"
  ME_Status :: u32
  ME_Epoch :: "uid option"

record 'a member_epoch_state =
  baseEdit :: uid
  base :: "'a member_epoch_scheme option"
  signEdit :: uid
  signKey :: "key_ref option"
  encryptEdit :: uid
  encryptKey :: "key_ref option"
  statusEdit :: uid
  status :: u32
  st_epoch :: "uid option"

type_synonym 'a member_merger = "uid \<rightharpoonup> 'a member_epoch_state"

definition emptyState :: "'a member_epoch_state" where
  "emptyState = \<lparr>baseEdit = nilUID, base = None, signEdit = nilUID, signKey = None, encryptEdit = nilUID,
     encryptKey = None, statusEdit = nilUID, status = 0, st_epoch = None\<rparr>"

section \<open>Operations\<close>

definition DropItem :: "'a member_merger \<Rightarrow> uid \<Rightarrow> 'a member_merger" where
  "DropItem m itemID = m(itemID := None)"

definition declaredKey :: "key_ref option \<Rightarrow> bool" where
  "declaredKey key = (case key of None \<Rightarrow> False | Some k \<Rightarrow> KR_PubKey k \<noteq> [])"

definition custodyLane :: "'v attr_item \<Rightarrow> bool" where
  "custodyLane a =
     (case AI_Tx a of None \<Rightarrow> False | Some tx \<Rightarrow> TxID (TxEnvelope tx) = EditID (AI_Addr a))"

definition isSelf :: "'v attr_item \<Rightarrow> bool" where
  "isSelf a =
     (custodyLane a \<and>
      (case AI_Tx a of None \<Rightarrow> False | Some tx \<Rightarrow> FromID (TxHeader tx) = ItemID (AI_Addr a)))"

definition fold_base ::
  "uid \<Rightarrow> 'a member_epoch_scheme \<Rightarrow> 'a member_epoch_state \<Rightarrow> 'a member_epoch_state \<times> bool" where
  "fold_base e r st =
     (if base st = None \<or> CompareTo (baseEdit st) e < 0
      then (st\<lparr>base := Some r, baseEdit := e\<rparr>, True) else (st, False))"

definition fold_sign ::
  "bool \<Rightarrow> uid \<Rightarrow> 'a member_epoch_scheme \<Rightarrow> 'a member_epoch_state \<Rightarrow> 'a member_epoch_state \<times> bool" where
  "fold_sign self e r st =
     (if declaredKey (SigningKey r) \<and> (self \<or> \<not> declaredKey (signKey st)) \<and> CompareTo (signEdit st) e < 0
      then (st\<lparr>signKey := SigningKey r, signEdit := e\<rparr>, True) else (st, False))"

definition fold_encrypt ::
  "bool \<Rightarrow> uid \<Rightarrow> 'a member_epoch_scheme \<Rightarrow> 'a member_epoch_state \<Rightarrow> 'a member_epoch_state \<times> bool" where
  "fold_encrypt self e r st =
     (if declaredKey (SigningKey r) \<and> declaredKey (EncryptKey r) \<and>
         (self \<or> \<not> declaredKey (encryptKey st)) \<and> CompareTo (encryptEdit st) e < 0
      then (st\<lparr>encryptKey := EncryptKey r, encryptEdit := e\<rparr>, True) else (st, False))"

definition fold_status ::
  "bool \<Rightarrow> bool \<Rightarrow> uid \<Rightarrow> 'a member_epoch_scheme \<Rightarrow> 'a member_epoch_state \<Rightarrow> 'a member_epoch_state \<times> bool" where
  "fold_status self hasPrev e r st =
     (if (\<not> self \<or> \<not> hasPrev) \<and> CompareTo (statusEdit st) e < 0
      then (st\<lparr>status := ME_Status r, statusEdit := e,
               st_epoch := (if ME_Epoch r \<noteq> None then ME_Epoch r else st_epoch st)\<rparr>, True)
      else (st, False))"

definition merge_record ::
  "bool \<Rightarrow> bool \<Rightarrow> bool \<Rightarrow> uid \<Rightarrow> 'a member_epoch_scheme \<Rightarrow> 'a member_epoch_state
     \<Rightarrow> 'a member_epoch_state \<times> bool" where
  "merge_record custody self hasPrev e r st =
     (let (s1, c1) = fold_base e r st
      in if \<not> custody then (s1, c1)
         else let (s2, c2) = fold_sign self e r s1;
                  (s3, c3) = fold_encrypt self e r s2;
                  (s4, c4) = fold_status self hasPrev e r s3
              in (s4, c1 \<or> c2 \<or> c3 \<or> c4))"

definition materialize :: "'a member_epoch_state \<Rightarrow> 'a member_epoch_scheme option" where
  "materialize st =
     (case base st of
        None \<Rightarrow> None
      | Some out \<Rightarrow>
          let o1 = (if IsSet (signEdit st) then out\<lparr>SigningKey := signKey st\<rparr> else out);
              o2 = (if IsSet (encryptEdit st) then o1\<lparr>EncryptKey := encryptKey st\<rparr> else o1);
              o3 = (if IsSet (statusEdit st)
                    then (let o' = o2\<lparr>ME_Status := status st\<rparr>
                          in if st_epoch st \<noteq> None then o'\<lparr>ME_Epoch := st_epoch st\<rparr> else o')
                    else o2)
          in Some o3)"

definition MergeItem ::
  "'a member_merger \<Rightarrow> 'a member_epoch_scheme attr_item \<Rightarrow> 'a member_epoch_scheme option
     \<Rightarrow> 'a member_merger \<times> 'a member_epoch_scheme option" where
  "MergeItem m arrival prev =
     (let memberID = ItemID (AI_Addr arrival);
          st = (case m memberID of None \<Rightarrow> emptyState | Some st \<Rightarrow> st);
          (st', changed) = merge_record (custodyLane arrival) (isSelf arrival) (prev \<noteq> None)
                             (EditID (AI_Addr arrival)) (AI_Value arrival) st
      in (m(memberID \<mapsto> st'), if changed then materialize st' else None))"

definition NewMemberEpochMerger :: "('a member_epoch_scheme, 'a member_merger) item_merger" where
  "NewMemberEpochMerger = \<lparr>Merge = MergeItem, Drop = DropItem\<rparr>"

section \<open>Clocks only advance\<close>

lemmas lanes = fold_base_def fold_sign_def fold_encrypt_def fold_status_def

definition grows :: "'a member_epoch_state \<Rightarrow> 'a member_epoch_state \<Rightarrow> bool" where
  "grows s t \<longleftrightarrow>
     baseEdit s \<le> baseEdit t \<and> signEdit s \<le> signEdit t \<and> encryptEdit s \<le> encryptEdit t \<and>
     statusEdit s \<le> statusEdit t \<and> (base s \<noteq> None \<longrightarrow> base t \<noteq> None) \<and>
     (declaredKey (signKey s) \<longrightarrow> declaredKey (signKey t)) \<and>
     (declaredKey (encryptKey s) \<longrightarrow> declaredKey (encryptKey t))"

lemma grows_refl [simp]: "grows s s"
  by (simp add: grows_def)

lemma grows_trans: "grows s t \<Longrightarrow> grows t u \<Longrightarrow> grows s u"
  by (auto simp: grows_def intro: order_trans)

lemma base_grows: "base s \<noteq> None \<Longrightarrow> grows s (fst (fold_base e r s))"
  by (auto simp: fold_base_def grows_def CompareTo_simps)

lemma lanes_grow:
  "grows s (fst (fold_sign self e r s))" "grows s (fst (fold_encrypt self e r s))"
  "grows s (fst (fold_status self hasPrev e r s))"
  by (auto simp: lanes grows_def CompareTo_simps)

lemma merge_record_cases:
  "merge_record custody self hasPrev e r st =
     (let s1 = fst (fold_base e r st);
          s2 = fst (fold_sign self e r s1); s3 = fst (fold_encrypt self e r s2)
      in (if custody then fst (fold_status self hasPrev e r s3) else s1,
          snd (fold_base e r st) \<or>
          custody \<and> (snd (fold_sign self e r s1) \<or> snd (fold_encrypt self e r s2) \<or>
                     snd (fold_status self hasPrev e r s3))))"
  by (simp add: merge_record_def Let_def case_prod_beta)

lemma merge_record_grows:
  "base s \<noteq> None \<Longrightarrow> grows s (fst (merge_record custody self hasPrev e r s))"
  unfolding merge_record_cases Let_def fst_conv
  using grows_trans [OF grows_trans [OF grows_trans [OF base_grows lanes_grow(1)] lanes_grow(2)] lanes_grow(3)]
    base_grows by (cases custody) simp_all

lemma unchanged:
  "\<not> snd (fold_base e r s) \<Longrightarrow> fst (fold_base e r s) = s"
  "\<not> snd (fold_sign self e r s) \<Longrightarrow> fst (fold_sign self e r s) = s"
  "\<not> snd (fold_encrypt self e r s) \<Longrightarrow> fst (fold_encrypt self e r s) = s"
  "\<not> snd (fold_status self hasPrev e r s) \<Longrightarrow> fst (fold_status self hasPrev e r s) = s"
  by (auto simp: lanes split: if_splits)

lemma merge_record_unchanged:
  "\<not> snd (merge_record custody self hasPrev e r s) \<Longrightarrow> fst (merge_record custody self hasPrev e r s) = s"
  by (auto simp: merge_record_cases Let_def unchanged split: if_splits)

lemma merge_record_base: "base (fst (merge_record custody self hasPrev e r s)) \<noteq> None"
  by (auto simp: merge_record_cases Let_def lanes split: if_splits)

section \<open>Nothing is merged twice\<close>

text \<open>The merger as its binding drives it: the previous value is the one it served last.\<close>

definition merger_step :: "'a member_epoch_scheme attr_item \<Rightarrow> 'a member_merger \<Rightarrow> 'a member_merger" where
  "merger_step a m = fst (MergeItem m a (Option.bind (m (ItemID (AI_Addr a))) materialize))"

definition state_of :: "'a member_merger \<Rightarrow> uid \<Rightarrow> 'a member_epoch_state" where
  "state_of m i = (case m i of None \<Rightarrow> emptyState | Some st \<Rightarrow> st)"

definition record_seen :: "bool \<Rightarrow> bool \<Rightarrow> uid \<Rightarrow> 'a member_epoch_scheme \<Rightarrow> 'a member_epoch_state \<Rightarrow> bool" where
  "record_seen custody self e r st \<longleftrightarrow>
     base st \<noteq> None \<and> e \<le> baseEdit st \<and>
     (custody \<longrightarrow>
        (declaredKey (SigningKey r) \<longrightarrow>
           (if self then e \<le> signEdit st else declaredKey (signKey st) \<or> e \<le> signEdit st) \<and>
           (declaredKey (EncryptKey r) \<longrightarrow>
              (if self then e \<le> encryptEdit st else declaredKey (encryptKey st) \<or> e \<le> encryptEdit st))) \<and>
        (\<not> self \<longrightarrow> e \<le> statusEdit st))"

definition item_seen :: "'a member_epoch_scheme attr_item \<Rightarrow> 'a member_merger \<Rightarrow> bool" where
  "item_seen a m \<longleftrightarrow>
     (case m (ItemID (AI_Addr a)) of
        None \<Rightarrow> False
      | Some st \<Rightarrow> record_seen (custodyLane a) (isSelf a) (EditID (AI_Addr a)) (AI_Value a) st)"

lemma record_seen_mono: "record_seen custody self e r s \<Longrightarrow> grows s t \<Longrightarrow> record_seen custody self e r t"
  by (cases self; cases custody) (auto simp: record_seen_def grows_def)

lemma lane_seen:
  "e \<le> baseEdit (fst (fold_base e r s)) \<and> base (fst (fold_base e r s)) \<noteq> None"
  "declaredKey (SigningKey r) \<Longrightarrow>
     (if self then e \<le> signEdit (fst (fold_sign self e r s))
      else declaredKey (signKey (fst (fold_sign self e r s))) \<or> e \<le> signEdit (fst (fold_sign self e r s)))"
  "declaredKey (SigningKey r) \<Longrightarrow> declaredKey (EncryptKey r) \<Longrightarrow>
     (if self then e \<le> encryptEdit (fst (fold_encrypt self e r s))
      else declaredKey (encryptKey (fst (fold_encrypt self e r s))) \<or> e \<le> encryptEdit (fst (fold_encrypt self e r s)))"
  "\<not> self \<Longrightarrow> e \<le> statusEdit (fst (fold_status self hasPrev e r s))"
  by (auto simp: lanes CompareTo_simps not_less)

lemma merge_record_seen: "record_seen custody self e r (fst (merge_record custody self hasPrev e r s))"
proof -
  let ?s1 = "fst (fold_base e r s)"
  let ?s2 = "fst (fold_sign self e r ?s1)"
  let ?s3 = "fst (fold_encrypt self e r ?s2)"
  let ?s4 = "fst (fold_status self hasPrev e r ?s3)"
  have g: "grows ?s1 ?s4" "grows ?s2 ?s4" "grows ?s3 ?s4"
    by (blast intro: grows_trans lanes_grow)+
  have "record_seen True self e r ?s4"
    using g lane_seen(1) [of e r s] lane_seen(2) [of r self e ?s1] lane_seen(3) [of r self e ?s2]
      lane_seen(4) [of self e hasPrev r ?s3]
    unfolding record_seen_def grows_def by (cases self) (auto intro: order_trans)
  moreover have "record_seen False self e r ?s1"
    using lane_seen(1) [of e r s] by (simp add: record_seen_def)
  ultimately show ?thesis by (cases custody) (simp_all add: merge_record_cases Let_def)
qed

lemma record_seen_noop:
  "record_seen custody self e r s \<Longrightarrow> merge_record custody self True e r s = (s, False)"
  by (cases custody; cases self) (auto simp: record_seen_def merge_record_def lanes Let_def CompareTo_simps not_less)

lemma MergeItem_step:
  "MergeItem m a prev =
     (let i = ItemID (AI_Addr a);
          (st', changed) = merge_record (custodyLane a) (isSelf a) (prev \<noteq> None) (EditID (AI_Addr a)) (AI_Value a) (state_of m i)
      in (m(i \<mapsto> st'), if changed then materialize st' else None))"
  by (simp add: MergeItem_def state_of_def Let_def)

lemma merger_step_eq:
  "merger_step a m =
     (let i = ItemID (AI_Addr a)
      in m(i \<mapsto> fst (merge_record (custodyLane a) (isSelf a) (Option.bind (m i) materialize \<noteq> None)
                        (EditID (AI_Addr a)) (AI_Value a) (state_of m i))))"
  by (simp add: merger_step_def MergeItem_step Let_def case_prod_beta)

lemma materialize_Some: "base st \<noteq> None \<Longrightarrow> materialize st \<noteq> None"
  by (auto simp: materialize_def Let_def)

interpretation member: absorbing merger_step item_seen
proof
  fix a b :: "'a member_epoch_scheme attr_item" and m :: "'a member_merger"
  show "item_seen a (merger_step a m)"
    by (simp add: item_seen_def merger_step_eq Let_def merge_record_seen)
  assume s: "item_seen a m"
  then obtain st where st: "m (ItemID (AI_Addr a)) = Some st"
    and seen: "record_seen (custodyLane a) (isSelf a) (EditID (AI_Addr a)) (AI_Value a) st"
    by (auto simp: item_seen_def split: option.splits)
  have b: "base st \<noteq> None" using seen by (simp add: record_seen_def)
  have "Option.bind (m (ItemID (AI_Addr a))) materialize \<noteq> None" using materialize_Some [OF b] st by simp
  then show "merger_step a m = m"
    using record_seen_noop [OF seen] by (auto simp: merger_step_eq Let_def state_of_def st)
  show "item_seen a (merger_step b m)"
  proof (cases "ItemID (AI_Addr b) = ItemID (AI_Addr a)")
    case True
    then show ?thesis
      using record_seen_mono [OF seen merge_record_grows [OF b]]
      by (simp add: item_seen_def merger_step_eq Let_def state_of_def st)
  next
    case False
    then show ?thesis using seen by (auto simp: item_seen_def merger_step_eq Let_def st)
  qed
qed

section \<open>Custody\<close>

lemma merge_record_key:
  assumes "declaredKey (signKey st)" "\<not> self"
  shows "signKey (fst (merge_record custody self hasPrev e r st)) = signKey st \<and>
         signEdit (fst (merge_record custody self hasPrev e r st)) = signEdit st"
  using assms by (auto simp: merge_record_cases Let_def lanes)

lemma merge_record_self:
  assumes "declaredKey (SigningKey r)" "signEdit st < e"
  shows "signKey (fst (merge_record True True hasPrev e r st)) = SigningKey r \<and>
         signEdit (fst (merge_record True True hasPrev e r st)) = e"
  using assms by (auto simp: merge_record_cases Let_def lanes CompareTo_simps)

lemma isSelf_custody: "isSelf a \<Longrightarrow> custodyLane a"
  by (simp add: isSelf_def)

text \<open>The key that a member's record is served with.\<close>

definition served_key :: "'a member_merger \<Rightarrow> uid \<Rightarrow> key_ref option" where
  "served_key m i = Option.bind (Option.bind (m i) materialize) SigningKey"

lemma served_key_owned:
  "m i = Some st \<Longrightarrow> base st \<noteq> None \<Longrightarrow> IsSet (signEdit st) \<Longrightarrow> served_key m i = signKey st"
  by (auto simp: served_key_def materialize_def Let_def)

definition owned :: "uid \<Rightarrow> key_ref option \<Rightarrow> uid \<Rightarrow> 'a member_merger \<Rightarrow> bool" where
  "owned i k e m \<longleftrightarrow>
     (\<exists>st. m i = Some st \<and> base st \<noteq> None \<and> signKey st = k \<and> signEdit st = e \<and> IsSet e \<and> declaredKey k)"

lemma owned_served: "owned i k e m \<Longrightarrow> served_key m i = k"
  by (auto simp: owned_def served_key_owned)

lemma merger_step_owned:
  assumes "owned i k e m" "ItemID (AI_Addr a) = i \<longrightarrow> \<not> isSelf a"
  shows "owned i k e (merger_step a m)"
proof (cases "ItemID (AI_Addr a) = i")
  case True
  then obtain st where "m i = Some st" "base st \<noteq> None" "signKey st = k" "signEdit st = e" "IsSet e" "declaredKey k"
      and n: "\<not> isSelf a"
    using assms by (auto simp: owned_def)
  then show ?thesis
    using merge_record_key [of st "isSelf a"] merge_record_base True
    by (simp add: owned_def merger_step_eq Let_def state_of_def)
next
  case False
  then show ?thesis using assms(1) by (auto simp: owned_def merger_step_eq Let_def)
qed

lemma fold_owned:
  "owned i k e m \<Longrightarrow> \<forall>a \<in> set xs. ItemID (AI_Addr a) = i \<longrightarrow> \<not> isSelf a \<Longrightarrow> owned i k e (fold merger_step xs m)"
  by (induction xs arbitrary: m) (auto simp: merger_step_owned)

lemma self_owns:
  assumes "isSelf a" "declaredKey (SigningKey (AI_Value a))"
    and "signEdit (state_of m (ItemID (AI_Addr a))) < EditID (AI_Addr a)" "IsSet (EditID (AI_Addr a))"
  shows "owned (ItemID (AI_Addr a)) (SigningKey (AI_Value a)) (EditID (AI_Addr a)) (merger_step a m)"
  using merge_record_self [OF assms(2,3)] assms(1,2,4) isSelf_custody [OF assms(1)] merge_record_base
  by (simp add: owned_def merger_step_eq Let_def)

section \<open>The merger under its binding\<close>

text \<open>The binding's cache is the projection of the merger's state.\<close>

definition serves_merged :: "('a member_epoch_scheme, 'a member_merger) fold_binding \<Rightarrow> bool" where
  "serves_merged b \<longleftrightarrow>
     (\<forall>i. (\<forall>st. mstate b i = Some st \<longrightarrow> base st \<noteq> None) \<and> items b i = Option.bind (mstate b i) materialize)"

text \<open>What one op does to the item cache and the merger.\<close>

lemma fold_op_merger:
  assumes "Merger b = Some M"
  shows "let b' = fst (fold_op unmarshal zero tx idx op b); i = ItemID (Addr op)
    in (mstate b' = mstate b \<and> items b' = items b)
     \<or> (mstate b' = Drop M (mstate b) i \<and> items b' = (items b)(i := None))
     \<or> (\<exists>a. ItemID (AI_Addr a) = i \<and> mstate b' = fst (Merge M (mstate b) a (items b i)) \<and>
            items b' = (case snd (Merge M (mstate b) a (items b i)) of None \<Rightarrow> items b | Some v \<Rightarrow> (items b)(i \<mapsto> v)))"
proof (cases "admits b (Addr op) tx")
  case False
  then show ?thesis by (simp add: fold_op_rejects Let_def)
next
  case True
  then have g: "\<not> (NodeID (Addr op) \<noteq> nodeID b \<or> AttrID (Addr op) \<noteq> NameID (Attr b))"
    "\<not> (\<not> Name_IsWildcard (Item b) \<and> ItemID (Addr op) \<noteq> NameID (Item b))"
    "\<not> (case OnAdmit b of None \<Rightarrow> False | Some admit \<Rightarrow> \<not> admit (Addr op) tx)"
    by (simp_all add: admits_def split: option.splits)
  let ?e = "edits b (ItemID (Addr op))"
  define b1 where "b1 = (if (case ?e of None \<Rightarrow> True | Some e \<Rightarrow> CompareTo e (EditID (Addr op)) < 0)
    then b\<lparr>edits := (edits b)(ItemID (Addr op) \<mapsto> EditID (Addr op))\<rparr> else b)"
  have b1: "mstate b1 = mstate b" "items b1 = items b" by (simp_all add: b1_def)
  consider "op_is_delete op \<and> (case ?e of None \<Rightarrow> False | Some e \<Rightarrow> CompareTo e (EditID (Addr op)) \<ge> 0)"
    | "op_is_delete op \<and> \<not> (case ?e of None \<Rightarrow> False | Some e \<Rightarrow> CompareTo e (EditID (Addr op)) \<ge> 0)"
    | "\<not> op_is_delete op" by blast
  then show ?thesis
  proof cases
    case 1
    then have "fold_op unmarshal zero tx idx op b = (b, [])"
      unfolding fold_op_def Let_def by (simp only: g assms simp_thms if_True if_False)
    then show ?thesis by (simp add: Let_def)
  next
    case 2
    then have "fst (fold_op unmarshal zero tx idx op b)
        = (b1\<lparr>items := (items b1)(ItemID (Addr op) := None)\<rparr>)\<lparr>mstate := Drop M (mstate b1) (ItemID (Addr op))\<rparr>"
      unfolding fold_op_def Let_def b1_def [symmetric]
      by (simp only: g assms simp_thms if_True if_False option.case fst_conv fold_binding.simps b1)
        (simp add: b1 b1_def assms)
    then show ?thesis by (simp add: Let_def b1)
  next
    case 3
    show ?thesis
    proof (cases "UnmarshalOpValue unmarshal tx (int idx)")
      case (Inl e)
      then have "fst (fold_op unmarshal zero tx idx op b) = b1"
        unfolding fold_op_def Let_def b1_def [symmetric]
        using 3 by (simp only: g assms simp_thms if_True if_False option.distinct sum.case fst_conv)
      then show ?thesis by (simp add: Let_def b1)
    next
      case (Inr v)
      let ?a = "\<lparr>AI_Addr = Addr op, AI_Value = v, AI_Deleted = False, AI_Tx = Some tx\<rparr>"
      have "fst (fold_op unmarshal zero tx idx op b) =
         (let (m', changed) = Merge M (mstate b1) ?a (items b1 (ItemID (Addr op)));
              b2 = b1\<lparr>mstate := m'\<rparr>
          in case changed of None \<Rightarrow> b2 | Some merged \<Rightarrow> b2\<lparr>items := (items b2)(ItemID (Addr op) \<mapsto> merged)\<rparr>)"
        unfolding fold_op_def Let_def b1_def [symmetric]
        by (simp only: g assms 3 Inr simp_thms if_True if_False option.case option.distinct sum.case)
          (simp add: case_prod_beta split: option.split)
      then have "mstate (fst (fold_op unmarshal zero tx idx op b)) = fst (Merge M (mstate b) ?a (items b (ItemID (Addr op))))"
        "items (fst (fold_op unmarshal zero tx idx op b)) =
           (case snd (Merge M (mstate b) ?a (items b (ItemID (Addr op)))) of
              None \<Rightarrow> items b | Some v \<Rightarrow> (items b)(ItemID (Addr op) \<mapsto> v))"
        by (simp_all add: b1 case_prod_beta Let_def split: option.split)
      then show ?thesis unfolding Let_def by (intro disjI2 exI [of _ ?a]) simp
    qed
  qed
qed

lemma serves_MergeItem:
  assumes "serves_merged b" "ItemID (AI_Addr a) = i"
  shows "fst (MergeItem (mstate b) a (items b i)) = merger_step a (mstate b)"
    and "(case snd (MergeItem (mstate b) a (items b i)) of None \<Rightarrow> items b | Some v \<Rightarrow> (items b)(i \<mapsto> v)) j
       = Option.bind (merger_step a (mstate b) j) materialize"
proof -
  let ?st = "state_of (mstate b) i"
  have it: "items b k = Option.bind (mstate b k) materialize" for k
    using assms(1) by (simp add: serves_merged_def)
  show "fst (MergeItem (mstate b) a (items b i)) = merger_step a (mstate b)"
    by (simp add: merger_step_def it assms(2))
  obtain st' c where r: "merge_record (custodyLane a) (isSelf a) (items b i \<noteq> None)
      (EditID (AI_Addr a)) (AI_Value a) ?st = (st', c)" by (metis prod.exhaust)
  have m: "merger_step a (mstate b) = (mstate b)(i \<mapsto> st')"
    using r by (simp add: merger_step_eq Let_def assms(2) it [symmetric])
  have b: "base st' \<noteq> None"
    using merge_record_base [of "custodyLane a" "isSelf a" "items b i \<noteq> None" "EditID (AI_Addr a)" "AI_Value a" ?st] r
    by simp
  show "(case snd (MergeItem (mstate b) a (items b i)) of None \<Rightarrow> items b | Some v \<Rightarrow> (items b)(i \<mapsto> v)) j
       = Option.bind (merger_step a (mstate b) j) materialize"
  proof (cases c)
    case True
    then show ?thesis using r materialize_Some [OF b] it by (auto simp: MergeItem_step Let_def assms(2) m)
  next
    case False
    then have "st' = ?st"
      using merge_record_unchanged [of "custodyLane a" "isSelf a" "items b i \<noteq> None" "EditID (AI_Addr a)" "AI_Value a" ?st] r
      by simp
    moreover from this have "mstate b i = Some ?st"
      using b by (cases "mstate b i") (simp_all add: state_of_def emptyState_def)
    ultimately show ?thesis using r False it by (simp add: MergeItem_step Let_def assms(2) m)
  qed
qed

lemma merger_step_ok:
  "\<forall>i st. m i = Some st \<longrightarrow> base st \<noteq> None \<Longrightarrow> merger_step a m i = Some st \<Longrightarrow> base st \<noteq> None"
  using merge_record_base by (fastforce simp: merger_step_eq Let_def split: if_splits)

lemma fold_op_serves:
  assumes "Merger b = Some NewMemberEpochMerger" "serves_merged b"
  shows "serves_merged (fst (fold_op unmarshal zero tx idx op b))"
proof -
  let ?b' = "fst (fold_op unmarshal zero tx idx op b)" and ?i = "ItemID (Addr op)"
  have ok: "\<forall>i st. mstate b i = Some st \<longrightarrow> base st \<noteq> None" using assms(2) by (simp add: serves_merged_def)
  consider "mstate ?b' = mstate b" "items ?b' = items b"
    | "mstate ?b' = DropItem (mstate b) ?i" "items ?b' = (items b)(?i := None)"
    | a where "ItemID (AI_Addr a) = ?i" "mstate ?b' = fst (MergeItem (mstate b) a (items b ?i))"
        "items ?b' = (case snd (MergeItem (mstate b) a (items b ?i)) of None \<Rightarrow> items b | Some v \<Rightarrow> (items b)(?i \<mapsto> v))"
    using fold_op_merger [OF assms(1), of unmarshal zero tx idx op]
    by (auto simp: Let_def NewMemberEpochMerger_def)
  then show ?thesis
  proof cases
    case 3
    note s = serves_MergeItem [OF assms(2) 3(1)]
    show ?thesis unfolding serves_merged_def 3(2,3) s
      using merger_step_ok [OF ok] by (intro allI conjI impI) simp_all
  qed (use assms(2) in \<open>auto simp: serves_merged_def DropItem_def\<close>)
qed

lemma fold_op_Merger: "Merger (fst (fold_op unmarshal zero tx idx op b)) = Merger b"
  by (simp add: fold_op_def Let_def case_prod_beta split: option.split sum.split)

lemma fold_ops_serves:
  "Merger b = Some NewMemberEpochMerger \<Longrightarrow> serves_merged b \<Longrightarrow>
     serves_merged (fst (fold_ops unmarshal zero tx idx ops b))"
  by (induction ops arbitrary: idx b) (simp_all add: case_prod_beta Let_def fold_op_serves fold_op_Merger)

lemma OnNodeUpdate_serves:
  assumes "Merger b = Some NewMemberEpochMerger" "serves_merged b"
  shows "serves_merged (fst (OnNodeUpdate unmarshal zero u b)) \<and>
         Merger (fst (OnNodeUpdate unmarshal zero u b)) = Some NewMemberEpochMerger"
proof -
  have M: "Merger (fst (fold_ops unmarshal zero tx idx ops c)) = Merger c" for tx idx ops and c :: "('a member_epoch_scheme, 'a member_merger) fold_binding"
    by (induction ops arbitrary: idx c) (simp_all add: case_prod_beta Let_def fold_op_Merger)
  have s: "serves_merged (b\<lparr>revision := r\<rparr>)" "serves_merged (b\<lparr>revision := r, nodeID := n\<rparr>)" for r n
    using assms(2) by (simp_all add: serves_merged_def)
  show ?thesis
    using fold_ops_serves [OF _ s(1)] fold_ops_serves [OF _ s(2)] assms(1) s
    by (simp add: OnNodeUpdate_def Let_def case_prod_beta M)
qed

section \<open>Properties\<close>

text \<open>C6. A member owns its key: once its own record has set the signing key, no later sequence of
  records of anyone else, issuer restatements, snapshot re-emissions or forged edit identifiers,
  changes the key that is served for it.\<close>

theorem member_key_custody:
  assumes "isSelf a" "declaredKey (SigningKey (AI_Value a))" "ItemID (AI_Addr a) = i"
    and "signEdit (state_of m i) < EditID (AI_Addr a)" "IsSet (EditID (AI_Addr a))"
    and "\<forall>x \<in> set xs. ItemID (AI_Addr x) = i \<longrightarrow> \<not> isSelf x"
  shows "served_key (fold merger_step (a # xs) m) i = SigningKey (AI_Value a)"
proof -
  have "owned i (SigningKey (AI_Value a)) (EditID (AI_Addr a)) (merger_step a m)"
    using self_owns [OF assms(1,2)] assms(3-5) by simp
  from owned_served [OF fold_owned [OF this assms(6)]] show ?thesis by simp
qed

text \<open>Concrete records: \<open>toy_arrival from edit key status\<close> is authored by \<open>from\<close> about the
  member \<open>UID 1 3\<close>.\<close>

definition toy_arrival :: "uid \<Rightarrow> u64 \<Rightarrow> byte \<Rightarrow> u32 \<Rightarrow> member_epoch attr_item" where
  "toy_arrival from e k s =
     \<lparr>AI_Addr = \<lparr>NodeID = UID 1 1, AttrID = UID 1 2, ItemID = UID 1 3, EditID = UID 0 e\<rparr>,
      AI_Value = \<lparr>SigningKey = Some \<lparr>KR_KeyringID = nilUID, KR_Kit = nilUID, KR_Type = 0, KR_PubKey = [k]\<rparr>,
                  EncryptKey = None, ME_Status = s, ME_Epoch = None\<rparr>,
      AI_Deleted = False,
      AI_Tx = Some (TxNew\<lparr>TxEnvelope := SetTxID (UID 0 e) emptyEnvelope,
                          TxHeader := SetFromID from emptyHeader\<rparr>)\<rparr>"

abbreviation self_arrival :: "u64 \<Rightarrow> byte \<Rightarrow> u32 \<Rightarrow> member_epoch attr_item" where
  "self_arrival \<equiv> toy_arrival (UID 1 3)"

abbreviation issuer_arrival :: "u64 \<Rightarrow> byte \<Rightarrow> u32 \<Rightarrow> member_epoch attr_item" where
  "issuer_arrival \<equiv> toy_arrival (UID 1 4)"

theorem member_key_custody_witness:
  "served_key (fold merger_step [self_arrival 3 7 0, issuer_arrival 9 8 0] Map.empty) (UID 1 3)
     = Some \<lparr>KR_KeyringID = nilUID, KR_Kit = nilUID, KR_Type = 0, KR_PubKey = [7]\<rparr>"
proof -
  have "isSelf (self_arrival 3 7 0)" "declaredKey (SigningKey (AI_Value (self_arrival 3 7 0)))"
    "ItemID (AI_Addr (self_arrival 3 7 0)) = UID 1 3"
    "signEdit (state_of (Map.empty :: unit member_merger) (UID 1 3)) < EditID (AI_Addr (self_arrival 3 7 0))"
    "IsSet (EditID (AI_Addr (self_arrival 3 7 0)))"
    "\<forall>x \<in> set [issuer_arrival 9 8 0]. ItemID (AI_Addr x) = UID 1 3 \<longrightarrow> \<not> isSelf x"
    by code_simp+
  from member_key_custody [OF this] show ?thesis by (simp add: toy_arrival_def)
qed

text \<open>Redelivery is harmless: whatever part of a run of records arrives again, in any order,
  the merged state stays as it is, as the contract of an item merger asks.\<close>

theorem member_redelivery:
  assumes "set ys \<subseteq> set xs"
  shows "fold merger_step (xs @ ys) m = fold merger_step xs m"
  using member.represent_all [OF assms, of m] by simp

theorem member_redelivery_witness:
  "fold merger_step ([self_arrival 3 7 0, issuer_arrival 9 8 0] @ [self_arrival 3 7 0]) Map.empty
     = fold merger_step [self_arrival 3 7 0, issuer_arrival 9 8 0] Map.empty"
  by (rule member_redelivery) simp

text \<open>Under a binding the served cache is at every moment the projection of the merge state:
  every update preserves that an item is cached exactly when the merger knows the member, with
  the materialized record as its value.\<close>

theorem binding_serves_merged:
  assumes "Merger b = Some NewMemberEpochMerger" "serves_merged b"
  shows "serves_merged (receive unmarshal zero us b)"
proof -
  have "serves_merged (receive unmarshal zero us b) \<and> Merger (receive unmarshal zero us b) = Some NewMemberEpochMerger"
    using assms by (induction us arbitrary: b) (simp_all add: receive_def OnNodeUpdate_serves)
  then show ?thesis by blast
qed

text \<open>A binding for member records, and a codec in which a value is one byte, its signing key.\<close>

definition member_binding :: "(member_epoch, unit member_merger) fold_binding" where
  "member_binding = (NewFoldBinding Map.empty \<lparr>NameID = UID 1 2, Text = []\<rparr>)
     \<lparr>nodeID := UID 1 1, Merger := Some NewMemberEpochMerger\<rparr>"

definition member_decode :: "byte list \<Rightarrow> member_epoch outcome" where
  "member_decode b = Inr (AI_Value (issuer_arrival 0 (hd b) 0))"

abbreviation member_zero :: member_epoch where
  "member_zero \<equiv> AI_Value (issuer_arrival 0 0 0)"

theorem binding_serves_merged_witness:
  "serves_merged (receive member_decode member_zero [toy_update 5 0 7, toy_update 6 0 8] member_binding)"
  by (rule binding_serves_merged) (simp_all add: member_binding_def NewFoldBinding_def serves_merged_def)

text \<open>\<open>Clear\<close> forgets the cache but not the merger, so a cleared binding that receives the
  same record again does not serve it: the merger has absorbed it already.\<close>

theorem Clear_loses_merged_items:
  "GetItem (receive member_decode member_zero [toy_update 5 0 7] member_binding) (UID 1 3) \<noteq> None \<and>
   GetItem (receive member_decode member_zero [toy_update 5 0 7]
      (Clear (receive member_decode member_zero [toy_update 5 0 7] member_binding))) (UID 1 3) = None"
  by code_simp

text \<open>Replicas that receive the same two member records in different orders serve different
  signing keys, respectively a different status, for ever: the first record for a member
  bootstraps fields it does not own, and what it bootstraps is not judged by custody later.\<close>

theorem member_merge_diverges:
  "served_key (fold merger_step [issuer_arrival 5 1 0, self_arrival 3 2 0] Map.empty) (UID 1 3)
     \<noteq> served_key (fold merger_step [self_arrival 3 2 0, issuer_arrival 5 1 0] Map.empty) (UID 1 3)
   \<and> map_option ME_Status (Option.bind (fold merger_step [issuer_arrival 3 1 5, self_arrival 5 2 1] Map.empty (UID 1 3)) materialize)
       = Some 5
   \<and> map_option ME_Status (Option.bind (fold merger_step [self_arrival 5 2 1, issuer_arrival 3 1 5] Map.empty (UID 1 3)) materialize)
       = Some 1"
  by code_simp

end
