(* ===== verification/Base58.thy ===== *)
theory Base58
  imports Prelude
begin

text \<open>
  The base58btc encoder of \<open>amp/amp.support.rekey.go\<close>.  The digits of the run are little-endian
  and below 58, kept as natural numbers.
\<close>

section \<open>The encoder\<close>

definition base58btcAlphabet :: string where
  "base58btcAlphabet = ''123456789ABCDEFGHJKLMNPQRSTUVWXYZabcdefghijkmnopqrstuvwxyz''"

text \<open>The inner loops for one byte: add it to the digits scaled by 256, then append the rest of the
  carry.\<close>

fun b58_pass :: "nat \<Rightarrow> nat list \<Rightarrow> nat list \<times> nat" where
  "b58_pass carry [] = ([], carry)"
| "b58_pass carry (d # ds) =
     (let carry = carry + d * 256;
          (ds', carry') = b58_pass (carry div 58) ds
      in (carry mod 58 # ds', carry'))"

fun b58_flush :: "nat \<Rightarrow> nat list" where
  "b58_flush carry = (if carry > 0 then carry mod 58 # b58_flush (carry div 58) else [])"

declare b58_flush.simps [simp del]

definition b58_byte :: "nat list \<Rightarrow> byte \<Rightarrow> nat list" where
  "b58_byte digits inByte = (let (ds, carry) = b58_pass (unat inByte) digits in ds @ b58_flush carry)"

definition base58btcEncode :: "byte list \<Rightarrow> string" where
  "base58btcEncode raw =
     (let zeros = length (takeWhile (\<lambda>b. b = 0) raw);
          digits = foldl b58_byte [] (drop zeros raw)
      in replicate zeros (base58btcAlphabet ! 0) @ map (\<lambda>d. base58btcAlphabet ! d) (rev digits))"

section \<open>The value of the digits\<close>

definition b58_val :: "nat list \<Rightarrow> nat" where
  "b58_val ds = foldr (\<lambda>d v. d + 58 * v) ds 0"

lemma b58_val_simps [simp]: "b58_val [] = 0" "b58_val (d # ds) = d + 58 * b58_val ds"
  by (simp_all add: b58_val_def)

lemma b58_val_append: "b58_val (xs @ ys) = b58_val xs + 58 ^ length xs * b58_val ys"
  by (induction xs) (simp_all add: algebra_simps)

text \<open>Canonical digits: below 58, the most significant one not 0.\<close>

definition b58_canonical :: "nat list \<Rightarrow> bool" where
  "b58_canonical ds \<longleftrightarrow> list_all (\<lambda>d. d < 58) ds \<and> (ds = [] \<or> last ds \<noteq> 0)"

lemma b58_pass_val:
  "b58_val (fst (b58_pass c ds)) + 58 ^ length ds * snd (b58_pass c ds) = c + 256 * b58_val ds \<and>
   length (fst (b58_pass c ds)) = length ds \<and> list_all (\<lambda>d. d < 58) (fst (b58_pass c ds))"
proof (induction ds arbitrary: c)
  case (Cons d ds)
  let ?c = "c + d * 256"
  let ?r = "b58_pass (?c div 58) ds"
  have m: "?c mod 58 + 58 * (?c div 58) = ?c" by simp
  have "b58_val (fst ?r) + 58 ^ length ds * snd ?r = ?c div 58 + 256 * b58_val ds" using Cons.IH by blast
  then have "?c mod 58 + (58 * b58_val (fst ?r) + 58 * (58 ^ length ds * snd ?r))
      = ?c mod 58 + 58 * (?c div 58 + 256 * b58_val ds)" by (metis add_mult_distrib2)
  then have "?c mod 58 + 58 * b58_val (fst ?r) + 58 * 58 ^ length ds * snd ?r = c + 256 * (d + 58 * b58_val ds)"
    using m by (simp add: add_mult_distrib2)
  then show ?case using Cons.IH [of "?c div 58"] by (simp add: case_prod_beta Let_def)
qed simp

lemma b58_flush_val: "b58_val (b58_flush c) = c \<and> list_all (\<lambda>d. d < 58) (b58_flush c)"
proof (induction c rule: b58_flush.induct)
  case (1 c)
  then show ?case by (cases "c > 0") (simp_all add: b58_flush.simps [of c] b58_flush.simps [of 0])
qed

lemma b58_flush_last: "b58_flush c \<noteq> [] \<Longrightarrow> last (b58_flush c) \<noteq> 0"
proof (induction c rule: b58_flush.induct)
  case (1 c)
  then have c: "c > 0" by (auto simp: b58_flush.simps [of c] split: if_splits)
  show ?case
  proof (cases "b58_flush (c div 58) = []")
    case True
    then have "c div 58 = 0" using b58_flush_val [of "c div 58"] by simp
    then show ?thesis using c True by (simp add: b58_flush.simps [of c] div_eq_0_iff)
  next
    case False
    then show ?thesis using 1(1) [OF c] c by (simp add: b58_flush.simps [of c])
  qed
qed

lemma b58_last_pass:
  "ds \<noteq> [] \<Longrightarrow> last ds \<noteq> 0 \<Longrightarrow> snd (b58_pass c ds) = 0 \<Longrightarrow> last (fst (b58_pass c ds)) \<noteq> 0"
proof (induction ds arbitrary: c)
  case (Cons d ds)
  show ?case
  proof (cases "ds = []")
    case True
    then have "(c + d * 256) div 58 = 0" "0 < d" using Cons.prems by (simp_all add: Let_def)
    then show ?thesis using True by (simp add: div_eq_0_iff)
  next
    case False
    then have "fst (b58_pass ((c + d * 256) div 58) ds) \<noteq> []"
      using b58_pass_val [of "(c + d * 256) div 58" ds] by (metis length_0_conv)
    then show ?thesis using Cons False by (simp add: case_prod_beta Let_def)
  qed
qed simp

lemma b58_byte_ok:
  assumes "b58_canonical ds" "ds \<noteq> [] \<or> b \<noteq> 0"
  shows "b58_val (b58_byte ds b) = b58_val ds * 256 + unat b \<and> b58_canonical (b58_byte ds b) \<and> b58_byte ds b \<noteq> []"
proof -
  let ?p = "b58_pass (unat b) ds"
  note p = b58_pass_val [of "unat b" ds]
  have e: "b58_byte ds b = fst ?p @ b58_flush (snd ?p)" by (simp add: b58_byte_def case_prod_beta Let_def)
  have v: "b58_val (b58_byte ds b) = b58_val ds * 256 + unat b"
    using p b58_flush_val [of "snd ?p"] by (simp add: e b58_val_append)
  have n: "b58_byte ds b \<noteq> []"
  proof (cases "ds = []")
    case True
    then have "0 < unat b" using assms(2) by (simp add: unat_gt_0)
    then show ?thesis unfolding e using True by (simp add: b58_flush.simps [of "unat b"])
  next
    case False
    then show ?thesis using p by (metis append_is_Nil_conv e length_0_conv)
  qed
  have "last (b58_byte ds b) \<noteq> 0"
  proof (cases "snd ?p = 0")
    case True
    then have "b58_flush (snd ?p) = []" by (simp add: b58_flush.simps [of 0])
    then have f: "b58_byte ds b = fst ?p" by (simp add: e)
    then have "ds \<noteq> []" using n p by (metis length_0_conv)
    then show ?thesis using b58_last_pass [OF _ _ True] assms(1) by (simp add: f b58_canonical_def)
  next
    case False
    then have "b58_flush (snd ?p) \<noteq> []" by (simp add: b58_flush.simps [of "snd ?p"])
    then show ?thesis using b58_flush_last [of "snd ?p"] by (simp add: e)
  qed
  then show ?thesis using v n p b58_flush_val [of "snd ?p"] by (simp add: b58_canonical_def e)
qed

lemma b58_fold_ok:
  "b58_canonical ds \<Longrightarrow> ds \<noteq> [] \<Longrightarrow>
     b58_val (foldl b58_byte ds bs) = b58_val ds * 256 ^ length bs + be_val bs \<and>
     b58_canonical (foldl b58_byte ds bs) \<and> foldl b58_byte ds bs \<noteq> []"
proof (induction bs arbitrary: ds)
  case (Cons b bs)
  show ?case
    using b58_byte_ok [of ds b] Cons.IH [of "b58_byte ds b"] Cons.prems
    by (simp add: be_val_Cons algebra_simps)
qed simp

lemma b58_digits:
  assumes "bs = [] \<or> hd bs \<noteq> 0"
  shows "b58_val (foldl b58_byte [] bs) = be_val bs \<and> b58_canonical (foldl b58_byte [] bs) \<and>
         (foldl b58_byte [] bs = [] \<longleftrightarrow> bs = [])"
proof (cases bs)
  case Nil
  then show ?thesis by (simp add: b58_canonical_def)
next
  case (Cons b bs')
  then have "b58_canonical []" "b \<noteq> 0" using assms by (simp_all add: b58_canonical_def)
  note h = b58_byte_ok [OF this(1), of b]
  show ?thesis using h b58_fold_ok [of "b58_byte [] b" bs'] \<open>b \<noteq> 0\<close> Cons
    by (simp add: be_val_Cons)
qed

lemma b58_canonical_inject:
  "b58_canonical xs \<Longrightarrow> b58_canonical ys \<Longrightarrow> b58_val xs = b58_val ys \<Longrightarrow> xs = ys"
proof (induction xs arbitrary: ys)
  have pos: "0 < b58_val ds" if "b58_canonical ds" "ds \<noteq> []" for ds
    using that by (induction ds) (auto simp: b58_canonical_def split: if_splits)
  {
    case Nil
    then show ?case using pos [of ys] by (cases "ys = []") auto
  next
    case (Cons x xs)
    then obtain y zs where ys: "ys = y # zs" using pos [of "x # xs"] by (cases ys) auto
    have xy: "x < 58" "y < 58" using Cons.prems(1,2) by (simp_all add: b58_canonical_def ys)
    have eq: "x + 58 * b58_val xs = y + 58 * b58_val zs" using Cons.prems(3) ys by simp
    have "(x + 58 * b58_val xs) mod 58 = x" "(y + 58 * b58_val zs) mod 58 = y" using xy by simp_all
    then have "x = y" using eq by simp
    moreover have "xs = zs"
    proof (rule Cons.IH)
      show "b58_canonical xs" "b58_canonical zs"
        using Cons.prems(1,2) by (auto simp: b58_canonical_def ys split: if_splits)
      show "b58_val xs = b58_val zs" using eq \<open>x = y\<close> by simp
    qed
    ultimately show ?case by (simp add: ys)
  }
qed

section \<open>Properties\<close>

lemma alphabet_inject: "i < 58 \<Longrightarrow> j < 58 \<Longrightarrow> base58btcAlphabet ! i = base58btcAlphabet ! j \<Longrightarrow> i = j"
proof -
  have "distinct base58btcAlphabet" "length base58btcAlphabet = 58" by code_simp+
  then show "i < 58 \<Longrightarrow> j < 58 \<Longrightarrow> base58btcAlphabet ! i = base58btcAlphabet ! j \<Longrightarrow> i = j"
    by (simp add: nth_eq_iff_index_eq)
qed

definition b58_parts :: "byte list \<Rightarrow> nat \<times> nat list" where
  "b58_parts raw = (length (takeWhile (\<lambda>b. b = 0) raw), rev (foldl b58_byte [] (dropWhile (\<lambda>b. b = 0) raw)))"

lemma encode_parts:
  "base58btcEncode raw =
     map (\<lambda>d. base58btcAlphabet ! d) (replicate (fst (b58_parts raw)) 0 @ snd (b58_parts raw))"
  by (simp add: base58btcEncode_def b58_parts_def Let_def dropWhile_eq_drop)

lemma hd_dropWhile_0: "dropWhile (\<lambda>b. b = 0) raw = [] \<or> hd (dropWhile (\<lambda>b. b = 0) raw) \<noteq> (0 :: byte)"
  by (metis (mono_tags) hd_dropWhile)

lemma parts_ok:
  "b58_val (rev (snd (b58_parts raw))) = be_val (dropWhile (\<lambda>b. b = 0) raw) \<and>
   b58_canonical (rev (snd (b58_parts raw))) \<and>
   (snd (b58_parts raw) = [] \<or> hd (snd (b58_parts raw)) \<noteq> 0)"
  using b58_digits [OF hd_dropWhile_0 [of raw]]
  by (auto simp: b58_parts_def b58_canonical_def hd_rev)

lemma takeWhile_zeros: "takeWhile (\<lambda>b. b = 0) raw = replicate (length (takeWhile (\<lambda>b. b = 0) raw)) (0 :: byte)"
  by (metis (full_types) replicate_length_same set_takeWhileD)

lemma be_val_inject_nz:
  assumes "xs = [] \<or> hd xs \<noteq> 0" "ys = [] \<or> hd ys \<noteq> 0" "be_val xs = be_val ys"
  shows "xs = ys"
proof -
  have "length us = length vs" if "us = [] \<or> hd us \<noteq> 0" "vs = [] \<or> hd vs \<noteq> 0" "be_val us = be_val vs"
    and le: "length us \<le> length vs" for us vs :: "byte list"
  proof (rule ccontr)
    assume "length us \<noteq> length vs"
    then have lt: "length us < length vs" using le by simp
    then obtain v vs' where v: "vs = v # vs'" by (cases vs) auto
    then have "0 < unat v" using that(2) by (simp add: unat_gt_0)
    then have "256 ^ length vs' \<le> be_val vs" by (simp add: v be_val_Cons trans_le_add1)
    moreover have "be_val us < 256 ^ length us" by (rule be_val_bound)
    moreover have "(256 :: nat) ^ length us \<le> 256 ^ length vs'" using lt v by (intro power_increasing) auto
    ultimately show False using that(3) by linarith
  qed
  then have "length xs = length ys" using assms by (metis nat_le_linear)
  then show ?thesis using assms(3) by (metis be_bytes_be_val)
qed

lemma zeros_split:
  "replicate n 0 @ xs = replicate m 0 @ ys \<Longrightarrow> xs = [] \<or> hd xs \<noteq> 0 \<Longrightarrow> ys = [] \<or> hd ys \<noteq> (0 :: nat) \<Longrightarrow>
     n = m \<and> xs = ys"
proof (induction n arbitrary: m)
  case 0
  then show ?case by (cases m) auto
next
  case (Suc n)
  then show ?case by (cases m) auto
qed

lemma encode_inject: "base58btcEncode x = base58btcEncode y \<Longrightarrow> x = y"
proof -
  assume eq: "base58btcEncode x = base58btcEncode y"
  let ?d = "\<lambda>r. replicate (fst (b58_parts r)) 0 @ snd (b58_parts r)"
  have small: "\<forall>d \<in> set (?d r). d < 58" for r
    using parts_ok [of r] by (auto simp: b58_canonical_def list_all_iff)
  have "?d x = ?d y"
  proof (rule map_inj_on)
    show "inj_on (\<lambda>d. base58btcAlphabet ! d) (set (?d x) \<union> set (?d y))"
      using small by (intro inj_onI alphabet_inject) blast+
    show "map (\<lambda>d. base58btcAlphabet ! d) (?d x) = map (\<lambda>d. base58btcAlphabet ! d) (?d y)"
      using eq by (simp only: encode_parts)
  qed
  then have "fst (b58_parts x) = fst (b58_parts y)" "snd (b58_parts x) = snd (b58_parts y)"
    using zeros_split [of "fst (b58_parts x)" "snd (b58_parts x)" "fst (b58_parts y)" "snd (b58_parts y)"]
      parts_ok [of x] parts_ok [of y] by blast+
  then have "takeWhile (\<lambda>b. b = 0) x = takeWhile (\<lambda>b. b = 0) y"
    "dropWhile (\<lambda>b. b = 0) x = dropWhile (\<lambda>b. b = 0) y"
    using takeWhile_zeros [of x] takeWhile_zeros [of y] parts_ok [of x] parts_ok [of y]
      be_val_inject_nz [OF hd_dropWhile_0 hd_dropWhile_0, of x y]
    by (simp_all add: b58_parts_def)
  then show "x = y" by (metis takeWhile_dropWhile_id)
qed

text \<open>The base58 text of a key is exact: its digits are below 58, they spell the big-endian
  value of the bytes after as many leading ones as there are zero bytes, and two byte strings never
  share a text.\<close>

theorem base58_exact:
  "\<exists>zeros digits. base58btcEncode x = map (\<lambda>d. base58btcAlphabet ! d) (replicate zeros 0 @ digits) \<and>
     list_all (\<lambda>d. d < 58) digits \<and> b58_val (rev digits) = be_val x \<and> zeros = length (takeWhile (\<lambda>b. b = 0) x)
   \<and> (base58btcEncode x = base58btcEncode y \<longleftrightarrow> x = y)"
proof (intro exI conjI)
  show "base58btcEncode x = map (\<lambda>d. base58btcAlphabet ! d) (replicate (fst (b58_parts x)) 0 @ snd (b58_parts x))"
    by (rule encode_parts)
  show "list_all (\<lambda>d. d < 58) (snd (b58_parts x))"
    using parts_ok [of x] by (simp add: b58_canonical_def)
  have "be_val (replicate n 0 @ z) = be_val z" for n and z :: "byte list"
    by (induction n) (simp_all add: be_val_Cons)
  then have "be_val x = be_val (dropWhile (\<lambda>b. b = 0) x)"
    by (metis takeWhile_dropWhile_id takeWhile_zeros)
  then show "b58_val (rev (snd (b58_parts x))) = be_val x" using parts_ok [of x] by simp
  show "fst (b58_parts x) = length (takeWhile (\<lambda>b. b = 0) x)" by (simp add: b58_parts_def)
  show "base58btcEncode x = base58btcEncode y \<longleftrightarrow> x = y" using encode_inject by blast
qed

end
