(* ===== verification/Quorum.thy ===== *)
theory Quorum
  imports Epoch MemberMerge Base58
begin

text \<open>
  Quorum-authorized re-issue of a member's keys (\<open>amp/amp.support.rekey.go\<close>): the shared quorum
  check, the digest of a re-key record and its verification, and the did:key fold.  The signature
  kits (\<open>verifySignature\<close>), the hash kits (\<open>newHash\<close>) and blake2s (\<open>H\<close>) are parameters.
  A Go map is the list of its entries, whose keys are distinct.
\<close>

section \<open>The quorum check\<close>

type_synonym verifier = "uid \<Rightarrow> byte list \<Rightarrow> byte list \<Rightarrow> byte list \<Rightarrow> unit outcome"

fun quorum_loop ::
  "verifier \<Rightarrow> byte list \<Rightarrow> (uid \<times> pub_key) list \<Rightarrow> uid list \<Rightarrow> co_signature option list \<Rightarrow> uid list outcome" where
  "quorum_loop verifySignature digest signerKeys verified [] = Inr verified"
| "quorum_loop verifySignature digest signerKeys verified (cosig # rest) =
     (case cosig of
        None \<Rightarrow> quorum_loop verifySignature digest signerKeys verified rest
      | Some c \<Rightarrow>
          if MemberTag c = None then quorum_loop verifySignature digest signerKeys verified rest
          else let signerID = Tag_UID (MemberTag c)
               in case map_of signerKeys signerID of
                    None \<Rightarrow> Inl BadRequest
                  | Some key \<Rightarrow>
                      if signerID \<in> set verified then quorum_loop verifySignature digest signerKeys verified rest
                      else if Signature c = [] then Inl BadRequest
                      else case verifySignature (PubKitID key) (Signature c) digest (PubBytes key) of
                             Inl _ \<Rightarrow> Inl AuthFailed
                           | Inr _ \<Rightarrow> quorum_loop verifySignature digest signerKeys (verified @ [signerID]) rest)"

definition quorum_required :: "int \<Rightarrow> nat \<Rightarrow> int" where
  "quorum_required required signers =
     (let r = (if required \<le> 0 then int signers else required) in if r < 1 then 1 else r)"

definition VerifyCoSignatureQuorum ::
  "verifier \<Rightarrow> co_signature option list \<Rightarrow> byte list \<Rightarrow> (uid \<times> pub_key) list \<Rightarrow> int \<Rightarrow> uid list outcome" where
  "VerifyCoSignatureQuorum verifySignature signatures digest signerKeys required =
     and_then (quorum_loop verifySignature digest signerKeys [] signatures) (\<lambda>verified.
     if int (length verified) < quorum_required required (length signerKeys) then Inl AuthFailed
     else Inr verified)"

section \<open>Re-key records\<close>

record rekey_epoch = member_epoch +
  ME_MemberTag :: "uid option"
  ReKey :: "co_signature option list"
  ReKeyPrior :: "key_ref option"

definition MemberStatus_Active :: u32 where "MemberStatus_Active = 0"

definition reKeyFramePart :: "key_ref option \<Rightarrow> byte list outcome" where
  "reKeyFramePart ref =
     (case ref of
        None \<Rightarrow> Inl BadRequest
      | Some k \<Rightarrow> if KR_PubKey k = [] then Inl BadRequest
                  else Inr (UID_AppendTo (KR_Kit k) [] @ KR_PubKey k))"

definition ReKeyCoSignatureDigest :: "hash_kits \<Rightarrow> rekey_epoch option \<Rightarrow> uid \<Rightarrow> u32 \<Rightarrow> byte list outcome" where
  "ReKeyCoSignatureDigest newHash me planetID hashKit =
     (case me of
        None \<Rightarrow> Inl BadRequest
      | Some m \<Rightarrow>
          if ME_MemberTag m = None \<or> IsNil (Tag_UID (ME_MemberTag m)) then Inl BadRequest
          else if IsNil planetID then Inl BadRequest
          else and_then (reKeyFramePart (ReKeyPrior m)) (\<lambda>prior.
               and_then (reKeyFramePart (SigningKey m)) (\<lambda>newSigning.
               and_then (reKeyFramePart (EncryptKey m)) (\<lambda>newEncrypt.
               SigningDigest newHash hashKit SigningDomain_MemberReKey
                 [UID_AppendTo planetID [], UID_AppendTo (Tag_UID (ME_MemberTag m)) [], prior, newSigning, newEncrypt]))))"

section \<open>The did:key fold\<close>

definition Poly25519_ID :: uid where "Poly25519_ID = UID 0x629134B84734DA6F 0xCC870AD1BB12E1E6"
definition multicodecEd25519Pub :: u64 where "multicodecEd25519Pub = 0xED"

definition DIDKeyUID :: "(byte list \<Rightarrow> byte list) \<Rightarrow> uid \<Rightarrow> byte list \<Rightarrow> uid \<times> bool" where
  "DIDKeyUID H kit pubKey =
     (if kit \<noteq> Poly25519_ID \<or> length pubKey \<noteq> 32 then (nilUID, False)
      else let payload = put_uvarint multicodecEd25519Pub @ pubKey;
               uri = ''did:key:z'' @ base58btcEncode payload
           in (NameID (HashName H uri), True))"

definition VerifyReKeyQuorum ::
  "(byte list \<Rightarrow> byte list) \<Rightarrow> hash_kits \<Rightarrow> verifier \<Rightarrow> rekey_epoch option \<Rightarrow> uid \<Rightarrow> u32
     \<Rightarrow> (uid \<times> pub_key) list \<Rightarrow> int \<Rightarrow> uid list outcome" where
  "VerifyReKeyQuorum H newHash verifySignature me planetID hashKit founderKeys required =
     (case me of
        None \<Rightarrow> Inl BadRequest
      | Some m \<Rightarrow>
          if ReKey m = [] then Inl BadRequest
          else if ME_Status m \<noteq> MemberStatus_Active then Inl BadRequest
          else if (case (ME_MemberTag m, ReKeyPrior m) of
                     (Some t, Some prior) \<Rightarrow>
                       (let (foldID, ok) = DIDKeyUID H (KR_Kit prior) (KR_PubKey prior)
                        in ok \<and> foldID = Tag_UID (ME_MemberTag m))
                   | _ \<Rightarrow> False)
               then Inl AuthFailed
          else and_then (ReKeyCoSignatureDigest newHash me planetID hashKit) (\<lambda>digest.
               VerifyCoSignatureQuorum verifySignature (ReKey m) digest founderKeys required))"

section \<open>What the quorum check guarantees\<close>

text \<open>A valid co-signature of a signer over a digest.\<close>

definition signed_by ::
  "verifier \<Rightarrow> byte list \<Rightarrow> (uid \<times> pub_key) list \<Rightarrow> co_signature option list \<Rightarrow> uid \<Rightarrow> bool" where
  "signed_by verifySignature digest signerKeys signatures signer \<longleftrightarrow>
     (\<exists>c key. Some c \<in> set signatures \<and> MemberTag c = Some signer \<and> map_of signerKeys signer = Some key \<and>
              Signature c \<noteq> [] \<and> verifySignature (PubKitID key) (Signature c) digest (PubBytes key) = Inr ())"

lemma signed_by_mono: "signed_by v d ks sigs s \<Longrightarrow> set sigs \<subseteq> set sigs' \<Longrightarrow> signed_by v d ks sigs' s"
  by (auto simp: signed_by_def)

lemma quorum_loop_sound:
  "quorum_loop v d ks acc sigs = Inr ids \<Longrightarrow> distinct acc \<Longrightarrow>
     distinct ids \<and> set acc \<subseteq> set ids \<and> (\<forall>i \<in> set ids - set acc. signed_by v d ks sigs i)"
proof (induction sigs arbitrary: acc)
  case (Cons cosig sigs)
  have sub: "set sigs \<subseteq> set (cosig # sigs)" by auto
  have up: "signed_by v d ks sigs i \<Longrightarrow> signed_by v d ks (cosig # sigs) i" for i
    by (rule signed_by_mono [OF _ sub])
  show ?case
  proof (cases "quorum_loop v d ks acc sigs = Inr ids")
    case True
    then show ?thesis using Cons.IH [OF True Cons.prems(2)] up by blast
  next
    case False
    then obtain c key where c: "cosig = Some c" "MemberTag c \<noteq> None"
      "map_of ks (Tag_UID (MemberTag c)) = Some key" "Tag_UID (MemberTag c) \<notin> set acc" "Signature c \<noteq> []"
      "v (PubKitID key) (Signature c) d (PubBytes key) = Inr ()"
      "quorum_loop v d ks (acc @ [Tag_UID (MemberTag c)]) sigs = Inr ids"
      using Cons.prems(1) by (auto simp: Let_def split: option.splits if_splits sum.splits)
    let ?s = "Tag_UID (MemberTag c)"
    have "signed_by v d ks (cosig # sigs) ?s"
      using c by (auto simp: signed_by_def Tag_UID_def)
    then show ?thesis using Cons.IH [OF c(7)] Cons.prems(2) c(4) up by auto
  qed
qed simp

lemma quorum_sound:
  assumes "VerifyCoSignatureQuorum v sigs d ks required = Inr ids"
  shows "distinct ids \<and> (\<forall>i \<in> set ids. signed_by v d ks sigs i) \<and> 1 \<le> length ids \<and>
         (0 < required \<longrightarrow> required \<le> int (length ids)) \<and> (required \<le> 0 \<longrightarrow> length ks \<le> length ids)"
proof -
  have l: "quorum_loop v d ks [] sigs = Inr ids" "\<not> int (length ids) < quorum_required required (length ks)"
    using assms by (auto simp: VerifyCoSignatureQuorum_def and_then_eq_Inr split: if_splits)
  show ?thesis using quorum_loop_sound [OF l(1)] l(2)
    by (auto simp: quorum_required_def Let_def Suc_le_eq split: if_splits)
qed

text \<open>Completeness of the loop: with valid co-signatures only it collects every signer once.\<close>

lemma quorum_loop_complete:
  "(\<forall>c. Some c \<in> set sigs \<longrightarrow> MemberTag c \<noteq> None \<longrightarrow>
      (\<exists>key. map_of ks (Tag_UID (MemberTag c)) = Some key \<and> Signature c \<noteq> [] \<and>
             v (PubKitID key) (Signature c) d (PubBytes key) = Inr ())) \<Longrightarrow>
     \<exists>ids. quorum_loop v d ks acc sigs = Inr ids \<and>
       set ids = set acc \<union> {Tag_UID (MemberTag c) |c. Some c \<in> set sigs \<and> MemberTag c \<noteq> None}"
proof (induction sigs arbitrary: acc)
  case (Cons cosig sigs)
  have p: "\<forall>c. Some c \<in> set sigs \<longrightarrow> MemberTag c \<noteq> None \<longrightarrow>
      (\<exists>key. map_of ks (Tag_UID (MemberTag c)) = Some key \<and> Signature c \<noteq> [] \<and>
             v (PubKitID key) (Signature c) d (PubBytes key) = Inr ())"
    using Cons.prems by simp
  show ?case
  proof (cases "\<exists>c. cosig = Some c \<and> MemberTag c \<noteq> None")
    case False
    then have "quorum_loop v d ks acc (cosig # sigs) = quorum_loop v d ks acc sigs"
      by (cases cosig) auto
    moreover have "{Tag_UID (MemberTag c) |c. Some c \<in> set (cosig # sigs) \<and> MemberTag c \<noteq> None}
        = {Tag_UID (MemberTag c) |c. Some c \<in> set sigs \<and> MemberTag c \<noteq> None}" using False by auto
    ultimately show ?thesis using Cons.IH [OF p, of acc] by simp
  next
    case True
    then obtain c where c: "cosig = Some c" "MemberTag c \<noteq> None" by blast
    let ?s = "Tag_UID (MemberTag c)"
    obtain key where k: "map_of ks ?s = Some key" "Signature c \<noteq> []"
        "v (PubKitID key) (Signature c) d (PubBytes key) = Inr ()"
      using Cons.prems c by auto
    have st: "quorum_loop v d ks acc (cosig # sigs)
        = quorum_loop v d ks (if ?s \<in> set acc then acc else acc @ [?s]) sigs"
      using c k by (auto simp: Let_def)
    have "{Tag_UID (MemberTag c) |c. Some c \<in> set (cosig # sigs) \<and> MemberTag c \<noteq> None}
        = insert ?s {Tag_UID (MemberTag c) |c. Some c \<in> set sigs \<and> MemberTag c \<noteq> None}" using c by auto
    then show ?thesis using Cons.IH [OF p, of "if ?s \<in> set acc then acc else acc @ [?s]"]
      unfolding st by (auto simp: insert_absorb)
  qed
qed simp

lemma reKeyFramePart_inject:
  "reKeyFramePart r = Inr x \<Longrightarrow> reKeyFramePart s = Inr x \<Longrightarrow>
     map_option (\<lambda>k. (KR_Kit k, KR_PubKey k)) r = map_option (\<lambda>k. (KR_Kit k, KR_PubKey k)) s"
  by (auto simp: reKeyFramePart_def UID_AppendTo_id id_bytes_inject split: option.splits if_splits)

lemma reKeyFramePart_length: "reKeyFramePart r = Inr x \<Longrightarrow> length x = 16 + length (case r of None \<Rightarrow> [] | Some k \<Rightarrow> KR_PubKey k)"
  by (auto simp: reKeyFramePart_def UID_AppendTo_id split: option.splits if_splits)

lemma ReKeyDigestD:
  assumes "ReKeyCoSignatureDigest newHash (Some m) planet kit = Inr dig" "newHash kit = Inr H"
  obtains f p s e where "SigningParts SigningDomain_MemberReKey
      [id_bytes planet, id_bytes (Tag_UID (ME_MemberTag m)), p, s, e] = Inr f"
    "dig = H (concat f)" "reKeyFramePart (ReKeyPrior m) = Inr p" "reKeyFramePart (SigningKey m) = Inr s"
    "reKeyFramePart (EncryptKey m) = Inr e"
  using assms
  by (auto simp: ReKeyCoSignatureDigest_def SigningDigest_def and_then_eq_Inr UID_AppendTo_id split: if_splits)

section \<open>Properties\<close>

text \<open>C10. A quorum cannot be manufactured: the accepted signers are distinct declared signers, each
  with a co-signature in the record that verified over the digest under its own key, at least one,
  at least as many as required, and all declared signers when no threshold is given.\<close>

theorem quorum_distinct_signers:
  assumes "distinct (map fst signerKeys)"
    and "VerifyCoSignatureQuorum v signatures digest signerKeys required = Inr ids"
  shows "distinct ids \<and> set ids \<subseteq> fst ` set signerKeys \<and> 1 \<le> length ids \<and>
    (\<forall>i \<in> set ids. signed_by v digest signerKeys signatures i) \<and>
    (0 < required \<longrightarrow> required \<le> int (length ids)) \<and>
    (required \<le> 0 \<longrightarrow> set ids = fst ` set signerKeys)"
proof -
  note q = quorum_sound [OF assms(2)]
  have sub: "set ids \<subseteq> fst ` set signerKeys"
  proof
    fix i assume "i \<in> set ids"
    then obtain key where "map_of signerKeys i = Some key" using q by (auto simp: signed_by_def)
    then show "i \<in> fst ` set signerKeys" using map_of_SomeD by force
  qed
  have "set ids = fst ` set signerKeys" if "required \<le> 0"
  proof (rule card_subset_eq [OF _ sub])
    have "card (fst ` set signerKeys) \<le> card (set ids)"
      using q that card_image_le [of "set signerKeys" fst] card_length [of signerKeys] distinct_card [of ids] by force
    moreover have "card (set ids) \<le> card (fst ` set signerKeys)" by (rule card_mono [OF _ sub]) simp
    ultimately show "card (set ids) = card (fst ` set signerKeys)" by simp
  qed simp
  then show ?thesis using q sub by blast
qed

definition toy_verifier :: verifier where
  "toy_verifier kit sig digest pub = (if sig = pub @ digest then Inr () else Inl AuthFailed)"

definition toy_founders :: "(uid \<times> pub_key) list" where
  "toy_founders = [(UID 0 1, \<lparr>PubKitID = nilUID, PubBytes = [1]\<rparr>), (UID 0 2, \<lparr>PubKitID = nilUID, PubBytes = [2]\<rparr>)]"

definition toy_cosig :: "u64 \<Rightarrow> byte list \<Rightarrow> co_signature option" where
  "toy_cosig i sig = Some \<lparr>MemberTag = Some (UID 0 i), Signature = sig\<rparr>"

lemma toy_quorum:
  "VerifyCoSignatureQuorum toy_verifier [toy_cosig 1 [1, 7], toy_cosig 2 [2, 7]] [7] toy_founders 0 = Inr [UID 0 1, UID 0 2]"
  "VerifyCoSignatureQuorum toy_verifier [toy_cosig 1 [1, 7], toy_cosig 1 [1, 7]] [7] toy_founders 0 = Inl AuthFailed"
  "distinct (map fst toy_founders)"
  by (simp_all add: VerifyCoSignatureQuorum_def toy_cosig_def Tag_UID_def toy_founders_def toy_verifier_def
      quorum_required_def)

theorem quorum_distinct_signers_witness:
  "distinct [UID 0 1, UID 0 2] \<and> set [UID 0 1, UID 0 2] = fst ` set toy_founders \<and>
   VerifyCoSignatureQuorum toy_verifier [toy_cosig 1 [1, 7], toy_cosig 1 [1, 7]] [7] toy_founders 0 = Inl AuthFailed"
proof (intro conjI)
  note q = quorum_distinct_signers [OF toy_quorum(3,1)]
  show "distinct [UID 0 1, UID 0 2]" by (rule q [THEN conjunct1])
  have "(0 :: int) \<le> 0 \<longrightarrow> set [UID 0 1, UID 0 2] = fst ` set toy_founders" using q by blast
  then show "set [UID 0 1, UID 0 2] = fst ` set toy_founders" by blast
qed (rule toy_quorum(2))

text \<open>Honest co-signatures are enough: when every tagged co-signature names a declared signer
  and verifies, the check succeeds exactly when the number of different signers reaches the
  threshold, whatever the order and the repetitions.\<close>

theorem quorum_complete:
  assumes "\<forall>c. Some c \<in> set signatures \<longrightarrow> MemberTag c \<noteq> None \<longrightarrow>
      (\<exists>key. map_of signerKeys (Tag_UID (MemberTag c)) = Some key \<and> Signature c \<noteq> [] \<and>
             v (PubKitID key) (Signature c) digest (PubBytes key) = Inr ())"
  shows "(\<exists>ids. VerifyCoSignatureQuorum v signatures digest signerKeys required = Inr ids) \<longleftrightarrow>
    quorum_required required (length signerKeys)
      \<le> int (card {Tag_UID (MemberTag c) |c. Some c \<in> set signatures \<and> MemberTag c \<noteq> None})"
proof -
  obtain ids where ids: "quorum_loop v digest signerKeys [] signatures = Inr ids"
      "set ids = {Tag_UID (MemberTag c) |c. Some c \<in> set signatures \<and> MemberTag c \<noteq> None}"
    using quorum_loop_complete [of signatures signerKeys v digest "[]", OF assms] by auto
  have "length ids = card (set ids)" using quorum_loop_sound [OF ids(1)] distinct_card by force
  then show ?thesis unfolding ids(2) [symmetric]
    by (auto simp: VerifyCoSignatureQuorum_def ids(1) not_less)
qed

theorem quorum_complete_witness:
  "\<exists>ids. VerifyCoSignatureQuorum toy_verifier [toy_cosig 2 [2, 7], toy_cosig 2 [2, 7]] [7] toy_founders 1 = Inr ids"
proof -
  let ?s = "[toy_cosig 2 [2, 7], toy_cosig 2 [2, 7]]"
  have s: "{Tag_UID (MemberTag c) |c. Some c \<in> set ?s \<and> MemberTag c \<noteq> None} = {UID 0 2}"
    by (auto simp: toy_cosig_def Tag_UID_def)
  have q: "quorum_required 1 (length toy_founders) = 1" by (simp add: quorum_required_def)
  have v: "\<forall>c. Some c \<in> set ?s \<longrightarrow> MemberTag c \<noteq> None \<longrightarrow>
      (\<exists>key. map_of toy_founders (Tag_UID (MemberTag c)) = Some key \<and> Signature c \<noteq> [] \<and>
             toy_verifier (PubKitID key) (Signature c) [7] (PubBytes key) = Inr ())"
    by (auto simp: toy_cosig_def toy_founders_def toy_verifier_def Tag_UID_def)
  show ?thesis using quorum_complete [of ?s toy_founders toy_verifier "[7]" 1, OF v] unfolding s q by simp
qed

text \<open>A re-key co-signature cannot be moved: under a hash without collisions two records have
  the same digest only when they name the same planet and member and the same retired, signing and
  encryption keys, kit and bytes.\<close>

theorem ReKey_digest_binds:
  assumes "newHash kit = Inr H" "inj H"
    and "ReKeyCoSignatureDigest newHash (Some m) planet kit = Inr dig"
    and "ReKeyCoSignatureDigest newHash (Some m') planet' kit = Inr dig"
  shows "planet = planet' \<and> Tag_UID (ME_MemberTag m) = Tag_UID (ME_MemberTag m') \<and>
    map_option (\<lambda>k. (KR_Kit k, KR_PubKey k)) (ReKeyPrior m) = map_option (\<lambda>k. (KR_Kit k, KR_PubKey k)) (ReKeyPrior m') \<and>
    map_option (\<lambda>k. (KR_Kit k, KR_PubKey k)) (SigningKey m) = map_option (\<lambda>k. (KR_Kit k, KR_PubKey k)) (SigningKey m') \<and>
    map_option (\<lambda>k. (KR_Kit k, KR_PubKey k)) (EncryptKey m) = map_option (\<lambda>k. (KR_Kit k, KR_PubKey k)) (EncryptKey m')"
proof -
  obtain f p s e where f: "SigningParts SigningDomain_MemberReKey
      [id_bytes planet, id_bytes (Tag_UID (ME_MemberTag m)), p, s, e] = Inr f" "dig = H (concat f)"
    and k: "reKeyFramePart (ReKeyPrior m) = Inr p" "reKeyFramePart (SigningKey m) = Inr s" "reKeyFramePart (EncryptKey m) = Inr e"
    using assms(3,1) by (rule ReKeyDigestD)
  obtain g p' s' e' where g: "SigningParts SigningDomain_MemberReKey
      [id_bytes planet', id_bytes (Tag_UID (ME_MemberTag m')), p', s', e'] = Inr g" "dig = H (concat g)"
    and k': "reKeyFramePart (ReKeyPrior m') = Inr p'" "reKeyFramePart (SigningKey m') = Inr s'" "reKeyFramePart (EncryptKey m') = Inr e'"
    using assms(4,1) by (rule ReKeyDigestD)
  have d: "length SigningDomain_MemberReKey < 256" by (simp add: SigningDomain_MemberReKey_def)
  have "concat f = concat g" using f(2) g(2) assms(2) by (simp add: inj_eq)
  from SigningParts_unique [OF f(1) g(1) this d d]
  have eq: "planet = planet'" "Tag_UID (ME_MemberTag m) = Tag_UID (ME_MemberTag m')" "p = p'" "s = s'" "e = e'"
    by (simp_all add: id_bytes_inject)
  show ?thesis using eq reKeyFramePart_inject [OF k(1)] reKeyFramePart_inject [OF k(2)] reKeyFramePart_inject [OF k(3)] k'
    by simp
qed

definition toy_rekey :: "co_signature option list \<Rightarrow> rekey_epoch" where
  "toy_rekey sigs =
     (let key = (\<lambda>k. Some \<lparr>KR_KeyringID = nilUID, KR_Kit = UID 0 5, KR_Type = 0, KR_PubKey = [k]\<rparr>)
      in \<lparr>SigningKey = key 2, EncryptKey = key 3, ME_Status = 0, ME_Epoch = None, ME_MemberTag = Some (UID 0 9),
          ReKey = sigs, ReKeyPrior = key 1\<rparr>)"

lemma toy_rekey_digest: "\<exists>dig. ReKeyCoSignatureDigest toy_hash (Some (toy_rekey sigs)) (UID 0 4) 0 = Inr dig"
  by (simp add: ReKeyCoSignatureDigest_def toy_rekey_def Let_def Tag_UID_def IsNil_def reKeyFramePart_def
      SigningDigest_def SigningParts_def toy_hash_def UID_AppendTo_id)

theorem ReKey_digest_binds_witness:
  "map_option (\<lambda>k. (KR_Kit k, KR_PubKey k)) (ReKeyPrior (toy_rekey [])) = Some (UID 0 5, [1])"
proof -
  obtain dig where "ReKeyCoSignatureDigest toy_hash (Some (toy_rekey [])) (UID 0 4) 0 = Inr dig"
    using toy_rekey_digest by blast
  from ReKey_digest_binds [OF _ _ this this, of "\<lambda>b. b"] show ?thesis
    by (simp add: toy_hash_def toy_rekey_def Let_def)
qed

text \<open>An accepted re-key record reinstates the member as active, does not belong to a did:key
  member whose identifier is the fold of the retired key, and carries valid co-signatures of at
  least the required number of different founders over its own digest.\<close>

theorem ReKey_accepted:
  assumes "VerifyReKeyQuorum H newHash v (Some m) planet kit founders required = Inr ids"
  shows "ME_Status m = MemberStatus_Active \<and>
    (\<forall>prior. ReKeyPrior m = Some prior \<longrightarrow>
       DIDKeyUID H (KR_Kit prior) (KR_PubKey prior) \<noteq> (Tag_UID (ME_MemberTag m), True)) \<and>
    (\<exists>digest. ReKeyCoSignatureDigest newHash (Some m) planet kit = Inr digest \<and>
       distinct ids \<and> 1 \<le> length ids \<and> required \<le> int (length ids) \<and>
       (\<forall>i \<in> set ids. signed_by v digest founders (ReKey m) i))"
proof -
  obtain digest where d: "ReKeyCoSignatureDigest newHash (Some m) planet kit = Inr digest"
    "VerifyCoSignatureQuorum v (ReKey m) digest founders required = Inr ids"
    using assms by (auto simp: VerifyReKeyQuorum_def and_then_eq_Inr split: if_splits)
  have "ME_MemberTag m \<noteq> None" "ReKeyPrior m \<noteq> None"
    using d(1) by (auto simp: ReKeyCoSignatureDigest_def reKeyFramePart_def and_then_eq_Inr split: if_splits option.splits)
  then have "ME_Status m = MemberStatus_Active \<and>
    (\<forall>prior. ReKeyPrior m = Some prior \<longrightarrow>
       DIDKeyUID H (KR_Kit prior) (KR_PubKey prior) \<noteq> (Tag_UID (ME_MemberTag m), True))"
    using assms by (auto simp: VerifyReKeyQuorum_def split: if_splits)
  moreover have "required \<le> int (length ids)" using quorum_sound [OF d(2)] by (cases "0 < required") auto
  ultimately show ?thesis using d(1) quorum_sound [OF d(2)] by blast
qed

definition yes_verifier :: verifier where
  "yes_verifier kit sig digest pub = Inr ()"

theorem ReKey_accepted_witness:
  "\<exists>ids. VerifyReKeyQuorum (\<lambda>b. b) toy_hash yes_verifier (Some (toy_rekey [toy_cosig 1 [1], toy_cosig 2 [1]])) (UID 0 4) 0 toy_founders 2
     = Inr ids \<and> 2 \<le> int (length ids)"
proof -
  let ?m = "toy_rekey [toy_cosig 1 [1], toy_cosig 2 [1]]"
  obtain dig where "ReKeyCoSignatureDigest toy_hash (Some ?m) (UID 0 4) 0 = Inr dig"
    using toy_rekey_digest by blast
  moreover have "VerifyCoSignatureQuorum yes_verifier (ReKey ?m) dig toy_founders 2 = Inr [UID 0 1, UID 0 2]"
    by (simp add: toy_rekey_def Let_def VerifyCoSignatureQuorum_def toy_cosig_def Tag_UID_def toy_founders_def
        yes_verifier_def quorum_required_def)
  ultimately have "VerifyReKeyQuorum (\<lambda>b. b) toy_hash yes_verifier (Some ?m) (UID 0 4) 0 toy_founders 2 = Inr [UID 0 1, UID 0 2]"
    by (simp add: VerifyReKeyQuorum_def) (simp add: toy_rekey_def Let_def MemberStatus_Active_def DIDKeyUID_def)
  from ReKey_accepted [OF this] this show ?thesis by auto
qed

end
