(* ===== verification/Access.thy ===== *)
theory Access
  imports TagName Crypto
begin

text \<open>
  Channel access control (\<open>amp/amp.support.acc.go\<close>): the walk up the legislature chain and the
  binding of content cells to their author.  A \<open>Tag\<close> is its identifier; an access level is the
  \<open>int32\<close> of the enum; \<open>lookupEpoch\<close> is the caller's store.
\<close>

section \<open>Data\<close>

record access_grant =
  GrantMember :: "uid option"
  GrantAccess :: int

record channel_epoch =
  Parent :: "uid option"
  MemberGrants :: "access_grant list option"
  DefaultGrants :: "access_grant list option"

definition Access_NotAllowed :: int where "Access_NotAllowed = 0"
definition MaxACCParentDepth :: nat where "MaxACCParentDepth = 64"

section \<open>Grants\<close>

fun find_grant :: "uid \<Rightarrow> access_grant list \<Rightarrow> int option" where
  "find_grant memberID [] = None"
| "find_grant memberID (g # gs) =
     (if GrantMember g \<noteq> None \<and> Tag_UID (GrantMember g) = memberID then Some (GrantAccess g)
      else find_grant memberID gs)"

definition resolveMemberGrants :: "uid \<Rightarrow> channel_epoch \<Rightarrow> int" where
  "resolveMemberGrants memberID epoch =
     (case Option.bind (MemberGrants epoch) (find_grant memberID) of
        Some access \<Rightarrow> access
      | None \<Rightarrow>
          (case DefaultGrants epoch of
             Some (g # gs) \<Rightarrow> GrantAccess g
           | _ \<Rightarrow> Access_NotAllowed))"

definition minAccess :: "int \<Rightarrow> int \<Rightarrow> int" where
  "minAccess level1 level2 = (if level1 < level2 then level1 else level2)"

section \<open>The chain walk\<close>

function resolve_loop :: "(uid \<Rightarrow> channel_epoch option) \<Rightarrow> uid \<Rightarrow> nat \<Rightarrow> uid option \<Rightarrow> int \<Rightarrow> int" where
  "resolve_loop lookupEpoch memberID depth parent level =
     (case parent of
        None \<Rightarrow> level
      | Some parentID \<Rightarrow>
          if depth \<ge> MaxACCParentDepth then Access_NotAllowed
          else if IsNil parentID then level
          else case lookupEpoch parentID of
                 None \<Rightarrow> Access_NotAllowed
               | Some parentEpoch \<Rightarrow>
                   resolve_loop lookupEpoch memberID (depth + 1) (Parent parentEpoch)
                     (minAccess level (resolveMemberGrants memberID parentEpoch)))"
  by pat_completeness auto
termination by (relation "measure (\<lambda>(lookupEpoch, memberID, depth, parent, level). MaxACCParentDepth - depth)") auto

declare resolve_loop.simps [simp del]

definition ResolveAccess :: "uid \<Rightarrow> channel_epoch option \<Rightarrow> (uid \<Rightarrow> channel_epoch option) \<Rightarrow> int" where
  "ResolveAccess memberID channelEpoch lookupEpoch =
     (case channelEpoch of
        None \<Rightarrow> Access_NotAllowed
      | Some e \<Rightarrow> resolve_loop lookupEpoch memberID 0 (Parent e) (resolveMemberGrants memberID e))"

definition HasAccess :: "uid \<Rightarrow> int \<Rightarrow> channel_epoch option \<Rightarrow> (uid \<Rightarrow> channel_epoch option) \<Rightarrow> bool" where
  "HasAccess memberID required channelEpoch lookupEpoch \<longleftrightarrow> ResolveAccess memberID channelEpoch lookupEpoch \<ge> required"

section \<open>Author slots\<close>

definition AuthorSlot64 :: "(byte list \<Rightarrow> byte list) \<Rightarrow> uid \<Rightarrow> u64" where
  "AuthorSlot64 H author = uid0 (UID_HashLiteral H (UID_AppendTo author []))"

definition ItemBoundToAuthor :: "(byte list \<Rightarrow> byte list) \<Rightarrow> uid \<Rightarrow> uid \<Rightarrow> bool" where
  "ItemBoundToAuthor H author itemID \<longleftrightarrow> uid1 itemID = AuthorSlot64 H author \<or> itemID = author"

section \<open>The legislature of a channel\<close>

text \<open>The ancestors of a channel, nearest first: the specification of the walk, without its bound.\<close>

inductive legislature :: "(uid \<Rightarrow> channel_epoch option) \<Rightarrow> uid option \<Rightarrow> channel_epoch list \<Rightarrow> bool"
  for lookupEpoch where
  no_parent: "legislature lookupEpoch None []"
| nil_parent: "IsNil p \<Longrightarrow> legislature lookupEpoch (Some p) []"
| step: "\<not> IsNil p \<Longrightarrow> lookupEpoch p = Some e \<Longrightarrow> legislature lookupEpoch (Parent e) es
     \<Longrightarrow> legislature lookupEpoch (Some p) (e # es)"

inductive_cases legislature_Cons: "legislature lookupEpoch p (e # es)"
inductive_cases legislature_Nil: "legislature lookupEpoch p []"

lemma legislature_unique: "legislature lk p es \<Longrightarrow> legislature lk p fs \<Longrightarrow> es = fs"
proof (induction arbitrary: fs rule: legislature.induct)
  case (step p e es)
  from step.prems step.hyps(1,2) show ?case by cases (use step.IH in auto)
qed (auto elim: legislature.cases)

lemma minAccess_min: "minAccess a b = min a b"
  by (simp add: minAccess_def min_def)

lemma resolve_loop_chain:
  "legislature lk p es \<Longrightarrow> depth + length es < MaxACCParentDepth \<Longrightarrow>
     resolve_loop lk m depth p level = foldl min level (map (resolveMemberGrants m) es)"
proof (induction arbitrary: depth level rule: legislature.induct)
  case no_parent
  then show ?case by (simp add: resolve_loop.simps)
next
  case (nil_parent p)
  then show ?case by (subst resolve_loop.simps) simp
next
  case (step p e es)
  then show ?case by (subst resolve_loop.simps) (simp add: minAccess_min)
qed

lemma resolve_loop_grants:
  "Access_NotAllowed < resolve_loop lk m depth p level \<Longrightarrow> depth \<le> MaxACCParentDepth \<Longrightarrow>
     \<exists>es. legislature lk p es \<and> depth + length es \<le> MaxACCParentDepth \<and>
       resolve_loop lk m depth p level \<le> level \<and>
       (\<forall>e \<in> set es. resolve_loop lk m depth p level \<le> resolveMemberGrants m e)"
proof (induction lk m depth p level rule: resolve_loop.induct)
  case (1 lk m depth p level)
  let ?r = "resolve_loop lk m depth p level"
  show ?case
  proof (cases p)
    case None
    then show ?thesis using 1(2)
      by (intro exI [of _ "[]"]) (simp add: resolve_loop.simps [of lk m depth None] legislature.no_parent 1(3))
  next
    case (Some q)
    have d: "\<not> depth \<ge> MaxACCParentDepth"
      using 1(2) Some by (auto simp: resolve_loop.simps [of lk m depth "Some q"] split: if_splits)
    show ?thesis
    proof (cases "IsNil q")
      case True
      then have "?r = level" using Some d by (simp add: resolve_loop.simps [of lk m depth "Some q"])
      then show ?thesis using True Some d by (intro exI [of _ "[]"]) (auto intro: legislature.intros)
    next
      case False
      then obtain e where e: "lk q = Some e"
        using 1(2) Some d by (auto simp: resolve_loop.simps [of lk m depth "Some q"] split: option.splits)
      let ?r' = "resolve_loop lk m (depth + 1) (Parent e) (minAccess level (resolveMemberGrants m e))"
      have r: "?r = ?r'" using Some d False e by (simp add: resolve_loop.simps [of lk m depth "Some q"])
      obtain es where es: "legislature lk (Parent e) es" "depth + 1 + length es \<le> MaxACCParentDepth"
        "?r' \<le> minAccess level (resolveMemberGrants m e)" "\<forall>x \<in> set es. ?r' \<le> resolveMemberGrants m x"
        using 1(1) [OF Some d False e] 1(2) r d by auto
      have "legislature lk p (e # es)" using legislature.step [OF False e es(1)] Some by simp
      moreover have "?r' \<le> level" "?r' \<le> resolveMemberGrants m e" using es(3) by (simp_all add: minAccess_min)
      ultimately show ?thesis unfolding r using es(2,4) by (intro exI [of _ "e # es"]) auto
    qed
  qed
qed

section \<open>Properties\<close>

text \<open>C7. Within the depth bound the walk computes the legislature's verdict: the least grant of the
  member over the channel and all its ancestors.\<close>

theorem ResolveAccess_least_grant:
  assumes "legislature lookupEpoch (Parent e) es" "length es < MaxACCParentDepth"
  shows "ResolveAccess m (Some e) lookupEpoch = Min (resolveMemberGrants m ` set (e # es))"
proof -
  have f: "foldl min a xs = Min (insert a (set xs))" for a :: int and xs
  proof (induction xs arbitrary: a)
    case (Cons x xs)
    have "insert a (set (x # xs)) = insert a (insert x (set xs))" by simp
    then show ?case using Cons.IH [of "min a x"]
      by (cases "xs = []") (simp_all add: min.assoc min.commute min.left_commute)
  qed simp
  show ?thesis
    using resolve_loop_chain [OF assms(1), of 0 m "resolveMemberGrants m e"] assms(2)
    by (simp add: ResolveAccess_def f)
qed

text \<open>A store of two channels under a planet-wide parent.\<close>

definition toy_epochs :: "uid \<Rightarrow> channel_epoch option" where
  "toy_epochs c =
     (if c = UID 0 1 then Some \<lparr>Parent = Some (UID 0 2), MemberGrants = Some [\<lparr>GrantMember = Some (UID 0 9), GrantAccess = 10\<rparr>], DefaultGrants = None\<rparr>
      else if c = UID 0 2 then Some \<lparr>Parent = None, MemberGrants = None, DefaultGrants = Some [\<lparr>GrantMember = None, GrantAccess = 4\<rparr>]\<rparr>
      else if c = UID 0 3 then Some \<lparr>Parent = Some (UID 0 3), MemberGrants = None, DefaultGrants = Some [\<lparr>GrantMember = None, GrantAccess = 4\<rparr>]\<rparr>
      else None)"

theorem ResolveAccess_least_grant_witness:
  "ResolveAccess (UID 0 9) (toy_epochs (UID 0 1)) toy_epochs = 4"
proof -
  let ?e = "the (toy_epochs (UID 0 1))" and ?p = "the (toy_epochs (UID 0 2))"
  have "legislature toy_epochs (Parent ?e) [?p]"
  proof -
    have "legislature toy_epochs (Parent ?p) []" by (simp add: toy_epochs_def legislature.no_parent)
    then have "legislature toy_epochs (Some (UID 0 2)) [?p]"
      by (intro legislature.step) (simp_all add: toy_epochs_def IsNil_def)
    then show ?thesis by (simp add: toy_epochs_def)
  qed
  from ResolveAccess_least_grant [OF this] show ?thesis
    by (simp add: MaxACCParentDepth_def toy_epochs_def resolveMemberGrants_def Tag_UID_def)
qed

text \<open>C8. Access never fails open: a member is allowed anything only when the legislature of the
  channel ends, within the depth bound and without a missing ancestor, and every channel of it
  grants the member at least the resolved level.  In particular a cyclic legislature allows
  nothing.\<close>

theorem ResolveAccess_fail_closed:
  assumes "Access_NotAllowed < ResolveAccess m (Some e) lookupEpoch"
  shows "\<exists>es. legislature lookupEpoch (Parent e) es \<and> length es \<le> MaxACCParentDepth \<and>
    (\<forall>x \<in> set (e # es). ResolveAccess m (Some e) lookupEpoch \<le> resolveMemberGrants m x)"
  using resolve_loop_grants [of lookupEpoch m 0 "Parent e" "resolveMemberGrants m e"] assms
  by (fastforce simp: ResolveAccess_def)

theorem ResolveAccess_fail_closed_witness:
  "\<exists>es. legislature toy_epochs (Some (UID 0 2)) es \<and>
     ResolveAccess (UID 0 7) (toy_epochs (UID 0 3)) toy_epochs \<le> Access_NotAllowed"
proof -
  have a: "Access_NotAllowed < ResolveAccess (UID 0 9) (Some (the (toy_epochs (UID 0 1)))) toy_epochs"
    by code_simp
  have t: "Some (the (toy_epochs (UID 0 3))) = toy_epochs (UID 0 3)" "Parent (the (toy_epochs (UID 0 3))) = Some (UID 0 3)"
    "Parent (the (toy_epochs (UID 0 1))) = Some (UID 0 2)"
    by (simp_all add: toy_epochs_def)
  have "\<not> legislature toy_epochs (Some (UID 0 3)) es" for es
  proof
    assume "legislature toy_epochs (Some (UID 0 3)) es"
    then show False
      by (induction "Some (UID 0 3)" es rule: legislature.induct) (auto simp: IsNil_def toy_epochs_def)
  qed
  then have "\<not> Access_NotAllowed < ResolveAccess (UID 0 7) (toy_epochs (UID 0 3)) toy_epochs"
    using ResolveAccess_fail_closed [of "UID 0 7" "the (toy_epochs (UID 0 3))" toy_epochs] unfolding t by blast
  then show ?thesis using ResolveAccess_fail_closed [OF a] unfolding t by auto
qed

end
