(* ===== verification/TagTree.thy ===== *)
theory TagTree
  imports TxMsg
begin

text \<open>
  Tag documents (\<open>amp/amp.support.tags.go\<close>): leaves with their media type, trees of leaves, their
  validation, and the gate that \<open>MarshalOp\<close> applies to values (\<open>checkTagSyntax\<close> in
  \<open>amp/amp.support.tx.go\<close>).  A nil pointer is \<open>None\<close>.  Media types are ASCII, on which
  \<open>strings.ToLower\<close> is \<open>to_lower\<close>.
\<close>

section \<open>Leaves\<close>

record tag_leaf =
  ContentTypeRaw :: string
  LeafText :: string
  LeafData :: "byte list"

definition to_lower :: "string \<Rightarrow> string" where
  "to_lower s = map (\<lambda>c. if 65 \<le> (of_char c :: nat) \<and> (of_char c :: nat) \<le> 90 then char_of ((of_char c :: nat) + 32) else c) s"

definition DefaultContentType :: string where "DefaultContentType = ''text/plain''"

definition TagText :: "string \<Rightarrow> string \<Rightarrow> tag_leaf" where
  "TagText contentType text =
     (let contentType = to_lower contentType;
          contentType = (if contentType = DefaultContentType then [] else contentType)
      in \<lparr>ContentTypeRaw = contentType, LeafText = text, LeafData = []\<rparr>)"

definition TagFromData :: "string \<Rightarrow> byte list \<Rightarrow> tag_leaf" where
  "TagFromData contentType data =
     \<lparr>ContentTypeRaw = to_lower contentType, LeafText = [], LeafData = data\<rparr>"

definition ContentType :: "tag_leaf option \<Rightarrow> string" where
  "ContentType leaf =
     (case leaf of
        None \<Rightarrow> []
      | Some l \<Rightarrow> if ContentTypeRaw l = [] then DefaultContentType else to_lower (ContentTypeRaw l))"

definition Leaf_Validate :: "tag_leaf option \<Rightarrow> unit outcome" where
  "Leaf_Validate leaf =
     (case leaf of
        None \<Rightarrow> Inr ()
      | Some l \<Rightarrow> if LeafData l = [] then Inr ()
                  else if ContentTypeRaw l = [] then Inl BadRequest else Inr ())"

section \<open>Trees\<close>

datatype tags = Tags (Head: "tag_leaf option") (SubTags: "tag_leaf option list") (Children: "tags option list")

definition NewTags :: "tag_leaf option \<Rightarrow> tag_leaf option list \<Rightarrow> tags" where
  "NewTags head subTags = Tags head subTags []"

definition AddSubTag :: "tags \<Rightarrow> tag_leaf option \<Rightarrow> tags" where
  "AddSubTag t sub = Tags (Head t) (SubTags t @ [sub]) (Children t)"

definition AddChild :: "tags \<Rightarrow> tags option \<Rightarrow> tags" where
  "AddChild t child = Tags (Head t) (SubTags t) (Children t @ [child])"

text \<open>\<open>Walk\<close> with a visitor that threads the state \<open>'s\<close>.\<close>

fun Walk :: "(tag_leaf option \<Rightarrow> 's \<Rightarrow> 's) \<Rightarrow> tags option \<Rightarrow> 's \<Rightarrow> 's"
  and walk_children :: "(tag_leaf option \<Rightarrow> 's \<Rightarrow> 's) \<Rightarrow> tags option list \<Rightarrow> 's \<Rightarrow> 's" where
  "Walk visit None s = s"
| "Walk visit (Some (Tags head subs children)) s =
     walk_children visit children
       (fold visit subs (case head of None \<Rightarrow> s | Some l \<Rightarrow> visit (Some l) s))"
| "walk_children visit [] s = s"
| "walk_children visit (c # cs) s = walk_children visit cs (Walk visit c s)"

definition Tags_Validate :: "tags option \<Rightarrow> unit outcome" where
  "Tags_Validate t =
     Walk (\<lambda>leaf refused. if refused = Inr () then Leaf_Validate leaf else refused) t (Inr ())"

fun first_of_type :: "string \<Rightarrow> tag_leaf option list \<Rightarrow> tag_leaf option" where
  "first_of_type contentType [] = None"
| "first_of_type contentType (sub # subs) =
     (if ContentType sub = contentType then sub else first_of_type contentType subs)"

definition ByContentType :: "tags option \<Rightarrow> string \<Rightarrow> tag_leaf option" where
  "ByContentType t contentType =
     (case t of
        None \<Rightarrow> None
      | Some (Tags head subs _) \<Rightarrow>
          let contentType = to_lower contentType
          in if head \<noteq> None \<and> ContentType head = contentType then head
             else first_of_type contentType subs)"

definition TextByContentType :: "tags option \<Rightarrow> string \<Rightarrow> string" where
  "TextByContentType t contentType =
     (case ByContentType t contentType of None \<Rightarrow> [] | Some leaf \<Rightarrow> LeafText leaf)"

section \<open>The authoring gate\<close>

datatype 'v op_value = TagValue "tag_leaf option" | TagsValue "tags option" | OtherValue 'v

definition checkTagSyntax :: "'v op_value \<Rightarrow> unit outcome" where
  "checkTagSyntax val =
     (case val of TagValue leaf \<Rightarrow> Leaf_Validate leaf | TagsValue t \<Rightarrow> Tags_Validate t | OtherValue _ \<Rightarrow> Inr ())"

section \<open>The leaves of a tree\<close>

inductive leaf_of :: "tag_leaf option \<Rightarrow> tags option \<Rightarrow> bool" where
  head: "leaf_of (Some l) (Some (Tags (Some l) subs children))"
| sub: "leaf \<in> set subs \<Longrightarrow> leaf_of leaf (Some (Tags head subs children))"
| child: "c \<in> set children \<Longrightarrow> leaf_of leaf c \<Longrightarrow> leaf_of leaf (Some (Tags head subs children))"

inductive_simps leaf_of_simps: "leaf_of leaf None" "leaf_of leaf (Some (Tags head subs children))"

definition refuse :: "tag_leaf option \<Rightarrow> unit outcome \<Rightarrow> unit outcome" where
  "refuse leaf refused = (if refused = Inr () then Leaf_Validate leaf else refused)"

lemma Leaf_Validate_cases: "Leaf_Validate leaf = Inr () \<or> Leaf_Validate leaf = Inl BadRequest"
  by (simp add: Leaf_Validate_def split: option.split)

lemma refuse_Inl: "refuse leaf (Inl e) = Inl e"
  by (simp add: refuse_def)

lemma refuse_Inr: "refuse leaf (Inr ()) = Leaf_Validate leaf"
  by (simp add: refuse_def)

lemma fold_refuse_Inl: "fold refuse subs (Inl e) = Inl e"
  by (induction subs) (simp_all add: refuse_Inl)

lemma Walk_refuse_Inl:
  "Walk refuse t (Inl e) = Inl e" "walk_children refuse ts (Inl e) = Inl e"
  by (induction refuse t "Inl e :: unit outcome" and refuse ts "Inl e :: unit outcome" rule: Walk_walk_children.induct)
    (simp_all add: refuse_Inl fold_refuse_Inl split: option.split)

lemma fold_refuse: "fold refuse subs (Inr ()) = Inr () \<longleftrightarrow> (\<forall>l \<in> set subs. Leaf_Validate l = Inr ())"
proof (induction subs)
  case (Cons l subs)
  then show ?case using Leaf_Validate_cases [of l] by (auto simp: refuse_Inr fold_refuse_Inl)
qed simp

lemma fold_refuse_cases: "fold refuse subs (Inr ()) = Inr () \<or> fold refuse subs (Inr ()) = Inl BadRequest"
proof (induction subs)
  case (Cons l subs)
  then show ?case using Leaf_Validate_cases [of l] by (auto simp: refuse_Inr fold_refuse_Inl)
qed simp

lemma Walk_refuse_ok:
  "s = Inr () \<Longrightarrow> (Walk refuse t s = Inr () \<longleftrightarrow> (\<forall>l. leaf_of l t \<longrightarrow> Leaf_Validate l = Inr ())) \<and>
     (Walk refuse t s = Inr () \<or> Walk refuse t s = Inl BadRequest)"
  "s = Inr () \<Longrightarrow> (walk_children refuse ts s = Inr () \<longleftrightarrow>
     (\<forall>c \<in> set ts. \<forall>l. leaf_of l c \<longrightarrow> Leaf_Validate l = Inr ())) \<and>
     (walk_children refuse ts s = Inr () \<or> walk_children refuse ts s = Inl BadRequest)"
proof (induction refuse t s and refuse ts s rule: Walk_walk_children.induct)
  case (1 s)
  then show ?case by (simp add: leaf_of_simps)
next
  case (2 head subs children s)
  let ?h = "case head of None \<Rightarrow> s | Some l \<Rightarrow> refuse (Some l) s"
  let ?f = "fold refuse subs ?h"
  have h: "?h = (case head of None \<Rightarrow> Inr () | Some l \<Rightarrow> Leaf_Validate (Some l))"
    using 2(2) by (simp add: refuse_Inr split: option.split)
  then have hc: "?h = Inr () \<or> ?h = Inl BadRequest" using Leaf_Validate_cases by (simp split: option.split)
  have f: "?f = Inr () \<longleftrightarrow> ?h = Inr () \<and> (\<forall>l \<in> set subs. Leaf_Validate l = Inr ())"
    "?f = Inr () \<or> ?f = Inl BadRequest"
    using hc fold_refuse [of subs] fold_refuse_cases [of subs] by (auto simp: fold_refuse_Inl)
  show ?case
  proof (cases "?f = Inr ()")
    case True
    then show ?thesis using 2(1) [OF True] f h by (auto simp: leaf_of_simps)
  next
    case False
    then have b: "?f = Inl BadRequest" using f(2) by blast
    have "\<exists>l. leaf_of l (Some (Tags head subs children)) \<and> Leaf_Validate l \<noteq> Inr ()"
      using False f(1) h by (auto simp: leaf_of_simps split: option.splits)
    then show ?thesis using b by (auto simp: Walk_refuse_Inl)
  qed
next
  case (3 s)
  then show ?case by simp
next
  case (4 c cs s)
  have w: "(Walk refuse c s = Inr () \<longleftrightarrow> (\<forall>l. leaf_of l c \<longrightarrow> Leaf_Validate l = Inr ()))"
    "Walk refuse c s = Inr () \<or> Walk refuse c s = Inl BadRequest" using 4(1,3) by blast+
  show ?case
  proof (cases "Walk refuse c s = Inr ()")
    case True
    then show ?thesis using 4(2) [OF True] w by auto
  next
    case False
    then show ?thesis using w by (auto simp: Walk_refuse_Inl)
  qed
qed

lemma Tags_Validate_ok:
  "(Tags_Validate t = Inr () \<longleftrightarrow> (\<forall>l. leaf_of l t \<longrightarrow> Leaf_Validate l = Inr ())) \<and>
   (Tags_Validate t = Inr () \<or> Tags_Validate t = Inl BadRequest)"
proof -
  have "Tags_Validate t = Walk refuse t (Inr ())" by (simp add: Tags_Validate_def refuse_def [abs_def])
  then show ?thesis using Walk_refuse_ok(1) [OF refl] by metis
qed

section \<open>Properties\<close>

text \<open>No unreadable attachment is authored: an upsert of a document goes through exactly when
  every leaf at any depth that carries data names its media type; a refused one leaves the
  transaction as it was.\<close>

theorem attachment_gate:
  assumes "marshal (TagsValue t) = Inr bytes"
  shows "(snd (Upsert checkTagSyntax marshal tx n a i (Some (TagsValue t))) = Inr () \<longleftrightarrow>
      (\<forall>l. leaf_of (Some l) t \<longrightarrow> LeafData l \<noteq> [] \<longrightarrow> ContentTypeRaw l \<noteq> []))
    \<and> (snd (Upsert checkTagSyntax marshal tx n a i (Some (TagsValue t))) \<noteq> Inr () \<longrightarrow>
      Upsert checkTagSyntax marshal tx n a i (Some (TagsValue t)) = (tx, Inl BadRequest))"
proof -
  have v: "Tags_Validate t = Inr () \<longleftrightarrow> (\<forall>l. leaf_of (Some l) t \<longrightarrow> LeafData l \<noteq> [] \<longrightarrow> ContentTypeRaw l \<noteq> [])"
  proof -
    have "Leaf_Validate None = Inr ()"
      "Leaf_Validate (Some l) = Inr () \<longleftrightarrow> (LeafData l \<noteq> [] \<longrightarrow> ContentTypeRaw l \<noteq> [])" for l
      by (simp_all add: Leaf_Validate_def)
    then show ?thesis using Tags_Validate_ok [of t] by (metis not_None_eq)
  qed
  have "Tags_Validate t = Inr () \<or> Tags_Validate t = Inl BadRequest" using Tags_Validate_ok [of t] by blast
  then show ?thesis
    unfolding v [symmetric] using assms
    by (auto simp: Upsert_def MarshalOp_def checkTagSyntax_def Let_def)
qed

definition toy_document :: "string \<Rightarrow> tags option" where
  "toy_document ct = Some (AddChild (NewTags (Some (TagText ''text/html'' ''x'')) [])
     (Some (NewTags None [Some (TagFromData ct [1, 2])])))"

theorem attachment_gate_witness:
  "Upsert checkTagSyntax (\<lambda>_. Inr [7]) sample_tx (UID 0 1) (UID 0 2) (UID 0 3) (Some (TagsValue (toy_document [])))
     = (sample_tx, Inl BadRequest)"
proof -
  have "leaf_of (Some (TagFromData [] [1, 2])) (toy_document [])"
    by (simp add: toy_document_def AddChild_def NewTags_def leaf_of_simps)
  then have "\<not> (\<forall>l. leaf_of (Some l) (toy_document []) \<longrightarrow> LeafData l \<noteq> [] \<longrightarrow> ContentTypeRaw l \<noteq> [])"
    by (force simp: TagFromData_def to_lower_def)
  then show ?thesis
    using attachment_gate [of "\<lambda>_. Inr [7]" "toy_document []" "[7]" sample_tx "UID 0 1" "UID 0 2" "UID 0 3"] by blast
qed

text \<open>A text leaf reads back the type it was built with, in lower case, and the default type costs
  no bytes; looking a document up by a type returns a leaf that declares it.\<close>

theorem TagText_type:
  "ContentType (Some (TagText ct txt)) = (if ct = [] then DefaultContentType else to_lower ct)
   \<and> (ContentTypeRaw (TagText ct txt) = [] \<longleftrightarrow> ct = [] \<or> to_lower ct = DefaultContentType)
   \<and> (case ByContentType t ct of None \<Rightarrow> True | Some leaf \<Rightarrow> ContentType (Some leaf) = to_lower ct)"
proof -
  have low: "to_lower (to_lower s) = to_lower s" for s
    by (auto simp: to_lower_def)
  have e: "to_lower s = [] \<longleftrightarrow> s = []" for s by (simp add: to_lower_def)
  have d: "to_lower DefaultContentType = DefaultContentType" by code_simp
  have f: "first_of_type k subs = None \<or> ContentType (first_of_type k subs) = k" for k subs
    by (induction subs) auto
  have "case ByContentType t ct of None \<Rightarrow> True | Some leaf \<Rightarrow> ContentType (Some leaf) = to_lower ct"
    using f [of "to_lower ct"]
    by (auto simp: ByContentType_def Let_def split: option.splits tags.splits) (metis option.distinct(1))+
  then show ?thesis
    by (auto simp: TagText_def ContentType_def Let_def low e d) 
qed

end
