(* ===== verification/Tome.thy ===== *)
theory Tome
  imports Crypto "HOL-Library.AList"
begin

text \<open>
  Sealed tomes at rest (\<open>stdlib/safe/file_guard.go\<close>): the passphrase guard that wraps a data
  encryption key, the store that publishes a sealed tome in one file, and the interface
  \<open>Guard\<close> / \<open>TomeStore\<close> of \<open>stdlib/safe/api.safe.go\<close> that the epoch key store and the
  enclave rely on, as a locale interpreted on the two.

  A file system is the content of its files, the fate of the system calls to come (none left:
  they succeed) and the random names \<open>os.CreateTemp\<close> will try.  \<open>past\<close> is a ghost field: the
  contents another process could have seen so far, newest first.  The protobuf codec of
  \<open>SealedTome\<close> is a parameter.
\<close>

section \<open>Messages\<close>

record wrapped_dek =
  wd_Version :: nat
  wd_Provider :: string
  wd_KeyID :: "byte list"
  wd_KDF :: string
  wd_Cipher :: string
  wd_Salt :: "byte list"
  wd_Nonce :: "byte list"
  wd_Cipherblob :: "byte list"

record sealed_tome =
  st_Version :: nat
  st_WrappedDEK :: "wrapped_dek option"
  st_Purpose :: string
  st_TomeCipher :: string
  st_TomeNonce :: "byte list"
  st_Cipherblob :: "byte list"

definition Const_SealedTomeVersion :: nat where "Const_SealedTomeVersion = 1"
definition CipherName :: string where "CipherName = ''XChaCha20-Poly1305''"
definition KDFName :: string where "KDFName = ''HKDF-SHA256''"
definition SaltSize :: nat where "SaltSize = 32"

section \<open>The passphrase guard\<close>

record file_guard =
  rootKey :: "byte list"
  keyID :: "byte list"

definition NewFileGuard :: "byte list \<Rightarrow> byte list \<Rightarrow> file_guard" where
  "NewFileGuard rk kid = \<lparr>rootKey = rk, keyID = kid\<rparr>"

definition guard_info :: "byte list" where
  "guard_info = go_bytes ''safe.fileGuard.WrapDEK''"

definition WrapDEK :: "primitives \<Rightarrow> file_guard \<Rightarrow> byte list \<Rightarrow> byte list \<Rightarrow> byte list \<Rightarrow> wrapped_dek outcome" where
  "WrapDEK P g rand dek aad =
     (if rootKey g = [] then Inl Other
      else and_then (read_full SaltSize rand) (\<lambda>(salt, rand).
           and_then (DeriveKey P (rootKey g) salt guard_info) (\<lambda>wrappingKey.
           and_then (SealAEAD P rand wrappingKey dek aad) (\<lambda>(nonce, cipherblob).
           Inr \<lparr>wd_Version = Const_SealedTomeVersion, wd_Provider = ''fileGuard'', wd_KeyID = keyID g,
                wd_KDF = KDFName, wd_Cipher = CipherName, wd_Salt = salt, wd_Nonce = nonce,
                wd_Cipherblob = cipherblob\<rparr>))))"

definition UnwrapDEK :: "primitives \<Rightarrow> file_guard \<Rightarrow> wrapped_dek option \<Rightarrow> byte list \<Rightarrow> byte list outcome" where
  "UnwrapDEK P g w aad =
     (if rootKey g = [] then Inl Other
      else case w of
        None \<Rightarrow> Inl Other
      | Some wrapped \<Rightarrow>
          if wd_Provider wrapped \<noteq> ''fileGuard'' then Inl Other
          else if wd_KeyID wrapped \<noteq> keyID g then Inl Other
          else and_then (DeriveKey P (rootKey g) (wd_Salt wrapped) guard_info) (\<lambda>wrappingKey.
               OpenAEAD P wrappingKey (wd_Nonce wrapped) (wd_Cipherblob wrapped) aad))"

definition guard_Close :: "file_guard \<Rightarrow> file_guard" where
  "guard_Close g = g\<lparr>rootKey := []\<rparr>"

section \<open>The file system\<close>

type_synonym file_map = "(string \<times> byte list) list"

record file_system =
  files :: file_map
  faults :: "nat option list"
  suffixes :: "string list"
  past :: "file_map list"

text \<open>One system call: \<open>Some n\<close> when it fails (a write after \<open>n\<close> bytes).\<close>

definition syscall :: "file_system \<Rightarrow> nat option \<times> file_system" where
  "syscall fs = (case faults fs of [] \<Rightarrow> (None, fs) | f # rest \<Rightarrow> (f, fs\<lparr>faults := rest\<rparr>))"

definition set_files :: "file_map \<Rightarrow> file_system \<Rightarrow> file_system" where
  "set_files f fs = fs\<lparr>files := f, past := files fs # past fs\<rparr>"

definition create_temp :: "string \<Rightarrow> file_system \<Rightarrow> string option \<times> file_system" where
  "create_temp path fs =
     (case syscall fs of
        (Some _, fs1) \<Rightarrow> (None, fs1)
      | (None, fs1) \<Rightarrow>
          (case dropWhile (\<lambda>s. map_of (files fs1) (path @ ''.tmp-'' @ s) \<noteq> None) (suffixes fs1) of
             [] \<Rightarrow> (None, fs1\<lparr>suffixes := []\<rparr>)
           | s # rest \<Rightarrow>
               let tmp = path @ ''.tmp-'' @ s
               in (Some tmp, set_files (AList.update tmp [] (files fs1)) (fs1\<lparr>suffixes := rest\<rparr>))))"

definition rename_file :: "string \<Rightarrow> string \<Rightarrow> byte list \<Rightarrow> file_system \<Rightarrow> file_system" where
  "rename_file tmp path buf fs = set_files (AList.update path buf (AList.delete tmp (files fs))) fs"

definition remove_file :: "string \<Rightarrow> file_system \<Rightarrow> file_system" where
  "remove_file tmp fs =
     (case syscall fs of
        (Some _, fs1) \<Rightarrow> fs1
      | (None, fs1) \<Rightarrow> set_files (AList.delete tmp (files fs1)) fs1)"

section \<open>The local tome store\<close>

text \<open>\<open>cfg_dir\<close> is \<open>filepath.Dir(pathname)\<close>; directories themselves are not modelled.\<close>

record local_cfg =
  cfg_prims :: primitives
  cfg_guard :: file_guard
  cfg_path :: string
  cfg_dir :: string
  cfg_marshal :: "sealed_tome \<Rightarrow> byte list option"
  cfg_unmarshal :: "byte list \<Rightarrow> sealed_tome option"

definition local_Load :: "local_cfg \<Rightarrow> file_system \<Rightarrow> file_system \<times> sealed_tome option outcome" where
  "local_Load c fs =
     (case syscall fs of
        (Some _, fs1) \<Rightarrow> (fs1, Inl Other)
      | (None, fs1) \<Rightarrow>
          (fs1, case map_of (files fs1) (cfg_path c) of
                  None \<Rightarrow> Inr None
                | Some buf \<Rightarrow> (case cfg_unmarshal c buf of None \<Rightarrow> Inl Other | Some sealed \<Rightarrow> Inr (Some sealed))))"

definition publish_temp :: "local_cfg \<Rightarrow> string \<Rightarrow> byte list \<Rightarrow> file_system \<Rightarrow> file_system \<times> unit outcome" where
  "publish_temp c tmp buf fs =
     (case syscall fs of
        (Some n, fs1) \<Rightarrow> (set_files (AList.update tmp (take n buf) (files fs1)) fs1, Inl Other)
      | (None, fs1) \<Rightarrow>
      (case syscall (set_files (AList.update tmp buf (files fs1)) fs1) of
        (Some _, fs2) \<Rightarrow> (fs2, Inl Other)
      | (None, fs2) \<Rightarrow>
      (case syscall fs2 of
        (Some _, fs3) \<Rightarrow> (fs3, Inl Other)
      | (None, fs3) \<Rightarrow>
      (case syscall fs3 of
        (Some _, fs4) \<Rightarrow> (fs4, Inl Other)
      | (None, fs4) \<Rightarrow> (rename_file tmp (cfg_path c) buf fs4, Inr ())))))"

definition local_Save :: "local_cfg \<Rightarrow> file_system \<Rightarrow> sealed_tome \<Rightarrow> file_system \<times> unit outcome" where
  "local_Save c fs sealed =
     (case cfg_marshal c sealed of
        None \<Rightarrow> (fs, Inl Other)
      | Some buf \<Rightarrow>
      (case (if cfg_dir c \<noteq> ''.'' then syscall fs else (None, fs)) of
        (Some _, fs1) \<Rightarrow> (fs1, Inl Other)
      | (None, fs1) \<Rightarrow>
      (case create_temp (cfg_path c) fs1 of
        (None, fs2) \<Rightarrow> (fs2, Inl Other)
      | (Some tmp, fs2) \<Rightarrow>
          let (fs3, r) = publish_temp c tmp buf fs2 in (remove_file tmp fs3, r))))"

section \<open>The interface: Guard and TomeStore\<close>

text \<open>What the key stores call: the cipher, the two operations of a guard and the two of a store.
  \<open>seal_tome\<close> and \<open>open_tome\<close> are the steps the two stores share around them.  The random
  source is the list of bytes it will yield; a read advances it.\<close>

record 'd vault =
  v_prims :: primitives
  v_wrap :: "byte list \<Rightarrow> byte list \<Rightarrow> byte list \<Rightarrow> wrapped_dek outcome"
  v_unwrap :: "wrapped_dek option \<Rightarrow> byte list \<Rightarrow> byte list outcome"
  v_load :: "'d \<Rightarrow> 'd \<times> sealed_tome option outcome"
  v_save :: "'d \<Rightarrow> sealed_tome \<Rightarrow> 'd \<times> unit outcome"

definition seal_tome ::
  "'d vault \<Rightarrow> string \<Rightarrow> byte list \<Rightarrow> byte list \<Rightarrow> byte list \<Rightarrow> sealed_tome outcome" where
  "seal_tome V purpose aad rand tomeBytes =
     and_then (GenerateDEK rand) (\<lambda>dek.
     and_then (SealAEAD (v_prims V) (drop DEKSize rand) dek tomeBytes aad) (\<lambda>(tomeNonce, cipherblob).
     and_then (v_wrap V (drop (DEKSize + NonceSize) rand) dek aad) (\<lambda>wrapped.
     Inr \<lparr>st_Version = Const_SealedTomeVersion, st_WrappedDEK = Some wrapped, st_Purpose = purpose,
          st_TomeCipher = CipherName, st_TomeNonce = tomeNonce, st_Cipherblob = cipherblob\<rparr>)))"

definition save_tome ::
  "'d vault \<Rightarrow> string \<Rightarrow> byte list \<Rightarrow> byte list \<Rightarrow> byte list \<Rightarrow> 'd \<Rightarrow> 'd \<times> unit outcome" where
  "save_tome V purpose aad rand tomeBytes d =
     (case seal_tome V purpose aad rand tomeBytes of
        Inl e \<Rightarrow> (d, Inl e)
      | Inr sealed \<Rightarrow> v_save V d sealed)"

definition open_tome :: "'d vault \<Rightarrow> byte list \<Rightarrow> sealed_tome \<Rightarrow> byte list outcome" where
  "open_tome V aad sealed =
     and_then (v_unwrap V (st_WrappedDEK sealed) aad) (\<lambda>dek.
     OpenAEAD (v_prims V) dek (st_TomeNonce sealed) (st_Cipherblob sealed) aad)"

text \<open>The contract, for the configurations \<open>c\<close> that are \<open>good\<close>: a guard unwraps what it wrapped;
  reading changes nothing and returns what the disk holds; a save that reports success is on the
  disk and one that fails leaves the disk as it was.  \<open>content\<close> is the tome
  the disk holds, if it holds one that parses.\<close>

locale tome_vault =
  fixes good :: "'c \<Rightarrow> bool"
    and vault :: "'c \<Rightarrow> 'd vault"
    and content :: "'c \<Rightarrow> 'd \<Rightarrow> sealed_tome option outcome"
  assumes cipher: "good c \<Longrightarrow> aead_law (v_prims (vault c))"
    and unwrap_wrap:
      "good c \<Longrightarrow> v_wrap (vault c) rand dek aad = Inr w \<Longrightarrow> v_unwrap (vault c) (Some w) aad = Inr dek"
    and load_content:
      "good c \<Longrightarrow> v_load (vault c) d = (d', r) \<Longrightarrow>
       content c d' = content c d \<and> (\<forall>s. r = Inr s \<longrightarrow> content c d = Inr s)"
    and save_content:
      "good c \<Longrightarrow> v_save (vault c) d s = (d', saved) \<Longrightarrow>
       content c d' = (case saved of Inl e \<Rightarrow> content c d | Inr _ \<Rightarrow> Inr (Some s))"
begin

lemma open_seal:
  assumes "good c" "seal_tome (vault c) purpose aad rand b = Inr s"
  shows "open_tome (vault c) aad s = Inr b"
  using assms SealAEAD_open [OF cipher [OF assms(1)]] unwrap_wrap [OF assms(1)]
  by (force simp: seal_tome_def open_tome_def and_then_eq_Inr)

lemma save_tome_content:
  assumes "good c" "save_tome (vault c) purpose aad rand b d = (d', r)"
  shows "case r of Inl e \<Rightarrow> content c d' = content c d
         | Inr _ \<Rightarrow> \<exists>s. content c d' = Inr (Some s) \<and> open_tome (vault c) aad s = Inr b"
proof (cases "seal_tome (vault c) purpose aad rand b")
  case (Inl e)
  with assms(2) show ?thesis by (auto simp: save_tome_def)
next
  case (Inr s)
  with assms(2) have "v_save (vault c) d s = (d', r)" by (simp add: save_tome_def)
  from save_content [OF assms(1) this] open_seal [OF assms(1) Inr]
  show ?thesis by (cases r) simp_all
qed

end

section \<open>The local store meets the contract\<close>

definition local_vault :: "local_cfg \<Rightarrow> file_system vault" where
  "local_vault c = \<lparr>v_prims = cfg_prims c, v_wrap = WrapDEK (cfg_prims c) (cfg_guard c),
     v_unwrap = UnwrapDEK (cfg_prims c) (cfg_guard c), v_load = local_Load c, v_save = local_Save c\<rparr>"

definition local_content :: "local_cfg \<Rightarrow> file_system \<Rightarrow> sealed_tome option outcome" where
  "local_content c fs =
     (case map_of (files fs) (cfg_path c) of
        None \<Rightarrow> Inr None
      | Some buf \<Rightarrow> (case cfg_unmarshal c buf of None \<Rightarrow> Inl Other | Some sealed \<Rightarrow> Inr (Some sealed)))"

definition local_good :: "local_cfg \<Rightarrow> bool" where
  "local_good c \<longleftrightarrow> aead_law (cfg_prims c) \<and>
     (\<forall>s buf. cfg_marshal c s = Some buf \<longrightarrow> cfg_unmarshal c buf = Some s)"

lemma Unwrap_Wrap:
  assumes "aead_law P" "WrapDEK P g rand dek aad = Inr w"
  shows "UnwrapDEK P g (Some w) aad = Inr dek"
  using assms SealAEAD_open [OF assms(1)]
  by (auto simp: WrapDEK_def UnwrapDEK_def and_then_eq_Inr split: if_splits)

lemma syscall_same:
  "syscall fs = (r, fs1) \<Longrightarrow> files fs1 = files fs \<and> past fs1 = past fs \<and> suffixes fs1 = suffixes fs"
  by (auto simp: syscall_def split: list.splits)

text \<open>\<open>seen path V fs\<close>: at every moment so far the file \<open>path\<close> was in one of the states \<open>V\<close>.\<close>

definition seen :: "string \<Rightarrow> byte list option set \<Rightarrow> file_system \<Rightarrow> bool" where
  "seen path V fs \<longleftrightarrow> (\<forall>f \<in> set (files fs # past fs). map_of f path \<in> V)"

lemma seen_syscall: "syscall fs = (r, fs1) \<Longrightarrow> seen path V fs1 = seen path V fs"
  by (drule syscall_same) (simp add: seen_def)

lemma seen_set_files: "seen path V fs \<Longrightarrow> map_of f path \<in> V \<Longrightarrow> seen path V (set_files f fs)"
  by (simp add: seen_def set_files_def)

lemma seen_now: "seen path V fs \<Longrightarrow> map_of (files fs) path \<in> V"
  by (simp add: seen_def)

lemma files_set_files [simp]: "files (set_files f fs) = f"
  by (simp add: set_files_def)

lemmas alist_simps = update_conv' delete_conv'

text \<open>\<open>keeps path fs fs'\<close>: going from \<open>fs\<close> to \<open>fs'\<close> the file \<open>path\<close> has the same content at every
  moment.\<close>

definition keeps :: "string \<Rightarrow> file_system \<Rightarrow> file_system \<Rightarrow> bool" where
  "keeps path fs fs' \<longleftrightarrow> map_of (files fs') path = map_of (files fs) path \<and>
     (\<forall>V. seen path V fs \<longrightarrow> seen path V fs')"

lemma keeps_refl: "keeps path fs fs"
  by (simp add: keeps_def)

lemma keeps_trans: "keeps path fs fs1 \<Longrightarrow> keeps path fs1 fs2 \<Longrightarrow> keeps path fs fs2"
  by (simp add: keeps_def)

lemma keeps_syscall: "syscall fs = (r, fs1) \<Longrightarrow> keeps path fs fs1"
  by (simp add: keeps_def seen_syscall syscall_same)

lemma keeps_set_files: "map_of f path = map_of (files fs) path \<Longrightarrow> keeps path fs (set_files f fs)"
  by (simp add: keeps_def seen_def set_files_def)

lemma create_temp_keeps:
  assumes "create_temp path fs = (t, fs1)"
  shows "keeps path fs fs1 \<and> (\<forall>tmp. t = Some tmp \<longrightarrow> tmp \<noteq> path)"
proof -
  obtain r fs0 where s: "syscall fs = (r, fs0)" by (cases "syscall fs")
  have k: "keeps path fs (fs0\<lparr>suffixes := z\<rparr>)" for z
    using syscall_same [OF s] by (simp add: keeps_def seen_def)
  have new: "keeps path fs (set_files (AList.update (path @ ''.tmp-'' @ x) [] (files fs0)) (fs0\<lparr>suffixes := z\<rparr>))" for x z
  proof (rule keeps_trans [OF k])
    show "keeps path (fs0\<lparr>suffixes := z\<rparr>) (set_files (AList.update (path @ ''.tmp-'' @ x) [] (files fs0)) (fs0\<lparr>suffixes := z\<rparr>))"
      by (rule keeps_set_files) (simp add: alist_simps)
  qed
  show ?thesis
  proof (cases r)
    case (Some n)
    with assms s keeps_syscall [OF s] show ?thesis by (auto simp: create_temp_def)
  next
    case None
    define L where "L = dropWhile (\<lambda>s. map_of (files fs0) (path @ ''.tmp-'' @ s) \<noteq> None) (suffixes fs0)"
    have "(case L of [] \<Rightarrow> (None, fs0\<lparr>suffixes := []\<rparr>)
      | x # rest \<Rightarrow> (Some (path @ ''.tmp-'' @ x),
          set_files (AList.update (path @ ''.tmp-'' @ x) [] (files fs0)) (fs0\<lparr>suffixes := rest\<rparr>))) = (t, fs1)"
      using assms s None by (simp only: create_temp_def L_def Let_def prod.case option.case)
    with k new show ?thesis by (cases L) auto
  qed
qed

lemma publish_temp_keeps:
  assumes "publish_temp c tmp buf fs = (fs', r)" "tmp \<noteq> cfg_path c"
  shows "case r of Inl e \<Rightarrow> keeps (cfg_path c) fs fs'
         | Inr _ \<Rightarrow> map_of (files fs') (cfg_path c) = Some buf \<and>
             (\<forall>V. Some buf \<in> V \<longrightarrow> seen (cfg_path c) V fs \<longrightarrow> seen (cfg_path c) V fs')"
proof -
  let ?K = "keeps (cfg_path c)"
  obtain r1 fs1 where s1: "syscall fs = (r1, fs1)" by (cases "syscall fs")
  let ?w = "set_files (AList.update tmp buf (files fs1)) fs1"
  obtain r2 fs2 where s2: "syscall ?w = (r2, fs2)" by (cases "syscall ?w")
  obtain r3 fs3 where s3: "syscall fs2 = (r3, fs3)" by (cases "syscall fs2")
  obtain r4 fs4 where s4: "syscall fs3 = (r4, fs4)" by (cases "syscall fs3")
  have k1: "?K fs fs1" by (rule keeps_syscall [OF s1])
  have torn: "?K fs (set_files (AList.update tmp b (files fs1)) fs1)" for b
    using assms(2) by (auto intro!: keeps_trans [OF k1 keeps_set_files] simp: alist_simps)
  have k2: "?K fs fs2" using torn keeps_syscall [OF s2] by (rule keeps_trans)
  have k3: "?K fs fs3" using k2 keeps_syscall [OF s3] by (rule keeps_trans)
  have k4: "?K fs fs4" using k3 keeps_syscall [OF s4] by (rule keeps_trans)
  show ?thesis
    using assms(1) s1 s2 s3 s4 torn k2 k3 k4
    by (auto simp: publish_temp_def rename_file_def alist_simps keeps_def
        split: option.splits intro!: seen_set_files)
qed

lemma remove_file_keeps: "tmp \<noteq> path \<Longrightarrow> keeps path fs (remove_file tmp fs)"
  by (auto simp: remove_file_def alist_simps split: prod.splits option.splits
      intro: keeps_syscall intro!: keeps_trans [OF keeps_syscall keeps_set_files])

lemma local_Save_keeps:
  assumes "local_Save c fs sealed = (fs', r)"
  shows "case r of Inl e \<Rightarrow> keeps (cfg_path c) fs fs'
         | Inr _ \<Rightarrow> \<exists>buf. cfg_marshal c sealed = Some buf \<and> map_of (files fs') (cfg_path c) = Some buf \<and>
             (\<forall>V. Some buf \<in> V \<longrightarrow> seen (cfg_path c) V fs \<longrightarrow> seen (cfg_path c) V fs')"
proof (cases "cfg_marshal c sealed")
  case None
  with assms show ?thesis by (auto simp: local_Save_def keeps_refl)
next
  case (Some buf)
  let ?K = "keeps (cfg_path c)"
  obtain r1 fs1 where s1: "(if cfg_dir c \<noteq> ''.'' then syscall fs else (None, fs)) = (r1, fs1)"
    by (cases "if cfg_dir c \<noteq> ''.'' then syscall fs else (None, fs)")
  then have k1: "?K fs fs1" by (auto split: if_splits intro: keeps_syscall keeps_refl)
  obtain t fs2 where s2: "create_temp (cfg_path c) fs1 = (t, fs2)" by (cases "create_temp (cfg_path c) fs1")
  from create_temp_keeps [OF s2] have k2: "?K fs fs2" and t: "\<forall>tmp. t = Some tmp \<longrightarrow> tmp \<noteq> cfg_path c"
    using keeps_trans [OF k1] by auto
  show ?thesis
  proof (cases r1)
    case (Some n)
    with assms \<open>cfg_marshal c sealed = Some buf\<close> s1 k1 show ?thesis by (auto simp: local_Save_def)
  next
    case None
    show ?thesis
    proof (cases t)
      case None
      with assms \<open>cfg_marshal c sealed = Some buf\<close> \<open>r1 = None\<close> s1 s2 k2 show ?thesis
        by (auto simp: local_Save_def)
    next
      case (Some tmp)
      obtain fs3 r3 where s3: "publish_temp c tmp buf fs2 = (fs3, r3)" by (cases "publish_temp c tmp buf fs2")
      have e: "fs' = remove_file tmp fs3" "r = r3"
        using assms \<open>cfg_marshal c sealed = Some buf\<close> \<open>r1 = None\<close> s1 s2 Some s3 by (simp_all add: local_Save_def)
      have "tmp \<noteq> cfg_path c" using t Some by simp
      from publish_temp_keeps [OF s3 this] remove_file_keeps [OF this, of fs3] k2
      show ?thesis unfolding e using \<open>cfg_marshal c sealed = Some buf\<close>
        by (cases r3) (auto simp: keeps_def)
    qed
  qed
qed

interpretation local_store: tome_vault local_good local_vault local_content
proof (unfold_locales, goal_cases)
  case (1 c)
  then show ?case by (simp add: local_good_def local_vault_def)
next
  case (2 c rand dek aad w)
  then show ?case by (simp add: local_good_def local_vault_def Unwrap_Wrap)
next
  case (3 c d d' r)
  then show ?case
    by (auto simp: local_good_def local_vault_def local_Load_def local_content_def
        split: prod.splits option.splits dest!: syscall_same)
next
  case (4 c d s d' r)
  then have "local_Save c d s = (d', r)" by (simp add: local_vault_def)
  from local_Save_keeps [OF this] 4(1) show ?case
    by (cases r) (auto simp: local_content_def keeps_def local_good_def)
qed

section \<open>Properties\<close>


definition toy_cfg :: "sealed_tome \<Rightarrow> local_cfg" where
  "toy_cfg s0 = \<lparr>cfg_prims = toy_primitives, cfg_guard = NewFileGuard [1] [2], cfg_path = ''t'', cfg_dir = ''.'',
     cfg_marshal = (\<lambda>s. if s = s0 then Some [7] else None), cfg_unmarshal = (\<lambda>b. Some s0)\<rparr>"

lemma toy_cfg_good: "local_good (toy_cfg s0)"
  by (simp add: local_good_def toy_cfg_def toy_laws)

definition some_tome :: sealed_tome where
  "some_tome = \<lparr>st_Version = 1, st_WrappedDEK = None, st_Purpose = ''session'', st_TomeCipher = CipherName,
     st_TomeNonce = [], st_Cipherblob = []\<rparr>"



text \<open>A save that succeeds, for the witnesses of the stores.\<close>

definition blank_disk :: file_system where
  "blank_disk = \<lparr>files = [], faults = [], suffixes = [''a'', ''b''], past = []\<rparr>"

definition zeros :: "byte list" where "zeros = replicate 112 0"

definition toy_sealed :: "string \<Rightarrow> sealed_tome" where
  "toy_sealed purpose = projr (seal_tome (local_vault (toy_cfg some_tome)) purpose [] zeros [3])"

lemma toy_seal: "seal_tome (local_vault (toy_cfg s0)) purpose [] zeros [3] = Inr (toy_sealed purpose)"
proof -
  have "\<exists>s. seal_tome (local_vault (toy_cfg s0)) purpose [] zeros [3] = Inr s"
    by (simp add: seal_tome_def GenerateDEK_def read_full_def zeros_def DEKSize_def NonceSize_def SealAEAD_def
        NewAEAD_def local_vault_def toy_cfg_def WrapDEK_def NewFileGuard_def SaltSize_def DeriveKey_def
        toy_primitives_def)
  moreover have "seal_tome (local_vault (toy_cfg s0)) purpose [] zeros [3] =
      seal_tome (local_vault (toy_cfg some_tome)) purpose [] zeros [3]"
    by (simp add: seal_tome_def local_vault_def toy_cfg_def)
  ultimately show ?thesis by (auto simp: toy_sealed_def)
qed

lemma toy_save: "snd (local_Save (toy_cfg s0) blank_disk s0) = Inr ()"
  by (simp add: local_Save_def toy_cfg_def blank_disk_def create_temp_def syscall_def set_files_def
      publish_temp_def Let_def)

lemma toy_save_tome:
  "snd (save_tome (local_vault (toy_cfg (toy_sealed purpose))) purpose [] zeros [3] blank_disk) = Inr ()"
  by (simp add: save_tome_def toy_seal) (simp add: local_vault_def toy_save)

end
