(* ===== verification/EpochKeys.thy ===== *)
theory EpochKeys
  imports Tome "HOL-Library.Multiset"
begin

text \<open>
  The epoch key store (\<open>stdlib/safe/epoch_keys.go\<close>): symmetric keys by epoch and role, the
  current epoch of every container, and their persistence in a sealed tome.  Every operation
  takes the session, the store with the disk behind it, and returns it updated.  A Go map is an
  association list; the order in which a \<open>range\<close> loop meets its keys is the parameter
  \<open>ek_range\<close>, the protobuf codec of the tome the parameters \<open>ek_marshal\<close> and \<open>ek_unmarshal\<close>.
\<close>

section \<open>State\<close>

record role_key =
  rk_Role :: u32
  rk_Key :: "byte list"

record epoch_entry =
  en_ContainerID :: uid
  en_EpochID :: uid
  en_CryptoKitID :: uid
  RoleKeys :: "role_key list"

record epoch_election =
  el_ContainerID :: uid
  el_EpochID :: uid

record epoch_tome =
  et_Revision :: nat
  et_Keys :: "epoch_entry list"
  et_Current :: "epoch_election list"

record epoch_store =
  ek_keys :: "(uid \<times> epoch_entry) list"
  ek_current :: "(uid \<times> uid) list"
  ek_aad :: "byte list"
  ek_closed :: bool
  ek_changed :: bool

record 'd ek_env =
  ek_vault :: "'d vault"
  ek_marshal :: "epoch_tome \<Rightarrow> byte list option"
  ek_unmarshal :: "byte list \<Rightarrow> epoch_tome option"
  ek_range :: "uid list \<Rightarrow> uid list"

section \<open>Opening\<close>

definition newer :: "uid \<Rightarrow> uid \<Rightarrow> bool" where
  "newer epochID cur \<longleftrightarrow> uid0 epochID > uid0 cur \<or> (uid0 epochID = uid0 cur \<and> uid1 epochID > uid1 cur)"

definition track_newest :: "uid \<Rightarrow> uid \<Rightarrow> (uid \<times> uid) list \<Rightarrow> (uid \<times> uid) list" where
  "track_newest containerID epochID current =
     (case map_of current containerID of
        None \<Rightarrow> AList.update containerID epochID current
      | Some cur \<Rightarrow> if newer epochID cur then AList.update containerID epochID current else current)"

definition index_entry :: "epoch_entry \<Rightarrow> epoch_store \<Rightarrow> epoch_store" where
  "index_entry entry st =
     st\<lparr>ek_keys := AList.update (en_EpochID entry) entry (ek_keys st),
        ek_current := track_newest (en_ContainerID entry) (en_EpochID entry) (ek_current st)\<rparr>"

definition apply_election :: "epoch_election \<Rightarrow> epoch_store \<Rightarrow> epoch_store" where
  "apply_election elected st =
     (if map_of (ek_keys st) (el_EpochID elected) \<noteq> None
      then st\<lparr>ek_current := AList.update (el_ContainerID elected) (el_EpochID elected) (ek_current st)\<rparr>
      else st)"

definition empty_store :: "byte list \<Rightarrow> epoch_store" where
  "empty_store aad = \<lparr>ek_keys = [], ek_current = [], ek_aad = aad, ek_closed = False, ek_changed = False\<rparr>"

definition load_epoch_tome :: "byte list \<Rightarrow> epoch_tome \<Rightarrow> epoch_store" where
  "load_epoch_tome aad tome =
     fold apply_election (et_Current tome) (fold index_entry (et_Keys tome) (empty_store aad))"

definition open_sealed :: "'d ek_env \<Rightarrow> byte list \<Rightarrow> sealed_tome option \<Rightarrow> epoch_store outcome" where
  "open_sealed E aad s =
     (case s of
        None \<Rightarrow> Inr (empty_store aad)
      | Some sealed \<Rightarrow>
          and_then (open_tome (ek_vault E) aad sealed) (\<lambda>tomeBytes.
          case ek_unmarshal E tomeBytes of
            None \<Rightarrow> Inl Other
          | Some tome \<Rightarrow> Inr (load_epoch_tome aad tome)))"

definition OpenEpochKeyStore ::
  "'d ek_env \<Rightarrow> byte list \<Rightarrow> 'd \<Rightarrow> 'd \<times> epoch_store outcome" where
  "OpenEpochKeyStore E aad d =
     (let (d', loaded) = v_load (ek_vault E) d in (d', and_then loaded (open_sealed E aad)))"

section \<open>Persisting\<close>

definition epoch_tome_of :: "'d ek_env \<Rightarrow> epoch_store \<Rightarrow> epoch_tome" where
  "epoch_tome_of E st =
     \<lparr>et_Revision = 1,
      et_Keys = map (\<lambda>k. the (map_of (ek_keys st) k)) (ek_range E (map fst (ek_keys st))),
      et_Current = map (\<lambda>c. \<lparr>el_ContainerID = c, el_EpochID = the (map_of (ek_current st) c)\<rparr>)
                     (ek_range E (map fst (ek_current st)))\<rparr>"

definition persistLocked ::
  "'d ek_env \<Rightarrow> byte list \<Rightarrow> epoch_store \<times> 'd \<Rightarrow> (epoch_store \<times> 'd) \<times> unit outcome" where
  "persistLocked E rand s =
     (let (st, d) = s
      in case ek_marshal E (epoch_tome_of E st) of
           None \<Rightarrow> ((st, d), Inl Other)
         | Some tomeBytes \<Rightarrow>
             (case save_tome (ek_vault E) ''epoch-keys'' (ek_aad st) rand tomeBytes d of
                (d', Inl e) \<Rightarrow> ((st, d'), Inl e)
              | (d', Inr _) \<Rightarrow> ((st\<lparr>ek_changed := False\<rparr>, d'), Inr ())))"

section \<open>Operations\<close>

fun put_role :: "u32 \<Rightarrow> byte list \<Rightarrow> role_key list \<Rightarrow> role_key list" where
  "put_role role key [] = [\<lparr>rk_Role = role, rk_Key = key\<rparr>]"
| "put_role role key (rk # rks) =
     (if rk_Role rk = role then rk\<lparr>rk_Key := key\<rparr> # rks else rk # put_role role key rks)"

definition put_key :: "uid \<Rightarrow> sym_key \<Rightarrow> epoch_store \<Rightarrow> epoch_store" where
  "put_key containerID key st =
     (let entry = (case map_of (ek_keys st) (EpochID key) of
            Some entry \<Rightarrow> entry
          | None \<Rightarrow> \<lparr>en_ContainerID = containerID, en_EpochID = EpochID key,
                     en_CryptoKitID = CryptoKitID key, RoleKeys = []\<rparr>)
      in st\<lparr>ek_keys := AList.update (EpochID key)
               (entry\<lparr>RoleKeys := put_role (Role key) (KeyBytes key) (RoleKeys entry)\<rparr>) (ek_keys st),
            ek_current := track_newest containerID (EpochID key) (ek_current st),
            ek_changed := True\<rparr>)"

definition PutKey ::
  "'d ek_env \<Rightarrow> byte list \<Rightarrow> uid \<Rightarrow> sym_key \<Rightarrow> epoch_store \<times> 'd \<Rightarrow> (epoch_store \<times> 'd) \<times> unit outcome" where
  "PutKey E rand containerID key s =
     (if ek_closed (fst s) then (s, Inl NotReady)
      else if \<not> IsSet (EpochID key) then (s, Inl Other)
      else persistLocked E rand (put_key containerID key (fst s), snd s))"

definition key_of_role :: "epoch_entry \<Rightarrow> uid \<Rightarrow> u32 \<Rightarrow> sym_key outcome" where
  "key_of_role entry epochID role =
     (case find (\<lambda>rk. rk_Role rk = role) (RoleKeys entry) of
        None \<Rightarrow> Inl KeyringNotFound
      | Some rk \<Rightarrow> Inr \<lparr>CryptoKitID = en_CryptoKitID entry, EpochID = epochID, Role = rk_Role rk,
                        KeyBytes = rk_Key rk\<rparr>)"

definition GetKey :: "epoch_store \<Rightarrow> uid \<Rightarrow> uid \<Rightarrow> u32 \<Rightarrow> sym_key outcome" where
  "GetKey st containerID epochID role =
     (if ek_closed st then Inl NotReady
      else case map_of (ek_keys st) epochID of
        None \<Rightarrow> Inl KeyringNotFound
      | Some entry \<Rightarrow> key_of_role entry epochID role)"

definition GetCurrentKey :: "epoch_store \<Rightarrow> uid \<Rightarrow> u32 \<Rightarrow> sym_key outcome" where
  "GetCurrentKey st containerID role =
     (if ek_closed st then Inl NotReady
      else case map_of (ek_current st) containerID of
        None \<Rightarrow> Inl KeyringNotFound
      | Some epochID \<Rightarrow>
          (case map_of (ek_keys st) epochID of
             None \<Rightarrow> Inl KeyringNotFound
           | Some entry \<Rightarrow> key_of_role entry epochID role))"

definition SetCurrentEpoch ::
  "'d ek_env \<Rightarrow> byte list \<Rightarrow> uid \<Rightarrow> uid \<Rightarrow> epoch_store \<times> 'd \<Rightarrow> (epoch_store \<times> 'd) \<times> unit outcome" where
  "SetCurrentEpoch E rand containerID epochID s =
     (let st = fst s
      in if ek_closed st then (s, Inl NotReady)
         else if map_of (ek_keys st) epochID = None then (s, Inl KeyringNotFound)
         else persistLocked E rand
                (st\<lparr>ek_current := AList.update containerID epochID (ek_current st), ek_changed := True\<rparr>, snd s))"

definition shred_epoch :: "uid \<Rightarrow> epoch_store \<Rightarrow> epoch_store" where
  "shred_epoch epochID st =
     (if map_of (ek_keys st) epochID = None then st
      else st\<lparr>ek_keys := AList.delete epochID (ek_keys st), ek_changed := True\<rparr>)"

definition drop_dangling :: "epoch_store \<Rightarrow> epoch_store" where
  "drop_dangling st =
     st\<lparr>ek_current := filter (\<lambda>(c, e). map_of (ek_keys st) e \<noteq> None) (ek_current st)\<rparr>"

definition ShredKeys ::
  "'d ek_env \<Rightarrow> byte list \<Rightarrow> uid list \<Rightarrow> epoch_store \<times> 'd \<Rightarrow> (epoch_store \<times> 'd) \<times> unit outcome" where
  "ShredKeys E rand epochIDs s =
     (if ek_closed (fst s) then (s, Inl NotReady)
      else let st = fold shred_epoch epochIDs (fst s)
           in if \<not> ek_changed st then ((st, snd s), Inr ())
              else persistLocked E rand (drop_dangling st, snd s))"

definition zeroKeys :: "epoch_store \<Rightarrow> epoch_store" where
  "zeroKeys st = st\<lparr>ek_keys := [], ek_current := [], ek_aad := replicate (length (ek_aad st)) 0\<rparr>"

definition eks_Close ::
  "'d ek_env \<Rightarrow> byte list \<Rightarrow> epoch_store \<times> 'd \<Rightarrow> (epoch_store \<times> 'd) \<times> unit outcome" where
  "eks_Close E rand s =
     (if ek_closed (fst s) then (s, Inr ())
      else (case (if ek_changed (fst s) then persistLocked E rand s else (s, Inr ())) of
              (s', Inl e) \<Rightarrow> (s', Inl e)
            | ((st, d), Inr _) \<Rightarrow> (((zeroKeys st)\<lparr>ek_closed := True\<rparr>, d), Inr ())))"

section \<open>What a session promises\<close>

text \<open>The finite maps a session stands for, and the epoch the store falls back to for a container
  without an election: the newest epoch held whose entry names it.\<close>

abbreviation held :: "epoch_store \<Rightarrow> uid \<rightharpoonup> epoch_entry" where
  "held st \<equiv> map_of (ek_keys st)"

abbreviation elected :: "epoch_store \<Rightarrow> uid \<rightharpoonup> uid" where
  "elected st \<equiv> map_of (ek_current st)"

definition opt_max :: "uid set \<Rightarrow> uid option" where
  "opt_max S = (if S = {} then None else Some (Max S))"

definition newest_held :: "epoch_store \<Rightarrow> uid \<rightharpoonup> uid" where
  "newest_held st c = opt_max (set (map fst (filter (\<lambda>(k, e). en_ContainerID e = c) (ek_keys st))))"

text \<open>Well-formed: map keys occur once, an entry is filed under its epoch, and every election
  names an epoch held.\<close>

definition wf_store :: "epoch_store \<Rightarrow> bool" where
  "wf_store st \<longleftrightarrow> distinct (map fst (ek_keys st)) \<and> distinct (map fst (ek_current st)) \<and>
     (\<forall>(k, e) \<in> set (ek_keys st). en_EpochID e = k) \<and> (\<forall>(c, e) \<in> set (ek_current st). held st e \<noteq> None)"

lemma newer_iff: "newer a b \<longleftrightarrow> b < a"
  by (cases "uid0 a" "uid0 b" rule: linorder_cases; cases "uid1 a" "uid1 b" rule: linorder_cases)
    (auto simp: newer_def less_uid_def CompareTo_def)

lemma elected_track_newest:
  "map_of (track_newest c e cur) =
     (map_of cur)(c \<mapsto> (case map_of cur c of None \<Rightarrow> e | Some x \<Rightarrow> max x e))"
proof (cases "map_of cur c")
  case None
  then show ?thesis by (simp add: track_newest_def update_conv')
next
  case (Some x)
  show ?thesis
  proof (cases "x < e")
    case True
    with Some show ?thesis by (simp add: track_newest_def newer_iff update_conv' max_absorb2)
  next
    case False
    then have "max x e = x" by (simp add: max_absorb1)
    with Some False show ?thesis by (simp add: track_newest_def newer_iff map_upd_triv)
  qed
qed

lemma wf_held: "wf_store st \<Longrightarrow> held st k = Some e \<Longrightarrow> en_EpochID e = k"
  by (auto simp: wf_store_def dest!: map_of_SomeD)

lemma wf_elected: "wf_store st \<Longrightarrow> elected st c = Some e \<Longrightarrow> held st e \<noteq> None"
  by (force simp: wf_store_def dest!: map_of_SomeD)

lemma wf_store_iff:
  "wf_store st \<longleftrightarrow> distinct (map fst (ek_keys st)) \<and> distinct (map fst (ek_current st)) \<and>
     (\<forall>k e. held st k = Some e \<longrightarrow> en_EpochID e = k) \<and> (\<forall>c e. elected st c = Some e \<longrightarrow> held st e \<noteq> None)"
  by (auto simp: wf_store_def map_of_eq_Some_iff)

lemma distinct_track_newest: "distinct (map fst cur) \<Longrightarrow> distinct (map fst (track_newest c e cur))"
  by (auto simp: track_newest_def distinct_update split: option.splits)

lemma wf_empty: "wf_store (empty_store aad)"
  by (simp add: wf_store_def empty_store_def)

lemma wf_index: "wf_store st \<Longrightarrow> wf_store (index_entry e st)"
  by (auto simp del: map_of_eq_Some_iff simp: wf_store_iff index_entry_def update_conv' elected_track_newest distinct_update
      distinct_track_newest max_def split: if_splits option.splits)

lemma wf_apply: "wf_store st \<Longrightarrow> wf_store (apply_election el st)"
  by (auto simp del: map_of_eq_Some_iff simp: wf_store_iff apply_election_def update_conv' distinct_update split: if_splits)

lemma held_put_key:
  "held (put_key c key st) = (held st)(EpochID key \<mapsto>
     (let e = (case held st (EpochID key) of Some e \<Rightarrow> e
        | None \<Rightarrow> \<lparr>en_ContainerID = c, en_EpochID = EpochID key, en_CryptoKitID = CryptoKitID key, RoleKeys = []\<rparr>)
      in e\<lparr>RoleKeys := put_role (Role key) (KeyBytes key) (RoleKeys e)\<rparr>))"
  by (simp add: put_key_def update_conv' Let_def)

lemma wf_put_key: "wf_store st \<Longrightarrow> wf_store (put_key c key st)"
proof -
  assume wf: "wf_store st"
  have "distinct (map fst (ek_keys (put_key c key st)))" "distinct (map fst (ek_current (put_key c key st)))"
    using wf by (simp_all add: wf_store_def put_key_def Let_def distinct_update distinct_track_newest)
  moreover have "elected (put_key c key st) = (elected st)(c \<mapsto>
      (case elected st c of None \<Rightarrow> EpochID key | Some x \<Rightarrow> max x (EpochID key)))"
    by (simp add: put_key_def Let_def elected_track_newest)
  moreover obtain entry where "held (put_key c key st) = (held st)(EpochID key \<mapsto> entry)"
      "en_EpochID entry = EpochID key"
    using wf by (cases "held st (EpochID key)") (simp_all add: held_put_key Let_def wf_held)
  moreover obtain x where "(case elected st c of None \<Rightarrow> EpochID key | Some x \<Rightarrow> max x (EpochID key)) = x"
      "x = EpochID key \<or> held st x \<noteq> None"
    using wf_elected [OF wf] by (cases "elected st c") (auto simp: max_def)
  ultimately show ?thesis
    using wf by (simp del: map_of_eq_Some_iff add: wf_store_iff) blast
qed

lemma wf_elect:
  "wf_store st \<Longrightarrow> held st e \<noteq> None \<Longrightarrow>
   wf_store (st\<lparr>ek_current := AList.update c e (ek_current st), ek_changed := b\<rparr>)"
  by (auto simp del: map_of_eq_Some_iff simp: wf_store_iff update_conv' distinct_update split: if_splits)

lemma shred_one:
  "held (shred_epoch i st) = held st |` (- {i})" "ek_current (shred_epoch i st) = ek_current st"
  "ek_aad (shred_epoch i st) = ek_aad st" "ek_closed (shred_epoch i st) = ek_closed st"
  "distinct (map fst (ek_keys st)) \<Longrightarrow> distinct (map fst (ek_keys (shred_epoch i st)))"
  "ek_changed st \<Longrightarrow> ek_changed (shred_epoch i st)"
  "\<not> ek_changed (shred_epoch i st) \<Longrightarrow> shred_epoch i st = st"
  by (auto simp: shred_epoch_def delete_conv' restrict_map_def fun_eq_iff distinct_delete split: if_splits)

lemma shred_fold:
  "held (fold shred_epoch ids st) = held st |` (- set ids)"
  "ek_current (fold shred_epoch ids st) = ek_current st"
  "ek_aad (fold shred_epoch ids st) = ek_aad st" "ek_closed (fold shred_epoch ids st) = ek_closed st"
  "distinct (map fst (ek_keys st)) \<Longrightarrow> distinct (map fst (ek_keys (fold shred_epoch ids st)))"
  "ek_changed st \<Longrightarrow> ek_changed (fold shred_epoch ids st)"
  by (induction ids arbitrary: st) (simp_all add: shred_one restrict_map_def fun_eq_iff)

lemma shred_unchanged: "\<not> ek_changed (fold shred_epoch ids st) \<Longrightarrow> fold shred_epoch ids st = st"
proof (induction ids arbitrary: st)
  case (Cons i ids)
  then have "fold shred_epoch ids (shred_epoch i st) = shred_epoch i st" by simp
  with Cons.prems shred_one(7) [of i st] show ?case by simp
qed simp

lemma wf_drop_dangling:
  assumes "distinct (map fst (ek_keys st))" "distinct (map fst (ek_current st))"
    "\<And>k e. held st k = Some e \<Longrightarrow> en_EpochID e = k"
  shows "wf_store (drop_dangling st)"
  using assms by (auto simp: wf_store_def drop_dangling_def distinct_map_filter map_of_eq_Some_iff)

subsection \<open>Reopening\<close>

lemma held_index:
  "\<forall>e \<in> set es. K (en_EpochID e) = Some e \<Longrightarrow>
   held (fold index_entry es st) k = (if k \<in> en_EpochID ` set es then K k else held st k)"
  by (induction es arbitrary: st) (auto simp: index_entry_def update_conv')

lemma opt_max_insert:
  "finite S \<Longrightarrow> opt_max (insert x S) = Some (case opt_max S of None \<Rightarrow> x | Some y \<Rightarrow> max y x)"
  by (simp add: opt_max_def max.commute)

definition epochs_of :: "epoch_entry set \<Rightarrow> uid \<Rightarrow> uid set" where
  "epochs_of A c = en_EpochID ` {e \<in> A. en_ContainerID e = c}"

lemma epochs_of_insert:
  "epochs_of (insert e A) c =
     (if en_ContainerID e = c then insert (en_EpochID e) (epochs_of A c) else epochs_of A c)"
  by (auto simp: epochs_of_def)

definition tracks :: "epoch_entry set \<Rightarrow> epoch_store \<Rightarrow> bool" where
  "tracks A st \<longleftrightarrow> (\<forall>c. elected st c = opt_max (epochs_of A c))"

lemma tracks_index:
  assumes "tracks A st" "finite A"
  shows "tracks (insert e A) (index_entry e st)"
proof -
  have "finite (epochs_of A c)" for c using assms(2) by (simp add: epochs_of_def)
  then show ?thesis
    using assms(1) by (simp add: tracks_def index_entry_def elected_track_newest epochs_of_insert opt_max_insert)
qed

lemma tracks_fold: "tracks A st \<Longrightarrow> finite A \<Longrightarrow> tracks (A \<union> set es) (fold index_entry es st)"
proof (induction es arbitrary: A st)
  case (Cons e es)
  from Cons.IH [OF tracks_index [OF Cons.prems, of e]] Cons.prems(2) show ?case by simp
qed simp

lemma elected_apply:
  "\<forall>el \<in> set els. held st (el_EpochID el) \<noteq> None \<and> C (el_ContainerID el) = Some (el_EpochID el) \<Longrightarrow>
   held (fold apply_election els st) = held st \<and>
   (\<forall>c. elected (fold apply_election els st) c = (if c \<in> el_ContainerID ` set els then C c else elected st c))"
  by (induction els arbitrary: st) (auto simp: apply_election_def update_conv')

lemma reload:
  assumes "wf_store st" "\<And>ks. mset (ek_range E ks) = mset ks" "st2 = load_epoch_tome aad (epoch_tome_of E st)"
  shows "held st2 = held st \<and> elected st2 = newest_held st ++ elected st"
proof -
  have r: "set (ek_range E ks) = set ks" for ks using assms(2) by (metis set_mset_mset)
  let ?es = "map (\<lambda>k. the (held st k)) (ek_range E (map fst (ek_keys st)))"
  let ?els = "map (\<lambda>c. \<lparr>el_ContainerID = c, el_EpochID = the (elected st c)\<rparr>) (ek_range E (map fst (ek_current st)))"
  let ?st1 = "fold index_entry ?es (empty_store aad)"
  have es: "\<forall>e \<in> set ?es. held st (en_EpochID e) = Some e"
    using wf_held [OF assms(1)] by (auto simp: r weak_map_of_SomeI)
  have ids: "en_EpochID ` set ?es = fst ` set (ek_keys st)"
  proof -
    have "en_EpochID (the (held st k)) = k" if "k \<in> fst ` set (ek_keys st)" for k
      using that wf_held [OF assms(1)] by (metis domD dom_map_of_conv_image_fst option.sel)
    then show ?thesis by (force simp: r image_iff)
  qed
  have h1: "held ?st1 = held st"
  proof
    fix k
    have "held ?st1 k = (if k \<in> fst ` set (ek_keys st) then held st k else None)"
      using held_index [OF es, of "empty_store aad" k] unfolding ids by (simp add: empty_store_def)
    moreover have "k \<notin> fst ` set (ek_keys st) \<Longrightarrow> held st k = None" by (simp add: map_of_eq_None_iff)
    ultimately show "held ?st1 k = held st k" by simp
  qed
  have "set ?es = snd ` set (ek_keys st)"
    using assms(1) by (force simp: r wf_store_def image_iff)
  moreover have "tracks {} (empty_store aad)" by (simp add: tracks_def empty_store_def epochs_of_def opt_max_def)
  ultimately have t: "tracks (snd ` set (ek_keys st)) ?st1"
    using tracks_fold [of "{}" "empty_store aad" ?es] by simp
  have S: "epochs_of (snd ` set (ek_keys st)) c =
      set (map fst (filter (\<lambda>(k, e). en_ContainerID e = c) (ek_keys st)))" for c
    using assms(1) by (force simp: wf_store_def image_iff epochs_of_def)
  have c1: "elected ?st1 = newest_held st"
    using t unfolding tracks_def S by (simp add: newest_held_def fun_eq_iff)
  have "\<forall>el \<in> set ?els. held ?st1 (el_EpochID el) \<noteq> None \<and> elected st (el_ContainerID el) = Some (el_EpochID el)"
  proof
    fix el assume "el \<in> set ?els"
    then obtain c where c: "c \<in> fst ` set (ek_current st)" "el = \<lparr>el_ContainerID = c, el_EpochID = the (elected st c)\<rparr>"
      by (auto simp: r)
    then obtain e where "elected st c = Some e" by (metis domD dom_map_of_conv_image_fst)
    with c wf_elected [OF assms(1)] show "held ?st1 (el_EpochID el) \<noteq> None \<and> elected st (el_ContainerID el) = Some (el_EpochID el)"
      unfolding h1 by simp
  qed
  from elected_apply [OF this] have "held st2 = held st"
    "elected st2 c = (if c \<in> fst ` set (ek_current st) then elected st c else newest_held st c)" for c
    unfolding assms(3) load_epoch_tome_def epoch_tome_of_def by (simp_all add: h1 c1 r image_image)
  moreover have "c \<in> fst ` set (ek_current st) \<longleftrightarrow> elected st c \<noteq> None" for c
    by (simp add: map_of_eq_None_iff)
  ultimately show ?thesis
    by (auto simp: fun_eq_iff map_add_def split: option.splits)
qed

text \<open>A store just opened has an election for every container it holds a key of.\<close>

definition covered :: "epoch_store \<Rightarrow> bool" where
  "covered st \<longleftrightarrow> (\<forall>k e. held st k = Some e \<longrightarrow> elected st (en_ContainerID e) \<noteq> None)"

lemma covered_index: "covered st \<Longrightarrow> covered (index_entry e st)"
  by (auto simp: covered_def index_entry_def update_conv' elected_track_newest)

lemma covered_apply: "covered st \<Longrightarrow> covered (apply_election el st)"
  by (auto simp: covered_def apply_election_def update_conv')

lemma fold_preserves: "(\<And>x s. P s \<Longrightarrow> P (f x s)) \<Longrightarrow> P st \<Longrightarrow> P (fold f xs st)"
  by (induction xs arbitrary: st) simp_all

lemma covered_newest:
  assumes "covered st" "wf_store st"
  shows "newest_held st ++ elected st = elected st"
proof (rule ext)
  fix c
  have "newest_held st c = None" if "elected st c = None"
  proof -
    have "\<not> (k, e) \<in> set (ek_keys st)" if "en_ContainerID e = c" for k e
    proof
      assume "(k, e) \<in> set (ek_keys st)"
      then have "held st k = Some e" using assms(2) by (simp add: wf_store_def)
      with assms(1) have "elected st (en_ContainerID e) \<noteq> None" unfolding covered_def by blast
      with that \<open>elected st c = None\<close> show False by simp
    qed
    then have "filter (\<lambda>(k, e). en_ContainerID e = c) (ek_keys st) = []" by (auto simp: filter_empty_conv)
    then show ?thesis by (simp add: newest_held_def opt_max_def)
  qed
  then show "(newest_held st ++ elected st) c = elected st c" by (auto simp: map_add_def split: option.splits)
qed

definition fresh_store :: "byte list \<Rightarrow> epoch_store \<Rightarrow> bool" where
  "fresh_store aad st \<longleftrightarrow> wf_store st \<and> covered st \<and> \<not> ek_changed st \<and> \<not> ek_closed st \<and> ek_aad st = aad"

lemma empty_loaded: "fresh_store aad (empty_store aad)"
  by (simp add: fresh_store_def wf_empty) (simp add: covered_def empty_store_def)

lemma fresh_index: "fresh_store aad st \<Longrightarrow> fresh_store aad (index_entry e st)"
  by (simp add: fresh_store_def wf_index covered_index) (simp add: index_entry_def)

lemma fresh_apply: "fresh_store aad st \<Longrightarrow> fresh_store aad (apply_election el st)"
  by (simp add: fresh_store_def wf_apply covered_apply) (simp add: apply_election_def)

lemma loaded_store: "fresh_store aad (load_epoch_tome aad tome)"
  unfolding load_epoch_tome_def
  by (intro fold_preserves [where P = "fresh_store aad"] fresh_apply fresh_index empty_loaded)

subsection \<open>Sessions over a vault\<close>

text \<open>The calls that change a session, each with the random bytes it may draw.\<close>

datatype ek_call =
    Put "byte list" uid sym_key
  | Elect "byte list" uid uid
  | Shred "byte list" "uid list"
  | Shut "byte list"

fun ek_step :: "'d ek_env \<Rightarrow> ek_call \<Rightarrow> epoch_store \<times> 'd \<Rightarrow> (epoch_store \<times> 'd) \<times> unit outcome" where
  "ek_step E (Put rand c key) s = PutKey E rand c key s"
| "ek_step E (Elect rand c e) s = SetCurrentEpoch E rand c e s"
| "ek_step E (Shred rand ids) s = ShredKeys E rand ids s"
| "ek_step E (Shut rand) s = eks_Close E rand s"

definition ek_run :: "'d ek_env \<Rightarrow> ek_call list \<Rightarrow> epoch_store \<times> 'd \<Rightarrow> epoch_store \<times> 'd" where
  "ek_run E calls s = fold (\<lambda>call s. fst (ek_step E call s)) calls s"

text \<open>The client of the vault: the store's environment uses it, its codec inverts, and a \<open>range\<close>
  loop meets every key once.\<close>

locale epoch_keys = tome_vault good vault content
  for good :: "'c \<Rightarrow> bool" and vault :: "'c \<Rightarrow> 'd vault" and content :: "'c \<Rightarrow> 'd \<Rightarrow> sealed_tome option outcome" +
  fixes env :: "'c \<Rightarrow> 'd ek_env"
  assumes env_vault: "ek_vault (env c) = vault c"
    and codec: "good c \<Longrightarrow> ek_marshal (env c) t = Some b \<Longrightarrow> ek_unmarshal (env c) b = Some t"
    and range_all: "good c \<Longrightarrow> mset (ek_range (env c) ks) = mset ks"
begin

text \<open>The disk reflects a session: what opens from it holds the same keys and the same elections,
  the newest epoch held standing in where there is no election.\<close>

definition reflects :: "'c \<Rightarrow> byte list \<Rightarrow> 'd \<Rightarrow> epoch_store \<Rightarrow> bool" where
  "reflects c aad d st \<longleftrightarrow>
     (\<exists>st2. and_then (content c d) (open_sealed (env c) aad) = Inr st2 \<and>
            held st2 = held st \<and> elected st2 = newest_held st ++ elected st)"

definition session_inv :: "'c \<Rightarrow> byte list \<Rightarrow> epoch_store \<times> 'd \<Rightarrow> bool" where
  "session_inv c aad s \<longleftrightarrow> ek_closed (fst s) \<or>
     (wf_store (fst s) \<and> ek_aad (fst s) = aad \<and>
      (\<not> ek_changed (fst s) \<longrightarrow> reflects c aad (snd s) (fst s)))"

lemma persist:
  assumes "good c" "wf_store st" "ek_aad st = aad" "persistLocked (env c) rand (st, d) = ((st', d'), r)"
  shows "case r of Inl e \<Rightarrow> st' = st \<and> content c d' = content c d
         | Inr _ \<Rightarrow> st' = st\<lparr>ek_changed := False\<rparr> \<and> reflects c aad d' st"
proof (cases "ek_marshal (env c) (epoch_tome_of (env c) st)")
  case None
  with assms(4) show ?thesis by (auto simp: persistLocked_def)
next
  case (Some b)
  obtain d2 r2 where sv: "save_tome (vault c) ''epoch-keys'' aad rand b d = (d2, r2)"
    by (cases "save_tome (vault c) ''epoch-keys'' aad rand b d")
  note k = save_tome_content [OF assms(1) sv]
  show ?thesis
  proof (cases r2)
    case (Inl e)
    with k assms(3,4) Some sv show ?thesis by (auto simp: persistLocked_def env_vault)
  next
    case (Inr u)
    with k obtain s where s: "content c d2 = Inr (Some s)" "open_tome (vault c) aad s = Inr b" by auto
    let ?st2 = "load_epoch_tome aad (epoch_tome_of (env c) st)"
    have "and_then (content c d2) (open_sealed (env c) aad) = Inr ?st2"
      using s codec [OF assms(1) Some] by (simp add: open_sealed_def env_vault)
    with reload [OF assms(2) range_all [OF assms(1)] refl, of aad] have "reflects c aad d2 st"
      unfolding reflects_def by blast
    with Inr assms(3,4) Some sv show ?thesis by (auto simp: persistLocked_def env_vault)
  qed
qed

lemma persist_inv:
  assumes "good c" "wf_store st" "ek_aad st = aad" "ek_changed st"
    and "persistLocked (env c) rand (st, d) = (s', r)"
  shows "session_inv c aad s' \<and> (r = Inr () \<longrightarrow> \<not> ek_changed (fst s'))"
proof -
  obtain st' d' where s': "s' = (st', d')" by (cases s')
  have "newest_held (st\<lparr>ek_changed := b\<rparr>) = newest_held st" for b
    by (rule ext) (simp add: newest_held_def)
  then have "reflects c aad d' (st\<lparr>ek_changed := b\<rparr>) = reflects c aad d' st" for b
    by (simp add: reflects_def)
  moreover have "wf_store (st\<lparr>ek_changed := b\<rparr>) = wf_store st" for b by (simp add: wf_store_def)
  ultimately show ?thesis
    using persist [OF assms(1,2,3) assms(5)[unfolded s']] assms(2,3,4)
    by (cases r) (auto simp: s' session_inv_def)
qed

lemma step_inv:
  assumes "good c" "session_inv c aad s" "ek_step (env c) call s = (s', r)"
  shows "session_inv c aad s' \<and> (r = Inr () \<and> \<not> ek_closed (fst s') \<longrightarrow> \<not> ek_changed (fst s'))"
proof (cases "ek_closed (fst s)")
  case True
  with assms(2,3) show ?thesis
    by (cases call) (auto simp: PutKey_def SetCurrentEpoch_def ShredKeys_def eks_Close_def session_inv_def Let_def)
next
  case False
  obtain st d where s: "s = (st, d)" by (cases s)
  have wf: "wf_store st" "ek_aad st = aad" "\<not> ek_closed st" using assms(2) False by (auto simp: s session_inv_def)
  note P = persist_inv [OF assms(1)]
  show ?thesis
  proof (cases call)
    case (Put rand cid key)
    from P [OF wf_put_key [OF wf(1)], where rand = rand and d = d and s' = s' and r = r and aad = aad] show ?thesis
      using assms(2,3) wf by (auto simp: s Put PutKey_def put_key_def Let_def split: if_splits)
  next
    case (Elect rand cid e)
    show ?thesis
    proof (cases "held st e = None")
      case True
      with assms(2,3) wf show ?thesis by (auto simp: s Elect SetCurrentEpoch_def)
    next
      case False
      from P [OF wf_elect [OF wf(1) False], where rand = rand and d = d and s' = s' and r = r and aad = aad] show ?thesis
        using assms(3) wf False by (auto simp: s Elect SetCurrentEpoch_def)
    qed
  next
    case (Shred rand ids)
    let ?st = "fold shred_epoch ids st"
    show ?thesis
    proof (cases "ek_changed ?st")
      case False
      with shred_unchanged [OF False] assms(2,3) wf show ?thesis by (auto simp: s Shred ShredKeys_def)
    next
      case True
      have "wf_store (drop_dangling ?st)"
      proof (rule wf_drop_dangling)
        show "distinct (map fst (ek_keys ?st))" "distinct (map fst (ek_current ?st))"
          using wf(1) by (simp_all add: shred_fold wf_store_def)
        show "en_EpochID e = k" if "held ?st k = Some e" for k e
          using that wf_held [OF wf(1)] by (auto simp: shred_fold restrict_map_def split: if_splits)
      qed
      from P [OF this, where rand = rand and d = d and s' = s' and r = r and aad = aad] show ?thesis
        using assms(3) wf True by (simp add: s Shred ShredKeys_def Let_def drop_dangling_def shred_fold)
    qed
  next
    case (Shut rand)
    show ?thesis
    proof (cases "ek_changed st")
      case False
      with assms(3) wf show ?thesis by (auto simp: s Shut eks_Close_def session_inv_def)
    next
      case True
      obtain s1 r1 where p: "persistLocked (env c) rand (st, d) = (s1, r1)" by (cases "persistLocked (env c) rand (st, d)")
      from P [OF wf(1,2) True p] assms(3) wf True p show ?thesis
        by (cases r1; cases s1) (auto simp: s Shut eks_Close_def session_inv_def)
    qed
  qed
qed

lemma open_inv:
  assumes "good c" "OpenEpochKeyStore (env c) aad d = (d', Inr st)"
  shows "session_inv c aad (st, d')"
proof -
  obtain d1 loaded where l: "v_load (vault c) d = (d1, loaded)" by (cases "v_load (vault c) d")
  with assms(2) obtain s where s: "d' = d1" "loaded = Inr s" "open_sealed (env c) aad s = Inr st"
    by (auto simp: OpenEpochKeyStore_def env_vault and_then_eq_Inr)
  with load_content [OF assms(1) l] have c: "content c d' = Inr s" by simp
  have "wf_store st \<and> \<not> ek_changed st \<and> ek_aad st = aad \<and> newest_held st ++ elected st = elected st"
    using s(3) loaded_store [of aad] empty_loaded [of aad] covered_newest
    by (auto simp: fresh_store_def open_sealed_def and_then_eq_Inr split: option.splits)
  with s(3) c show ?thesis by (auto simp: session_inv_def reflects_def)
qed

lemma run_inv: "good c \<Longrightarrow> session_inv c aad s \<Longrightarrow> session_inv c aad (ek_run (env c) calls s)"
proof (induction calls arbitrary: s)
  case (Cons call calls)
  then have "session_inv c aad (fst (ek_step (env c) call s))"
    using step_inv [of c aad s call] by (metis prod.collapse)
  with Cons show ?case by (simp add: ek_run_def)
qed (simp add: ek_run_def)

text \<open>Whatever calls a session has made, when the last one reports success the disk reflects it.\<close>

lemma success_is_durable:
  assumes "good c" "OpenEpochKeyStore (env c) aad d0 = (d1, Inr st0)"
    and "ek_step (env c) call (ek_run (env c) calls (st0, d1)) = ((st, d), Inr ())" "\<not> ek_closed st"
  shows "reflects c aad d st"
proof -
  from run_inv [OF assms(1) open_inv [OF assms(1,2)]]
  have "session_inv c aad (ek_run (env c) calls (st0, d1))" .
  from step_inv [OF assms(1) this assms(3)] assms(4) show ?thesis by (auto simp: session_inv_def)
qed

end

section \<open>The store over the local vault\<close>

record ek_cfg =
  ec_local :: local_cfg
  ec_marshal :: "epoch_tome \<Rightarrow> byte list option"
  ec_unmarshal :: "byte list \<Rightarrow> epoch_tome option"
  ec_range :: "uid list \<Rightarrow> uid list"

definition local_env :: "ek_cfg \<Rightarrow> file_system ek_env" where
  "local_env c = \<lparr>ek_vault = local_vault (ec_local c), ek_marshal = ec_marshal c,
     ek_unmarshal = ec_unmarshal c, ek_range = ec_range c\<rparr>"

definition ek_good :: "ek_cfg \<Rightarrow> bool" where
  "ek_good c \<longleftrightarrow> local_good (ec_local c) \<and>
     (\<forall>t b. ec_marshal c t = Some b \<longrightarrow> ec_unmarshal c b = Some t) \<and> (\<forall>ks. mset (ec_range c ks) = mset ks)"

interpretation local_keys: epoch_keys ek_good "\<lambda>c. local_vault (ec_local c)"
  "\<lambda>c. local_content (ec_local c)" local_env
proof (unfold_locales, goal_cases)
  case (1 c)
  then show ?case by (simp add: ek_good_def local_store.cipher)
next
  case (2 c rand dek aad w)
  then show ?case by (simp add: ek_good_def local_store.unwrap_wrap)
next
  case (3 c d d' r)
  with local_store.load_content [of "ec_local c" d d' r] show ?case by (simp add: ek_good_def)
next
  case (4 c d s d' r)
  with local_store.save_content [of "ec_local c" d s d' r] show ?case by (simp add: ek_good_def)
qed (simp_all add: ek_good_def local_env_def)

text \<open>Reopening once the disk answers again.\<close>

definition reopen :: "ek_cfg \<Rightarrow> byte list \<Rightarrow> file_system \<Rightarrow> epoch_store outcome" where
  "reopen c aad fs = snd (OpenEpochKeyStore (local_env c) aad (fs\<lparr>faults := []\<rparr>))"

lemma reopen_content: "reopen c aad fs = and_then (local_content (ec_local c) fs) (open_sealed (local_env c) aad)"
  by (simp add: reopen_def OpenEpochKeyStore_def local_env_def local_vault_def local_Load_def syscall_def
      local_content_def case_prod_beta split: option.splits)

lemma find_put_role:
  "find (\<lambda>rk. rk_Role rk = r) (put_role role key rks) =
     (if r = role then Some \<lparr>rk_Role = role, rk_Key = key\<rparr> else find (\<lambda>rk. rk_Role rk = r) rks)"
  by (induction rks) auto

lemma key_of_role_put:
  "key_of_role (en\<lparr>RoleKeys := put_role r k (RoleKeys en)\<rparr>) e ro =
     (if ro = r then Inr \<lparr>CryptoKitID = en_CryptoKitID en, EpochID = e, Role = r, KeyBytes = k\<rparr>
      else key_of_role en e ro)"
  by (cases en) (simp add: key_of_role_def find_put_role split: option.splits)

lemma persist_fields:
  assumes "persistLocked E rand (st, d) = ((st', d'), r)"
  shows "ek_keys st' = ek_keys st" "ek_current st' = ek_current st" "ek_closed st' = ek_closed st"
  using assms by (auto simp: persistLocked_def split: option.splits sum.splits prod.splits)

lemma reopen_open: "reopen c aad d = Inr st \<Longrightarrow> \<not> ek_closed st"
  using loaded_store empty_loaded
  by (auto simp: reopen_content open_sealed_def and_then_eq_Inr fresh_store_def split: option.splits)

section \<open>Properties\<close>

text \<open>C9. Durable at return: whatever a session has done since it was opened, failed calls included, once
  a call reports success the store that opens from the disk holds the same keys and the same
  elections, and where there is none the newest epoch held stands in.\<close>

theorem key_store_durable:
  assumes "ek_good c" "OpenEpochKeyStore (local_env c) aad d0 = (d1, Inr st0)"
    and "ek_step (local_env c) call (ek_run (local_env c) calls (st0, d1)) = ((st, d), Inr ())"
    and "\<not> ek_closed st"
  shows "\<exists>st2. reopen c aad d = Inr st2 \<and> held st2 = held st \<and>
           elected st2 = newest_held st ++ elected st"
  using local_keys.success_is_durable [OF assms]
  by (simp add: local_keys.reflects_def reopen_content)

text \<open>An installed key is served at once for its epoch and role, under the kit of the epoch's first
  key, whether or not it reached the disk; no other key changes; and the epoch becomes current
  exactly when it is newer than the current one.\<close>

theorem PutKey_serves:
  assumes "PutKey E rand cid key (st, d) = ((st', d'), r)" "\<not> ek_closed st" "IsSet (EpochID key)"
  shows "GetKey st' x e role =
           (if e = EpochID key \<and> role = Role key
            then Inr (key\<lparr>CryptoKitID := (case held st e of None \<Rightarrow> CryptoKitID key | Some en \<Rightarrow> en_CryptoKitID en)\<rparr>)
            else GetKey st x e role) \<and>
         elected st' = (elected st)(cid \<mapsto>
           (case elected st cid of None \<Rightarrow> EpochID key | Some cur \<Rightarrow> max cur (EpochID key)))"
proof -
  from assms have p: "persistLocked E rand (put_key cid key st, d) = ((st', d'), r)" by (simp add: PutKey_def)
  note f = persist_fields [OF p]
  have c: "ek_closed (put_key cid key st) = ek_closed st" "elected (put_key cid key st) =
      (elected st)(cid \<mapsto> (case elected st cid of None \<Rightarrow> EpochID key | Some cur \<Rightarrow> max cur (EpochID key)))"
    by (simp_all add: put_key_def Let_def elected_track_newest)
  have "GetKey st' x e role = GetKey st x e role" if "e \<noteq> EpochID key"
    using that by (simp add: GetKey_def f c held_put_key)
  moreover have "GetKey st' x e role =
      (if role = Role key
       then Inr (key\<lparr>CryptoKitID := (case held st e of None \<Rightarrow> CryptoKitID key | Some en \<Rightarrow> en_CryptoKitID en)\<rparr>)
       else GetKey st x e role)" if "e = EpochID key"
    using that assms(2)
    by (cases "held st (EpochID key)")
      (simp_all add: GetKey_def f c held_put_key Let_def key_of_role_put, simp_all add: key_of_role_def)
  ultimately show ?thesis
    by (cases "e = EpochID key"; cases "role = Role key") (simp_all add: f c)
qed

text \<open>C24. A successful shred is final: in the session and in any store opened later the epochs are gone,
  in every role, and every other key is served as before.\<close>

theorem ShredKeys_gone:
  assumes "ek_good c" "OpenEpochKeyStore (local_env c) aad d0 = (d1, Inr st0)"
    and "ek_run (local_env c) calls (st0, d1) = s" "\<not> ek_closed (fst s)"
    and "ShredKeys (local_env c) rand ids s = ((st, d), Inr ())"
  shows "\<exists>st2. reopen c aad d = Inr st2 \<and>
           GetKey st2 x e role = (if e \<in> set ids then Inl KeyringNotFound else GetKey (fst s) x e role) \<and>
           GetKey st x e role = GetKey st2 x e role"
proof -
  have st: "held st = held (fst s) |` (- set ids)" "ek_closed st = ek_closed (fst s)"
  proof -
    let ?f = "fold shred_epoch ids (fst s)"
    have "ek_keys st = ek_keys ?f \<and> ek_closed st = ek_closed ?f"
    proof (cases "ek_changed ?f")
      case True
      with assms(4,5) have "persistLocked (local_env c) rand (drop_dangling ?f, snd s) = ((st, d), Inr ())"
        by (simp add: ShredKeys_def Let_def)
      from persist_fields [OF this] show ?thesis by (simp add: drop_dangling_def)
    next
      case False
      with assms(4,5) show ?thesis by (simp add: ShredKeys_def)
    qed
    then show "held st = held (fst s) |` (- set ids)" "ek_closed st = ek_closed (fst s)"
      by (simp_all add: shred_fold)
  qed
  from local_keys.success_is_durable [OF assms(1,2), of "Shred rand ids" calls st d] assms(3,4,5) st(2)
  obtain st2 where st2: "reopen c aad d = Inr st2" "held st2 = held st"
    by (auto simp: local_keys.reflects_def reopen_content)
  note reopen_open [OF st2(1)]
  with st2 st assms(4) show ?thesis
    by (intro exI [of _ st2]) (auto simp: GetKey_def restrict_map_def)
qed

text \<open>The interface promises that a container whose current epoch is shredded has no current epoch
  until a key is put or an epoch elected.  A session keeps the promise, but a store opened from
  the disk it leaves elects the newest epoch still held.\<close>

theorem shred_reelects:
  assumes "ek_good c" "OpenEpochKeyStore (local_env c) aad d0 = (d1, Inr st0)"
    and "ShredKeys (local_env c) rand ids (ek_run (local_env c) calls (st0, d1)) = ((st, d), Inr ())"
    and "\<not> ek_closed st" "elected st cid = None" "newest_held st cid = Some e"
  shows "GetCurrentKey st cid role = Inl KeyringNotFound \<and>
         (\<exists>st2. reopen c aad d = Inr st2 \<and> GetCurrentKey st2 cid role = GetKey st cid e role)"
proof -
  from local_keys.success_is_durable [OF assms(1,2), of "Shred rand ids" calls st d] assms(3,4)
  obtain st2 where st2: "reopen c aad d = Inr st2" "held st2 = held st" "elected st2 = newest_held st ++ elected st"
    by (auto simp: local_keys.reflects_def reopen_content)
  note reopen_open [OF st2(1)]
  with st2 assms(4,5,6) show ?thesis
    by (auto simp: GetCurrentKey_def GetKey_def map_add_def)
qed

section \<open>Witnesses\<close>

text \<open>A codec that knows one tome and one sealed tome: a save of any other content fails.\<close>

definition toy_ek :: "epoch_tome \<Rightarrow> sealed_tome \<Rightarrow> ek_cfg" where
  "toy_ek t0 s0 = \<lparr>ec_local = toy_cfg s0, ec_marshal = (\<lambda>t. if t = t0 then Some [3] else None),
     ec_unmarshal = (\<lambda>b. Some t0), ec_range = rev\<rparr>"

lemma toy_ek_good: "ek_good (toy_ek t0 s0)"
  by (simp add: ek_good_def toy_ek_def toy_cfg_good)

definition toy_key :: "u64 \<Rightarrow> sym_key" where
  "toy_key n = \<lparr>CryptoKitID = nilUID, EpochID = UID 0 n, Role = 0, KeyBytes = [word_of_nat (unat n)]\<rparr>"

definition toy_tome :: "u64 \<Rightarrow> epoch_tome" where
  "toy_tome n = \<lparr>et_Revision = 1,
     et_Keys = [\<lparr>en_ContainerID = UID 9 9, en_EpochID = UID 0 n, en_CryptoKitID = nilUID,
       RoleKeys = [\<lparr>rk_Role = 0, rk_Key = [word_of_nat (unat n)]\<rparr>]\<rparr>],
     et_Current = (if n = 2 then [\<lparr>el_ContainerID = UID 9 9, el_EpochID = UID 0 n\<rparr>] else [])\<rparr>"

definition toy_c :: "u64 \<Rightarrow> ek_cfg" where
  "toy_c n = toy_ek (toy_tome n) (toy_sealed ''epoch-keys'')"

lemma toy_good: "ek_good (toy_c n)"
  by (simp add: toy_c_def toy_ek_good)

lemma toy_open: "OpenEpochKeyStore (local_env (toy_c n)) [] blank_disk = (blank_disk, Inr (empty_store []))"
  by (simp add: OpenEpochKeyStore_def local_env_def toy_c_def toy_ek_def local_vault_def local_Load_def
      syscall_def blank_disk_def open_sealed_def)

lemma toy_persist:
  assumes "epoch_tome_of (local_env (toy_c n)) st = toy_tome n" "ek_aad st = []"
  shows "snd (persistLocked (local_env (toy_c n)) zeros (st, blank_disk)) = Inr ()"
  using assms toy_save_tome [of "''epoch-keys''"]
  by (simp add: persistLocked_def toy_c_def toy_ek_def local_env_def case_prod_beta split: sum.splits)

text \<open>A put that fails because the codec rejects the tome stays in the session.\<close>

lemma toy_put_fails:
  assumes "epoch_tome_of (local_env (toy_c n)) (put_key c key st) \<noteq> toy_tome n" "\<not> ek_closed st" "IsSet (EpochID key)"
  shows "PutKey (local_env (toy_c n)) r c key (st, d) = ((put_key c key st, d), Inl Other)"
  using assms by (simp add: PutKey_def persistLocked_def) (simp add: toy_c_def toy_ek_def local_env_def)

theorem key_store_durable_witness:
  "\<exists>st d st2. reopen (toy_c 2) [] d = Inr st2 \<and> GetKey st2 (UID 9 9) (UID 0 2) 0 = Inr (toy_key 2) \<and>
     ek_step (local_env (toy_c 2)) (Put zeros (UID 9 9) (toy_key 2)) (empty_store [], blank_disk) = ((st, d), Inr ())"
proof -
  let ?call = "Put zeros (UID 9 9) (toy_key 2)"
  let ?st = "put_key (UID 9 9) (toy_key 2) (empty_store [])"
  have "epoch_tome_of (local_env (toy_c 2)) ?st = toy_tome 2" by code_simp
  moreover have a: "ek_aad ?st = []" "IsSet (EpochID (toy_key 2))" by code_simp+
  ultimately have "snd (ek_step (local_env (toy_c 2)) ?call (empty_store [], blank_disk)) = Inr ()"
    using toy_persist by (simp add: PutKey_def empty_store_def)
  then obtain st d where r: "ek_step (local_env (toy_c 2)) ?call (empty_store [], blank_disk) = ((st, d), Inr ())"
    by (metis prod.collapse)
  then have "persistLocked (local_env (toy_c 2)) zeros (?st, blank_disk) = ((st, d), Inr ())"
    using a by (simp add: PutKey_def empty_store_def)
  note f = persist_fields [OF this]
  have "GetKey ?st (UID 9 9) (UID 0 2) 0 = Inr (toy_key 2)" by code_simp
  then have g: "GetKey st (UID 9 9) (UID 0 2) 0 = Inr (toy_key 2)" by (simp only: GetKey_def f)
  have "\<not> ek_closed st" by (simp add: f put_key_def empty_store_def)
  with key_store_durable [OF toy_good toy_open, of 2 ?call "[]" st d] r obtain st2
    where "reopen (toy_c 2) [] d = Inr st2" "held st2 = held st" by (auto simp: ek_run_def)
  with g reopen_open [of "toy_c 2" "[]" d st2] r show ?thesis
    using \<open>\<not> ek_closed st\<close> by (auto simp: GetKey_def)
qed

theorem PutKey_serves_witness:
  "GetKey (fst (fst (PutKey (local_env (toy_c 1)) [] (UID 9 9) (toy_key 5) (empty_store [], blank_disk))))
     (UID 9 9) (UID 0 5) 0 = Inr (toy_key 5)"
proof -
  let ?r = "PutKey (local_env (toy_c 1)) [] (UID 9 9) (toy_key 5) (empty_store [], blank_disk)"
  obtain st d x where r: "?r = ((st, d), x)" by (metis prod.collapse)
  have "\<not> ek_closed (empty_store [])" "IsSet (EpochID (toy_key 5))" by code_simp+
  from PutKey_serves [OF r this, of "UID 9 9" "UID 0 5" 0]
  have "GetKey st (UID 9 9) (UID 0 5) 0 = Inr (toy_key 5)" by (simp add: toy_key_def empty_store_def)
  then show ?thesis by (simp only: r fst_conv)
qed

text \<open>Two puts the disk does not take, then a shred of the newer epoch that it does.\<close>

definition toy_puts :: "ek_call list" where
  "toy_puts = [Put [] (UID 9 9) (toy_key 1), Put [] (UID 9 9) (toy_key 2)]"

definition toy_session :: epoch_store where
  "toy_session = put_key (UID 9 9) (toy_key 2) (put_key (UID 9 9) (toy_key 1) (empty_store []))"

lemma toy_run: "ek_run (local_env (toy_c 1)) toy_puts (empty_store [], blank_disk) = (toy_session, blank_disk)"
proof -
  have 1: "epoch_tome_of (local_env (toy_c 1)) (put_key (UID 9 9) (toy_key 1) (empty_store [])) \<noteq> toy_tome 1"
    by code_simp
  have 2: "epoch_tome_of (local_env (toy_c 1)) toy_session \<noteq> toy_tome 1" by code_simp
  have 3: "IsSet (EpochID (toy_key 1))" "IsSet (EpochID (toy_key 2))" "\<not> ek_closed (empty_store [])"
    "\<not> ek_closed (put_key (UID 9 9) (toy_key 1) (empty_store []))" by code_simp+
  show ?thesis
    using toy_put_fails [OF 1 3(3,1)] toy_put_fails [OF 2[unfolded toy_session_def] 3(4,2)]
    by (simp add: ek_run_def toy_puts_def toy_session_def)
qed

lemma toy_shred:
  "\<exists>st d. ShredKeys (local_env (toy_c 1)) zeros [UID 0 2] (toy_session, blank_disk) = ((st, d), Inr ()) \<and>
     \<not> ek_closed st \<and> elected st (UID 9 9) = None \<and> newest_held st (UID 9 9) = Some (UID 0 1) \<and>
     GetKey st (UID 9 9) (UID 0 1) 0 = Inr (toy_key 1)"
proof -
  let ?st = "drop_dangling (shred_epoch (UID 0 2) toy_session)"
  have f: "\<not> ek_closed toy_session" "ek_changed (shred_epoch (UID 0 2) toy_session)" by code_simp+
  have g: "\<not> ek_closed ?st" "elected ?st (UID 9 9) = None" "newest_held ?st (UID 9 9) = Some (UID 0 1)"
    "GetKey ?st (UID 9 9) (UID 0 1) 0 = Inr (toy_key 1)" by code_simp+
  have "epoch_tome_of (local_env (toy_c 1)) ?st = toy_tome 1" "ek_aad ?st = []" by code_simp+
  from toy_persist [OF this] obtain st d
    where p: "persistLocked (local_env (toy_c 1)) zeros (?st, blank_disk) = ((st, d), Inr ())"
    by (metis prod.collapse)
  note pf = persist_fields [OF p]
  have "newest_held st = newest_held ?st" by (rule ext) (simp only: newest_held_def pf)
  moreover have "GetKey st = GetKey ?st" by (intro ext) (simp only: GetKey_def pf)
  ultimately show ?thesis using p f g by (intro exI [of _ st] exI [of _ d]) (simp add: ShredKeys_def pf)
qed

theorem ShredKeys_gone_witness:
  "\<exists>d st2. reopen (toy_c 1) [] d = Inr st2 \<and> GetKey st2 (UID 9 9) (UID 0 2) 0 = Inl KeyringNotFound"
proof -
  obtain st d where "ShredKeys (local_env (toy_c 1)) zeros [UID 0 2] (toy_session, blank_disk) = ((st, d), Inr ())"
    using toy_shred by blast
  moreover have "\<not> ek_closed (fst (toy_session, blank_disk))" by code_simp
  ultimately obtain st2 where "reopen (toy_c 1) [] d = Inr st2"
    "GetKey st2 (UID 9 9) (UID 0 2) 0 = (if UID 0 2 \<in> set [UID 0 2] then Inl KeyringNotFound
       else GetKey (fst (toy_session, blank_disk)) (UID 9 9) (UID 0 2) 0)"
    using ShredKeys_gone [OF toy_good toy_open toy_run] by blast
  then show ?thesis by auto
qed

theorem shred_reelects_witness:
  "\<exists>st d st2. GetCurrentKey st (UID 9 9) 0 = Inl KeyringNotFound \<and>
     reopen (toy_c 1) [] d = Inr st2 \<and> GetCurrentKey st2 (UID 9 9) 0 = Inr (toy_key 1)"
proof -
  from toy_shred obtain st d where
    "ShredKeys (local_env (toy_c 1)) zeros [UID 0 2] (ek_run (local_env (toy_c 1)) toy_puts (empty_store [], blank_disk))
       = ((st, d), Inr ())"
    "\<not> ek_closed st" "elected st (UID 9 9) = None" "newest_held st (UID 9 9) = Some (UID 0 1)"
    "GetKey st (UID 9 9) (UID 0 1) 0 = Inr (toy_key 1)"
    unfolding toy_run by blast
  with shred_reelects [OF toy_good toy_open this(1-4), of 0] show ?thesis by auto
qed

end
