(* ===== verification/Enclave.thy ===== *)
theory Enclave
  imports Tome "HOL-Library.Multiset" "HOL-Library.List_Lexorder"
begin

text \<open>
  The enclave (\<open>stdlib/safe/enclave.go\<close>): key pairs indexed by keyring, public key and type,
  the resolution of key references, the operations on the keys, and the persistence of the index
  in a sealed tome.  Operations that draw random bytes take the bytes the source will yield,
  those that take the time the identifiers \<open>tag.NowID\<close> will return.  Crypto kits and the protobuf
  codec of the tome are parameters.  A nil byte slice is the empty list.
\<close>

section \<open>State\<close>

record key_record =
  kr_KeyringID :: uid
  kr_CryptoKitID :: uid
  kr_KeyType :: int
  kr_TimeID :: uid
  kr_PubKey :: "byte list"
  kr_PrvKey :: "byte list"

definition KeyType_Unspecified :: int where "KeyType_Unspecified = 0"
definition KeyType_SymmetricKey :: int where "KeyType_SymmetricKey = 1"
definition KeyType_AsymmetricKey :: int where "KeyType_AsymmetricKey = 2"
definition KeyType_SigningKey :: int where "KeyType_SigningKey = 3"
definition KeyType_NumTypes :: int where "KeyType_NumTypes = 4"
definition MinPubKeyPrefixSz :: nat where "MinPubKeyPrefixSz = 16"

lemmas key_types = KeyType_Unspecified_def KeyType_SymmetricKey_def KeyType_AsymmetricKey_def
  KeyType_SigningKey_def KeyType_NumTypes_def

record ring_index =
  records :: "key_record list"
  newestByType :: "byte list list"

record enclave =
  byRing :: "(uid \<times> ring_index) list"
  revision :: u64
  enc_aad :: "byte list"
  enc_closed :: bool

record key_tome =
  kt_Revision :: u64
  kt_Keys :: "key_record list"

record pub_key =
  pk_CryptoKitID :: uid
  pk_KeyType :: int
  pk_TimeID :: uid
  pk_Bytes :: "byte list"

record key_pair =
  kp_Pub :: pub_key
  kp_Prv :: "byte list"

record key_ref =
  ref_KeyringID :: uid
  ref_Type :: int
  ref_PubKey :: "byte list"

text \<open>A kit; an absent capability is \<open>None\<close>.  Generation fills in a key pair and returns the rest of
  the random source.\<close>

record kit =
  sign_Generate :: "(byte list \<Rightarrow> key_pair \<Rightarrow> (key_pair \<times> byte list) outcome) option"
  kit_Sign :: "(byte list \<Rightarrow> byte list \<Rightarrow> byte list outcome) option"
  encrypt_Generate :: "(byte list \<Rightarrow> key_pair \<Rightarrow> (key_pair \<times> byte list) outcome) option"
  kit_Open :: "(byte list \<Rightarrow> byte list \<Rightarrow> byte list outcome) option"

record 'd enc_env =
  ee_vault :: "'d vault"
  ee_marshal :: "key_tome \<Rightarrow> byte list option"
  ee_unmarshal :: "byte list \<Rightarrow> key_tome option"
  ee_kit :: "uid \<Rightarrow> kit outcome"

section \<open>The ring index\<close>

definition ring_search :: "key_record list \<Rightarrow> byte list \<Rightarrow> nat" where
  "ring_search recs pubKey =
     search_loop (\<lambda>i. bytes_compare (kr_PubKey (recs ! i)) pubKey \<ge> 0) 0 (length recs)"

definition recordsEqual :: "key_record \<Rightarrow> key_record \<Rightarrow> bool" where
  "recordsEqual a b \<longleftrightarrow> kr_KeyType a = kr_KeyType b \<and> kr_CryptoKitID a = kr_CryptoKitID b \<and>
     kr_TimeID a = kr_TimeID b \<and> kr_PubKey a = kr_PubKey b \<and> kr_PrvKey a = kr_PrvKey b"

definition ringLookup :: "ring_index \<Rightarrow> byte list \<Rightarrow> key_record option" where
  "ringLookup ring pubKey =
     (let pos = ring_search (records ring) pubKey
      in if pos < length (records ring) \<and> kr_PubKey (records ring ! pos) = pubKey
         then Some (records ring ! pos) else None)"

definition siblings :: "key_record list \<Rightarrow> byte list \<Rightarrow> key_record list" where
  "siblings recs pubKey = takeWhile (\<lambda>r. kr_PubKey r = pubKey) (drop (ring_search recs pubKey) recs)"

definition ringLookupTyped :: "ring_index \<Rightarrow> byte list \<Rightarrow> int \<Rightarrow> key_record option" where
  "ringLookupTyped ring pubKey kt = find (\<lambda>r. kr_KeyType r = kt) (siblings (records ring) pubKey)"

definition has_prefix :: "byte list \<Rightarrow> byte list \<Rightarrow> bool" where
  "has_prefix s p \<longleftrightarrow> length p \<le> length s \<and> take (length p) s = p"

definition ringLookupTypedPrefix :: "ring_index \<Rightarrow> byte list \<Rightarrow> int \<Rightarrow> key_record option" where
  "ringLookupTypedPrefix ring pfx kt =
     find (\<lambda>r. kt = KeyType_Unspecified \<or> kr_KeyType r = kt)
       (takeWhile (\<lambda>r. has_prefix (kr_PubKey r) pfx) (drop (ring_search (records ring) pfx) (records ring)))"

definition ringNewestTimeID :: "ring_index \<Rightarrow> int \<Rightarrow> uid" where
  "ringNewestTimeID ring kt =
     (let pub = newestByType ring ! nat kt
      in if pub = [] then nilUID
         else case ringLookupTyped ring pub kt of None \<Rightarrow> nilUID | Some rec \<Rightarrow> kr_TimeID rec)"

definition time_newer :: "uid \<Rightarrow> uid \<Rightarrow> bool" where
  "time_newer a b \<longleftrightarrow> uid0 a > uid0 b \<or> (uid0 a = uid0 b \<and> uid1 a > uid1 b)"

definition across_step :: "ring_index \<Rightarrow> int \<Rightarrow> byte list option \<times> uid \<Rightarrow> byte list option \<times> uid" where
  "across_step ring kt best =
     (let pub = newestByType ring ! nat kt
      in if pub = [] then best
         else case ringLookupTyped ring pub kt of
           None \<Rightarrow> best
         | Some rec \<Rightarrow>
             if fst best = None \<or> time_newer (kr_TimeID rec) (snd best) then (Some pub, kr_TimeID rec) else best)"

definition ringNewestAcrossTypes :: "ring_index \<Rightarrow> byte list option \<times> uid" where
  "ringNewestAcrossTypes ring = fold (across_step ring) [0..KeyType_NumTypes - 1] (None, nilUID)"

definition empty_ring :: ring_index where
  "empty_ring = \<lparr>records = [], newestByType = replicate (nat KeyType_NumTypes) []\<rparr>"

text \<open>\<open>time_at_least\<close> is the condition under which a merged record becomes the newest of its type.\<close>

definition time_at_least :: "uid \<Rightarrow> uid \<Rightarrow> bool" where
  "time_at_least a b \<longleftrightarrow> uid0 a > uid0 b \<or> (uid0 a = uid0 b \<and> uid1 a \<ge> uid1 b)"

definition place_record :: "key_record \<Rightarrow> ring_index \<Rightarrow> ring_index" where
  "place_record rec ring =
     (let pos = ring_search (records ring) (kr_PubKey rec)
      in ring\<lparr>records := take pos (records ring) @ [rec] @ drop pos (records ring)\<rparr>)"

definition ring_insert :: "key_record \<Rightarrow> ring_index \<Rightarrow> ring_index outcome" where
  "ring_insert rec ring =
     (let ring1 = place_record rec ring; kt = kr_KeyType rec
      in if kt < 0 \<or> KeyType_NumTypes \<le> kt then Inl Panic
         else if newestByType ring1 ! nat kt = [] \<or> time_at_least (kr_TimeID rec) (ringNewestTimeID ring1 kt)
              then Inr (ring1\<lparr>newestByType := (newestByType ring1)[nat kt := kr_PubKey rec]\<rparr>)
              else Inr ring1)"

definition mergeRecord :: "key_record \<Rightarrow> enclave \<Rightarrow> enclave \<times> unit outcome" where
  "mergeRecord rec enc =
     (let ringID = kr_KeyringID rec;
          ring = (case map_of (byRing enc) ringID of None \<Rightarrow> empty_ring | Some ring \<Rightarrow> ring);
          enc1 = enc\<lparr>byRing := AList.update ringID ring (byRing enc)\<rparr>
      in case find (\<lambda>r. kr_KeyType r = kr_KeyType rec) (siblings (records ring) (kr_PubKey rec)) of
           Some r \<Rightarrow> (enc1, if recordsEqual r rec then Inr () else Inl BadKeyFormat)
         | None \<Rightarrow>
             (case ring_insert rec ring of
                Inl e \<Rightarrow> (enc\<lparr>byRing := AList.update ringID (place_record rec ring) (byRing enc)\<rparr>, Inl e)
              | Inr ring2 \<Rightarrow>
                  (enc\<lparr>byRing := AList.update ringID ring2 (byRing enc), revision := revision enc + 1\<rparr>, Inr ())))"

section \<open>Resolving references\<close>

definition or_not_found :: "key_record option \<Rightarrow> key_record outcome" where
  "or_not_found r = (case r of None \<Rightarrow> Inl KeyringNotFound | Some rec \<Rightarrow> Inr rec)"

definition fetchRecord :: "enclave \<Rightarrow> key_ref option \<Rightarrow> key_record outcome" where
  "fetchRecord enc ref =
     (case ref of
        None \<Rightarrow> Inl Panic
      | Some ref \<Rightarrow>
     (case map_of (byRing enc) (ref_KeyringID ref) of
        None \<Rightarrow> Inl KeyringNotFound
      | Some ring \<Rightarrow>
          if records ring = [] then Inl KeyringNotFound
          else if ref_PubKey ref = [] then
            if ref_Type ref \<noteq> KeyType_Unspecified then
              if ref_Type ref < 0 \<or> KeyType_NumTypes \<le> ref_Type ref then Inl Panic
              else let pub = newestByType ring ! nat (ref_Type ref)
                   in if pub = [] then Inl KeyringNotFound
                      else or_not_found (ringLookupTyped ring pub (ref_Type ref))
            else case fst (ringNewestAcrossTypes ring) of
                   None \<Rightarrow> Inl KeyringNotFound
                 | Some bestPub \<Rightarrow> or_not_found (ringLookup ring bestPub)
          else or_not_found (ringLookupTypedPrefix ring (ref_PubKey ref) (ref_Type ref))))"

definition pubKeyFromRecord :: "key_record \<Rightarrow> pub_key" where
  "pubKeyFromRecord rec = \<lparr>pk_CryptoKitID = kr_CryptoKitID rec, pk_KeyType = kr_KeyType rec,
     pk_TimeID = kr_TimeID rec, pk_Bytes = kr_PubKey rec\<rparr>"

definition FetchPubKey :: "enclave \<Rightarrow> key_ref option \<Rightarrow> pub_key outcome" where
  "FetchPubKey enc ref =
     (if enc_closed enc then Inl NotReady
      else and_then (fetchRecord enc ref) (\<lambda>rec. Inr (pubKeyFromRecord rec)))"

text \<open>The result is an outcome because a nil reference panics.\<close>

definition CanSign :: "enclave \<Rightarrow> key_ref option \<Rightarrow> bool outcome" where
  "CanSign enc ref =
     (if enc_closed enc then Inr False
      else case fetchRecord enc ref of
        Inl e \<Rightarrow> if e = Panic then Inl Panic else Inr False
      | Inr rec \<Rightarrow> Inr (kr_KeyType rec = KeyType_SigningKey \<and> kr_PrvKey rec \<noteq> []))"

definition fetchTypedRecord :: "'d enc_env \<Rightarrow> enclave \<Rightarrow> key_ref option \<Rightarrow> int \<Rightarrow> (key_record \<times> kit) outcome" where
  "fetchTypedRecord E enc ref wantType =
     (if enc_closed enc then Inl NotReady
      else if ref = None then Inl BadRequest
      else and_then (fetchRecord enc ref) (\<lambda>rec.
           if kr_KeyType rec \<noteq> wantType then Inl BadKeyFormat
           else and_then (ee_kit E (kr_CryptoKitID rec)) (\<lambda>kit. Inr (rec, kit))))"

section \<open>Using keys\<close>

definition SignRaw :: "'d enc_env \<Rightarrow> enclave \<Rightarrow> key_ref option \<Rightarrow> byte list \<Rightarrow> byte list outcome" where
  "SignRaw E enc ref msg =
     and_then (fetchTypedRecord E enc ref KeyType_SigningKey) (\<lambda>(rec, kit).
     case kit_Sign kit of
       None \<Rightarrow> Inl Unimplemented
     | Some sign \<Rightarrow> if kr_PrvKey rec = [] then Inl AuthFailed else sign msg (kr_PrvKey rec))"

definition EncryptSym ::
  "'d enc_env \<Rightarrow> byte list \<Rightarrow> enclave \<Rightarrow> key_ref option \<Rightarrow> byte list \<Rightarrow> byte list outcome" where
  "EncryptSym E rand enc ref plaintext =
     and_then (fetchTypedRecord E enc ref KeyType_SymmetricKey) (\<lambda>(rec, _).
     and_then (SealAEAD (v_prims (ee_vault E)) rand (kr_PrvKey rec) plaintext []) (\<lambda>(nonce, ct).
     Inr (nonce @ ct)))"

definition DecryptSym :: "'d enc_env \<Rightarrow> enclave \<Rightarrow> key_ref option \<Rightarrow> byte list \<Rightarrow> byte list outcome" where
  "DecryptSym E enc ref ciphertext =
     and_then (fetchTypedRecord E enc ref KeyType_SymmetricKey) (\<lambda>(rec, _).
     if length ciphertext < NonceSize then Inl DecryptFailed
     else OpenAEAD (v_prims (ee_vault E)) (kr_PrvKey rec) (take NonceSize ciphertext) (drop NonceSize ciphertext) [])"

definition OpenFromPub :: "'d enc_env \<Rightarrow> enclave \<Rightarrow> key_ref option \<Rightarrow> byte list \<Rightarrow> byte list outcome" where
  "OpenFromPub E enc ref msg =
     (if enc_closed enc then Inl NotReady
      else if ref = None then Inl BadRequest
      else and_then (fetchRecord enc ref) (\<lambda>rec.
           if kr_KeyType rec \<noteq> KeyType_AsymmetricKey then Inl BadKeyFormat
           else and_then (ee_kit E (kr_CryptoKitID rec)) (\<lambda>kit.
                case kit_Open kit of
                  None \<Rightarrow> Inl Unimplemented
                | Some kitOpen \<Rightarrow> kitOpen msg (kr_PrvKey rec))))"

definition ExportSymmetricKey :: "enclave \<Rightarrow> key_ref option \<Rightarrow> byte list outcome" where
  "ExportSymmetricKey enc ref =
     (if enc_closed enc then Inl NotReady
      else and_then (fetchRecord enc ref) (\<lambda>rec.
           if kr_KeyType rec \<noteq> KeyType_SymmetricKey then Inl BadKeyFormat
           else if kr_PrvKey rec = [] then Inl BadKeyFormat
           else Inr (kr_PrvKey rec)))"

section \<open>Opening and persisting\<close>

definition merge_all :: "key_record list \<Rightarrow> enclave \<Rightarrow> enclave outcome" where
  "merge_all recs enc =
     fold (\<lambda>rec r. and_then r (\<lambda>enc.
       let (enc', merged) = mergeRecord rec enc in if merged = Inl Panic then Inl Panic else Inr enc'))
       recs (Inr enc)"

definition empty_enclave :: "byte list \<Rightarrow> u64 \<Rightarrow> enclave" where
  "empty_enclave aad n = \<lparr>byRing = [], revision = n, enc_aad = aad, enc_closed = False\<rparr>"

definition open_enclave :: "'d enc_env \<Rightarrow> byte list \<Rightarrow> sealed_tome option \<Rightarrow> enclave outcome" where
  "open_enclave E aad s =
     (case s of
        None \<Rightarrow> Inr (empty_enclave aad 1)
      | Some sealed \<Rightarrow>
          and_then (open_tome (ee_vault E) aad sealed) (\<lambda>tomeBytes.
          case ee_unmarshal E tomeBytes of
            None \<Rightarrow> Inl Other
          | Some tome \<Rightarrow> merge_all (kt_Keys tome) (empty_enclave aad (kt_Revision tome))))"

definition OpenEnclave :: "'d enc_env \<Rightarrow> byte list \<Rightarrow> 'd \<Rightarrow> 'd \<times> enclave outcome" where
  "OpenEnclave E aad d =
     (let (d', loaded) = v_load (ee_vault E) d in (d', and_then loaded (open_enclave E aad)))"

definition flattenRecords :: "enclave \<Rightarrow> key_record list" where
  "flattenRecords enc =
     concat (map (\<lambda>ringID. records (the (map_of (byRing enc) ringID))) (sort (map fst (byRing enc))))"

definition enc_persist :: "'d enc_env \<Rightarrow> byte list \<Rightarrow> enclave \<Rightarrow> 'd \<Rightarrow> 'd \<times> unit outcome" where
  "enc_persist E rand enc d =
     (case ee_marshal E \<lparr>kt_Revision = revision enc, kt_Keys = flattenRecords enc\<rparr> of
        None \<Rightarrow> (d, Inl Other)
      | Some tomeBytes \<Rightarrow> save_tome (ee_vault E) ''session'' (enc_aad enc) rand tomeBytes d)"

section \<open>Installing keys\<close>

text \<open>The record an import stores.\<close>

definition import_record :: "uid \<Rightarrow> uid \<Rightarrow> key_pair \<Rightarrow> key_record" where
  "import_record now ringID kp = \<lparr>kr_KeyringID = ringID, kr_CryptoKitID = pk_CryptoKitID (kp_Pub kp),
     kr_KeyType = pk_KeyType (kp_Pub kp),
     kr_TimeID = (if IsNil (pk_TimeID (kp_Pub kp)) then now else pk_TimeID (kp_Pub kp)),
     kr_PubKey = pk_Bytes (kp_Pub kp), kr_PrvKey = kp_Prv kp\<rparr>"

definition ImportKey ::
  "'d enc_env \<Rightarrow> byte list \<Rightarrow> uid \<Rightarrow> uid \<Rightarrow> key_pair \<Rightarrow> enclave \<times> 'd \<Rightarrow> (enclave \<times> 'd) \<times> unit outcome" where
  "ImportKey E rand now keyringID kp s =
     (let (enc, d) = s in
      if enc_closed enc then (s, Inl NotReady)
      else if length (pk_Bytes (kp_Pub kp)) < MinPubKeyPrefixSz then (s, Inl BadKeyFormat)
      else
        case mergeRecord (import_record now keyringID kp) enc of
             (enc', Inl e) \<Rightarrow> ((enc', d), Inl e)
           | (enc', Inr _) \<Rightarrow>
               if revision enc' = revision enc then ((enc', d), Inr ())
               else let (d', r) = enc_persist E rand enc' d in ((enc', d'), r))"

definition generateKeyForSpec ::
  "kit \<Rightarrow> byte list \<Rightarrow> nat \<Rightarrow> key_pair \<Rightarrow> (key_pair \<times> byte list) outcome" where
  "generateKeyForSpec kit rand requestedSize kp =
     (let kt = pk_KeyType (kp_Pub kp) in
      if kt = KeyType_SymmetricKey then
        let pubSize = (if requestedSize < 16 then 32 else requestedSize)
        in case read_full pubSize rand of
             Inl e \<Rightarrow> Inl KeyGenerationFailed
           | Inr (pub, rand1) \<Rightarrow>
               (case read_full DEKSize rand1 of
                  Inl e \<Rightarrow> Inl KeyGenerationFailed
                | Inr (prv, rand2) \<Rightarrow> Inr (\<lparr>kp_Pub = (kp_Pub kp)\<lparr>pk_Bytes := pub\<rparr>, kp_Prv = prv\<rparr>, rand2))
      else if kt = KeyType_SigningKey then
        (case sign_Generate kit of None \<Rightarrow> Inl Unimplemented | Some gen \<Rightarrow> gen rand kp)
      else if kt = KeyType_AsymmetricKey then
        (case encrypt_Generate kit of None \<Rightarrow> Inl Unimplemented | Some gen \<Rightarrow> gen rand kp)
      else Inl Unimplemented)"

text \<open>The three attempts of \<open>GenerateKey\<close>; \<open>nows\<close> are the time identifiers they take.\<close>

fun generate_attempts ::
  "'d enc_env \<Rightarrow> kit \<Rightarrow> uid list \<Rightarrow> byte list \<Rightarrow> uid \<Rightarrow> uid \<Rightarrow> int \<Rightarrow> nat \<Rightarrow> enclave \<times> 'd
     \<Rightarrow> (enclave \<times> 'd) \<times> pub_key outcome" where
  "generate_attempts E kit [] rand keyringID kitID kt sz s = (s, Inl KeyGenerationFailed)"
| "generate_attempts E kit (now # nows) rand keyringID kitID kt sz s =
     (let (enc, d) = s;
          kp = \<lparr>kp_Pub = \<lparr>pk_CryptoKitID = kitID, pk_KeyType = kt, pk_TimeID = now, pk_Bytes = []\<rparr>, kp_Prv = []\<rparr>
      in case generateKeyForSpec kit rand sz kp of
           Inl e \<Rightarrow> (s, Inl e)
         | Inr (kp, rand) \<Rightarrow>
             if pk_CryptoKitID (kp_Pub kp) \<noteq> kitID \<or> pk_KeyType (kp_Pub kp) \<noteq> kt
             then (s, Inl KeyGenerationFailed)
             else
               let rec = \<lparr>kr_KeyringID = keyringID, kr_CryptoKitID = pk_CryptoKitID (kp_Pub kp),
                          kr_KeyType = pk_KeyType (kp_Pub kp), kr_TimeID = pk_TimeID (kp_Pub kp),
                          kr_PubKey = pk_Bytes (kp_Pub kp), kr_PrvKey = kp_Prv kp\<rparr>
               in case mergeRecord rec enc of
                    (enc', Inl e) \<Rightarrow>
                      if e = BadKeyFormat then generate_attempts E kit nows rand keyringID kitID kt sz (enc', d)
                      else ((enc', d), Inl e)
                  | (enc', Inr _) \<Rightarrow>
                      (case enc_persist E rand enc' d of
                         (d', Inl e) \<Rightarrow> ((enc', d'), Inl e)
                       | (d', Inr _) \<Rightarrow> ((enc', d'), Inr (pubKeyFromRecord rec))))"

definition GenerateKey ::
  "'d enc_env \<Rightarrow> byte list \<Rightarrow> uid \<times> uid \<times> uid \<Rightarrow> uid \<Rightarrow> uid \<Rightarrow> int \<Rightarrow> int \<Rightarrow> enclave \<times> 'd
     \<Rightarrow> (enclave \<times> 'd) \<times> pub_key outcome" where
  "GenerateKey E rand nows keyringID kitID kt requestedSize s =
     (if enc_closed (fst s) then (s, Inl NotReady)
      else case ee_kit E kitID of
        Inl e \<Rightarrow> (s, Inl e)
      | Inr kit \<Rightarrow>
          let sz = (if requestedSize \<le> 0 then DEKSize else nat requestedSize)
          in generate_attempts E kit [fst nows, fst (snd nows), snd (snd nows)] rand keyringID kitID kt sz s)"

definition zeroState :: "enclave \<Rightarrow> enclave" where
  "zeroState enc = enc\<lparr>byRing := [], enc_aad := replicate (length (enc_aad enc)) 0, enc_closed := True\<rparr>"

definition enc_Close :: "'d enc_env \<Rightarrow> byte list \<Rightarrow> enclave \<times> 'd \<Rightarrow> (enclave \<times> 'd) \<times> unit outcome" where
  "enc_Close E rand s =
     (let (enc, d) = s in
      if enc_closed enc then (s, Inr ())
      else case enc_persist E rand enc d of
        (d', Inl e) \<Rightarrow> ((enc, d'), Inl e)
      | (d', Inr _) \<Rightarrow> ((zeroState enc, d'), Inr ()))"

section \<open>The order of keys\<close>

lemma bytes_compare_less: "bytes_compare x y < 0 \<longleftrightarrow> x < y"
  by (induction x y rule: bytes_compare.induct) auto

lemma bytes_compare_at_least: "bytes_compare x y \<ge> 0 \<longleftrightarrow> y \<le> x"
  using bytes_compare_less [of x y] by (auto simp: not_less)

abbreviation sorted_ring :: "key_record list \<Rightarrow> bool" where
  "sorted_ring recs \<equiv> sorted (map kr_PubKey recs)"

text \<open>On a sorted ring the search splits it into the keys below and the keys from \<open>p\<close> on.\<close>

lemma ring_search_split:
  assumes "sorted_ring recs"
  shows "ring_search recs p \<le> length recs"
    "\<forall>r \<in> set (take (ring_search recs p) recs). kr_PubKey r < p"
    "\<forall>r \<in> set (drop (ring_search recs p) recs). p \<le> kr_PubKey r"
proof -
  let ?f = "\<lambda>i. bytes_compare (kr_PubKey (recs ! i)) p \<ge> 0"
  have "?f b" if "a \<le> b" "b < length recs" "?f a" for a b
    using sorted_nth_mono [OF assms, of a b] that by (simp add: bytes_compare_at_least)
  from search_loop_least [of "length recs" ?f 0 "length recs", OF this]
  have *: "ring_search recs p \<le> length recs" "\<forall>a < ring_search recs p. \<not> ?f a"
    "\<forall>a < length recs. ring_search recs p \<le> a \<longrightarrow> ?f a"
    by (simp_all add: ring_search_def)
  then show "ring_search recs p \<le> length recs"
    "\<forall>r \<in> set (take (ring_search recs p) recs). kr_PubKey r < p"
    "\<forall>r \<in> set (drop (ring_search recs p) recs). p \<le> kr_PubKey r"
    by (auto simp: in_set_conv_nth bytes_compare_at_least not_le)
qed

section \<open>Lookups are scans\<close>

lemma find_filter: "find P (filter Q xs) = find (\<lambda>x. Q x \<and> P x) xs"
  by (induction xs) auto

text \<open>In a sorted list whose keys are at least \<open>p\<close> a property that fails once fails from there on.\<close>

lemma takeWhile_filter:
  assumes "\<And>x y. x \<in> set xs \<Longrightarrow> y \<in> set xs \<Longrightarrow> kr_PubKey x \<le> kr_PubKey y \<Longrightarrow> Q y \<Longrightarrow> Q x" "sorted_ring xs"
  shows "takeWhile Q xs = filter Q xs"
  using assms
proof (induction xs)
  case (Cons x xs)
  have ih: "takeWhile Q xs = filter Q xs"
  proof (rule Cons.IH)
    fix x' y assume "x' \<in> set xs" "y \<in> set xs" "kr_PubKey x' \<le> kr_PubKey y" "Q y"
    then show "Q x'" using Cons.prems(1) [of x' y] by simp
  qed (use Cons.prems(2) in simp)
  show ?case
  proof (cases "Q x")
    case True
    with ih show ?thesis by simp
  next
    case False
    have "\<not> Q y" if "y \<in> set xs" for y
    proof
      assume "Q y"
      moreover have "kr_PubKey x \<le> kr_PubKey y" using Cons.prems(2) that by simp
      ultimately have "Q x" using Cons.prems(1) [of x y] that by simp
      with False show False ..
    qed
    then have "filter Q xs = []" by (simp add: filter_empty_conv)
    with False show ?thesis by simp
  qed
qed simp

lemma has_prefix_append: "has_prefix s p \<longleftrightarrow> (\<exists>t. s = p @ t)"
proof
  assume h: "has_prefix s p"
  then have "s = p @ drop (length p) s" by (metis append_take_drop_id has_prefix_def)
  then show "\<exists>t. s = p @ t" ..
qed (auto simp: has_prefix_def)

lemma prefix_le: "p \<le> p @ (t :: byte list)"
  by (induction p) auto

lemma prefix_convex: "p \<le> x \<Longrightarrow> x \<le> p @ t \<Longrightarrow> \<exists>u. x = p @ (u :: byte list)"
proof (induction p arbitrary: x)
  case (Cons a p)
  then show ?case by (cases x) auto
qed simp

lemma search_filter:
  assumes "sorted_ring recs" "\<And>k. Q k \<Longrightarrow> p \<le> k" "\<And>k l. p \<le> k \<Longrightarrow> k \<le> l \<Longrightarrow> Q l \<Longrightarrow> Q k"
  shows "takeWhile (\<lambda>r. Q (kr_PubKey r)) (drop (ring_search recs p) recs) = filter (\<lambda>r. Q (kr_PubKey r)) recs"
proof -
  let ?n = "ring_search recs p"
  note sp = ring_search_split [OF assms(1), of p]
  have "sorted_ring (drop ?n recs)" using sorted_wrt_drop [OF assms(1), of ?n] by (simp add: drop_map)
  moreover have "Q (kr_PubKey x)" if "x \<in> set (drop ?n recs)" "kr_PubKey x \<le> kr_PubKey y" "Q (kr_PubKey y)" for x y
    using assms(3) that sp(3) by blast
  ultimately have "takeWhile (\<lambda>r. Q (kr_PubKey r)) (drop ?n recs) = filter (\<lambda>r. Q (kr_PubKey r)) (drop ?n recs)"
    by (intro takeWhile_filter) auto
  moreover have "filter (\<lambda>r. Q (kr_PubKey r)) (take ?n recs) = []"
    using sp(2) assms(2) by (force simp: filter_empty_conv)
  ultimately show ?thesis by (metis append_Nil append_take_drop_id filter_append)
qed

lemma siblings_filter: "sorted_ring recs \<Longrightarrow> siblings recs p = filter (\<lambda>r. kr_PubKey r = p) recs"
  unfolding siblings_def by (rule search_filter) auto

lemma ringLookupTyped_scan:
  "sorted_ring (records ring) \<Longrightarrow>
   ringLookupTyped ring p kt = find (\<lambda>r. kr_PubKey r = p \<and> kr_KeyType r = kt) (records ring)"
  by (simp add: ringLookupTyped_def siblings_filter find_filter)

lemma ringLookupTypedPrefix_scan:
  assumes "sorted_ring (records ring)"
  shows "ringLookupTypedPrefix ring p kt =
     find (\<lambda>r. has_prefix (kr_PubKey r) p \<and> (kt = KeyType_Unspecified \<or> kr_KeyType r = kt)) (records ring)"
proof -
  have "has_prefix k p \<Longrightarrow> p \<le> k" for k by (auto simp: has_prefix_append prefix_le)
  moreover have "p \<le> k \<Longrightarrow> k \<le> l \<Longrightarrow> has_prefix l p \<Longrightarrow> has_prefix k p" for k l
    by (auto simp: has_prefix_append prefix_convex)
  ultimately show ?thesis
    unfolding ringLookupTypedPrefix_def by (subst search_filter [OF assms]) (auto simp: find_filter)
qed

lemma find_append: "find P (xs @ ys) = (case find P xs of None \<Rightarrow> find P ys | Some x \<Rightarrow> Some x)"
  by (induction xs) auto

lemma ringLookup_scan:
  assumes "sorted_ring (records ring)"
  shows "ringLookup ring p = find (\<lambda>r. kr_PubKey r = p) (records ring)"
proof -
  let ?rs = "records ring" and ?n = "ring_search (records ring) p"
  note sp = ring_search_split [OF assms, of p]
  have "find (\<lambda>r. kr_PubKey r = p) (take ?n ?rs) = None" using sp(2) by (auto simp: find_None_iff)
  then have f: "find (\<lambda>r. kr_PubKey r = p) ?rs = find (\<lambda>r. kr_PubKey r = p) (drop ?n ?rs)"
    by (metis append_take_drop_id find_append option.simps(4))
  show ?thesis
  proof (cases "drop ?n ?rs")
    case Nil
    with f show ?thesis by (simp add: ringLookup_def Let_def)
  next
    case (Cons r rs)
    then have n: "?n < length ?rs" "?rs ! ?n = r"
      by (metis drop_all list.distinct(1) not_le, metis Cons hd_drop_conv_nth drop_all list.distinct(1) list.sel(1) not_le)
    have "sorted_ring (r # rs)" using sorted_wrt_drop [OF assms, of ?n] Cons by (simp add: drop_map)
    then have "find (\<lambda>r. kr_PubKey r = p) rs = None" if "kr_PubKey r \<noteq> p"
      using that sp(3) Cons by (auto simp: find_None_iff)
    with f n Cons show ?thesis by (simp add: ringLookup_def Let_def)
  qed
qed

section \<open>Well-formed enclaves\<close>

definition key_of :: "key_record \<Rightarrow> byte list \<times> int" where
  "key_of r = (kr_PubKey r, kr_KeyType r)"

definition valid_record :: "uid \<Rightarrow> key_record \<Rightarrow> bool" where
  "valid_record ringID r \<longleftrightarrow>
     kr_KeyringID r = ringID \<and> kr_PubKey r \<noteq> [] \<and> 0 \<le> kr_KeyType r \<and> kr_KeyType r < KeyType_NumTypes"

text \<open>\<open>is_newest recs kt r\<close>: \<open>r\<close> has the largest time among the records of its type.\<close>

definition is_newest :: "key_record list \<Rightarrow> int \<Rightarrow> key_record \<Rightarrow> bool" where
  "is_newest recs kt r \<longleftrightarrow> r \<in> set recs \<and> kr_KeyType r = kt \<and>
     (\<forall>r' \<in> set recs. kr_KeyType r' = kt \<longrightarrow> kr_TimeID r' \<le> kr_TimeID r)"

definition newest_ok :: "ring_index \<Rightarrow> int \<Rightarrow> bool" where
  "newest_ok ring kt \<longleftrightarrow>
     (if newestByType ring ! nat kt = [] then \<forall>r \<in> set (records ring). kr_KeyType r \<noteq> kt
      else \<exists>r. is_newest (records ring) kt r \<and> kr_PubKey r = newestByType ring ! nat kt)"

definition ring_wf :: "uid \<Rightarrow> ring_index \<Rightarrow> bool" where
  "ring_wf ringID ring \<longleftrightarrow> sorted_ring (records ring) \<and> distinct (map key_of (records ring)) \<and>
     (\<forall>r \<in> set (records ring). valid_record ringID r) \<and> length (newestByType ring) = 4 \<and>
     (\<forall>kt. 0 \<le> kt \<and> kt < KeyType_NumTypes \<longrightarrow> newest_ok ring kt)"

definition enc_wf :: "enclave \<Rightarrow> bool" where
  "enc_wf enc \<longleftrightarrow> distinct (map fst (byRing enc)) \<and>
     (\<forall>ringID ring. map_of (byRing enc) ringID = Some ring \<longrightarrow> ring_wf ringID ring)"

lemma time_at_least_iff: "time_at_least a b \<longleftrightarrow> b \<le> a"
  by (cases "uid0 a" "uid0 b" rule: linorder_cases; cases "uid1 a" "uid1 b" rule: linorder_cases)
    (auto simp: time_at_least_def less_eq_uid_def CompareTo_def)

lemma time_newer_iff: "time_newer a b \<longleftrightarrow> b < a"
  by (cases "uid0 a" "uid0 b" rule: linorder_cases; cases "uid1 a" "uid1 b" rule: linorder_cases)
    (auto simp: time_newer_def less_uid_def CompareTo_def)

lemma find_unique:
  assumes "distinct (map key_of recs)" "r \<in> set recs"
  shows "find (\<lambda>x. kr_PubKey x = kr_PubKey r \<and> kr_KeyType x = kr_KeyType r) recs = Some r"
  using assms
proof (induction recs)
  case (Cons x recs)
  show ?case
  proof (cases "key_of x = key_of r")
    case True
    then have "x = r" using Cons.prems by (auto simp: rev_image_eqI)
    then show ?thesis by simp
  next
    case False
    with Cons show ?thesis by (auto simp: key_of_def)
  qed
qed simp

lemma ringLookupTyped_wf:
  "ring_wf i ring \<Longrightarrow> r \<in> set (records ring) \<Longrightarrow> ringLookupTyped ring (kr_PubKey r) (kr_KeyType r) = Some r"
  by (simp add: ring_wf_def ringLookupTyped_scan find_unique)

lemma empty_ring_wf: "ring_wf i empty_ring"
  by (auto simp: ring_wf_def empty_ring_def newest_ok_def key_types nth_Cons' eval_nat_numeral)

lemma ring_insert_order:
  assumes "sorted_ring recs" "distinct (map key_of recs)" "\<forall>r \<in> set recs. key_of r \<noteq> key_of rec"
    and "recs' = take (ring_search recs (kr_PubKey rec)) recs @ [rec] @ drop (ring_search recs (kr_PubKey rec)) recs"
  shows "sorted_ring recs' \<and> distinct (map key_of recs') \<and> set recs' = insert rec (set recs)"
proof -
  obtain lo hi where lh: "lo = take (ring_search recs (kr_PubKey rec)) recs"
    "hi = drop (ring_search recs (kr_PubKey rec)) recs" by blast
  then have r: "recs = lo @ hi" "recs' = lo @ rec # hi" using assms(4) by simp_all
  have "\<forall>r \<in> set lo. kr_PubKey r < kr_PubKey rec" "\<forall>r \<in> set hi. kr_PubKey rec \<le> kr_PubKey r"
    using ring_search_split(2,3) [OF assms(1), of "kr_PubKey rec"] lh by simp_all
  with assms(1) have "sorted_ring recs'" unfolding r by (auto simp: sorted_append less_imp_le)
  moreover have "distinct (map key_of recs')" using assms(2,3) unfolding r by auto
  ultimately show ?thesis unfolding r by auto
qed

lemma is_newest_insert:
  assumes "set recs' = insert rec (set recs)"
  shows "kr_KeyType rec \<noteq> kt \<Longrightarrow> is_newest recs' kt r \<longleftrightarrow> is_newest recs kt r"
    and "is_newest recs kt r \<Longrightarrow> kr_TimeID rec \<le> kr_TimeID r \<Longrightarrow> is_newest recs' kt r"
    and "is_newest recs kt r \<Longrightarrow> kr_TimeID r \<le> kr_TimeID rec \<Longrightarrow> kr_KeyType rec = kt \<Longrightarrow> is_newest recs' kt rec"
  unfolding is_newest_def assms by auto

lemma ring_insert_wf:
  assumes wf: "ring_wf i ring" and v: "valid_record i rec"
    and new: "\<forall>r \<in> set (records ring). key_of r \<noteq> key_of rec"
  shows "\<exists>ring'. ring_insert rec ring = Inr ring' \<and> ring_wf i ring' \<and>
     set (records ring') = insert rec (set (records ring))"
proof -
  let ?kt = "kr_KeyType rec" and ?nb = "newestByType ring"
  define recs' where "recs' = take (ring_search (records ring) (kr_PubKey rec)) (records ring) @ [rec] @
    drop (ring_search (records ring) (kr_PubKey rec)) (records ring)"
  let ?ring1 = "ring\<lparr>records := recs'\<rparr>"
  have w: "sorted_ring recs'" "distinct (map key_of recs')" "set recs' = insert rec (set (records ring))"
    using ring_insert_order [OF _ _ new recs'_def] wf by (auto simp: ring_wf_def)
  have kt: "0 \<le> ?kt" "?kt < KeyType_NumTypes" "kr_PubKey rec \<noteq> []" "length ?nb = 4" and ok: "newest_ok ring ?kt"
    using v wf by (simp_all add: valid_record_def ring_wf_def)
  have n4: "nat ?kt < 4" using kt(1,2) by (simp add: key_types)
  have finish: "ring_wf i (?ring1\<lparr>newestByType := nb\<rparr>)"
    if nb: "nb = ?nb \<or> nb = ?nb[nat ?kt := kr_PubKey rec]" and this_ok: "newest_ok (?ring1\<lparr>newestByType := nb\<rparr>) ?kt" for nb
  proof -
    have "newest_ok (?ring1\<lparr>newestByType := nb\<rparr>) t" if t: "0 \<le> t" "t < KeyType_NumTypes" for t
    proof (cases "t = ?kt")
      case False
      then have "nat t \<noteq> nat ?kt" using t(1) kt(1) by simp
      then have "nb ! nat t = ?nb ! nat t" using nb by auto
      moreover have "newest_ok ring t" using wf t by (simp add: ring_wf_def)
      ultimately show ?thesis
        using False is_newest_insert(1) [OF w(3), of t] w(3) by (auto simp: newest_ok_def)
    qed (use this_ok in simp)
    then show ?thesis using wf w v kt(4) nb by (auto simp: ring_wf_def)
  qed
  have ins: "ring_insert rec ring =
      (if ?nb ! nat ?kt = [] \<or> time_at_least (kr_TimeID rec) (ringNewestTimeID ?ring1 ?kt)
       then Inr (?ring1\<lparr>newestByType := ?nb[nat ?kt := kr_PubKey rec]\<rparr>) else Inr ?ring1)"
    using kt by (simp add: ring_insert_def place_record_def Let_def recs'_def)
  have upd: "ring_wf i (?ring1\<lparr>newestByType := ?nb[nat ?kt := kr_PubKey rec]\<rparr>)" if "is_newest recs' ?kt rec"
    using that kt n4 by (intro finish) (auto simp: newest_ok_def)
  show ?thesis
  proof (cases "?nb ! nat ?kt = []")
    case True
    then have "is_newest recs' ?kt rec" using ok w(3) by (auto simp: newest_ok_def is_newest_def)
    from upd [OF this] True w(3) show ?thesis by (simp add: ins)
  next
    case False
    then obtain r where r: "is_newest (records ring) ?kt r" "kr_PubKey r = ?nb ! nat ?kt"
      using ok by (auto simp: newest_ok_def)
    then have in': "r \<in> set recs'" "kr_KeyType r = ?kt" using w(3) by (simp_all add: is_newest_def)
    have "ringLookupTyped ?ring1 (kr_PubKey r) (kr_KeyType r) = Some r"
      using find_unique [OF w(2) in'(1)] w(1) by (simp add: ringLookupTyped_scan)
    then have t: "ringNewestTimeID ?ring1 ?kt = kr_TimeID r"
      using r(2) in'(2) False by (simp add: ringNewestTimeID_def)
    show ?thesis
    proof (cases "kr_TimeID r \<le> kr_TimeID rec")
      case True
      from upd [OF is_newest_insert(3) [OF w(3) r(1) True refl]] True w(3) show ?thesis
        by (simp add: ins t time_at_least_iff)
    next
      case later: False
      then have "is_newest recs' ?kt r" using is_newest_insert(2) [OF w(3) r(1)] by simp
      then have "newest_ok (?ring1\<lparr>newestByType := ?nb\<rparr>) ?kt" using r(2) False by (auto simp: newest_ok_def)
      from finish [OF _ this] have "ring_wf i ?ring1" by simp
      with later False w(3) show ?thesis by (simp add: ins t time_at_least_iff)
    qed
  qed
qed

definition recs_of :: "enclave \<Rightarrow> uid \<Rightarrow> key_record list" where
  "recs_of enc ringID = (case map_of (byRing enc) ringID of None \<Rightarrow> [] | Some ring \<Rightarrow> records ring)"

lemma ring_of_wf:
  "enc_wf enc \<Longrightarrow> ring_wf i (case map_of (byRing enc) i of None \<Rightarrow> empty_ring | Some ring \<Rightarrow> ring)"
  by (auto simp: enc_wf_def empty_ring_wf split: option.splits)

lemma records_ring_of:
  "records (case map_of (byRing enc) i of None \<Rightarrow> empty_ring | Some ring \<Rightarrow> ring) = recs_of enc i"
  by (simp add: recs_of_def empty_ring_def split: option.splits)

lemma recs_of_wf:
  assumes "enc_wf enc"
  shows "sorted_ring (recs_of enc i)" "distinct (map key_of (recs_of enc i))"
    "r \<in> set (recs_of enc i) \<Longrightarrow> valid_record i r"
  using ring_of_wf [OF assms, of i] records_ring_of [of enc i] by (auto simp: ring_wf_def)

lemma enc_wf_update:
  "enc_wf enc \<Longrightarrow> ring_wf i ring \<Longrightarrow> enc_wf (enc\<lparr>byRing := AList.update i ring (byRing enc), revision := n\<rparr>)"
  "enc_wf enc \<Longrightarrow> ring_wf i ring \<Longrightarrow> enc_wf (enc\<lparr>byRing := AList.update i ring (byRing enc)\<rparr>)"
  by (auto simp: enc_wf_def distinct_update update_conv')

lemma recs_of_update:
  "recs_of (enc\<lparr>byRing := AList.update i ring (byRing enc), revision := n\<rparr>) j = (if j = i then records ring else recs_of enc j)"
  "recs_of (enc\<lparr>byRing := AList.update i ring (byRing enc)\<rparr>) j = (if j = i then records ring else recs_of enc j)"
  by (simp_all add: recs_of_def update_conv')

text \<open>Merging a record whose key is taken changes no record; merging any other adds it.\<close>

lemma mergeRecord_wf:
  assumes wf: "enc_wf enc" and v: "valid_record (kr_KeyringID rec) rec" and m: "mergeRecord rec enc = (enc', r)"
  shows "enc_wf enc' \<and> enc_aad enc' = enc_aad enc \<and> enc_closed enc' = enc_closed enc \<and>
    (case find (\<lambda>x. key_of x = key_of rec) (recs_of enc (kr_KeyringID rec)) of
       Some x \<Rightarrow> recs_of enc' = recs_of enc \<and> revision enc' = revision enc \<and>
                 r = (if recordsEqual x rec then Inr () else Inl BadKeyFormat)
     | None \<Rightarrow> r = Inr () \<and> revision enc' = revision enc + 1 \<and>
         (\<forall>i. set (recs_of enc' i) = (if i = kr_KeyringID rec then insert rec (set (recs_of enc i)) else set (recs_of enc i))))"
proof -
  let ?i = "kr_KeyringID rec"
  define ring where "ring = (case map_of (byRing enc) ?i of None \<Rightarrow> empty_ring | Some ring \<Rightarrow> ring)"
  have rw: "ring_wf ?i ring" unfolding ring_def by (rule ring_of_wf [OF wf])
  have rr: "records ring = recs_of enc ?i" unfolding ring_def by (rule records_ring_of)
  have srt: "sorted_ring (records ring)" using rw by (simp add: ring_wf_def)
  have f: "find (\<lambda>r. kr_KeyType r = kr_KeyType rec) (siblings (records ring) (kr_PubKey rec)) =
      find (\<lambda>x. key_of x = key_of rec) (recs_of enc ?i)"
    by (simp add: siblings_filter [OF srt] find_filter key_of_def) (simp add: rr)
  show ?thesis
  proof (cases "find (\<lambda>x. key_of x = key_of rec) (recs_of enc ?i)")
    case (Some x)
    have "recs_of (enc\<lparr>byRing := AList.update ?i ring (byRing enc)\<rparr>) = recs_of enc"
      by (rule ext) (simp add: recs_of_update rr)
    with Some m f enc_wf_update(2) [OF wf rw] show ?thesis
      by (auto simp: mergeRecord_def Let_def ring_def)
  next
    case None
    then have "\<forall>r \<in> set (records ring). key_of r \<noteq> key_of rec" by (simp add: find_None_iff rr)
    from ring_insert_wf [OF rw v this] obtain ring' where r': "ring_insert rec ring = Inr ring'" "ring_wf ?i ring'"
      "set (records ring') = insert rec (set (records ring))" by blast
    with None m f have e: "enc' = enc\<lparr>byRing := AList.update ?i ring' (byRing enc), revision := revision enc + 1\<rparr>" "r = Inr ()"
      by (auto simp: mergeRecord_def Let_def ring_def)
    show ?thesis
      using None r'(3) enc_wf_update(1) [OF wf r'(2)] unfolding e by (auto simp: recs_of_update rr)
  qed
qed

definition ring_key :: "key_record \<Rightarrow> uid \<times> byte list \<times> int" where
  "ring_key r = (kr_KeyringID r, key_of r)"

lemma merge_all_Cons:
  "merge_all (rec # recs) enc =
     (let (enc', merged) = mergeRecord rec enc in if merged = Inl Panic then Inl Panic else merge_all recs enc')"
proof -
  have "fold (\<lambda>rec r. and_then r (\<lambda>enc. let (enc', merged) = mergeRecord rec enc
      in if merged = Inl Panic then Inl Panic else Inr enc')) recs (Inl Panic) = Inl Panic" for recs
    by (induction recs) simp_all
  then show ?thesis by (simp add: merge_all_def case_prod_beta)
qed

text \<open>Loading a list of records with different keys adds every one of them.\<close>

lemma merge_all_adds:
  assumes "enc_wf enc" "distinct (map ring_key recs)" "\<forall>r \<in> set recs. valid_record (kr_KeyringID r) r"
    "\<forall>r \<in> set recs. \<forall>x \<in> set (recs_of enc (kr_KeyringID r)). key_of x \<noteq> key_of r"
  shows "\<exists>enc'. merge_all recs enc = Inr enc' \<and> enc_wf enc' \<and> enc_aad enc' = enc_aad enc \<and>
    enc_closed enc' = enc_closed enc \<and>
    (\<forall>i. set (recs_of enc' i) = set (recs_of enc i) \<union> {r \<in> set recs. kr_KeyringID r = i})"
  using assms
proof (induction recs arbitrary: enc)
  case Nil
  then show ?case by (simp add: merge_all_def)
next
  case (Cons rec recs)
  obtain enc1 r where m: "mergeRecord rec enc = (enc1, r)" by (cases "mergeRecord rec enc")
  have "find (\<lambda>x. key_of x = key_of rec) (recs_of enc (kr_KeyringID rec)) = None"
    using Cons.prems(4) by (simp add: find_None_iff)
  with mergeRecord_wf [OF Cons.prems(1) _ m] Cons.prems(3)
  have e: "enc_wf enc1" "enc_aad enc1 = enc_aad enc" "enc_closed enc1 = enc_closed enc" "r = Inr ()"
    "\<And>i. set (recs_of enc1 i) = (if i = kr_KeyringID rec then insert rec (set (recs_of enc i)) else set (recs_of enc i))"
    by auto
  have "\<exists>enc'. merge_all recs enc1 = Inr enc' \<and> enc_wf enc' \<and> enc_aad enc' = enc_aad enc1 \<and>
    enc_closed enc' = enc_closed enc1 \<and>
    (\<forall>i. set (recs_of enc' i) = set (recs_of enc1 i) \<union> {r \<in> set recs. kr_KeyringID r = i})"
  proof (rule Cons.IH)
    show "\<forall>r \<in> set recs. \<forall>x \<in> set (recs_of enc1 (kr_KeyringID r)). key_of x \<noteq> key_of r"
    proof (intro ballI)
      fix y x assume y: "y \<in> set recs" and x: "x \<in> set (recs_of enc1 (kr_KeyringID y))"
      have "ring_key rec \<noteq> ring_key y" using Cons.prems(2) y by auto
      with x y Cons.prems(4) show "key_of x \<noteq> key_of y"
        by (auto simp: e(5) ring_key_def split: if_splits)
    qed
  qed (use e Cons.prems in simp_all)
  then obtain enc' where n: "merge_all recs enc1 = Inr enc'" "enc_wf enc'" "enc_aad enc' = enc_aad enc1"
    "enc_closed enc' = enc_closed enc1"
    "\<And>i. set (recs_of enc' i) = set (recs_of enc1 i) \<union> {r \<in> set recs. kr_KeyringID r = i}" by blast
  have "set (recs_of enc' i) = set (recs_of enc i) \<union> {r \<in> set (rec # recs). kr_KeyringID r = i}" for i
    by (cases "i = kr_KeyringID rec") (auto simp: n(5) e(5))
  with m n(1-4) e(2-4) show ?case by (simp add: merge_all_Cons)
qed

lemma recs_of_ring:
  assumes "i \<in> fst ` set (byRing enc)"
  shows "records (the (map_of (byRing enc) i)) = recs_of enc i"
proof -
  obtain ring where "map_of (byRing enc) i = Some ring"
    using assms by (metis domD dom_map_of_conv_image_fst)
  then show ?thesis by (simp add: recs_of_def)
qed

lemma recs_of_outside: "i \<notin> fst ` set (byRing enc) \<Longrightarrow> recs_of enc i = []"
  using map_of_eq_None_iff [of "byRing enc" i] by (simp add: recs_of_def)

lemma flatten_recs:
  "flattenRecords enc = concat (map (recs_of enc) (sort (map fst (byRing enc))))"
  unfolding flattenRecords_def by (intro arg_cong [where f = concat] map_cong) (simp_all add: recs_of_ring)

lemma flatten_set: "set (flattenRecords enc) = (\<Union>i. set (recs_of enc i))"
  using recs_of_outside [of _ enc] by (force simp: flatten_recs)

lemma flatten_wf:
  assumes "enc_wf enc"
  shows "distinct (map ring_key (flattenRecords enc))"
    "\<forall>r \<in> set (flattenRecords enc). valid_record (kr_KeyringID r) r"
    "{r \<in> set (flattenRecords enc). kr_KeyringID r = i} = set (recs_of enc i)"
proof -
  note v = recs_of_wf(3) [OF assms]
  show "\<forall>r \<in> set (flattenRecords enc). valid_record (kr_KeyringID r) r"
    using v by (auto simp: flatten_set) (metis valid_record_def)
  have "kr_KeyringID r = i" if "r \<in> set (recs_of enc i)" for r i
    using v [OF that] by (simp add: valid_record_def)
  then show "{r \<in> set (flattenRecords enc). kr_KeyringID r = i} = set (recs_of enc i)"
    by (auto simp: flatten_set)
  have d: "distinct (concat (map (\<lambda>i. map ring_key (recs_of enc i)) is))" if "distinct is" for "is"
    using that
  proof (induction "is")
    case (Cons i js)
    have "distinct (map ring_key (recs_of enc i))"
      using recs_of_wf(2) [OF assms, of i] by (auto simp: distinct_map ring_key_def inj_on_def)
    moreover have "ring_key x \<noteq> ring_key y" if "x \<in> set (recs_of enc i)" "y \<in> set (recs_of enc j)" "j \<in> set js" for x y j
      using that v Cons.prems by (metis distinct.simps(2) fst_conv ring_key_def valid_record_def)
    ultimately show ?case using Cons by force
  qed simp
  have "map ring_key (flattenRecords enc) =
      concat (map (\<lambda>i. map ring_key (recs_of enc i)) (sort (map fst (byRing enc))))"
    by (simp add: flatten_recs map_concat comp_def)
  with d [of "sort (map fst (byRing enc))"] assms show "distinct (map ring_key (flattenRecords enc))"
    by (simp add: enc_wf_def)
qed

section \<open>What references resolve to\<close>

lemma fetch_prefix:
  assumes "enc_wf enc" "ref_PubKey ref \<noteq> []"
  shows "fetchRecord enc (Some ref) =
     or_not_found (find (\<lambda>r. has_prefix (kr_PubKey r) (ref_PubKey ref) \<and>
       (ref_Type ref = KeyType_Unspecified \<or> kr_KeyType r = ref_Type ref)) (recs_of enc (ref_KeyringID ref)))"
proof (cases "map_of (byRing enc) (ref_KeyringID ref)")
  case None
  then show ?thesis by (simp add: fetchRecord_def recs_of_def or_not_found_def)
next
  case (Some ring)
  then have "sorted_ring (records ring)" using assms(1) by (auto simp: enc_wf_def ring_wf_def)
  with Some assms(2) show ?thesis
    by (simp add: fetchRecord_def recs_of_def or_not_found_def ringLookupTypedPrefix_scan)
qed

lemma fetch_newest:
  assumes "enc_wf enc" "ref_PubKey ref = []" "0 < ref_Type ref" "ref_Type ref < KeyType_NumTypes"
  shows "case fetchRecord enc (Some ref) of
      Inr r \<Rightarrow> is_newest (recs_of enc (ref_KeyringID ref)) (ref_Type ref) r
    | Inl e \<Rightarrow> e = KeyringNotFound \<and> (\<forall>r \<in> set (recs_of enc (ref_KeyringID ref)). kr_KeyType r \<noteq> ref_Type ref)"
proof (cases "map_of (byRing enc) (ref_KeyringID ref)")
  case None
  then show ?thesis by (simp add: fetchRecord_def recs_of_def)
next
  case (Some ring)
  let ?t = "ref_Type ref"
  have w: "ring_wf (ref_KeyringID ref) ring" using assms(1) Some by (simp add: enc_wf_def)
  then have ok: "newest_ok ring ?t" using assms(3,4) by (simp add: ring_wf_def)
  have t: "?t \<noteq> KeyType_Unspecified" "\<not> ?t < 0" "\<not> KeyType_NumTypes \<le> ?t"
    using assms(3,4) by (simp_all add: key_types)
  show ?thesis
  proof (cases "newestByType ring ! nat ?t = []")
    case True
    with ok Some t assms(2) show ?thesis by (simp add: fetchRecord_def recs_of_def newest_ok_def)
  next
    case False
    with ok obtain r where r: "is_newest (records ring) ?t r" "kr_PubKey r = newestByType ring ! nat ?t"
      by (auto simp: newest_ok_def)
    then have "r \<in> set (records ring)" by (simp add: is_newest_def)
    then have "ringLookupTyped ring (kr_PubKey r) (kr_KeyType r) = Some r" by (rule ringLookupTyped_wf [OF w])
    moreover have "records ring \<noteq> []" "kr_KeyType r = ?t" using r by (auto simp: is_newest_def)
    ultimately show ?thesis
      using r False Some t assms(2) by (simp add: fetchRecord_def recs_of_def or_not_found_def Let_def)
  qed
qed

text \<open>Rings with the same records agree on every reference that names a type and a key.\<close>

lemma typed_find_set:
  assumes "sorted_ring xs" "sorted_ring ys" "distinct (map key_of xs)" "distinct (map key_of ys)" "set xs = set ys"
  shows "find (\<lambda>r. Q (kr_PubKey r) \<and> kr_KeyType r = t) xs = find (\<lambda>r. Q (kr_PubKey r) \<and> kr_KeyType r = t) ys"
proof -
  let ?P = "\<lambda>r. kr_KeyType r = t"
  have d: "distinct (map kr_PubKey (filter ?P zs))" if "distinct (map key_of zs)" for zs
    using that by (induction zs) (auto simp: key_of_def)
  have i: "inj_on kr_PubKey (set (filter ?P xs) \<union> set (filter ?P ys))"
    using d [OF assms(3)] assms(5) by (auto simp: distinct_map)
  have s: "sorted_ring (filter ?P zs)" if "sorted_ring zs" for zs
    using that by (induction zs) auto
  have "filter ?P xs = filter ?P ys"
    by (rule map_sorted_distinct_set_unique [OF i s [OF assms(1)] d [OF assms(3)] s [OF assms(2)] d [OF assms(4)]])
      (use assms(5) in auto)
  then have "find (\<lambda>r. Q (kr_PubKey r)) (filter ?P xs) = find (\<lambda>r. Q (kr_PubKey r)) (filter ?P ys)" by simp
  then show ?thesis by (simp add: find_filter conj_commute)
qed

lemma same_records_fetch:
  assumes "enc_wf enc" "enc_wf enc2" "set (recs_of enc2 (ref_KeyringID ref)) = set (recs_of enc (ref_KeyringID ref))"
    "ref_PubKey ref \<noteq> []" "ref_Type ref \<noteq> KeyType_Unspecified"
  shows "fetchRecord enc2 (Some ref) = fetchRecord enc (Some ref)"
  using typed_find_set [OF recs_of_wf(1) [OF assms(2)] recs_of_wf(1) [OF assms(1)] recs_of_wf(2) [OF assms(2)]
      recs_of_wf(2) [OF assms(1)] assms(3), of "\<lambda>k. has_prefix k (ref_PubKey ref)"]
  by (simp add: fetch_prefix assms)

text \<open>A reference that names a type alone means the newest key; enclaves with the same records agree on it
  when no two keys of that type carry the same time.\<close>

definition newest_unique :: "enclave \<Rightarrow> key_ref \<Rightarrow> bool" where
  "newest_unique enc ref \<longleftrightarrow>
     distinct (map kr_TimeID (filter (\<lambda>r. kr_KeyType r = ref_Type ref) (recs_of enc (ref_KeyringID ref))))"

lemma same_records_newest:
  assumes "enc_wf enc" "enc_wf enc2" "set (recs_of enc2 (ref_KeyringID ref)) = set (recs_of enc (ref_KeyringID ref))"
    "ref_PubKey ref = []" "0 < ref_Type ref" "ref_Type ref < KeyType_NumTypes" "newest_unique enc ref"
  shows "fetchRecord enc2 (Some ref) = fetchRecord enc (Some ref)"
proof -
  let ?R = "recs_of enc (ref_KeyringID ref)" and ?R2 = "recs_of enc2 (ref_KeyringID ref)"
  note f = fetch_newest [OF assms(1) assms(4-6)] and f2 = fetch_newest [OF assms(2) assms(4-6)]
  have inj: "x = y" if "x \<in> set ?R" "y \<in> set ?R" "kr_KeyType x = ref_Type ref" "kr_KeyType y = ref_Type ref"
      "kr_TimeID x = kr_TimeID y" for x y
    using assms(7) that unfolding newest_unique_def distinct_map by (auto dest: inj_onD)
  have same: "r2 = r" if n: "is_newest ?R (ref_Type ref) r" "is_newest ?R2 (ref_Type ref) r2" for r r2
  proof (rule inj)
    have "kr_TimeID r2 \<le> kr_TimeID r" "kr_TimeID r \<le> kr_TimeID r2" using n assms(3) by (auto simp: is_newest_def)
    then show "kr_TimeID r2 = kr_TimeID r" by simp
  qed (use n assms(3) in \<open>auto simp: is_newest_def\<close>)
  show ?thesis
    using f f2 same assms(3) by (auto simp: is_newest_def split: sum.splits)
qed

lemma empty_enclave_wf: "enc_wf (empty_enclave aad n)"
  by (simp add: enc_wf_def empty_enclave_def)

lemma reload_enclave:
  assumes "enc_wf enc"
  shows "\<exists>enc2. merge_all (flattenRecords enc) (empty_enclave aad n) = Inr enc2 \<and> enc_wf enc2 \<and>
    \<not> enc_closed enc2 \<and> (\<forall>i. set (recs_of enc2 i) = set (recs_of enc i))"
proof -
  have "recs_of (empty_enclave aad n) i = []" for i by (simp add: recs_of_def empty_enclave_def)
  moreover have "\<not> enc_closed (empty_enclave aad n)" by (simp add: empty_enclave_def)
  ultimately show ?thesis
    using merge_all_adds [OF empty_enclave_wf flatten_wf(1,2) [OF assms], of aad n] flatten_wf(3) [OF assms] by auto
qed

section \<open>Sessions over a vault\<close>

locale enclave_keys = tome_vault good vault content
  for good :: "'c \<Rightarrow> bool" and vault :: "'c \<Rightarrow> 'd vault" and content :: "'c \<Rightarrow> 'd \<Rightarrow> sealed_tome option outcome" +
  fixes env :: "'c \<Rightarrow> 'd enc_env"
  assumes env_vault: "ee_vault (env c) = vault c"
    and codec: "good c \<Longrightarrow> ee_marshal (env c) t = Some b \<Longrightarrow> ee_unmarshal (env c) b = Some t"
begin

lemma persist_reload:
  assumes "good c" "enc_persist (env c) rand enc d = (d', r)"
  shows "case r of Inl e \<Rightarrow> content c d' = content c d
    | Inr _ \<Rightarrow> and_then (content c d') (open_enclave (env c) (enc_aad enc)) =
        merge_all (flattenRecords enc) (empty_enclave (enc_aad enc) (revision enc))"
proof (cases "ee_marshal (env c) \<lparr>kt_Revision = revision enc, kt_Keys = flattenRecords enc\<rparr>")
  case None
  with assms(2) show ?thesis by (auto simp: enc_persist_def)
next
  case (Some b)
  then have sv: "save_tome (vault c) ''session'' (enc_aad enc) rand b d = (d', r)"
    using assms(2) by (simp add: enc_persist_def env_vault)
  note k = save_tome_content [OF assms(1) sv]
  show ?thesis
  proof (cases r)
    case (Inr u)
    with k obtain s where "content c d' = Inr (Some s)" "open_tome (vault c) (enc_aad enc) s = Inr b" by auto
    then show ?thesis using codec [OF assms(1) Some] Inr by (simp add: open_enclave_def env_vault)
  qed (use k in simp)
qed

text \<open>A persisted index opens to one that holds the same records.\<close>

lemma persist:
  assumes "good c" "enc_wf enc" "enc_persist (env c) rand enc d = (d', r)"
  shows "case r of Inl e \<Rightarrow> content c d' = content c d
    | Inr _ \<Rightarrow> \<exists>enc2. and_then (content c d') (open_enclave (env c) (enc_aad enc)) = Inr enc2 \<and> enc_wf enc2 \<and>
        \<not> enc_closed enc2 \<and> (\<forall>i. set (recs_of enc2 i) = set (recs_of enc i))"
  using persist_reload [OF assms(1,3)] reload_enclave [OF assms(2), of "enc_aad enc" "revision enc"]
  by (auto split: sum.splits)

end

section \<open>The enclave over the local vault\<close>

record enc_cfg =
  nc_local :: local_cfg
  nc_marshal :: "key_tome \<Rightarrow> byte list option"
  nc_unmarshal :: "byte list \<Rightarrow> key_tome option"
  nc_kit :: "uid \<Rightarrow> kit outcome"

definition enclave_env :: "enc_cfg \<Rightarrow> file_system enc_env" where
  "enclave_env c = \<lparr>ee_vault = local_vault (nc_local c), ee_marshal = nc_marshal c,
     ee_unmarshal = nc_unmarshal c, ee_kit = nc_kit c\<rparr>"

definition nc_good :: "enc_cfg \<Rightarrow> bool" where
  "nc_good c \<longleftrightarrow> local_good (nc_local c) \<and> (\<forall>t b. nc_marshal c t = Some b \<longrightarrow> nc_unmarshal c b = Some t)"

interpretation local_enclave: enclave_keys nc_good "\<lambda>c. local_vault (nc_local c)"
  "\<lambda>c. local_content (nc_local c)" enclave_env
proof (unfold_locales, goal_cases)
  case (1 c)
  then show ?case by (simp add: nc_good_def local_store.cipher)
next
  case (2 c rand dek aad w)
  then show ?case by (simp add: nc_good_def local_store.unwrap_wrap)
next
  case (3 c d d' r)
  with local_store.load_content [of "nc_local c" d d' r] show ?case by (simp add: nc_good_def)
next
  case (4 c d s d' r)
  with local_store.save_content [of "nc_local c" d s d' r] show ?case by (simp add: nc_good_def)
qed (simp_all add: nc_good_def enclave_env_def)

definition reopen_enclave :: "enc_cfg \<Rightarrow> byte list \<Rightarrow> file_system \<Rightarrow> enclave outcome" where
  "reopen_enclave c aad fs = snd (OpenEnclave (enclave_env c) aad (fs\<lparr>faults := []\<rparr>))"

lemma reopen_enclave_content:
  "reopen_enclave c aad fs = and_then (local_content (nc_local c) fs) (open_enclave (enclave_env c) aad)"
  by (simp add: reopen_enclave_def OpenEnclave_def enclave_env_def local_vault_def local_Load_def syscall_def
      local_content_def case_prod_beta split: option.splits)

lemma ImportKey_steps:
  assumes "ImportKey E rand now i kp (enc, d) = ((enc', d'), r)" "\<not> enc_closed enc"
    "MinPubKeyPrefixSz \<le> length (pk_Bytes (kp_Pub kp))"
  obtains m where "mergeRecord (import_record now i kp) enc = (enc', m)"
    "case m of Inl e \<Rightarrow> d' = d \<and> r = Inl e
     | Inr _ \<Rightarrow> if revision enc' = revision enc then d' = d \<and> r = Inr () else enc_persist E rand enc' d = (d', r)"
proof -
  obtain enc1 m where m: "mergeRecord (import_record now i kp) enc = (enc1, m)"
    by (cases "mergeRecord (import_record now i kp) enc")
  obtain d1 r1 where p: "enc_persist E rand enc1 d = (d1, r1)" by (cases "enc_persist E rand enc1 d")
  from assms m p have "enc1 = enc'" "case m of Inl e \<Rightarrow> d' = d \<and> r = Inl e
     | Inr _ \<Rightarrow> if revision enc1 = revision enc then d' = d \<and> r = Inr () else d' = d1 \<and> r = r1"
    by (auto simp: ImportKey_def split: sum.splits if_splits)
  with m p that show ?thesis by (auto split: sum.splits if_splits)
qed

lemma import_valid:
  assumes "MinPubKeyPrefixSz \<le> length (pk_Bytes (kp_Pub kp))" "0 \<le> pk_KeyType (kp_Pub kp)"
    "pk_KeyType (kp_Pub kp) < KeyType_NumTypes"
  shows "valid_record (kr_KeyringID (import_record now i kp)) (import_record now i kp)"
  using assms by (auto simp: valid_record_def import_record_def MinPubKeyPrefixSz_def)

section \<open>Properties\<close>

text \<open>The binary searches of the index find what a scan of the sorted ring finds first: the record of
  a public key, of a public key and a type, or of a key prefix and a type.\<close>

theorem lookups_are_scans:
  assumes "sorted (map kr_PubKey (records ring))"
  shows "ringLookup ring p = find (\<lambda>r. kr_PubKey r = p) (records ring) \<and>
     ringLookupTyped ring p kt = find (\<lambda>r. kr_PubKey r = p \<and> kr_KeyType r = kt) (records ring) \<and>
     ringLookupTypedPrefix ring p kt =
       find (\<lambda>r. has_prefix (kr_PubKey r) p \<and> (kt = KeyType_Unspecified \<or> kr_KeyType r = kt)) (records ring)"
  using assms by (simp add: ringLookup_scan ringLookupTyped_scan ringLookupTypedPrefix_scan)

text \<open>C21. Importing keeps the index well formed: rings sorted, one record for a public key and a type, and
  the newest record of every type on record.  It adds the key unless its public key is taken for
  that type, and then succeeds only on an exact duplicate.\<close>

theorem ImportKey_index:
  assumes "enc_wf enc" "\<not> enc_closed enc" "0 \<le> pk_KeyType (kp_Pub kp)" "pk_KeyType (kp_Pub kp) < KeyType_NumTypes"
    and "MinPubKeyPrefixSz \<le> length (pk_Bytes (kp_Pub kp))"
    and "ImportKey E rand now i kp (enc, d) = ((enc', d'), r)"
  shows "enc_wf enc' \<and>
    (case find (\<lambda>x. key_of x = key_of (import_record now i kp)) (recs_of enc i) of
       Some x \<Rightarrow> recs_of enc' = recs_of enc \<and> d' = d \<and>
                 r = (if recordsEqual x (import_record now i kp) then Inr () else Inl BadKeyFormat)
     | None \<Rightarrow> set (recs_of enc' i) = insert (import_record now i kp) (set (recs_of enc i)))"
proof -
  let ?rec = "import_record now i kp"
  obtain m where m: "mergeRecord ?rec enc = (enc', m)"
    "case m of Inl e \<Rightarrow> d' = d \<and> r = Inl e
     | Inr _ \<Rightarrow> if revision enc' = revision enc then d' = d \<and> r = Inr () else enc_persist E rand enc' d = (d', r)"
    by (rule ImportKey_steps [OF assms(6,2,5)])
  have i: "kr_KeyringID ?rec = i" by (simp add: import_record_def)
  from mergeRecord_wf [OF assms(1) import_valid [OF assms(5,3,4)] m(1)] m(2) show ?thesis
    unfolding i by (auto split: option.splits if_splits)
qed

text \<open>C20. A reference that names a type resolves to the newest record of the type, and with a key prefix to
  the first record, in the order of public keys, that has the prefix and the type; it is not found
  exactly when there is none.\<close>

theorem fetch_resolves:
  assumes "enc_wf enc" "0 < ref_Type ref" "ref_Type ref < KeyType_NumTypes"
  shows "if ref_PubKey ref = []
     then (case fetchRecord enc (Some ref) of
             Inr r \<Rightarrow> is_newest (recs_of enc (ref_KeyringID ref)) (ref_Type ref) r
           | Inl e \<Rightarrow> e = KeyringNotFound \<and>
               (\<forall>r. r \<in> set (recs_of enc (ref_KeyringID ref)) \<longrightarrow> kr_KeyType r \<noteq> ref_Type ref))
     else fetchRecord enc (Some ref) =
            or_not_found (find (\<lambda>r. has_prefix (kr_PubKey r) (ref_PubKey ref) \<and> kr_KeyType r = ref_Type ref)
              (recs_of enc (ref_KeyringID ref)))"
  using fetch_newest [OF assms(1) _ assms(2,3)] fetch_prefix [OF assms(1)] assms(2)
  by (auto simp: key_types split: sum.splits)

text \<open>C22. An import that adds a key and reports success is durable: the enclave that opens from the disk
  resolves every reference that names a type as the session does, if the reference names a key as well or no
  two keys of its type carry the same time.  (Of two keys with the same time the one merged last counts as the newest, and the
  order of merging is not kept: see \<open>newest_tie_flips\<close>.)\<close>

theorem import_durable:
  assumes "nc_good c" "enc_wf enc" "\<not> enc_closed enc"
    and "0 \<le> pk_KeyType (kp_Pub kp)" "pk_KeyType (kp_Pub kp) < KeyType_NumTypes"
    and "MinPubKeyPrefixSz \<le> length (pk_Bytes (kp_Pub kp))"
    and "ImportKey (enclave_env c) rand now i kp (enc, d) = ((enc', d'), Inr ())" "revision enc' \<noteq> revision enc"
    and "0 < ref_Type ref" "ref_Type ref < KeyType_NumTypes" "ref_PubKey ref \<noteq> [] \<or> newest_unique enc' ref"
  shows "\<exists>enc2. reopen_enclave c (enc_aad enc) d' = Inr enc2 \<and> enc_wf enc2 \<and>
           fetchRecord enc2 (Some ref) = fetchRecord enc' (Some ref)"
proof -
  obtain m where m: "mergeRecord (import_record now i kp) enc = (enc', m)"
    "case m of Inl e \<Rightarrow> d' = d \<and> Inr () = (Inl e :: unit outcome)
     | Inr _ \<Rightarrow> if revision enc' = revision enc then d' = d \<and> Inr () = (Inr () :: unit outcome)
         else enc_persist (enclave_env c) rand enc' d = (d', Inr ())"
    by (rule ImportKey_steps [OF assms(7,3,6)])
  then have p: "enc_persist (enclave_env c) rand enc' d = (d', Inr ())" using assms(8) by (auto split: sum.splits)
  have w: "enc_wf enc'" "enc_aad enc' = enc_aad enc"
    using mergeRecord_wf [OF assms(2) import_valid [OF assms(6,4,5)] m(1)] by auto
  from local_enclave.persist [OF assms(1) w(1) p] w(2) obtain enc2 where
    "reopen_enclave c (enc_aad enc) d' = Inr enc2" "enc_wf enc2" "\<forall>i. set (recs_of enc2 i) = set (recs_of enc' i)"
    by (auto simp: reopen_enclave_content)
  moreover have "ref_Type ref \<noteq> KeyType_Unspecified" using assms(9) by (simp add: key_types)
  ultimately show ?thesis
    using same_records_fetch [OF w(1)] same_records_newest [OF w(1) _ _ _ assms(9,10)] assms(11) by metis
qed

text \<open>An import whose save failed leaves the key in memory only, and repeating it reports success
  without writing anything: the disk still holds what it held before.\<close>

theorem import_retry_unsaved:
  assumes "nc_good c" "enc_wf enc" "\<not> enc_closed enc"
    and "0 \<le> pk_KeyType (kp_Pub kp)" "pk_KeyType (kp_Pub kp) < KeyType_NumTypes"
    and "MinPubKeyPrefixSz \<le> length (pk_Bytes (kp_Pub kp))" "\<not> IsNil (pk_TimeID (kp_Pub kp))"
    and "ImportKey (enclave_env c) rand now i kp (enc, d) = ((enc', d'), Inl e)" "revision enc' \<noteq> revision enc"
  shows "snd (ImportKey (enclave_env c) rand2 now2 i kp (enc', d')) = Inr () \<and>
         snd (fst (ImportKey (enclave_env c) rand2 now2 i kp (enc', d'))) = d' \<and>
         local_content (nc_local c) d' = local_content (nc_local c) d"
proof -
  let ?rec = "import_record now i kp"
  obtain m where m: "mergeRecord ?rec enc = (enc', m)"
    "case m of Inl x \<Rightarrow> d' = d \<and> Inl e = (Inl x :: unit outcome)
     | Inr _ \<Rightarrow> if revision enc' = revision enc then d' = d \<and> Inl e = (Inr () :: unit outcome)
         else enc_persist (enclave_env c) rand enc' d = (d', Inl e)"
    by (rule ImportKey_steps [OF assms(8,3,6)])
  have i: "kr_KeyringID ?rec = i" and same: "import_record now2 i kp = ?rec"
    using assms(7) by (simp_all add: import_record_def)
  note v = import_valid [OF assms(6,4,5), of now i]
  from mergeRecord_wf [OF assms(2) v m(1)] assms(9) have w: "enc_wf enc'" "\<not> enc_closed enc'" "m = Inr ()"
    "?rec \<in> set (recs_of enc' i)"
    unfolding i using assms(3) by (auto split: option.splits)
  with m(2) assms(9) have p: "enc_persist (enclave_env c) rand enc' d = (d', Inl e)" by simp
  have f: "find (\<lambda>x. key_of x = key_of ?rec) (recs_of enc' i) = Some ?rec"
    using find_unique [OF recs_of_wf(2) [OF w(1)] w(4)] by (simp add: key_of_def)
  obtain enc2 m2 where m2: "mergeRecord ?rec enc' = (enc2, m2)" by (cases "mergeRecord ?rec enc'")
  from mergeRecord_wf [OF w(1) v m2] f have "m2 = Inr ()" "revision enc2 = revision enc'"
    unfolding i by (simp_all add: recordsEqual_def)
  with m2 w(2) assms(6) have "ImportKey (enclave_env c) rand2 now2 i kp (enc', d') = ((enc2, d'), Inr ())"
    by (simp add: ImportKey_def same)
  then show ?thesis using local_enclave.persist [OF assms(1) w(1) p] by simp
qed

text \<open>The private half of a key leaves the enclave only if the key is symmetric; a signature needs a
  signing key whose private half is held, which is what \<open>CanSign\<close> reports.\<close>

theorem private_key_custody:
  "(ExportSymmetricKey enc ref = Inr k \<longrightarrow>
           (\<exists>rec. fetchRecord enc ref = Inr rec \<and> kr_KeyType rec = KeyType_SymmetricKey \<and> k = kr_PrvKey rec)) \<and>
         (SignRaw E enc ref msg = Inr sig \<longrightarrow> CanSign enc ref = Inr True) \<and>
         (CanSign enc ref = Inr True \<longrightarrow>
           (\<exists>rec. fetchRecord enc ref = Inr rec \<and> kr_KeyType rec = KeyType_SigningKey \<and> kr_PrvKey rec \<noteq> []))"
  by (auto simp: ExportSymmetricKey_def SignRaw_def CanSign_def fetchTypedRecord_def and_then_eq_Inr
      split: if_splits option.splits sum.splits)

text \<open>What \<open>EncryptSym\<close> produces under a reference \<open>DecryptSym\<close> opens under the same reference.\<close>

theorem EncryptSym_DecryptSym:
  assumes "aead_law (v_prims (ee_vault E))" "EncryptSym E rand enc ref plaintext = Inr ct"
  shows "DecryptSym E enc ref ct = Inr plaintext"
proof -
  from assms(2) obtain rec k nonce blob where f: "fetchTypedRecord E enc ref KeyType_SymmetricKey = Inr (rec, k)"
    "SealAEAD (v_prims (ee_vault E)) rand (kr_PrvKey rec) plaintext [] = Inr (nonce, blob)" "ct = nonce @ blob"
    by (auto simp: EncryptSym_def and_then_eq_Inr)
  from SealAEAD_open [OF assms(1) f(2)] f show ?thesis by (simp add: DecryptSym_def)
qed

text \<open>Two keys of one keyring with the same public key, a signing key and an older symmetric key: a
  reference without a type resolves to the symmetric key in the session, although the signing key
  is the newest, and to the signing key once the enclave is closed and opened again.\<close>

definition twin_sign :: key_record where
  "twin_sign = \<lparr>kr_KeyringID = UID 1 1, kr_CryptoKitID = nilUID, kr_KeyType = 3, kr_TimeID = UID 0 5,
     kr_PubKey = replicate 16 7, kr_PrvKey = [1]\<rparr>"

definition twin_sym :: key_record where
  "twin_sym = twin_sign\<lparr>kr_KeyType := 1, kr_TimeID := UID 0 3, kr_PrvKey := [2]\<rparr>"

definition twins :: enclave where
  "twins = fst (mergeRecord twin_sym (fst (mergeRecord twin_sign (empty_enclave [] 1))))"

definition untyped_ref :: key_ref where
  "untyped_ref = \<lparr>ref_KeyringID = UID 1 1, ref_Type = KeyType_Unspecified, ref_PubKey = []\<rparr>"

lemma twins_facts:
  "fetchRecord twins (Some untyped_ref) = Inr twin_sym" "CanSign twins (Some untyped_ref) = Inr False"
  "case merge_all (flattenRecords twins) (empty_enclave (enc_aad twins) (revision twins)) of
     Inl e \<Rightarrow> False | Inr enc2 \<Rightarrow> CanSign enc2 (Some untyped_ref) = Inr True"
  "enc_aad twins = []"
  by code_simp+

text \<open>A reference without a type does not resolve to the newest key when two keys share their public
  key, and what it resolves to changes when the enclave is reopened.\<close>

theorem untyped_reference_flips:
  assumes "nc_good c" "enc_persist (enclave_env c) rand twins d = (d', Inr ())"
  shows "CanSign twins (Some untyped_ref) = Inr False \<and>
         (\<exists>enc2. reopen_enclave c [] d' = Inr enc2 \<and> CanSign enc2 (Some untyped_ref) = Inr True)"
  using local_enclave.persist_reload [OF assms] twins_facts
  by (auto simp: reopen_enclave_content split: sum.splits)

text \<open>Two signing keys of one keyring with one time: a reference to the newest signing key resolves to
  the one imported last, and to the other once the enclave is closed and opened again.\<close>

definition newest_ref :: key_ref where
  "newest_ref = \<lparr>ref_KeyringID = UID 1 1, ref_Type = 3, ref_PubKey = []\<rparr>"

definition tied_sign :: key_record where
  "tied_sign = twin_sign\<lparr>kr_PubKey := replicate 16 6, kr_PrvKey := [2]\<rparr>"

definition tied :: enclave where
  "tied = fst (mergeRecord tied_sign (fst (mergeRecord twin_sign (empty_enclave [] 1))))"

lemma tied_facts:
  "fetchRecord tied (Some newest_ref) = Inr tied_sign"
  "case merge_all (flattenRecords tied) (empty_enclave (enc_aad tied) (revision tied)) of
     Inl e \<Rightarrow> False | Inr enc2 \<Rightarrow> fetchRecord enc2 (Some newest_ref) = Inr twin_sign"
  "enc_aad tied = []"
  by code_simp+

theorem newest_tie_flips:
  assumes "nc_good c" "enc_persist (enclave_env c) rand tied d = (d', Inr ())"
  shows "fetchRecord tied (Some newest_ref) = Inr tied_sign \<and>
         (\<exists>enc2. reopen_enclave c [] d' = Inr enc2 \<and> fetchRecord enc2 (Some newest_ref) = Inr twin_sign)"
  using local_enclave.persist_reload [OF assms] tied_facts
  by (auto simp: reopen_enclave_content split: sum.splits)

section \<open>Witnesses\<close>

definition toy_kit :: kit where
  "toy_kit = \<lparr>sign_Generate = None, kit_Sign = Some (\<lambda>msg prv. Inr (prv @ msg)), encrypt_Generate = None, kit_Open = None\<rparr>"

definition toy_nc :: "key_tome \<Rightarrow> enc_cfg" where
  "toy_nc t0 = \<lparr>nc_local = toy_cfg (toy_sealed ''session''), nc_marshal = (\<lambda>t. if t = t0 then Some [3] else None),
     nc_unmarshal = (\<lambda>b. Some t0), nc_kit = (\<lambda>k. Inr toy_kit)\<rparr>"

lemma toy_nc_good: "nc_good (toy_nc t0)"
  by (simp add: nc_good_def toy_nc_def toy_cfg_good)

lemma toy_enc_persist:
  assumes "t0 = \<lparr>kt_Revision = revision enc, kt_Keys = flattenRecords enc\<rparr>" "enc_aad enc = []"
  shows "snd (enc_persist (enclave_env (toy_nc t0)) zeros enc blank_disk) = Inr ()"
  using assms toy_save_tome [of "''session''"] by (simp add: enc_persist_def enclave_env_def toy_nc_def)

lemma toy_enc_persist_fails:
  assumes "t0 \<noteq> \<lparr>kt_Revision = revision enc, kt_Keys = flattenRecords enc\<rparr>"
  shows "enc_persist (enclave_env (toy_nc t0)) rand enc d = (d, Inl Other)"
  using assms by (simp add: enc_persist_def enclave_env_def toy_nc_def)

definition toy_pair :: key_pair where
  "toy_pair = \<lparr>kp_Pub = \<lparr>pk_CryptoKitID = nilUID, pk_KeyType = 3, pk_TimeID = UID 0 5, pk_Bytes = replicate 16 7\<rparr>,
     kp_Prv = [1]\<rparr>"

definition signing_ref :: key_ref where
  "signing_ref = \<lparr>ref_KeyringID = UID 1 1, ref_Type = 3, ref_PubKey = [7]\<rparr>"

definition one_key :: enclave where
  "one_key = fst (mergeRecord twin_sign (empty_enclave [] 1))"

lemma one_key_facts:
  "import_record nilUID (UID 1 1) toy_pair = twin_sign"
  "mergeRecord twin_sign (empty_enclave [] 1) = (one_key, Inr ())"
  "revision one_key = 2" "\<not> enc_closed one_key" "enc_aad one_key = []"
  "flattenRecords one_key = [twin_sign]" "recs_of one_key (UID 1 1) = [twin_sign]"
  "fetchRecord one_key (Some signing_ref) = Inr twin_sign"
  by code_simp+

lemma pair_facts:
  "\<not> enc_closed (empty_enclave [] 1)" "revision (empty_enclave [] 1) = 1" "enc_aad (empty_enclave [] 1) = []"
  "0 \<le> pk_KeyType (kp_Pub toy_pair)" "pk_KeyType (kp_Pub toy_pair) < KeyType_NumTypes"
  "MinPubKeyPrefixSz \<le> length (pk_Bytes (kp_Pub toy_pair))" "\<not> IsNil (pk_TimeID (kp_Pub toy_pair))"
  "ref_PubKey signing_ref \<noteq> []" "ref_Type signing_ref \<noteq> KeyType_Unspecified" "0 < ref_Type signing_ref"
  "ref_Type signing_ref < KeyType_NumTypes"
  by code_simp+

lemma newest_ref_facts:
  "0 < ref_Type newest_ref" "ref_Type newest_ref < KeyType_NumTypes" "newest_unique one_key newest_ref"
  "fetchRecord one_key (Some newest_ref) = Inr twin_sign"
  by code_simp+

lemma one_key_wf: "enc_wf one_key"
  using mergeRecord_wf [OF empty_enclave_wf _ one_key_facts(2)]
  by (simp add: valid_record_def twin_sign_def key_types)

lemma toy_import:
  "ImportKey (enclave_env c) rand nilUID (UID 1 1) toy_pair (empty_enclave [] 1, d) =
     (let (d', r) = enc_persist (enclave_env c) rand one_key d in ((one_key, d'), r))"
  using pair_facts by (simp add: ImportKey_def one_key_facts)

theorem lookups_are_scans_witness:
  "ringLookupTypedPrefix \<lparr>records = [twin_sym, twin_sign], newestByType = []\<rparr> [7, 7] 3 = Some twin_sign"
proof -
  have "sorted (map kr_PubKey (records \<lparr>records = [twin_sym, twin_sign], newestByType = []\<rparr>))"
    by (simp add: twin_sym_def)
  from lookups_are_scans [OF this, of "[7, 7]" 3]
  have "ringLookupTypedPrefix \<lparr>records = [twin_sym, twin_sign], newestByType = []\<rparr> [7, 7] 3 =
      find (\<lambda>r. has_prefix (kr_PubKey r) [7, 7] \<and> (3 = KeyType_Unspecified \<or> kr_KeyType r = 3)) [twin_sym, twin_sign]"
    by simp
  also have "\<dots> = Some twin_sign" by code_simp
  finally show ?thesis .
qed

text \<open>The first import on a blank disk, with a tome the codec knows or one it does not.\<close>

definition good_nc :: enc_cfg where
  "good_nc = toy_nc \<lparr>kt_Revision = 2, kt_Keys = [twin_sign]\<rparr>"

definition failing_nc :: enc_cfg where
  "failing_nc = toy_nc \<lparr>kt_Revision = 7, kt_Keys = []\<rparr>"

lemma good_nc_import:
  "\<exists>d'. ImportKey (enclave_env good_nc) zeros nilUID (UID 1 1) toy_pair (empty_enclave [] 1, blank_disk) = ((one_key, d'), Inr ())"
proof -
  have "snd (enc_persist (enclave_env good_nc) zeros one_key blank_disk) = Inr ()"
    unfolding good_nc_def by (rule toy_enc_persist) (simp_all add: one_key_facts)
  then obtain d' where "enc_persist (enclave_env good_nc) zeros one_key blank_disk = (d', Inr ())" by (metis prod.collapse)
  then show ?thesis by (simp add: toy_import)
qed

lemma failing_nc_import:
  "ImportKey (enclave_env failing_nc) zeros nilUID (UID 1 1) toy_pair (empty_enclave [] 1, blank_disk)
     = ((one_key, blank_disk), Inl Other)"
  unfolding failing_nc_def toy_import by (subst toy_enc_persist_fails) (simp_all add: one_key_facts)

theorem ImportKey_index_witness:
  "enc_wf one_key \<and> set (recs_of one_key (UID 1 1)) = {twin_sign}"
proof -
  have "find (\<lambda>x. key_of x = key_of (import_record nilUID (UID 1 1) toy_pair)) (recs_of (empty_enclave [] 1) (UID 1 1)) = None"
    "set (recs_of (empty_enclave [] 1) (UID 1 1)) = {}"
    by (simp_all add: recs_of_def empty_enclave_def)
  with ImportKey_index [OF empty_enclave_wf pair_facts(1,4,5,6) failing_nc_import] show ?thesis
    by (simp add: one_key_facts)
qed

theorem fetch_resolves_witness:
  "fetchRecord one_key (Some signing_ref) =
     or_not_found (find (\<lambda>r. has_prefix (kr_PubKey r) [7] \<and> kr_KeyType r = 3) [twin_sign])"
  using fetch_resolves [OF one_key_wf pair_facts(10,11)]
  by (simp add: pair_facts(8)) (simp add: signing_ref_def one_key_facts)

theorem import_durable_witness:
  "\<exists>d' enc2 enc3. ImportKey (enclave_env good_nc) zeros nilUID (UID 1 1) toy_pair (empty_enclave [] 1, blank_disk)
      = ((one_key, d'), Inr ()) \<and>
     reopen_enclave good_nc [] d' = Inr enc2 \<and> fetchRecord enc2 (Some signing_ref) = Inr twin_sign \<and>
     reopen_enclave good_nc [] d' = Inr enc3 \<and> fetchRecord enc3 (Some newest_ref) = Inr twin_sign"
proof -
  obtain d' where i: "ImportKey (enclave_env good_nc) zeros nilUID (UID 1 1) toy_pair (empty_enclave [] 1, blank_disk)
      = ((one_key, d'), Inr ())" using good_nc_import by blast
  have c: "nc_good good_nc" "revision one_key \<noteq> revision (empty_enclave [] 1)"
    by (simp_all add: good_nc_def toy_nc_good one_key_facts pair_facts)
  note D = import_durable [OF c(1) empty_enclave_wf pair_facts(1,4,5,6) i c(2)]
  from D [OF pair_facts(10,11)] D [OF newest_ref_facts(1,2)] i show ?thesis
    by (simp add: one_key_facts pair_facts newest_ref_facts) blast
qed

theorem import_retry_unsaved_witness:
  "snd (ImportKey (enclave_env failing_nc) zeros nilUID (UID 1 1) toy_pair (empty_enclave [] 1, blank_disk)) = Inl Other \<and>
   snd (ImportKey (enclave_env failing_nc) zeros nilUID (UID 1 1) toy_pair (one_key, blank_disk)) = Inr ()"
proof -
  have "nc_good failing_nc" "revision one_key \<noteq> revision (empty_enclave [] 1)"
    by (simp_all add: failing_nc_def toy_nc_good one_key_facts pair_facts)
  from import_retry_unsaved [OF this(1) empty_enclave_wf pair_facts(1,4,5,6,7) failing_nc_import this(2)]
  show ?thesis by (simp add: failing_nc_import)
qed

theorem private_key_custody_witness:
  "SignRaw (enclave_env good_nc) one_key (Some signing_ref) [9] = Inr [1, 9] \<and>
   CanSign one_key (Some signing_ref) = Inr True"
proof -
  have "SignRaw (enclave_env good_nc) one_key (Some signing_ref) [9] = Inr [1, 9]"
    by (simp add: SignRaw_def fetchTypedRecord_def one_key_facts enclave_env_def good_nc_def toy_nc_def toy_kit_def)
      (simp add: twin_sign_def key_types)
  with private_key_custody [of one_key "Some signing_ref" "[]" "enclave_env good_nc" "[9]" "[1, 9]"] show ?thesis by blast
qed

definition sym_enclave :: enclave where
  "sym_enclave = fst (mergeRecord (twin_sym\<lparr>kr_PrvKey := replicate 32 1\<rparr>) (empty_enclave [] 1))"

theorem EncryptSym_DecryptSym_witness:
  "\<exists>ct. DecryptSym (enclave_env good_nc) sym_enclave (Some untyped_ref) ct = Inr [4, 2]"
proof -
  have "fetchRecord sym_enclave (Some untyped_ref) = Inr (twin_sym\<lparr>kr_PrvKey := replicate 32 1\<rparr>)"
    "\<not> enc_closed sym_enclave" by code_simp+
  then have "\<exists>ct. EncryptSym (enclave_env good_nc) (replicate 24 0) sym_enclave (Some untyped_ref) [4, 2] = Inr ct"
    by (simp add: EncryptSym_def fetchTypedRecord_def enclave_env_def good_nc_def toy_nc_def SealAEAD_def
        NewAEAD_def read_full_def DEKSize_def NonceSize_def) (simp add: twin_sym_def key_types)
  then obtain ct where "EncryptSym (enclave_env good_nc) (replicate 24 0) sym_enclave (Some untyped_ref) [4, 2] = Inr ct" ..
  moreover have "aead_law (v_prims (ee_vault (enclave_env good_nc)))"
    by (simp add: enclave_env_def good_nc_def toy_nc_def local_vault_def toy_cfg_def toy_laws)
  ultimately show ?thesis using EncryptSym_DecryptSym by blast
qed

theorem untyped_reference_flips_witness:
  "\<exists>c d' enc2. reopen_enclave c [] d' = Inr enc2 \<and> CanSign enc2 (Some untyped_ref) = Inr True"
proof -
  let ?c = "toy_nc \<lparr>kt_Revision = revision twins, kt_Keys = flattenRecords twins\<rparr>"
  have "snd (enc_persist (enclave_env ?c) zeros twins blank_disk) = Inr ()"
    by (rule toy_enc_persist) (simp_all add: twins_facts)
  then obtain d' where "enc_persist (enclave_env ?c) zeros twins blank_disk = (d', Inr ())" by (metis prod.collapse)
  from untyped_reference_flips [OF toy_nc_good this] show ?thesis by blast
qed

end
