(* ===== verification/TaskCtx.thy ===== *)
theory TaskCtx
  imports Uid
begin

text \<open>
  The lifecycle of task contexts (\<open>stdlib/task/task.go\<close>): a tree of contexts, each with a monitor
  goroutine that drives it from Running over Closing to Closed, a reservation for its set-up and
  work body, and at most one idle-close goroutine.  Every section the code runs under a mutex is
  one step; goroutines interleave at their program points.  A broadcast channel is its number: the
  channel \<open>n\<close> of a context is closed when \<open>n < t_chan\<close>.  Time is a clock that only advances.
\<close>

section \<open>State\<close>

datatype run_state = Running | Closing | Closed

record task_info =
  TaskID :: uid
  Label :: string
  IdleClose :: int

text \<open>Where the goroutine of \<open>StartChild\<close> and \<open>OnRun\<close> stands: in \<open>OnStart\<close>, after a failed \<open>OnStart\<close>
  and before the release, in \<open>OnRun\<close>, after its release, or finished.\<close>

datatype body_pc = Setup | SetupFailed | Body | AfterBody | BodyDone

text \<open>Where the monitor stands: at its \<open>select\<close>, before \<open>OnClosing\<close>, before \<open>OnChildClosing\<close>, at the test
  and at the wait of \<open>waitIdle\<close>, before the detach, before the final state, before \<open>OnClosed\<close>, before
  closing the done channel, before the idle-close of the parent, or finished.  The number is
  \<open>parentIdleClose\<close>.\<close>

datatype mon_pc = MonSelect | MonHooks | MonChildHook | MonCheck | MonWait nat | MonDetach | MonFinal int
  | MonOnClosed int | MonClose int | MonIdle int | MonDone

text \<open>Where the idle-close loop stands: not running, at its top, waiting for work to end, or waiting
  for its timer.\<close>

datatype idle_pc = IdleOff | IdleTop | IdleBusy nat | IdleTimer nat int

record task_ctx =
  t_parent :: "nat option"
  t_info :: task_info
  t_has_run :: bool
  t_state :: run_state
  t_subs :: "nat list"
  t_active :: int
  t_chan :: nat
  t_chan_open :: bool
  t_idleDelay :: int
  t_idleFloor :: "int option"
  t_idleLoop :: bool
  t_done :: bool
  t_body :: body_pc
  t_mon :: mon_pc
  t_idle :: idle_pc

datatype hook = OnClosing nat | OnChildClosing nat nat | OnClosed nat | Done nat

record world =
  ctxs :: "task_ctx list"
  clock :: int
  hooks :: "hook list"

abbreviation ctx_at :: "world \<Rightarrow> nat \<Rightarrow> task_ctx" where
  "ctx_at w i \<equiv> ctxs w ! i"

definition upd :: "nat \<Rightarrow> (task_ctx \<Rightarrow> task_ctx) \<Rightarrow> world \<Rightarrow> world" where
  "upd i f w = w\<lparr>ctxs := (ctxs w)[i := f (ctx_at w i)]\<rparr>"

definition emit :: "hook \<Rightarrow> world \<Rightarrow> world" where
  "emit h w = w\<lparr>hooks := h # hooks w\<rparr>"

section \<open>Operations on one context\<close>

definition signalChange :: "task_ctx \<Rightarrow> task_ctx" where
  "signalChange c = (if t_chan_open c then c\<lparr>t_chan := t_chan c + 1, t_chan_open := False\<rparr> else c)"

definition changeChan :: "task_ctx \<Rightarrow> task_ctx \<times> nat" where
  "changeChan c = (c\<lparr>t_chan_open := True\<rparr>, t_chan c)"

definition close_ctx :: "task_ctx \<Rightarrow> task_ctx" where
  "close_ctx c = (if t_state c \<noteq> Running then c else signalChange (c\<lparr>t_state := Closing\<rparr>))"

definition release :: "task_ctx \<Rightarrow> task_ctx" where
  "release c = signalChange (c\<lparr>t_active := t_active c - 1\<rparr>)"

definition PreventIdleClose :: "int \<Rightarrow> int \<Rightarrow> task_ctx \<Rightarrow> task_ctx \<times> bool" where
  "PreventIdleClose now delay c =
     (let floor = now + delay;
          c = (case t_idleFloor c of None \<Rightarrow> c\<lparr>t_idleFloor := Some floor\<rparr>
               | Some old \<Rightarrow> if old < floor then c\<lparr>t_idleFloor := Some floor\<rparr> else c)
      in (signalChange c, t_state c = Running))"

definition CloseWhenIdle :: "int \<Rightarrow> task_ctx \<Rightarrow> task_ctx" where
  "CloseWhenIdle delay c =
     (let c = c\<lparr>t_idleDelay := delay\<rparr>;
          spawn = (delay > 0 \<and> \<not> t_idleLoop c \<and> t_state c = Running);
          c = (if spawn then c\<lparr>t_idleLoop := True\<rparr> else c);
          c = signalChange c
      in if spawn then c\<lparr>t_idle := IdleTop\<rparr> else c)"

text \<open>Err, and the two channels a caller can wait for.\<close>

definition Err :: "task_ctx \<Rightarrow> fault option" where
  "Err c = (if t_state c \<noteq> Running then Some Canceled else None)"

section \<open>The idle-close loop\<close>

text \<open>One turn of the loop from its top, and its two ways to go on; \<open>None\<close> while it is blocked.\<close>

definition idle_top :: "int \<Rightarrow> task_ctx \<Rightarrow> task_ctx" where
  "idle_top now c =
     (if t_state c \<noteq> Running \<or> t_idleDelay c \<le> 0 then c\<lparr>t_idleLoop := False, t_idle := IdleOff\<rparr>
      else
        let (c', wake) = changeChan c
        in if t_active c > 0 then c'\<lparr>t_idle := IdleBusy wake\<rparr>
           else
             let dur = (case t_idleFloor c of None \<Rightarrow> t_idleDelay c | Some floor \<Rightarrow> max (t_idleDelay c) (floor - now))
             in c'\<lparr>t_idle := IdleTimer wake (now + dur)\<rparr>)"

definition idle_fire :: "int \<Rightarrow> task_ctx \<Rightarrow> task_ctx" where
  "idle_fire now c =
     (if t_active c = 0 \<and> t_idleDelay c > 0 \<and>
         (case t_idleFloor c of None \<Rightarrow> True | Some floor \<Rightarrow> \<not> now < floor)
      then close_ctx (c\<lparr>t_idleLoop := False, t_idle := IdleOff\<rparr>)
      else c\<lparr>t_idle := IdleTop\<rparr>)"

definition woken :: "nat \<Rightarrow> task_ctx \<Rightarrow> bool" where
  "woken wake c \<longleftrightarrow> wake < t_chan c \<or> t_state c \<noteq> Running"

inductive idle_step :: "int \<Rightarrow> task_ctx \<Rightarrow> task_ctx \<Rightarrow> bool" for now :: int where
  top: "t_idle c = IdleTop \<Longrightarrow> idle_step now c (idle_top now c)"
| busy: "t_idle c = IdleBusy wake \<Longrightarrow> woken wake c \<Longrightarrow> idle_step now c (c\<lparr>t_idle := IdleTop\<rparr>)"
| wake: "t_idle c = IdleTimer wake due \<Longrightarrow> woken wake c \<Longrightarrow> idle_step now c (c\<lparr>t_idle := IdleTop\<rparr>)"
| fire: "t_idle c = IdleTimer wake due \<Longrightarrow> due \<le> now \<Longrightarrow> idle_step now c (idle_fire now c)"

code_pred (modes: i \<Rightarrow> i \<Rightarrow> o \<Rightarrow> bool) idle_step .

section \<open>Starting a child\<close>

definition new_ctx :: "uid \<Rightarrow> nat option \<Rightarrow> string \<Rightarrow> task_info \<Rightarrow> bool \<Rightarrow> task_ctx" where
  "new_ctx nowID parent parentLabel info has_run =
     \<lparr>t_parent = parent,
      t_info = \<lparr>TaskID = (if IsNil (TaskID info) then nowID else TaskID info),
                Label = (if Label info = [] \<and> parent \<noteq> None then parentLabel else Label info),
                IdleClose = IdleClose info\<rparr>,
      t_has_run = has_run, t_state = Running, t_subs = [], t_active = 1, t_chan = 0, t_chan_open = False,
      t_idleDelay = 0, t_idleFloor = None, t_idleLoop = False, t_done = False,
      t_body = Setup, t_mon = MonSelect, t_idle = IdleOff\<rparr>"

text \<open>\<open>StartChild\<close> up to the call of \<open>OnStart\<close>: the parent must be running.  The child's number is the
  next free one.\<close>

definition StartChild :: "uid \<Rightarrow> nat option \<Rightarrow> task_info \<Rightarrow> bool \<Rightarrow> world \<Rightarrow> world \<times> nat outcome" where
  "StartChild nowID parent info has_run w =
     (let i = length (ctxs w) in
      case parent of
        None \<Rightarrow> (w\<lparr>ctxs := ctxs w @ [new_ctx nowID None [] info has_run]\<rparr>, Inr i)
      | Some p \<Rightarrow>
          let c = ctx_at w p
          in if t_state c \<noteq> Running then (w, Inl ErrNotRunning)
             else let w = upd p (\<lambda>c. signalChange (c\<lparr>t_subs := t_subs c @ [i], t_active := t_active c + 1\<rparr>)) w
                  in (w\<lparr>ctxs := ctxs w @ [new_ctx nowID (Some p) (Label (t_info c)) info has_run]\<rparr>, Inr i))"

definition Start :: "uid \<Rightarrow> task_info \<Rightarrow> bool \<Rightarrow> world \<Rightarrow> world \<times> nat outcome" where
  "Start nowID info has_run w = StartChild nowID None info has_run w"

text \<open>A body that runs once and then idle-closes after a nanosecond, and a context without a body.\<close>

definition Go :: "uid \<Rightarrow> nat option \<Rightarrow> string \<Rightarrow> world \<Rightarrow> world \<times> nat outcome" where
  "Go nowID parent label w = StartChild nowID parent \<lparr>TaskID = nilUID, Label = label, IdleClose = 1\<rparr> True w"

definition NewChild :: "uid \<Rightarrow> nat option \<Rightarrow> string \<Rightarrow> world \<Rightarrow> world \<times> nat outcome" where
  "NewChild nowID parent label w = StartChild nowID parent \<lparr>TaskID = nilUID, Label = label, IdleClose = 0\<rparr> False w"

definition GetChildren :: "task_ctx \<Rightarrow> nat list \<Rightarrow> nat list" where
  "GetChildren c children = children @ t_subs c"

text \<open>The rest of \<open>StartChild\<close> and the goroutine of \<open>OnRun\<close>, one locked section after the other;
  \<open>ok\<close> is whether \<open>OnStart\<close> succeeds.\<close>

definition body_step :: "bool \<Rightarrow> task_ctx \<Rightarrow> task_ctx option" where
  "body_step ok c =
     (case t_body c of
        Setup \<Rightarrow>
          if \<not> ok then Some ((close_ctx c)\<lparr>t_body := SetupFailed\<rparr>)
          else if t_has_run c then Some (c\<lparr>t_body := Body\<rparr>)
          else Some ((release c)\<lparr>t_body := BodyDone\<rparr>)
      | SetupFailed \<Rightarrow> Some ((release c)\<lparr>t_body := BodyDone\<rparr>)
      | Body \<Rightarrow> Some ((release c)\<lparr>t_body := AfterBody\<rparr>)
      | AfterBody \<Rightarrow>
          Some ((if IdleClose (t_info c) > 0 then CloseWhenIdle (IdleClose (t_info c)) c else c)\<lparr>t_body := BodyDone\<rparr>)
      | BodyDone \<Rightarrow> None)"

section \<open>The monitor\<close>

definition remove_child :: "nat \<Rightarrow> task_ctx \<Rightarrow> task_ctx" where
  "remove_child i c = c\<lparr>t_subs := remove1 i (t_subs c)\<rparr>"

definition detach_from :: "nat \<Rightarrow> task_ctx \<Rightarrow> task_ctx \<times> int" where
  "detach_from i p =
     (let p = remove_child i p;
          p = p\<lparr>t_active := t_active p - 1\<rparr>
      in (signalChange p, if t_active p = 0 then IdleClose (t_info p) else 0))"

definition set_mon :: "nat \<Rightarrow> mon_pc \<Rightarrow> world \<Rightarrow> world" where
  "set_mon i pc w = upd i (\<lambda>c. c\<lparr>t_mon := pc\<rparr>) w"

text \<open>The next section of the monitor of \<open>i\<close>, or \<open>None\<close> while it is blocked or finished.\<close>

definition mon_step :: "nat \<Rightarrow> world \<Rightarrow> world option" where
  "mon_step i w =
     (let c = ctx_at w i in
      case t_mon c of
        MonSelect \<Rightarrow>
          (case t_parent c of
             Some p \<Rightarrow>
               if t_state (ctx_at w p) \<noteq> Running then Some (set_mon i MonHooks (upd i close_ctx w))
               else if t_state c \<noteq> Running then Some (set_mon i MonHooks w)
               else None
           | None \<Rightarrow> if t_state c \<noteq> Running then Some (set_mon i MonHooks w) else None)
      | MonHooks \<Rightarrow> Some (set_mon i MonChildHook (emit (OnClosing i) w))
      | MonChildHook \<Rightarrow>
          Some (set_mon i MonCheck (case t_parent c of Some p \<Rightarrow> emit (OnChildClosing p i) w | None \<Rightarrow> w))
      | MonCheck \<Rightarrow>
          if t_active c = 0 then Some (set_mon i MonDetach w)
          else Some (upd i (\<lambda>c. let (c', wake) = changeChan c in c'\<lparr>t_mon := MonWait wake\<rparr>) w)
      | MonWait wake \<Rightarrow> if wake < t_chan c then Some (set_mon i MonCheck w) else None
      | MonDetach \<Rightarrow>
          (case t_parent c of
             Some p \<Rightarrow> Some (set_mon i (MonFinal (snd (detach_from i (ctx_at w p)))) (upd p (fst \<circ> detach_from i) w))
           | None \<Rightarrow> Some (set_mon i (MonFinal 0) w))
      | MonFinal d \<Rightarrow> Some (set_mon i (MonOnClosed d) (upd i (\<lambda>c. c\<lparr>t_state := Closed\<rparr>) w))
      | MonOnClosed d \<Rightarrow> Some (set_mon i (MonClose d) (emit (OnClosed i) w))
      | MonClose d \<Rightarrow> Some (emit (Done i) (set_mon i (MonIdle d) (upd i (\<lambda>c. c\<lparr>t_done := True\<rparr>) w)))
      | MonIdle d \<Rightarrow>
          (case t_parent c of
             Some p \<Rightarrow> Some (set_mon i MonDone (if d > 0 then upd p (CloseWhenIdle d) w else w))
           | None \<Rightarrow> Some (set_mon i MonDone w))
      | MonDone \<Rightarrow> None)"

section \<open>Steps\<close>

text \<open>What can happen next: a caller starts a child, closes a context or sets its idle-close; a body, an
  idle-close loop or a monitor moves; time passes.\<close>

inductive step :: "world \<Rightarrow> world \<Rightarrow> bool" where
  start: "(\<forall>p. parent = Some p \<longrightarrow> p < length (ctxs w)) \<Longrightarrow> step w (fst (StartChild nowID parent info has_run w))"
| close: "i < length (ctxs w) \<Longrightarrow> step w (upd i close_ctx w)"
| prevent: "i < length (ctxs w) \<Longrightarrow> step w (upd i (\<lambda>c. fst (PreventIdleClose (clock w) delay c)) w)"
| idle_in: "i < length (ctxs w) \<Longrightarrow> step w (upd i (CloseWhenIdle delay) w)"
| body: "i < length (ctxs w) \<Longrightarrow> body_step ok (ctx_at w i) = Some c \<Longrightarrow> step w (upd i (\<lambda>_. c) w)"
| idle: "i < length (ctxs w) \<Longrightarrow> idle_step (clock w) (ctx_at w i) c \<Longrightarrow> step w (upd i (\<lambda>_. c) w)"
| mon: "i < length (ctxs w) \<Longrightarrow> mon_step i w = Some w' \<Longrightarrow> step w w'"
| tick: "clock w \<le> t \<Longrightarrow> step w (w\<lparr>clock := t\<rparr>)"

definition init_world :: world where
  "init_world = \<lparr>ctxs = [], clock = 0, hooks = []\<rparr>"

inductive reachable :: "world \<Rightarrow> bool" where
  init: "reachable init_world"
| next_step: "reachable w \<Longrightarrow> step w w' \<Longrightarrow> reachable w'"

section \<open>Invariants\<close>

fun mon_rank :: "mon_pc \<Rightarrow> nat" where
  "mon_rank MonSelect = 0"
| "mon_rank MonHooks = 1"
| "mon_rank MonChildHook = 2"
| "mon_rank MonCheck = 3"
| "mon_rank (MonWait _) = 3"
| "mon_rank MonDetach = 4"
| "mon_rank (MonFinal _) = 5"
| "mon_rank (MonOnClosed _) = 6"
| "mon_rank (MonClose _) = 7"
| "mon_rank (MonIdle _) = 8"
| "mon_rank MonDone = 9"

definition reserved :: "task_ctx \<Rightarrow> bool" where
  "reserved c \<longleftrightarrow> t_body c \<in> {Setup, SetupFailed, Body}"

abbreviation detached :: "task_ctx \<Rightarrow> bool" where
  "detached c \<equiv> 5 \<le> mon_rank (t_mon c)"

text \<open>Of one context: the state follows the monitor; a drained context has no work; a monitor that
  waits on an open channel waits on the current one and still has work, so no wake-up is lost; the
  flag says whether the idle-close loop runs.\<close>

definition local_inv :: "task_ctx \<Rightarrow> bool" where
  "local_inv c \<longleftrightarrow>
     (0 < mon_rank (t_mon c) \<longrightarrow> t_state c \<noteq> Running) \<and>
     (t_state c = Closed \<longleftrightarrow> 6 \<le> mon_rank (t_mon c)) \<and> (t_done c \<longleftrightarrow> 8 \<le> mon_rank (t_mon c)) \<and>
     (4 \<le> mon_rank (t_mon c) \<longrightarrow> t_active c = 0) \<and>
     (\<forall>g. t_mon c = MonWait g \<longrightarrow> g < t_chan c \<or> (g = t_chan c \<and> t_chan_open c \<and> 0 < t_active c)) \<and>
     (t_idleLoop c \<longleftrightarrow> t_idle c \<noteq> IdleOff)"

text \<open>Of the tree: a parent is older than its child, its children are the contexts that have not
  detached from it, and the work count is their number and the reservation.\<close>

definition tree_inv :: "task_ctx list \<Rightarrow> bool" where
  "tree_inv cs \<longleftrightarrow> (\<forall>i < length cs.
     (\<forall>p. t_parent (cs ! i) = Some p \<longrightarrow> p < i) \<and> distinct (t_subs (cs ! i)) \<and>
     set (t_subs (cs ! i)) = {j. j < length cs \<and> t_parent (cs ! j) = Some i \<and> \<not> detached (cs ! j)} \<and>
     t_active (cs ! i) = int (length (t_subs (cs ! i))) + (if reserved (cs ! i) then 1 else 0))"

definition inv :: "world \<Rightarrow> bool" where
  "inv w \<longleftrightarrow> tree_inv (ctxs w) \<and> (\<forall>c \<in> set (ctxs w). local_inv c)"

text \<open>What the tree invariant depends on.\<close>

definition view :: "task_ctx \<Rightarrow> nat option \<times> nat list \<times> int \<times> bool \<times> bool" where
  "view c = (t_parent c, t_subs c, t_active c, reserved c, detached c)"

definition tree_ok :: "(nat option \<times> nat list \<times> int \<times> bool \<times> bool) list \<Rightarrow> bool" where
  "tree_ok vs \<longleftrightarrow> (\<forall>i < length vs. case vs ! i of (parent, subs, active, res, det) \<Rightarrow>
     (\<forall>p. parent = Some p \<longrightarrow> p < i) \<and> distinct subs \<and>
     set subs = {j. j < length vs \<and> fst (vs ! j) = Some i \<and> \<not> snd (snd (snd (snd (vs ! j))))} \<and>
     active = int (length subs) + (if res then 1 else 0))"

lemma tree_inv_ok: "tree_inv cs \<longleftrightarrow> tree_ok (map view cs)"
  by (simp add: tree_inv_def tree_ok_def view_def cong: conj_cong)

lemma tree_inv_view: "map view cs = map view cs' \<Longrightarrow> tree_inv cs = tree_inv cs'"
  by (simp add: tree_inv_ok)

lemma ctxs_upd [simp]: "ctxs (upd i f w) = (ctxs w)[i := f (ctx_at w i)]"
  by (simp add: upd_def)

lemma ctxs_emit [simp]: "ctxs (emit h w) = ctxs w"
  by (simp add: emit_def)

lemma ctxs_set_mon [simp]: "ctxs (set_mon i pc w) = (ctxs w)[i := (ctx_at w i)\<lparr>t_mon := pc\<rparr>]"
  by (simp add: set_mon_def)

lemma map_update_same: "i < length xs \<Longrightarrow> f y = f (xs ! i) \<Longrightarrow> map f (xs[i := y]) = map f xs"
  by (rule nth_equalityI) (auto simp: nth_list_update)

lemma map_eq_nth: "map f xs = map f ys \<Longrightarrow> i < length xs \<Longrightarrow> f (xs ! i) = f (ys ! i)"
  by (metis length_map nth_map)

text \<open>A step of one context that leaves its view alone keeps the invariant.\<close>

lemma inv_quiet:
  assumes "inv w" "i < length (ctxs w)" "ctxs w' = (ctxs w)[i := c]" "view c = view (ctx_at w i)" "local_inv c"
  shows "inv w'"
proof -
  have "map view (ctxs w') = map view (ctxs w)"
    unfolding assms(3) by (rule map_update_same) (simp_all only: assms(2,4))
  then have "tree_inv (ctxs w') = tree_inv (ctxs w)" by (rule tree_inv_view)
  with assms(1) have "tree_inv (ctxs w')" by (simp add: inv_def)
  moreover have "local_inv x" if "x \<in> set (ctxs w')" for x
  proof -
    have "x = c \<or> x \<in> set (ctxs w)" using that set_update_subset_insert [of "ctxs w" i c] assms(3) by auto
    then show ?thesis using assms(1,5) by (auto simp: inv_def)
  qed
  ultimately show ?thesis by (simp add: inv_def)
qed

lemma view_ops [simp]:
  "view (signalChange c) = view c" "view (close_ctx c) = view c" "view (fst (PreventIdleClose now d c)) = view c"
  "view (CloseWhenIdle d c) = view c" "view (idle_top now c) = view c" "view (idle_fire now c) = view c"
  by (simp_all add: signalChange_def close_ctx_def PreventIdleClose_def CloseWhenIdle_def idle_top_def idle_fire_def
      changeChan_def view_def reserved_def Let_def split: option.split)

lemma local_signal: "local_inv c \<Longrightarrow> local_inv (signalChange c)"
  by (auto simp: local_inv_def signalChange_def)

lemma local_close: "local_inv c \<Longrightarrow> local_inv (close_ctx c)"
  by (auto simp: local_inv_def signalChange_def close_ctx_def)

lemma local_prevent: "local_inv c \<Longrightarrow> local_inv (fst (PreventIdleClose now d c))"
proof -
  assume "local_inv c"
  then have "local_inv (c\<lparr>t_idleFloor := f\<rparr>)" for f by (simp add: local_inv_def)
  with \<open>local_inv c\<close> show ?thesis
    by (simp add: PreventIdleClose_def Let_def local_signal split: option.split)
qed

lemma local_idle_in: "local_inv c \<Longrightarrow> local_inv (CloseWhenIdle d c)"
  by (auto simp: local_inv_def signalChange_def CloseWhenIdle_def Let_def)

lemma local_idle_top: "local_inv c \<Longrightarrow> t_idle c \<noteq> IdleOff \<Longrightarrow> local_inv (idle_top now c)"
  by (auto simp: local_inv_def idle_top_def changeChan_def Let_def)

lemma local_idle_fire: "local_inv c \<Longrightarrow> t_idle c \<noteq> IdleOff \<Longrightarrow> local_inv (idle_fire now c)"
  by (auto simp: idle_fire_def intro!: local_close) (auto simp: local_inv_def)

lemma local_idle: "idle_step now c c' \<Longrightarrow> local_inv c \<Longrightarrow> local_inv c' \<and> view c' = view c"
  by (induction rule: idle_step.induct)
    (auto simp: local_idle_top local_idle_fire, auto simp: local_inv_def view_def reserved_def)

text \<open>The steps that change the tree: a child is attached or detaches, a reservation is released.\<close>

lemma tree_at:
  assumes "tree_inv cs" "i < length cs"
  shows "t_parent (cs ! i) = Some p \<Longrightarrow> p < i" "distinct (t_subs (cs ! i))"
    "j \<in> set (t_subs (cs ! i)) \<longleftrightarrow> j < length cs \<and> t_parent (cs ! j) = Some i \<and> \<not> detached (cs ! j)"
    "t_active (cs ! i) = int (length (t_subs (cs ! i))) + (if reserved (cs ! i) then 1 else 0)"
  using assms unfolding tree_inv_def by blast+

lemma tree_intro:
  assumes "\<And>i p. i < length cs \<Longrightarrow> t_parent (cs ! i) = Some p \<Longrightarrow> p < i"
    and "\<And>i. i < length cs \<Longrightarrow> distinct (t_subs (cs ! i))"
    and "\<And>i j. i < length cs \<Longrightarrow>
      j \<in> set (t_subs (cs ! i)) \<longleftrightarrow> j < length cs \<and> t_parent (cs ! j) = Some i \<and> \<not> detached (cs ! j)"
    and "\<And>i. i < length cs \<Longrightarrow>
      t_active (cs ! i) = int (length (t_subs (cs ! i))) + (if reserved (cs ! i) then 1 else 0)"
  shows "tree_inv cs"
  unfolding tree_inv_def
proof (intro allI impI conjI)
  fix i assume i: "i < length cs"
  show "p < i" if "t_parent (cs ! i) = Some p" for p by (rule assms(1) [OF i that])
  show "distinct (t_subs (cs ! i))" by (rule assms(2) [OF i])
  show "set (t_subs (cs ! i)) = {j. j < length cs \<and> t_parent (cs ! j) = Some i \<and> \<not> detached (cs ! j)}"
    by (rule set_eqI) (simp add: assms(3) [OF i])
  show "t_active (cs ! i) = int (length (t_subs (cs ! i))) + (if reserved (cs ! i) then 1 else 0)"
    by (rule assms(4) [OF i])
qed

lemma tree_release:
  assumes t: "tree_inv cs" and i: "i < length cs"
    and c: "t_parent c = t_parent (cs ! i)" "t_subs c = t_subs (cs ! i)" "t_active c = t_active (cs ! i) - 1"
      "reserved (cs ! i)" "\<not> reserved c" "detached c = detached (cs ! i)"
  shows "tree_inv (cs[i := c])"
proof (rule tree_intro; unfold length_list_update)
  note a = tree_at [OF t]
  have nth: "cs[i := c] ! k = (if k = i then c else cs ! k)" if "k < length cs" for k
    using that by (simp add: nth_list_update)
  show "t_parent (cs[i := c] ! k) = Some p \<Longrightarrow> p < k" if "k < length cs" for k p
    using a(1) [OF that, of p] c unfolding nth [OF that] by (cases "k = i") simp_all
  show "distinct (t_subs (cs[i := c] ! k))" if "k < length cs" for k
    using a(2) [OF that] c unfolding nth [OF that] by (cases "k = i") simp_all
  show "j \<in> set (t_subs (cs[i := c] ! k)) \<longleftrightarrow>
      j < length cs \<and> t_parent (cs[i := c] ! j) = Some k \<and> \<not> detached (cs[i := c] ! j)" if k: "k < length cs" for k j
  proof (cases "j < length cs")
    case True
    show ?thesis using a(3) [OF k, of j] c i unfolding nth [OF k] nth [OF True] by (cases "k = i"; cases "j = i") simp_all
  next
    case False
    then show ?thesis using a(3) [OF k, of j] c unfolding nth [OF k] by (cases "k = i") simp_all
  qed
  show "t_active (cs[i := c] ! k) = int (length (t_subs (cs[i := c] ! k))) + (if reserved (cs[i := c] ! k) then 1 else 0)"
    if k: "k < length cs" for k
    using a(4) [OF k] c unfolding nth [OF k] by (cases "k = i") simp_all
qed

lemma tree_detach_root:
  assumes t: "tree_inv cs" and i: "i < length cs"
    and c: "t_parent (cs ! i) = None" "t_parent c = None" "t_subs c = t_subs (cs ! i)" "t_active c = t_active (cs ! i)"
      "reserved c = reserved (cs ! i)"
  shows "tree_inv (cs[i := c])"
proof (rule tree_intro; unfold length_list_update)
  note a = tree_at [OF t]
  have nth: "cs[i := c] ! k = (if k = i then c else cs ! k)" if "k < length cs" for k
    using that by (simp add: nth_list_update)
  show "t_parent (cs[i := c] ! k) = Some p \<Longrightarrow> p < k" if "k < length cs" for k p
    using a(1) [OF that, of p] c unfolding nth [OF that] by (cases "k = i") simp_all
  show "distinct (t_subs (cs[i := c] ! k))" if "k < length cs" for k
    using a(2) [OF that] c unfolding nth [OF that] by (cases "k = i") simp_all
  show "j \<in> set (t_subs (cs[i := c] ! k)) \<longleftrightarrow>
      j < length cs \<and> t_parent (cs[i := c] ! j) = Some k \<and> \<not> detached (cs[i := c] ! j)" if k: "k < length cs" for k j
  proof (cases "j < length cs")
    case True
    show ?thesis using a(3) [OF k, of j] c i unfolding nth [OF k] nth [OF True] by (cases "k = i"; cases "j = i") simp_all
  next
    case False
    then show ?thesis using a(3) [OF k, of j] c unfolding nth [OF k] by (cases "k = i") simp_all
  qed
  show "t_active (cs[i := c] ! k) = int (length (t_subs (cs[i := c] ! k))) + (if reserved (cs[i := c] ! k) then 1 else 0)"
    if k: "k < length cs" for k
    using a(4) [OF k] c unfolding nth [OF k] by (cases "k = i") simp_all
qed

lemma tree_detach:
  assumes t: "tree_inv cs" and i: "i < length cs" and p: "t_parent (cs ! i) = Some p" and n: "\<not> detached (cs ! i)"
    and P: "t_parent P = t_parent (cs ! p)" "t_subs P = remove1 i (t_subs (cs ! p))"
      "t_active P = t_active (cs ! p) - 1" "reserved P = reserved (cs ! p)" "detached P = detached (cs ! p)"
    and C: "t_parent C = Some p" "t_subs C = t_subs (cs ! i)" "t_active C = t_active (cs ! i)"
      "reserved C = reserved (cs ! i)" "detached C"
  shows "tree_inv (cs[p := P, i := C])"
proof (rule tree_intro; unfold length_list_update)
  note a = tree_at [OF t]
  have lt: "p < i" "p < length cs" using a(1) [OF i p] i by simp_all
  have mem: "i \<in> set (t_subs (cs ! p))" using a(3) [OF lt(2)] i p n by simp
  have nth: "cs[p := P, i := C] ! k = (if k = i then C else if k = p then P else cs ! k)" if "k < length cs" for k
    using that by (simp add: nth_list_update)
  show "t_parent (cs[p := P, i := C] ! k) = Some q \<Longrightarrow> q < k" if "k < length cs" for k q
    using a(1) that P C p unfolding nth [OF that] by (auto split: if_splits)
  show "distinct (t_subs (cs[p := P, i := C] ! k))" if "k < length cs" for k
    using a(2) that P C lt unfolding nth [OF that] by auto
  show "j \<in> set (t_subs (cs[p := P, i := C] ! k)) \<longleftrightarrow>
      j < length cs \<and> t_parent (cs[p := P, i := C] ! j) = Some k \<and> \<not> detached (cs[p := P, i := C] ! j)"
    if k: "k < length cs" for k j
  proof (cases "j < length cs")
    case False
    then have "j \<notin> set (t_subs (cs ! l))" if "l < length cs" for l using a(3) [OF that] by simp
    then show ?thesis using False k P C i lt unfolding nth [OF k] by (auto dest: notin_set_remove1)
  next
    case True
    show ?thesis
      unfolding nth [OF k] nth [OF True]
      using a(3) [OF k, of j] a(3) [OF lt(2), of j] a(2) [OF lt(2)] a(3) [OF i, of j] True P C p n lt by auto
  qed
  show "t_active (cs[p := P, i := C] ! k) = int (length (t_subs (cs[p := P, i := C] ! k))) +
      (if reserved (cs[p := P, i := C] ! k) then 1 else 0)" if k: "k < length cs" for k
  proof -
    have "0 < length (t_subs (cs ! p))" using mem by auto
    then show ?thesis
      unfolding nth [OF k] using a(4) [OF k] a(4) [OF lt(2)] a(4) [OF i] P C lt mem
      by (auto simp: length_remove1 int_ops of_nat_diff)
  qed
qed

lemma tree_attach:
  assumes t: "tree_inv cs" and p: "p < length cs"
    and P: "t_parent P = t_parent (cs ! p)" "t_subs P = t_subs (cs ! p) @ [length cs]"
      "t_active P = t_active (cs ! p) + 1" "reserved P = reserved (cs ! p)" "detached P = detached (cs ! p)"
    and C: "t_parent C = Some p" "t_subs C = []" "t_active C = 1" "reserved C" "\<not> detached C"
  shows "tree_inv (cs[p := P] @ [C])"
proof (rule tree_intro; unfold length_append length_list_update list.size One_nat_def Nat.add_0_right add_Suc_right)
  note a = tree_at [OF t]
  have nth: "(cs[p := P] @ [C]) ! k = (if k = length cs then C else if k = p then P else cs ! k)" if "k < Suc (length cs)" for k
    using that p by (auto simp: nth_append nth_list_update less_Suc_eq)
  have new: "length cs \<notin> set (t_subs (cs ! k))" "t_parent (cs ! k) \<noteq> Some (length cs)" if "k < length cs" for k
    using a(3) [OF that, of "length cs"] a(1) [OF that, of "length cs"] that by auto
  show "t_parent ((cs[p := P] @ [C]) ! k) = Some q \<Longrightarrow> q < k" if "k < Suc (length cs)" for k q
    using a(1) that P C p unfolding nth [OF that] by (auto split: if_splits)
  show "distinct (t_subs ((cs[p := P] @ [C]) ! k))" if "k < Suc (length cs)" for k
    using a(2) that P C p new unfolding nth [OF that] by auto
  show "j \<in> set (t_subs ((cs[p := P] @ [C]) ! k)) \<longleftrightarrow>
      j < Suc (length cs) \<and> t_parent ((cs[p := P] @ [C]) ! j) = Some k \<and> \<not> detached ((cs[p := P] @ [C]) ! j)"
    if k: "k < Suc (length cs)" for k j
  proof (cases "j < Suc (length cs)")
    case False
    then have "j \<notin> set (t_subs (cs ! l))" if "l < length cs" for l using a(3) [OF that] by simp
    then show ?thesis using False k P C p unfolding nth [OF k] by auto
  next
    case True
    show ?thesis
      unfolding nth [OF k] nth [OF True]
      using a(3) [of k j] a(3) [OF p, of j] new [of k] new [of j] new [OF p] k True P C p by auto
  qed
  show "t_active ((cs[p := P] @ [C]) ! k) = int (length (t_subs ((cs[p := P] @ [C]) ! k))) +
      (if reserved ((cs[p := P] @ [C]) ! k) then 1 else 0)" if "k < Suc (length cs)" for k
    using a(4) [of k] a(4) [OF p] that P C p unfolding nth [OF that] by auto
qed

lemma inv_local: "inv w \<Longrightarrow> i < length (ctxs w) \<Longrightarrow> local_inv (ctx_at w i)"
  by (simp add: inv_def)

lemma inv_tree: "inv w \<Longrightarrow> tree_inv (ctxs w)"
  by (simp add: inv_def)

lemma inv_parent: "inv w \<Longrightarrow> i < length (ctxs w) \<Longrightarrow> t_parent (ctx_at w i) = Some p \<Longrightarrow> p < i"
  using tree_at(1) [OF inv_tree] by blast

lemma inv_active_nonneg: "inv w \<Longrightarrow> i < length (ctxs w) \<Longrightarrow> 0 \<le> t_active (ctx_at w i)"
  using tree_at(4) [OF inv_tree, of w i] by simp

lemma inv_reserved: "inv w \<Longrightarrow> i < length (ctxs w) \<Longrightarrow> reserved (ctx_at w i) \<Longrightarrow> 0 < t_active (ctx_at w i)"
  using tree_at(4) [OF inv_tree, of w i] by simp

lemma inv_start:
  assumes "inv w" "\<forall>p. parent = Some p \<longrightarrow> p < length (ctxs w)"
  shows "inv (fst (StartChild nowID parent info has_run w))"
proof -
  have new: "local_inv (new_ctx nowID q l info has_run)" for q l
    by (simp add: local_inv_def new_ctx_def)
  show ?thesis
  proof (cases parent)
    case None
    have "tree_inv (ctxs w @ [new_ctx nowID None [] info has_run])"
    proof (rule tree_intro)
      note a = tree_at [OF inv_tree [OF assms(1)]]
      let ?n = "length (ctxs w)" and ?C = "new_ctx nowID None [] info has_run"
      have nth: "(ctxs w @ [?C]) ! k = (if k = ?n then ?C else ctxs w ! k)" if "k < length (ctxs w @ [?C])" for k
        using that by (auto simp: nth_append less_Suc_eq)
      have lt: "k < ?n" if "k < length (ctxs w @ [?C])" "k \<noteq> ?n" for k using that by simp
      fix k assume k: "k < length (ctxs w @ [?C])"
      show "p < k" if "t_parent ((ctxs w @ [?C]) ! k) = Some p" for p
        using that a(1) [OF lt [OF k], of p] unfolding nth [OF k] by (cases "k = ?n") (simp_all add: new_ctx_def)
      show "distinct (t_subs ((ctxs w @ [?C]) ! k))"
        using a(2) [OF lt [OF k]] unfolding nth [OF k] by (cases "k = ?n") (simp_all add: new_ctx_def)
      show "t_active ((ctxs w @ [?C]) ! k) = int (length (t_subs ((ctxs w @ [?C]) ! k))) +
          (if reserved ((ctxs w @ [?C]) ! k) then 1 else 0)"
        using a(4) [OF lt [OF k]] unfolding nth [OF k] by (cases "k = ?n") (simp_all add: new_ctx_def reserved_def)
      show "j \<in> set (t_subs ((ctxs w @ [?C]) ! k)) \<longleftrightarrow> j < length (ctxs w @ [?C]) \<and>
          t_parent ((ctxs w @ [?C]) ! j) = Some k \<and> \<not> detached ((ctxs w @ [?C]) ! j)" for j
      proof (cases "j < length (ctxs w @ [?C])")
        case True
        have "t_parent (ctxs w ! j) \<noteq> Some ?n" if "j < ?n" using a(1) [OF that, of ?n] that by auto
        then show ?thesis
          using a(3) [OF lt [OF k], of j] True unfolding nth [OF k] nth [OF True]
          by (cases "k = ?n"; cases "j = ?n") (simp_all add: new_ctx_def)
      next
        case False
        then show ?thesis using a(3) [OF lt [OF k], of j] unfolding nth [OF k]
          by (cases "k = ?n") (simp_all add: new_ctx_def)
      qed
    qed
    with assms(1) new None show ?thesis by (simp add: StartChild_def inv_def)
  next
    case (Some p)
    then have p: "p < length (ctxs w)" using assms(2) by simp
    show ?thesis
    proof (cases "t_state (ctx_at w p) = Running")
      case False
      with Some assms(1) show ?thesis by (simp add: StartChild_def)
    next
      case True
      let ?c = "ctx_at w p"
      let ?P = "signalChange (?c\<lparr>t_subs := t_subs ?c @ [length (ctxs w)], t_active := t_active ?c + 1\<rparr>)"
      let ?C = "new_ctx nowID (Some p) (Label (t_info ?c)) info has_run"
      have l: "local_inv ?c" by (rule inv_local [OF assms(1) p])
      have P: "local_inv ?P"
        using l True by (intro local_signal) (auto simp: local_inv_def)
      have "tree_inv ((ctxs w)[p := ?P] @ [?C])"
        by (rule tree_attach [OF inv_tree [OF assms(1)] p])
          (simp_all add: signalChange_def reserved_def new_ctx_def)
      moreover have "local_inv x" if "x \<in> set ((ctxs w)[p := ?P] @ [?C])" for x
      proof -
        have "x = ?C \<or> x = ?P \<or> x \<in> set (ctxs w)"
          using that set_update_subset_insert [of "ctxs w" p ?P] by auto
        then show ?thesis using new P assms(1) by (auto simp: inv_def)
      qed
      ultimately show ?thesis using Some True by (simp add: StartChild_def inv_def Let_def)
    qed
  qed
qed

lemma local_release:
  assumes "local_inv c" "0 < t_active c"
  shows "local_inv ((release c)\<lparr>t_body := b\<rparr>)"
  using assms by (auto simp: local_inv_def release_def signalChange_def)

lemma inv_upd_local:
  assumes "tree_inv ((ctxs w)[i := c])" "inv w" "local_inv c" "ctxs w' = (ctxs w)[i := c]"
  shows "inv w'"
proof -
  have "local_inv x" if "x \<in> set ((ctxs w)[i := c])" for x
    using that set_update_subset_insert [of "ctxs w" i c] assms(2,3) by (auto simp: inv_def)
  with assms(1,4) show ?thesis by (simp add: inv_def)
qed

lemma inv_body:
  assumes "inv w" "i < length (ctxs w)" "body_step ok (ctx_at w i) = Some c"
  shows "inv (upd i (\<lambda>_. c) w)"
proof -
  let ?c = "ctx_at w i"
  have l: "local_inv ?c" by (rule inv_local [OF assms(1,2)])
  have quiet: "inv (upd i (\<lambda>_. c) w)" if "view c = view ?c" "local_inv c"
    by (rule inv_quiet [OF assms(1,2) _ that]) simp
  have rel: "inv (upd i (\<lambda>_. c) w)" if "c = (release ?c)\<lparr>t_body := b\<rparr>" "b = BodyDone \<or> b = AfterBody" "reserved ?c" for b
  proof (rule inv_upd_local [OF _ assms(1)])
    show "local_inv c" unfolding that(1)
      by (rule local_release [OF l inv_reserved [OF assms(1,2) that(3)]])
    show "tree_inv ((ctxs w)[i := c])"
      by (rule tree_release [OF inv_tree [OF assms(1)] assms(2)])
        (use that in \<open>auto simp: release_def signalChange_def reserved_def\<close>)
  qed simp
  have b: "view (x\<lparr>t_body := y\<rparr>) = view x" if "reserved (x\<lparr>t_body := y\<rparr>) = reserved x" for x y
    using that by (simp add: view_def)
  have lb: "local_inv (x\<lparr>t_body := y\<rparr>) = local_inv x" for x y by (simp add: local_inv_def)
  have body_close: "t_body (close_ctx x) = t_body x" "t_body (CloseWhenIdle d x) = t_body x" for x d
    by (simp_all add: close_ctx_def signalChange_def CloseWhenIdle_def Let_def)
  show ?thesis
  proof (cases "t_body ?c")
    case Setup
    show ?thesis
    proof (cases ok)
      case False
      then have "c = (close_ctx ?c)\<lparr>t_body := SetupFailed\<rparr>" using Setup assms(3) by (simp add: body_step_def)
      then show ?thesis using Setup l by (intro quiet) (simp_all add: b reserved_def body_close lb local_close)
    next
      case True
      show ?thesis
      proof (cases "t_has_run ?c")
        case True
        then have "c = ?c\<lparr>t_body := Body\<rparr>" using Setup \<open>ok\<close> assms(3) by (simp add: body_step_def)
        then show ?thesis using Setup l by (intro quiet) (simp_all add: b reserved_def lb)
      next
        case False
        with Setup \<open>ok\<close> assms(3) show ?thesis by (intro rel [of BodyDone]) (simp_all add: body_step_def reserved_def)
      qed
    qed
  next
    case SetupFailed
    with assms(3) show ?thesis by (intro rel [of BodyDone]) (simp_all add: body_step_def reserved_def)
  next
    case Body
    with assms(3) show ?thesis by (intro rel [of AfterBody]) (simp_all add: body_step_def reserved_def)
  next
    case AfterBody
    then have "c = (if IdleClose (t_info ?c) > 0 then CloseWhenIdle (IdleClose (t_info ?c)) ?c else ?c)\<lparr>t_body := BodyDone\<rparr>"
      using assms(3) by (simp add: body_step_def)
    then show ?thesis using AfterBody l by (intro quiet) (simp_all add: b reserved_def body_close lb local_idle_in)
  next
    case BodyDone
    with assms(3) show ?thesis by (simp add: body_step_def)
  qed
qed

text \<open>A monitor that moves without touching another context or the work count.\<close>

lemma inv_set_mon:
  assumes "inv w" "i < length (ctxs w)" "ctxs w' = (ctxs w)[i := c]"
    and "t_parent c = t_parent (ctx_at w i)" "t_subs c = t_subs (ctx_at w i)" "t_active c = t_active (ctx_at w i)"
      "t_body c = t_body (ctx_at w i)" "detached c = detached (ctx_at w i)" "local_inv c"
  shows "inv w'"
  using assms(4-8) by (intro inv_quiet [OF assms(1-3) _ assms(9)]) (simp add: view_def reserved_def)

lemma inv_mon:
  assumes I: "inv w" and i: "i < length (ctxs w)" and m: "mon_step i w = Some w'"
  shows "inv w'"
proof -
  let ?c = "ctx_at w i"
  have l: "local_inv ?c" by (rule inv_local [OF I i])
  note sm = inv_set_mon [OF I i]
  show ?thesis
  proof (cases "t_mon ?c")
    case MonSelect
    show ?thesis
    proof (cases "t_parent ?c \<noteq> None \<and> t_state (ctx_at w (the (t_parent ?c))) \<noteq> Running")
      case True
      then have w': "ctxs w' = (ctxs w)[i := (close_ctx ?c)\<lparr>t_mon := MonHooks\<rparr>]"
        using MonSelect m i by (auto simp: mon_step_def split: option.splits if_splits)
      show ?thesis
      proof (rule sm [OF w'])
        show "local_inv ((close_ctx ?c)\<lparr>t_mon := MonHooks\<rparr>)"
          using l MonSelect by (auto simp: local_inv_def close_ctx_def signalChange_def)
      qed (simp_all add: MonSelect close_ctx_def signalChange_def)
    next
      case False
      then have w': "ctxs w' = (ctxs w)[i := ?c\<lparr>t_mon := MonHooks\<rparr>]" "t_state ?c \<noteq> Running"
        using MonSelect m by (cases "t_parent ?c"; cases "t_state ?c = Running"; auto simp: mon_step_def)+
      show ?thesis
        by (rule sm [OF w'(1)]) (use l MonSelect w'(2) in \<open>simp_all add: local_inv_def\<close>)
    qed
  next
    case MonHooks
    then have w': "ctxs w' = (ctxs w)[i := ?c\<lparr>t_mon := MonChildHook\<rparr>]" using m by (auto simp: mon_step_def)
    show ?thesis by (rule sm [OF w']) (use l MonHooks in \<open>simp_all add: local_inv_def\<close>)
  next
    case MonChildHook
    then have w': "ctxs w' = (ctxs w)[i := ?c\<lparr>t_mon := MonCheck\<rparr>]"
      using m by (auto simp: mon_step_def split: option.splits)
    show ?thesis by (rule sm [OF w']) (use l MonChildHook in \<open>simp_all add: local_inv_def\<close>)
  next
    case MonCheck
    show ?thesis
    proof (cases "t_active ?c = 0")
      case True
      then have w': "ctxs w' = (ctxs w)[i := ?c\<lparr>t_mon := MonDetach\<rparr>]" using MonCheck m by (auto simp: mon_step_def)
      show ?thesis by (rule sm [OF w']) (use l MonCheck True in \<open>simp_all add: local_inv_def\<close>)
    next
      case False
      with inv_active_nonneg [OF I i] have pos: "0 < t_active ?c" by simp
      have w': "ctxs w' = (ctxs w)[i := ?c\<lparr>t_chan_open := True, t_mon := MonWait (t_chan ?c)\<rparr>]"
        using MonCheck m False by (auto simp: mon_step_def changeChan_def)
      show ?thesis by (rule sm [OF w']) (use l MonCheck pos in \<open>simp_all add: local_inv_def\<close>)
    qed
  next
    case (MonWait g)
    then have w': "ctxs w' = (ctxs w)[i := ?c\<lparr>t_mon := MonCheck\<rparr>]" using m by (auto simp: mon_step_def split: if_splits)
    show ?thesis by (rule sm [OF w']) (use l MonWait in \<open>simp_all add: local_inv_def\<close>)
  next
    case MonDetach
    have nd: "\<not> detached ?c" by (simp add: MonDetach)
    have C: "local_inv (?c\<lparr>t_mon := MonFinal d\<rparr>)" for d
      using l MonDetach by (simp add: local_inv_def)
    show ?thesis
    proof (cases "t_parent ?c")
      case None
      then have w': "ctxs w' = (ctxs w)[i := ?c\<lparr>t_mon := MonFinal 0\<rparr>]" using MonDetach m by (auto simp: mon_step_def)
      show ?thesis
        by (rule inv_upd_local [OF tree_detach_root [OF inv_tree [OF I] i None] I C w'])
          (simp_all add: None reserved_def)
    next
      case (Some p)
      have p: "p < i" "p < length (ctxs w)" using inv_parent [OF I i Some] i by simp_all
      let ?P = "fst (detach_from i (ctx_at w p))" and ?C = "?c\<lparr>t_mon := MonFinal (snd (detach_from i (ctx_at w p)))\<rparr>"
      have w': "ctxs w' = (ctxs w)[p := ?P, i := ?C]"
        using MonDetach m Some p by (auto simp: mon_step_def)
      have tree: "tree_inv ((ctxs w)[p := ?P, i := ?C])"
        by (rule tree_detach [OF inv_tree [OF I] i Some nd])
          (simp_all add: detach_from_def remove_child_def signalChange_def Let_def reserved_def Some)
      have act: "0 < t_active (ctx_at w p)"
      proof -
        have "i \<in> set (t_subs (ctx_at w p))" using tree_at(3) [OF inv_tree [OF I] p(2), of i] i Some nd by simp
        then have "0 < length (t_subs (ctx_at w p))" by auto
        then show ?thesis using tree_at(4) [OF inv_tree [OF I] p(2)] by simp
      qed
      have P: "local_inv ?P"
        using inv_local [OF I p(2)] act
        by (auto simp: detach_from_def remove_child_def signalChange_def Let_def local_inv_def)
      have "local_inv x" if "x \<in> set ((ctxs w)[p := ?P, i := ?C])" for x
      proof -
        have "x = ?C \<or> x = ?P \<or> x \<in> set (ctxs w)"
          using that set_update_subset_insert [of "(ctxs w)[p := ?P]" i ?C] set_update_subset_insert [of "ctxs w" p ?P]
          by auto
        then show ?thesis using C P I by (auto simp: inv_def)
      qed
      with tree w' show ?thesis by (simp add: inv_def)
    qed
  next
    case (MonFinal d)
    then have w': "ctxs w' = (ctxs w)[i := ?c\<lparr>t_state := Closed, t_mon := MonOnClosed d\<rparr>]"
      using m i by (auto simp: mon_step_def)
    show ?thesis by (rule sm [OF w']) (use l MonFinal in \<open>simp_all add: local_inv_def\<close>)
  next
    case (MonOnClosed d)
    then have w': "ctxs w' = (ctxs w)[i := ?c\<lparr>t_mon := MonClose d\<rparr>]" using m by (auto simp: mon_step_def)
    show ?thesis by (rule sm [OF w']) (use l MonOnClosed in \<open>simp_all add: local_inv_def\<close>)
  next
    case (MonClose d)
    then have w': "ctxs w' = (ctxs w)[i := ?c\<lparr>t_done := True, t_mon := MonIdle d\<rparr>]" using m i by (auto simp: mon_step_def)
    show ?thesis by (rule sm [OF w']) (use l MonClose in \<open>simp_all add: local_inv_def\<close>)
  next
    case (MonIdle d)
    have C: "local_inv (?c\<lparr>t_mon := MonDone\<rparr>)" using l MonIdle by (simp add: local_inv_def)
    show ?thesis
    proof (cases "t_parent ?c \<noteq> None \<and> 0 < d")
      case False
      then have w': "ctxs w' = (ctxs w)[i := ?c\<lparr>t_mon := MonDone\<rparr>]"
        using MonIdle m by (auto simp: mon_step_def split: option.splits)
      show ?thesis by (rule sm [OF w']) (use C MonIdle in simp_all)
    next
      case True
      then obtain p where Some: "t_parent ?c = Some p" by auto
      have p: "p < i" "p < length (ctxs w)" using inv_parent [OF I i Some] i by simp_all
      have 1: "inv (upd p (CloseWhenIdle d) w)"
        by (rule inv_quiet [OF I p(2), of _ "CloseWhenIdle d (ctx_at w p)"])
          (simp_all add: local_idle_in [OF inv_local [OF I p(2)]])
      have w': "w' = set_mon i MonDone (upd p (CloseWhenIdle d) w)"
        using MonIdle m Some True by (simp add: mon_step_def)
      show ?thesis
        by (rule inv_set_mon [OF 1, of i _ "?c\<lparr>t_mon := MonDone\<rparr>"]) (use w' i p C MonIdle in simp_all)
    qed
  next
    case MonDone
    with m show ?thesis by (simp add: mon_step_def)
  qed
qed

lemma inv_upd:
  assumes "inv w" "i < length (ctxs w)" "view (f (ctx_at w i)) = view (ctx_at w i)"
    "local_inv (ctx_at w i) \<Longrightarrow> local_inv (f (ctx_at w i))"
  shows "inv (upd i f w)"
  using inv_quiet [OF assms(1,2), of "upd i f w" "f (ctx_at w i)"] assms(3,4) inv_local [OF assms(1,2)] by simp

lemma inv_step: "step w w' \<Longrightarrow> inv w \<Longrightarrow> inv w'"
proof (induction rule: step.induct)
  case (start parent w nowID info has_run)
  then show ?case by (simp add: inv_start)
next
  case (close i w)
  show ?case by (rule inv_upd [OF close(2,1)]) (simp_all add: local_close)
next
  case (prevent i w delay)
  show ?case by (rule inv_upd [OF prevent(2,1)]) (simp_all add: local_prevent)
next
  case (idle_in i w delay)
  show ?case by (rule inv_upd [OF idle_in(2,1)]) (simp_all add: local_idle_in)
next
  case (body i w ok c)
  then show ?case by (simp add: inv_body)
next
  case (idle i w c)
  note l = local_idle [OF idle(2) inv_local [OF idle(3,1)]]
  show ?case by (rule inv_upd [OF idle(3,1)]) (simp_all add: l)
next
  case (mon i w w')
  then show ?case by (simp add: inv_mon)
next
  case (tick w t)
  then show ?case by (simp add: inv_def)
qed

lemma inv_init: "inv init_world"
  by (simp add: init_world_def inv_def tree_inv_def)

lemma reachable_inv: "reachable w \<Longrightarrow> inv w"
  by (induction rule: reachable.induct) (rule inv_init, rule inv_step)

section \<open>Draining\<close>

text \<open>The monitors moving on their own, and a number every such move decreases: the stages a monitor
  has left weigh more than the wake-ups it may still see.\<close>

inductive mon_move :: "world \<Rightarrow> world \<Rightarrow> bool" where
  "i < length (ctxs w) \<Longrightarrow> mon_step i w = Some w' \<Longrightarrow> mon_move w w'"

definition wait_weight :: "task_ctx \<Rightarrow> nat" where
  "wait_weight c = (case t_mon c of MonCheck \<Rightarrow> 1 | MonWait g \<Rightarrow> if g < t_chan c then 2 else 0 | _ \<Rightarrow> 0)"

definition mon_weight :: "task_ctx \<Rightarrow> nat" where
  "mon_weight c = 10 * (9 - mon_rank (t_mon c)) + wait_weight c"

definition drain_measure :: "world \<Rightarrow> nat" where
  "drain_measure w = sum_list (map mon_weight (ctxs w))"

lemma wait_weight_le: "wait_weight c \<le> 2"
  by (simp add: wait_weight_def split: mon_pc.split)

lemma mon_weight_upd:
  "i < length cs \<Longrightarrow> sum_list (map mon_weight (cs[i := c])) + mon_weight (cs ! i) = sum_list (map mon_weight cs) + mon_weight c"
  using elem_le_sum_list [of i "map mon_weight cs"]
  by (simp add: map_update sum_list_update)

lemma drain_one:
  assumes "i < length (ctxs w)" "ctxs w' = (ctxs w)[i := c]" "mon_weight c < mon_weight (ctx_at w i)"
  shows "drain_measure w' < drain_measure w"
  using mon_weight_upd [OF assms(1), of c] assms(2,3) by (simp add: drain_measure_def)

lemma drain_two:
  assumes "i < length (ctxs w)" "p < length (ctxs w)" "p \<noteq> i" "ctxs w' = (ctxs w)[p := P, i := c]"
    "mon_weight c + 3 \<le> mon_weight (ctx_at w i)" "mon_weight P \<le> mon_weight (ctx_at w p) + 2"
  shows "drain_measure w' < drain_measure w"
  using mon_weight_upd [of i "(ctxs w)[p := P]" c] mon_weight_upd [OF assms(2), of P] assms
  by (simp add: drain_measure_def)

lemma mon_weight_same_rank:
  "mon_rank (t_mon c') = mon_rank (t_mon c) \<Longrightarrow> mon_weight c' \<le> mon_weight c + 2"
  using wait_weight_le [of c'] by (simp add: mon_weight_def)

lemma t_mon_ops [simp]:
  "t_mon (signalChange c) = t_mon c" "t_mon (close_ctx c) = t_mon c" "t_mon (CloseWhenIdle d c) = t_mon c"
  "t_mon (fst (detach_from i c)) = t_mon c" "t_parent (signalChange c) = t_parent c" "t_parent (close_ctx c) = t_parent c"
  "t_parent (CloseWhenIdle d c) = t_parent c" "t_parent (fst (detach_from i c)) = t_parent c"
  by (simp_all add: signalChange_def close_ctx_def CloseWhenIdle_def detach_from_def remove_child_def Let_def)

lemma mon_select_closes:
  assumes "t_mon (ctx_at w i) = MonSelect" "mon_step i w = Some w'"
  shows "ctxs w' = (ctxs w)[i := (close_ctx (ctx_at w i))\<lparr>t_mon := MonHooks\<rparr>]"
proof (cases "t_parent (ctx_at w i) \<noteq> None \<and> t_state (ctx_at w (the (t_parent (ctx_at w i)))) \<noteq> Running")
  case True
  with assms show ?thesis
    by (cases "i < length (ctxs w)")
      (auto simp: mon_step_def list_update_beyond split: option.splits if_splits)
next
  case False
  with assms have "t_state (ctx_at w i) \<noteq> Running" "w' = set_mon i MonHooks w"
    by (cases "t_parent (ctx_at w i)"; cases "t_state (ctx_at w i) = Running"; auto simp: mon_step_def)+
  then show ?thesis by (simp add: close_ctx_def)
qed

lemma mon_blocked:
  assumes "mon_step i w = None" "t_state (ctx_at w i) \<noteq> Running" "t_mon (ctx_at w i) \<noteq> MonDone"
  shows "\<exists>g. t_mon (ctx_at w i) = MonWait g \<and> \<not> g < t_chan (ctx_at w i)"
proof (cases "t_mon (ctx_at w i)")
  case MonSelect
  with assms(1,2) have False
    by (cases "t_parent (ctx_at w i)"; cases "t_state (ctx_at w (the (t_parent (ctx_at w i)))) = Running"; simp add: mon_step_def)
  then show ?thesis ..
qed (use assms in \<open>auto simp: mon_step_def split: option.splits if_splits\<close>)

lemma mon_step_drains:
  assumes I: "inv w" and i: "i < length (ctxs w)" and m: "mon_step i w = Some w'"
  shows "drain_measure w' < drain_measure w"
proof -
  let ?c = "ctx_at w i"
  note one = drain_one [OF i]
  show ?thesis
  proof (cases "t_mon ?c")
    case MonSelect
    then have "ctxs w' = (ctxs w)[i := (close_ctx ?c)\<lparr>t_mon := MonHooks\<rparr>]"
      using m by (rule mon_select_closes)
    then show ?thesis by (rule one) (simp add: MonSelect mon_weight_def wait_weight_def)
  next
    case MonHooks
    then have "ctxs w' = (ctxs w)[i := ?c\<lparr>t_mon := MonChildHook\<rparr>]" using m by (auto simp: mon_step_def)
    then show ?thesis by (rule one) (simp add: MonHooks mon_weight_def wait_weight_def)
  next
    case MonChildHook
    then have "ctxs w' = (ctxs w)[i := ?c\<lparr>t_mon := MonCheck\<rparr>]" using m by (auto simp: mon_step_def split: option.splits)
    then show ?thesis by (rule one) (simp add: MonChildHook mon_weight_def wait_weight_def)
  next
    case MonCheck
    then have "ctxs w' = (ctxs w)[i := ?c\<lparr>t_mon := MonDetach\<rparr>] \<or>
        ctxs w' = (ctxs w)[i := ?c\<lparr>t_chan_open := True, t_mon := MonWait (t_chan ?c)\<rparr>]"
      using m by (auto simp: mon_step_def changeChan_def split: if_splits)
    then show ?thesis
      by (elim disjE; elim one; simp add: MonCheck mon_weight_def wait_weight_def)
  next
    case (MonWait g)
    then have w': "ctxs w' = (ctxs w)[i := ?c\<lparr>t_mon := MonCheck\<rparr>]" "g < t_chan ?c"
      using m by (auto simp: mon_step_def split: if_splits)
    show ?thesis by (rule one [OF w'(1)]) (use w'(2) in \<open>simp add: MonWait mon_weight_def wait_weight_def\<close>)
  next
    case MonDetach
    show ?thesis
    proof (cases "t_parent ?c")
      case None
      then have "ctxs w' = (ctxs w)[i := ?c\<lparr>t_mon := MonFinal 0\<rparr>]" using MonDetach m by (auto simp: mon_step_def)
      then show ?thesis by (rule one) (simp add: MonDetach mon_weight_def wait_weight_def)
    next
      case (Some p)
      have p: "p < i" "p < length (ctxs w)" using inv_parent [OF I i Some] i by simp_all
      have "ctxs w' = (ctxs w)[p := fst (detach_from i (ctx_at w p)),
          i := ?c\<lparr>t_mon := MonFinal (snd (detach_from i (ctx_at w p)))\<rparr>]"
        using MonDetach m Some p by (auto simp: mon_step_def)
      then show ?thesis
        by (rule drain_two [OF i p(2) less_imp_neq [OF p(1)]])
          (simp add: MonDetach mon_weight_def wait_weight_def, rule mon_weight_same_rank, simp)
    qed
  next
    case (MonFinal d)
    then have "ctxs w' = (ctxs w)[i := ?c\<lparr>t_state := Closed, t_mon := MonOnClosed d\<rparr>]" using m i by (auto simp: mon_step_def)
    then show ?thesis by (rule one) (simp add: MonFinal mon_weight_def wait_weight_def)
  next
    case (MonOnClosed d)
    then have "ctxs w' = (ctxs w)[i := ?c\<lparr>t_mon := MonClose d\<rparr>]" using m by (auto simp: mon_step_def)
    then show ?thesis by (rule one) (simp add: MonOnClosed mon_weight_def wait_weight_def)
  next
    case (MonClose d)
    then have "ctxs w' = (ctxs w)[i := ?c\<lparr>t_done := True, t_mon := MonIdle d\<rparr>]" using m i by (auto simp: mon_step_def)
    then show ?thesis by (rule one) (simp add: MonClose mon_weight_def wait_weight_def)
  next
    case (MonIdle d)
    show ?thesis
    proof (cases "t_parent ?c \<noteq> None \<and> 0 < d")
      case False
      then have "ctxs w' = (ctxs w)[i := ?c\<lparr>t_mon := MonDone\<rparr>]"
        using MonIdle m by (auto simp: mon_step_def split: option.splits)
      then show ?thesis by (rule one) (simp add: MonIdle mon_weight_def wait_weight_def)
    next
      case True
      then obtain p where Some: "t_parent ?c = Some p" by auto
      have p: "p < i" "p < length (ctxs w)" using inv_parent [OF I i Some] i by simp_all
      have "ctxs w' = (ctxs w)[p := CloseWhenIdle d (ctx_at w p), i := ?c\<lparr>t_mon := MonDone\<rparr>]"
        using MonIdle m Some True p by (auto simp: mon_step_def)
      then show ?thesis
        by (rule drain_two [OF i p(2) less_imp_neq [OF p(1)]])
          (simp add: MonIdle mon_weight_def wait_weight_def, rule mon_weight_same_rank, simp)
    qed
  next
    case MonDone
    with m show ?thesis by (simp add: mon_step_def)
  qed
qed

text \<open>No deadlock: while a context is closing and nothing but other contexts keeps it, some monitor
  can move.\<close>

lemma some_monitor_moves:
  assumes I: "inv w" and idle: "\<forall>c \<in> set (ctxs w). \<not> reserved c"
    and i: "i < length (ctxs w)" "t_state (ctx_at w i) \<noteq> Running" "t_mon (ctx_at w i) \<noteq> MonDone"
  shows "\<exists>w'. mon_move w w'"
proof (rule ccontr)
  assume stuck: "\<nexists>w'. mon_move w w'"
  then have blocked: "mon_step j w = None" if "j < length (ctxs w)" for j
    using that by (meson mon_move.intros not_Some_eq)
  let ?S = "{j. j < length (ctxs w) \<and> t_state (ctx_at w j) \<noteq> Running \<and> t_mon (ctx_at w j) \<noteq> MonDone}"
  define j where "j = Max ?S"
  have fin: "finite ?S" by (rule finite_subset [of _ "{..<length (ctxs w)}"]) auto
  have max: "k \<le> j" if "k \<in> ?S" for k
    unfolding j_def by (rule Max_ge [OF fin that])
  have "j \<in> ?S"
    unfolding j_def by (rule Max_in [OF fin]) (use i in auto)
  then have j: "j < length (ctxs w)" "t_state (ctx_at w j) \<noteq> Running" "t_mon (ctx_at w j) \<noteq> MonDone"
    by simp_all
  from mon_blocked [OF blocked [OF j(1)] j(2,3)]
  have "0 < t_active (ctx_at w j)"
    using inv_local [OF I j(1)] by (auto simp: local_inv_def)
  moreover have "\<not> reserved (ctx_at w j)" using idle j(1) by simp
  ultimately have "t_subs (ctx_at w j) \<noteq> []" using tree_at(4) [OF inv_tree [OF I] j(1)] by auto
  then obtain k where "k \<in> set (t_subs (ctx_at w j))" by fastforce
  then have k: "k < length (ctxs w)" "t_parent (ctx_at w k) = Some j" "\<not> detached (ctx_at w k)"
    using tree_at(3) [OF inv_tree [OF I] j(1)] by auto
  have "t_mon (ctx_at w k) \<noteq> MonSelect"
    using blocked [OF k(1)] j(2) k(2) by (auto simp: mon_step_def)
  then have "0 < mon_rank (t_mon (ctx_at w k))" by (cases "t_mon (ctx_at w k)") auto
  then have "t_state (ctx_at w k) \<noteq> Running" using inv_local [OF I k(1)] by (simp add: local_inv_def)
  moreover have "t_mon (ctx_at w k) \<noteq> MonDone" using k(3) by auto
  ultimately have "k \<le> j" using max k(1) by blast
  with inv_parent [OF I k(1,2)] show False by simp
qed

text \<open>A monitor leaves the reservations alone, and a context that is closing stays so.\<close>

definition task_keeps :: "task_ctx \<Rightarrow> task_ctx \<Rightarrow> bool" where
  "task_keeps c c' \<longleftrightarrow> t_body c' = t_body c \<and> t_parent c' = t_parent c \<and> (t_state c \<noteq> Running \<longrightarrow> t_state c' \<noteq> Running)"

definition world_keeps :: "world \<Rightarrow> world \<Rightarrow> bool" where
  "world_keeps w w' \<longleftrightarrow> length (ctxs w') = length (ctxs w) \<and> (\<forall>j < length (ctxs w). task_keeps (ctx_at w j) (ctx_at w' j))"

lemma world_keeps_refl [simp]: "world_keeps w w" "world_keeps w (emit h w)"
  by (simp_all add: world_keeps_def task_keeps_def)

lemma world_keeps_trans: "world_keeps u v \<Longrightarrow> world_keeps v w \<Longrightarrow> world_keeps u w"
  by (auto simp: world_keeps_def task_keeps_def)

lemma world_keeps_upd: "(\<And>c. task_keeps c (f c)) \<Longrightarrow> world_keeps w (upd i f w)"
  by (cases "i < length (ctxs w)")
    (auto simp: world_keeps_def task_keeps_def nth_list_update list_update_beyond)

lemma task_keeps_ops:
  "task_keeps c (close_ctx c)" "task_keeps c (CloseWhenIdle d c)" "task_keeps c (fst (detach_from k c))"
  "task_keeps c (c\<lparr>t_mon := pc\<rparr>)" "task_keeps c (c\<lparr>t_state := Closed\<rparr>)" "task_keeps c (c\<lparr>t_done := True\<rparr>)"
  "task_keeps c (c\<lparr>t_chan_open := True, t_mon := pc\<rparr>)"
  by (simp_all add: task_keeps_def close_ctx_def CloseWhenIdle_def detach_from_def remove_child_def signalChange_def Let_def)

lemma world_keeps_set_mon [simp]: "world_keeps w v \<Longrightarrow> world_keeps w (set_mon i pc v)"
  by (erule world_keeps_trans) (simp add: set_mon_def world_keeps_upd task_keeps_ops)

lemma world_keeps_emit [simp]: "world_keeps w v \<Longrightarrow> world_keeps w (emit h v)"
  by (erule world_keeps_trans) simp

lemma mon_step_keeps:
  assumes "mon_step i w = Some w'"
  shows "world_keeps w w'"
proof -
  have ups: "world_keeps w (upd k close_ctx w)" "world_keeps w (upd k (fst \<circ> detach_from i) w)"
    "world_keeps w (upd k (CloseWhenIdle d) w)" "world_keeps w (upd k (\<lambda>c. c\<lparr>t_state := Closed\<rparr>) w)"
    "world_keeps w (upd k (\<lambda>c. c\<lparr>t_done := True\<rparr>) w)"
    "world_keeps w (upd k (\<lambda>c. c\<lparr>t_chan_open := True, t_mon := MonWait (t_chan c)\<rparr>) w)" for k d
    by (simp_all add: world_keeps_upd task_keeps_ops)
  from assms show ?thesis
    by (cases "t_mon (ctx_at w i)")
      (auto simp: mon_step_def changeChan_def Let_def ups split: option.splits if_splits)
qed

lemma world_keepsD:
  assumes "world_keeps w w'"
  shows "length (ctxs w') = length (ctxs w)" "map t_body (ctxs w') = map t_body (ctxs w)"
    "map t_parent (ctxs w') = map t_parent (ctxs w)"
    "j < length (ctxs w) \<Longrightarrow> t_state (ctx_at w j) \<noteq> Running \<Longrightarrow> t_state (ctx_at w' j) \<noteq> Running"
  using assms by (auto simp: world_keeps_def task_keeps_def intro!: nth_equalityI)

definition no_reservation :: "world \<Rightarrow> bool" where
  "no_reservation w \<longleftrightarrow> (\<forall>c \<in> set (ctxs w). \<not> reserved c)"

lemma no_reservation_bodies: "no_reservation w \<longleftrightarrow> (\<forall>b \<in> set (map t_body (ctxs w)). b \<notin> {Setup, SetupFailed, Body})"
  by (simp add: no_reservation_def reserved_def)

text \<open>Context \<open>j\<close> is \<open>i\<close> or a descendant of it.\<close>

inductive below :: "world \<Rightarrow> nat \<Rightarrow> nat \<Rightarrow> bool" for w where
  self: "i < length (ctxs w) \<Longrightarrow> below w i i"
| child: "j < length (ctxs w) \<Longrightarrow> t_parent (ctx_at w j) = Some p \<Longrightarrow> below w p i \<Longrightarrow> below w j i"

lemma mon_moves_keep:
  assumes "(mon_move ^^ n) w w'" "inv w"
  shows "inv w' \<and> world_keeps w w' \<and> n + drain_measure w' \<le> drain_measure w"
  using assms(1)
proof (induction n arbitrary: w')
  case 0
  then show ?case using assms(2) by simp
next
  case (Suc n)
  then obtain v where v: "(mon_move ^^ n) w v" "mon_move v w'" by auto
  from v(2) obtain i where i: "i < length (ctxs v)" "mon_step i v = Some w'" by (auto elim: mon_move.cases)
  from Suc.IH [OF v(1)] have I: "inv v" "world_keeps w v" "n + drain_measure v \<le> drain_measure w" by simp_all
  show ?case
    using I(3) inv_mon [OF I(1) i] mon_step_drains [OF I(1) i] world_keeps_trans [OF I(2) mon_step_keeps [OF i(2)]] by simp
qed

lemma drains:
  assumes "inv w"
  shows "\<exists>n w'. (mon_move ^^ n) w w' \<and> (\<nexists>w''. mon_move w' w'')"
  using assms
proof (induction "drain_measure w" arbitrary: w rule: less_induct)
  case less
  show ?case
  proof (cases "\<exists>v. mon_move w v")
    case False
    then show ?thesis by (intro exI [of _ 0] exI [of _ w]) simp
  next
    case True
    then obtain v where v: "mon_move w v" ..
    then obtain i where i: "i < length (ctxs w)" "mon_step i w = Some v" by (auto elim: mon_move.cases)
    from less.hyps [OF mon_step_drains [OF less.prems i] inv_mon [OF less.prems i]]
    obtain n w' where "(mon_move ^^ n) v w'" "\<nexists>w''. mon_move w' w''" by blast
    then show ?thesis using v by (intro exI [of _ "Suc n"] exI [of _ w']) (simp add: relpowp_Suc_I2 del: relpowp.simps)
  qed
qed

lemma below_cong:
  assumes "below w j i" "map t_parent (ctxs w') = map t_parent (ctxs w)"
  shows "below w' j i"
  using assms(1)
proof induction
  case (self i)
  then show ?case using map_eq_imp_length_eq [OF assms(2)] by (simp add: below.self)
next
  case (child j p i)
  have "t_parent (ctx_at w' j) = t_parent (ctx_at w j)"
    by (rule map_eq_nth [OF assms(2)]) (simp add: child(1) map_eq_imp_length_eq [OF assms(2)])
  with child show ?case using map_eq_imp_length_eq [OF assms(2)] by (auto intro: below.child)
qed

text \<open>A context without work has no descendant that has any.\<close>

lemma below_drained:
  assumes "below w j i" "inv w" "4 \<le> mon_rank (t_mon (ctx_at w i))"
  shows "j < length (ctxs w) \<and> 4 \<le> mon_rank (t_mon (ctx_at w j)) \<and> t_active (ctx_at w j) = 0 \<and>
    t_subs (ctx_at w j) = [] \<and> \<not> reserved (ctx_at w j)"
proof -
  have quiet: "t_active (ctx_at w k) = 0 \<and> t_subs (ctx_at w k) = [] \<and> \<not> reserved (ctx_at w k)"
    if "k < length (ctxs w)" "4 \<le> mon_rank (t_mon (ctx_at w k))" for k
  proof -
    have "t_active (ctx_at w k) = 0" using inv_local [OF assms(2) that(1)] that(2) by (simp add: local_inv_def)
    then show ?thesis using tree_at(4) [OF inv_tree [OF assms(2)] that(1)] by (auto split: if_splits)
  qed
  from assms(1,3) show ?thesis
  proof induction
    case (self i)
    then show ?case using quiet [of i] by simp
  next
    case (child j p i)
    then have "t_subs (ctx_at w p) = []" "p < length (ctxs w)" by simp_all
    then have "detached (ctx_at w j)"
      using tree_at(3) [OF inv_tree [OF assms(2)], of p j] child(1,2) by auto
    then show ?case using quiet [OF child(1)] child(1) by simp
  qed
qed

lemma stuck_done:
  assumes "below w j i" "inv w" "no_reservation w" "\<nexists>w'. mon_move w w'" "t_state (ctx_at w i) \<noteq> Running"
  shows "j < length (ctxs w) \<and> t_mon (ctx_at w j) = MonDone"
proof -
  have ends: "t_mon (ctx_at w k) = MonDone" if "k < length (ctxs w)" "t_state (ctx_at w k) \<noteq> Running" for k
    using some_monitor_moves [OF assms(2) _ that] assms(3,4) by (auto simp: no_reservation_def)
  from assms(1,5) show ?thesis
  proof induction
    case (self i)
    then show ?case using ends [of i] by simp
  next
    case (child j p i)
    then have p: "p < length (ctxs w)" "t_mon (ctx_at w p) = MonDone" by simp_all
    then have "t_state (ctx_at w p) \<noteq> Running" using inv_local [OF assms(2) p(1)] by (simp add: local_inv_def)
    moreover have "mon_step j w = None" using child(1) assms(4) by (meson mon_move.intros not_Some_eq)
    ultimately have "t_mon (ctx_at w j) \<noteq> MonSelect" using child(2) by (auto simp: mon_step_def)
    then have "0 < mon_rank (t_mon (ctx_at w j))" by (cases "t_mon (ctx_at w j)") auto
    then show ?case using ends [OF child(1)] inv_local [OF assms(2) child(1)] child(1) by (simp add: local_inv_def)
  qed
qed

lemma drain_measure_le: "drain_measure w \<le> 92 * length (ctxs w)"
proof -
  have "mon_weight c \<le> 92" for c using wait_weight_le [of c] by (simp add: mon_weight_def)
  then have "sum_list (map mon_weight cs) \<le> 92 * length cs" for cs by (induction cs) (simp_all add: add_mono)
  then show ?thesis by (simp add: drain_measure_def)
qed

section \<open>The order of the hooks\<close>

fun hook_of :: "hook \<Rightarrow> nat" where
  "hook_of (OnClosing i) = i"
| "hook_of (OnChildClosing p i) = i"
| "hook_of (OnClosed i) = i"
| "hook_of (Done i) = i"

text \<open>The hooks a context has run, in order, by what its monitor has left behind.\<close>

definition hooks_due :: "nat \<Rightarrow> nat option \<Rightarrow> nat \<Rightarrow> hook list" where
  "hooks_due i parent r =
     (if 2 \<le> r then [OnClosing i] else []) @
     (case parent of Some p \<Rightarrow> if 3 \<le> r then [OnChildClosing p i] else [] | None \<Rightarrow> []) @
     (if 7 \<le> r then [OnClosed i] else []) @ (if 8 \<le> r then [Done i] else [])"

lemma hooks_due_simps [simp]:
  "hooks_due i q 0 = []" "hooks_due i q (Suc 0) = []" "hooks_due i q 2 = [OnClosing i]"
  "hooks_due i None 3 = [OnClosing i]" "hooks_due i (Some p) 3 = [OnClosing i, OnChildClosing p i]"
  "hooks_due i q 4 = hooks_due i q 3" "hooks_due i q 5 = hooks_due i q 3" "hooks_due i q 6 = hooks_due i q 3"
  "hooks_due i q 7 = hooks_due i q 3 @ [OnClosed i]" "hooks_due i q 8 = hooks_due i q 3 @ [OnClosed i, Done i]"
  "hooks_due i q 9 = hooks_due i q 3 @ [OnClosed i, Done i]"
  by (simp_all add: hooks_due_def split: option.split)

definition hooks_inv :: "world \<Rightarrow> bool" where
  "hooks_inv w \<longleftrightarrow> (\<forall>h \<in> set (hooks w). hook_of h < length (ctxs w)) \<and>
     (\<forall>i < length (ctxs w). filter (\<lambda>h. hook_of h = i) (rev (hooks w)) =
        hooks_due i (t_parent (ctx_at w i)) (mon_rank (t_mon (ctx_at w i))))"

abbreviation stage :: "task_ctx \<Rightarrow> nat option \<times> nat" where
  "stage c \<equiv> (t_parent c, mon_rank (t_mon c))"

lemma hooks_same:
  assumes "hooks_inv w" "hooks w' = hooks w" "map stage (ctxs w') = map stage (ctxs w)"
  shows "hooks_inv w'"
proof -
  have len: "length (ctxs w') = length (ctxs w)" using map_eq_imp_length_eq [OF assms(3)] .
  have "stage (ctx_at w' i) = stage (ctx_at w i)" if "i < length (ctxs w)" for i
    by (rule map_eq_nth [OF assms(3)]) (simp add: that len)
  then show ?thesis using assms(1,2) len by (simp add: hooks_inv_def)
qed

lemma hooks_upd:
  assumes "hooks_inv w" "i < length (ctxs w)" "stage (f (ctx_at w i)) = stage (ctx_at w i)"
  shows "hooks_inv (upd i f w)"
proof (rule hooks_same [OF assms(1)])
  show "hooks (upd i f w) = hooks w" by (simp add: upd_def)
  show "map stage (ctxs (upd i f w)) = map stage (ctxs w)"
    unfolding ctxs_upd by (rule map_update_same) (simp_all only: assms(2,3))
qed

text \<open>One monitor advances and runs the hooks that become due.\<close>

lemma hooks_advance:
  assumes "hooks_inv w" "i < length (ctxs w)" "t_parent c = t_parent (ctx_at w i)" "t_mon c = pc"
    "\<forall>h \<in> set hs. hook_of h = i"
    "hooks_due i (t_parent (ctx_at w i)) (mon_rank pc) = hooks_due i (t_parent (ctx_at w i)) (mon_rank (t_mon (ctx_at w i))) @ hs"
    "ctxs w' = (ctxs w)[i := c]" "hooks w' = rev hs @ hooks w"
  shows "hooks_inv w'"
proof -
  have own: "filter (\<lambda>h. hook_of h = i) hs = hs" using assms(5) by (simp add: filter_id_conv)
  have other: "filter (\<lambda>h. hook_of h = k) hs = []" if "k \<noteq> i" for k using assms(5) that by (auto simp: filter_empty_conv)
  show ?thesis
    unfolding hooks_inv_def
  proof (intro conjI allI impI)
    show "\<forall>h \<in> set (hooks w'). hook_of h < length (ctxs w')"
      using assms(1,2,5,7,8) by (auto simp: hooks_inv_def)
    fix k assume "k < length (ctxs w')"
    then have "k < length (ctxs w)" by (simp add: assms(7))
    then show "filter (\<lambda>h. hook_of h = k) (rev (hooks w')) = hooks_due k (t_parent (ctx_at w' k)) (mon_rank (t_mon (ctx_at w' k)))"
      using assms(1-4,6-8) own other [of k] by (cases "k = i") (simp_all add: hooks_inv_def)
  qed
qed

lemma hooks_set_mon:
  assumes "hooks_inv w" "i < length (ctxs w)" "\<forall>h \<in> set hs. hook_of h = i"
    "hooks_due i (t_parent (ctx_at w i)) (mon_rank pc) = hooks_due i (t_parent (ctx_at w i)) (mon_rank (t_mon (ctx_at w i))) @ hs"
    "ctxs v = ctxs w" "hooks v = rev hs @ hooks w"
  shows "hooks_inv (set_mon i pc v)"
  by (rule hooks_advance [OF assms(1,2) _ _ assms(3,4), of "(ctx_at w i)\<lparr>t_mon := pc\<rparr>"])
    (simp_all add: assms(5,6) set_mon_def upd_def)

lemma emit_set_mon: "emit h (set_mon i pc w) = set_mon i pc (emit h w)"
  by (cases w) (simp add: emit_def set_mon_def upd_def)

lemma hooks_mon:
  assumes H: "hooks_inv w" and i: "i < length (ctxs w)" and m: "mon_step i w = Some w'" and I: "inv w"
  shows "hooks_inv w'"
proof -
  let ?c = "ctx_at w i"
  have stages: "stage (close_ctx c) = stage c" "stage (CloseWhenIdle d c) = stage c"
    "stage ((fst \<circ> detach_from i) c) = stage c" for c d
    by simp_all
  note set = hooks_set_mon [OF H i] and quiet = hooks_upd [OF H]
  have quiet_ops: "hooks_inv (upd k close_ctx w)" "hooks_inv (upd k (CloseWhenIdle d) w)"
    "hooks_inv (upd k (fst \<circ> detach_from i) w)" if "k < length (ctxs w)" for k d
    by (rule quiet [OF that], rule stages)+
  have set0: "hooks_inv (set_mon i pc v)"
    if "hooks_inv v" "i < length (ctxs v)" "stage (ctx_at v i) = stage ?c"
      "hooks_due i (t_parent ?c) (mon_rank pc) = hooks_due i (t_parent ?c) (mon_rank (t_mon ?c))" for v pc
    by (rule hooks_set_mon [OF that(1,2), of "[]"]) (use that(3,4) in simp_all)
  show ?thesis
  proof (cases "t_mon ?c")
    case MonSelect
    have "w' = set_mon i MonHooks (upd i close_ctx w) \<or> w' = set_mon i MonHooks w"
      using m MonSelect by (cases "t_parent ?c"; cases "t_state ?c = Running"; auto simp: mon_step_def split: if_splits)
    then show ?thesis
    proof
      assume "w' = set_mon i MonHooks (upd i close_ctx w)"
      then show ?thesis
        using quiet_ops(1) [OF i] i by (simp add: set0 stages MonSelect)
    qed (simp add: set0 H i MonSelect)
  next
    case MonHooks
    then show ?thesis using m
      by (auto simp: mon_step_def emit_def intro!: set [of "[OnClosing i]"] split: option.splits)
  next
    case MonChildHook
    show ?thesis
    proof (cases "t_parent ?c")
      case None
      then show ?thesis using m MonChildHook by (auto simp: mon_step_def H i intro!: set0)
    next
      case (Some p)
      then have "w' = set_mon i MonCheck (emit (OnChildClosing p i) w)" using m MonChildHook by (simp add: mon_step_def)
      then show ?thesis
        using Some MonChildHook by (auto simp: emit_def intro!: set [of "[OnChildClosing p i]"])
    qed
  next
    case MonCheck
    show ?thesis
    proof (cases "t_active ?c = 0")
      case True
      then show ?thesis using m MonCheck by (auto simp: mon_step_def H i intro!: set0)
    next
      case False
      then have "w' = upd i (\<lambda>c. c\<lparr>t_chan_open := True, t_mon := MonWait (t_chan c)\<rparr>) w"
        using m MonCheck by (auto simp: mon_step_def changeChan_def)
      then show ?thesis by (simp add: quiet i MonCheck)
    qed
  next
    case (MonWait g)
    then show ?thesis using m by (auto simp: mon_step_def H i intro!: set0 split: if_splits)
  next
    case MonDetach
    show ?thesis
    proof (cases "t_parent ?c")
      case None
      then show ?thesis using m MonDetach by (auto simp: mon_step_def H i intro!: set0)
    next
      case (Some p)
      have p: "p < i" "p < length (ctxs w)" using inv_parent [OF I i Some] i by simp_all
      have "w' = set_mon i (MonFinal (snd (detach_from i (ctx_at w p)))) (upd p (fst \<circ> detach_from i) w)"
        using m MonDetach Some by (simp add: mon_step_def)
      then show ?thesis using quiet_ops(3) [OF p(2)] p i by (simp add: set0 MonDetach)
    qed
  next
    case (MonFinal d)
    have "w' = set_mon i (MonOnClosed d) (upd i (\<lambda>c. c\<lparr>t_state := Closed\<rparr>) w)" using m MonFinal by (simp add: mon_step_def)
    then show ?thesis using quiet [OF i, of "\<lambda>c. c\<lparr>t_state := Closed\<rparr>"] i by (simp add: set0 MonFinal)
  next
    case (MonOnClosed d)
    then show ?thesis using m
      by (auto simp: mon_step_def emit_def intro!: set [of "[OnClosed i]"] split: option.splits)
  next
    case (MonClose d)
    let ?v = "upd i (\<lambda>c. c\<lparr>t_done := True\<rparr>) w"
    have v: "hooks_inv ?v" using quiet [OF i, of "\<lambda>c. c\<lparr>t_done := True\<rparr>"] by simp
    have "w' = set_mon i (MonIdle d) (emit (Done i) ?v)"
      using m MonClose by (simp add: mon_step_def emit_set_mon)
    then show ?thesis
      using MonClose i by (auto simp: emit_def intro!: hooks_set_mon [OF v, of i "[Done i]"] split: option.splits)
  next
    case (MonIdle d)
    show ?thesis
    proof (cases "t_parent ?c")
      case None
      then show ?thesis using m MonIdle by (auto simp: mon_step_def H i intro!: set0)
    next
      case (Some p)
      have p: "p < i" "p < length (ctxs w)" using inv_parent [OF I i Some] i by simp_all
      have "w' = set_mon i MonDone (if d > 0 then upd p (CloseWhenIdle d) w else w)"
        using m MonIdle Some by (simp add: mon_step_def)
      then show ?thesis using quiet_ops(2) [OF p(2)] H p i by (simp add: set0 MonIdle)
    qed
  next
    case MonDone
    with m show ?thesis by (simp add: mon_step_def)
  qed
qed

lemma hooks_start:
  assumes "hooks_inv w" "\<forall>p. parent = Some p \<longrightarrow> p < length (ctxs w)"
  shows "hooks_inv (fst (StartChild nowID parent info has_run w))"
proof -
  have new: "hooks_inv (v\<lparr>ctxs := ctxs v @ [c]\<rparr>)" if v: "hooks_inv v" and c: "t_mon c = MonSelect" for v c
    unfolding hooks_inv_def
  proof (intro conjI allI impI)
    show "\<forall>h \<in> set (hooks (v\<lparr>ctxs := ctxs v @ [c]\<rparr>)). hook_of h < length (ctxs (v\<lparr>ctxs := ctxs v @ [c]\<rparr>))"
      using v by (auto simp: hooks_inv_def)
    fix k assume "k < length (ctxs (v\<lparr>ctxs := ctxs v @ [c]\<rparr>))"
    moreover have "filter (\<lambda>h. hook_of h = length (ctxs v)) (rev (hooks v)) = []"
      using v by (auto simp: hooks_inv_def filter_empty_conv)
    ultimately show "filter (\<lambda>h. hook_of h = k) (rev (hooks (v\<lparr>ctxs := ctxs v @ [c]\<rparr>))) =
        hooks_due k (t_parent (ctx_at (v\<lparr>ctxs := ctxs v @ [c]\<rparr>) k)) (mon_rank (t_mon (ctx_at (v\<lparr>ctxs := ctxs v @ [c]\<rparr>) k)))"
      using v c by (cases "k = length (ctxs v)") (auto simp: hooks_inv_def nth_append)
  qed
  show ?thesis
  proof (cases parent)
    case None
    then show ?thesis using new [OF assms(1)] by (simp add: StartChild_def new_ctx_def)
  next
    case (Some p)
    let ?f = "\<lambda>c. signalChange (c\<lparr>t_subs := t_subs c @ [length (ctxs w)], t_active := t_active c + 1\<rparr>)"
    have "hooks_inv (upd p ?f w)" by (rule hooks_upd [OF assms(1)]) (use assms(2) Some in simp_all)
    then show ?thesis using new [of "upd p ?f w"] Some assms(1) by (auto simp: StartChild_def new_ctx_def Let_def)
  qed
qed

lemma stage_ops:
  "stage (fst (PreventIdleClose now d c)) = stage c" "body_step ok c = Some c' \<Longrightarrow> stage c' = stage c"
  "idle_step now c c' \<Longrightarrow> stage c' = stage c"
proof -
  show "stage (fst (PreventIdleClose now d c)) = stage c"
    by (simp add: PreventIdleClose_def Let_def split: option.split)
  show "stage c' = stage c" if "body_step ok c = Some c'"
    using that by (auto simp: body_step_def release_def split: body_pc.splits if_splits)
  show "stage c' = stage c" if "idle_step now c c'"
    using that by cases (auto simp: idle_top_def idle_fire_def changeChan_def Let_def)
qed

lemma hooks_step: "step w w' \<Longrightarrow> inv w \<Longrightarrow> hooks_inv w \<Longrightarrow> hooks_inv w'"
proof (induction rule: step.induct)
  case (start parent w nowID info has_run)
  then show ?case by (simp add: hooks_start)
next
  case (close i w)
  show ?case by (rule hooks_upd [OF close(3,1)]) simp
next
  case (prevent i w delay)
  show ?case by (rule hooks_upd [OF prevent(3,1)]) (rule stage_ops)
next
  case (idle_in i w delay)
  show ?case by (rule hooks_upd [OF idle_in(3,1)]) simp
next
  case (body i w ok c)
  show ?case by (rule hooks_upd [OF body(4,1)]) (rule stage_ops(2) [OF body(2)])
next
  case (idle i w c)
  show ?case by (rule hooks_upd [OF idle(4,1)]) (rule stage_ops(3) [OF idle(2)])
next
  case (mon i w w')
  then show ?case using hooks_mon by blast
next
  case (tick w t)
  then show ?case by (simp add: hooks_inv_def)
qed

lemma reachable_hooks: "reachable w \<Longrightarrow> hooks_inv w"
proof (induction rule: reachable.induct)
  case init
  show ?case by (simp add: hooks_inv_def init_world_def)
next
  case (next_step w w')
  then show ?case using hooks_step reachable_inv by blast
qed

section \<open>Runs\<close>

text \<open>The steps as a program: what a caller or the scheduler chooses next.\<close>

datatype act = Spawn "nat option" task_info bool uid | CloseIt nat | IdleIn nat int | Work nat bool
  | IdleGo nat bool | MonGo nat | Tick int

definition idle_do :: "bool \<Rightarrow> int \<Rightarrow> task_ctx \<Rightarrow> task_ctx option" where
  "idle_do timer now c =
     (case t_idle c of
        IdleOff \<Rightarrow> None
      | IdleTop \<Rightarrow> Some (idle_top now c)
      | IdleBusy g \<Rightarrow> if woken g c then Some (c\<lparr>t_idle := IdleTop\<rparr>) else None
      | IdleTimer g due \<Rightarrow>
          if timer then if due \<le> now then Some (idle_fire now c) else None
          else if woken g c then Some (c\<lparr>t_idle := IdleTop\<rparr>) else None)"

fun perform :: "act \<Rightarrow> world \<Rightarrow> world option" where
  "perform (Spawn parent info has_run nowID) w =
     (if case parent of None \<Rightarrow> True | Some p \<Rightarrow> p < length (ctxs w)
      then Some (fst (StartChild nowID parent info has_run w)) else None)"
| "perform (CloseIt i) w = (if i < length (ctxs w) then Some (upd i close_ctx w) else None)"
| "perform (IdleIn i delay) w = (if i < length (ctxs w) then Some (upd i (CloseWhenIdle delay) w) else None)"
| "perform (Work i ok) w =
     (if i < length (ctxs w) then map_option (\<lambda>c. upd i (\<lambda>_. c) w) (body_step ok (ctx_at w i)) else None)"
| "perform (IdleGo i timer) w =
     (if i < length (ctxs w) then map_option (\<lambda>c. upd i (\<lambda>_. c) w) (idle_do timer (clock w) (ctx_at w i)) else None)"
| "perform (MonGo i) w = (if i < length (ctxs w) then mon_step i w else None)"
| "perform (Tick t) w = (if clock w \<le> t then Some (w\<lparr>clock := t\<rparr>) else None)"

fun perform_all :: "act list \<Rightarrow> world \<Rightarrow> world option" where
  "perform_all [] w = Some w"
| "perform_all (a # as) w = (case perform a w of None \<Rightarrow> None | Some v \<Rightarrow> perform_all as v)"

lemma idle_do_step: "idle_do timer now c = Some c' \<Longrightarrow> idle_step now c c'"
  by (auto simp: idle_do_def intro: idle_step.intros split: idle_pc.splits if_splits)

lemma perform_step: "perform a w = Some w' \<Longrightarrow> step w w'"
proof (cases a)
  case (Spawn parent info has_run nowID)
  assume "perform a w = Some w'"
  with Spawn have "\<forall>p. parent = Some p \<longrightarrow> p < length (ctxs w)" "w' = fst (StartChild nowID parent info has_run w)"
    by (auto split: option.splits if_splits)
  then show ?thesis by (simp add: step.start)
qed (auto intro: step.intros idle_do_step split: if_splits)

lemma perform_all_reachable: "perform_all as w = Some w' \<Longrightarrow> reachable w \<Longrightarrow> reachable w'"
proof (induction as arbitrary: w)
  case (Cons a as)
  then obtain v where "perform a w = Some v" "perform_all as v = Some w'" by (auto split: option.splits)
  with Cons show ?case by (meson perform_step reachable.next_step)
qed simp

lemma runs_reachable: "perform_all as init_world = Some w \<Longrightarrow> reachable w"
  by (erule perform_all_reachable) (rule reachable.init)

section \<open>Properties\<close>

text \<open>A root with one child, closed: both are shut down, first by the child's monitor as far as it can
  go, then by the root's.\<close>

definition toy_info :: task_info where
  "toy_info = \<lparr>TaskID = UID 1 1, Label = ''t'', IdleClose = 0\<rparr>"

definition two_tasks :: "act list" where
  "two_tasks = [Spawn None toy_info False (UID 1 2), Work 0 True, Spawn (Some 0) toy_info False (UID 1 3), Work 1 True]"

definition shut_down :: "act list" where
  "shut_down = [CloseIt 0] @ map MonGo [0, 0, 0, 0, 1, 1, 1, 1, 1, 0, 0, 0, 0, 0, 0]"

definition toy_world :: world where
  "toy_world = the (perform_all (two_tasks @ shut_down) init_world)"

lemmas run_defs = two_tasks_def shut_down_def toy_info_def init_world_def StartChild_def new_ctx_def upd_def emit_def
  signalChange_def changeChan_def close_ctx_def release_def body_step_def mon_step_def set_mon_def remove_child_def
  detach_from_def Let_def

lemma toy_task_run:
  "perform_all (two_tasks @ shut_down) init_world = Some toy_world"
  "length (ctxs toy_world) = 2" "t_state (ctx_at toy_world 0) = Closed" "t_state (ctx_at toy_world 1) = Closing"
  "t_parent (ctx_at toy_world 1) = Some 0" "t_parent (ctx_at toy_world 0) = None"
  "rev (hooks toy_world) = [OnClosing 0, OnClosing 1, OnChildClosing 0 1, OnClosed 0, Done 0]"
  by (simp_all add: toy_world_def run_defs)

lemma toy_reachable: "reachable toy_world"
  by (rule runs_reachable [OF toy_task_run(1)])

text \<open>C25. Every context runs its hooks at most once and in the documented order - \<open>OnClosing\<close>, then
  \<open>OnChildClosing\<close> of its parent, then \<open>OnClosed\<close>, then the release of \<open>Done\<close> -, none of them before
  its \<open>Err\<close> reports the close, and all of them once it is done.\<close>

theorem hooks_in_order:
  assumes "reachable w" "i < length (ctxs w)"
  shows "\<exists>n. filter (\<lambda>h. hook_of h = i) (rev (hooks w)) =
        take n ([OnClosing i] @ (case t_parent (ctx_at w i) of None \<Rightarrow> [] | Some p \<Rightarrow> [OnChildClosing p i]) @ [OnClosed i, Done i]) \<and>
      (0 < n \<longrightarrow> Err (ctx_at w i) = Some Canceled) \<and> (t_done (ctx_at w i) \<longleftrightarrow> 4 \<le> n)"
proof -
  let ?c = "ctx_at w i"
  have l: "local_inv ?c" by (rule inv_local [OF reachable_inv [OF assms(1)] assms(2)])
  have h: "filter (\<lambda>h. hook_of h = i) (rev (hooks w)) = hooks_due i (t_parent ?c) (mon_rank (t_mon ?c))"
    using reachable_hooks [OF assms(1)] assms(2) by (simp add: hooks_inv_def)
  have e: "Err ?c = Some Canceled" if "0 < mon_rank (t_mon ?c)" using l that by (simp add: local_inv_def Err_def)
  have d: "t_done ?c \<longleftrightarrow> 8 \<le> mon_rank (t_mon ?c)" using l by (simp add: local_inv_def)
  define n where "n = (let r = mon_rank (t_mon ?c); q = (if t_parent ?c = None then 0 else 1 :: nat) in
    if r < 2 then 0 else if r < 3 then 1 else if r < 7 then 1 + q else if r < 8 then 2 + q else 4)"
  have "0 < mon_rank (t_mon ?c)" if "0 < n" using that by (auto simp: n_def Let_def split: if_splits)
  then have "0 < n \<longrightarrow> Err ?c = Some Canceled" using e by blast
  then show ?thesis
    unfolding h d by (intro exI [of _ n]) (cases "t_mon ?c"; cases "t_parent ?c"; simp add: n_def)
qed

theorem hooks_in_order_witness:
  "\<exists>n. filter (\<lambda>h. hook_of h = 1) (rev (hooks toy_world)) = take n [OnClosing 1, OnChildClosing 0 1, OnClosed 1, Done 1]"
  using hooks_in_order [OF toy_reachable, of 1] toy_task_run(2,5) by auto

text \<open>C18. When a context is Closed nothing below it works any more: every descendant is closing, has run its
  \<open>OnClosing\<close>, and neither its \<open>OnStart\<close> nor its \<open>OnRun\<close> is running; it has no children left.\<close>

theorem closed_subtree_drained:
  assumes "reachable w" "i < length (ctxs w)" "t_state (ctx_at w i) = Closed" "below w j i"
  shows "t_state (ctx_at w j) \<noteq> Running \<and> OnClosing j \<in> set (hooks w) \<and> t_active (ctx_at w j) = 0 \<and>
    t_body (ctx_at w j) \<in> {AfterBody, BodyDone} \<and> t_subs (ctx_at w j) = []"
proof -
  note I = reachable_inv [OF assms(1)]
  have "4 \<le> mon_rank (t_mon (ctx_at w i))" using inv_local [OF I assms(2)] assms(3) by (simp add: local_inv_def)
  from below_drained [OF assms(4) I this]
  have j: "j < length (ctxs w)" "4 \<le> mon_rank (t_mon (ctx_at w j))" "t_active (ctx_at w j) = 0"
    "t_subs (ctx_at w j) = []" "\<not> reserved (ctx_at w j)" by simp_all
  have "filter (\<lambda>h. hook_of h = j) (rev (hooks w)) = hooks_due j (t_parent (ctx_at w j)) (mon_rank (t_mon (ctx_at w j)))"
    using reachable_hooks [OF assms(1)] j(1) by (simp add: hooks_inv_def)
  then have "OnClosing j \<in> set (filter (\<lambda>h. hook_of h = j) (rev (hooks w)))" using j(2) by (simp add: hooks_due_def)
  then have "OnClosing j \<in> set (hooks w)" by simp
  moreover have "t_state (ctx_at w j) \<noteq> Running" using inv_local [OF I j(1)] j(2) by (simp add: local_inv_def)
  moreover have "t_body (ctx_at w j) \<in> {AfterBody, BodyDone}"
    using j(5) by (cases "t_body (ctx_at w j)") (simp_all add: reserved_def)
  ultimately show ?thesis using j(3,4) by simp
qed

theorem closed_subtree_drained_witness:
  "t_state (ctx_at toy_world 1) \<noteq> Running \<and> OnClosing 1 \<in> set (hooks toy_world) \<and> t_active (ctx_at toy_world 1) = 0"
proof -
  have "below toy_world 1 0"
    by (rule below.child [OF _ _ below.self]) (use toy_task_run in simp_all)
  then show ?thesis using closed_subtree_drained [OF toy_reachable, of 0 1] toy_task_run(2,3) by simp
qed

text \<open>C11. Closing terminates: once no set-up and no body runs, the monitors on their own make at most 92
  moves per context in whatever order they are scheduled; when none can move, every context that was
  closing, and everything below it, is done.\<close>

theorem close_drains:
  assumes "reachable w" "no_reservation w"
  shows "(\<exists>n w'. (mon_move ^^ n) w w' \<and> (\<nexists>w''. mon_move w' w'')) \<and>
    (\<forall>n w'. (mon_move ^^ n) w w' \<longrightarrow> n \<le> 92 * length (ctxs w) \<and>
      ((\<nexists>w''. mon_move w' w'') \<longrightarrow>
        (\<forall>i j. below w j i \<longrightarrow> t_state (ctx_at w i) \<noteq> Running \<longrightarrow> t_done (ctx_at w' j) \<and> t_state (ctx_at w' j) = Closed)))"
proof (intro conjI allI impI)
  note I = reachable_inv [OF assms(1)]
  show "\<exists>n w'. (mon_move ^^ n) w w' \<and> (\<nexists>w''. mon_move w' w'')" by (rule drains [OF I])
  fix n w' assume m: "(mon_move ^^ n) w w'"
  note k = mon_moves_keep [OF m I]
  then have I': "inv w'" and keep: "world_keeps w w'" by simp_all
  show "n \<le> 92 * length (ctxs w)" using k drain_measure_le [of w] by simp
  note K = world_keepsD [OF keep]
  have R: "no_reservation w'" using assms(2) unfolding no_reservation_bodies K(2) .
  fix i j assume stuck: "\<nexists>w''. mon_move w' w''" and b: "below w j i" "t_state (ctx_at w i) \<noteq> Running"
  have "i < length (ctxs w)" using b(1) by induction simp_all
  then have "t_state (ctx_at w' i) \<noteq> Running" using K(4) b(2) by blast
  from stuck_done [OF below_cong [OF b(1) K(3)] I' R stuck this]
  show "t_done (ctx_at w' j)" "t_state (ctx_at w' j) = Closed"
    using inv_local [OF I', of j] by (auto simp: local_inv_def)
qed

theorem close_drains_witness:
  "\<exists>n w'. (mon_move ^^ n) toy_world w' \<and> n \<le> 184 \<and> t_done (ctx_at w' 1)"
proof -
  have R: "no_reservation toy_world"
    by (simp add: no_reservation_def toy_world_def run_defs reserved_def)
  note D = close_drains [OF toy_reachable R]
  then obtain n w' where m: "(mon_move ^^ n) toy_world w'" "\<nexists>w''. mon_move w' w''" by blast
  have "below toy_world 1 1" by (rule below.self) (use toy_task_run in simp)
  moreover have "t_state (ctx_at toy_world 1) \<noteq> Running" using toy_task_run by simp
  ultimately have "n \<le> 92 * 2" "t_done (ctx_at w' 1)"
    using conjunct2 [OF D, rule_format, OF m(1)] m(2) toy_task_run(2) by metis+
  with m(1) show ?thesis by auto
qed

text \<open>A context can be done while the \<open>OnClosed\<close> of a child is still to run: the child leaves its parent
  before it runs the hook, and the parent does not wait for it.\<close>

theorem done_before_child_OnClosed:
  "\<exists>w. reachable w \<and> t_parent (ctx_at w 1) = Some 0 \<and> t_done (ctx_at w 0) \<and>
     rev (hooks w) = [OnClosing 0, OnClosing 1, OnChildClosing 0 1, OnClosed 0, Done 0]"
proof (intro exI conjI)
  show "t_done (ctx_at toy_world 0)" by (simp add: toy_world_def run_defs)
qed (fact toy_reachable toy_task_run(5) toy_task_run(7))+

section \<open>Idle close\<close>

text \<open>The idle-close loop closes its context only when it has no work, idle-close is on and no floor of
  \<open>PreventIdleClose\<close> lies ahead, and then only at the end of its timer.\<close>

lemma idle_close_guard:
  assumes "idle_step now c c'" "t_state c = Running" "t_state c' \<noteq> Running"
  shows "t_state c' = Closing \<and> t_active c = 0 \<and> 0 < t_idleDelay c \<and>
    (\<forall>floor. t_idleFloor c = Some floor \<longrightarrow> floor \<le> now) \<and> (\<exists>g due. t_idle c = IdleTimer g due \<and> due \<le> now)"
  using assms
  by cases (auto simp: idle_top_def idle_fire_def close_ctx_def signalChange_def changeChan_def Let_def split: if_splits option.splits)

text \<open>A countdown that \<open>CloseWhenIdle\<close> restarts after its timer has run out, but before the loop has
  seen that, still closes the context at once.\<close>

definition late_restart :: "act list" where
  "late_restart = [Spawn None toy_info False (UID 1 2), Work 0 True, IdleIn 0 5, IdleGo 0 False, Tick 5, IdleIn 0 100, IdleGo 0 True]"

lemma restart_lost:
  "\<exists>w. perform_all late_restart init_world = Some w \<and> reachable w \<and> clock w = 5 \<and> t_idleDelay (ctx_at w 0) = 100 \<and>
     t_state (ctx_at w 0) = Closing"
proof -
  have "\<exists>w. perform_all late_restart init_world = Some w \<and> clock w = 5 \<and> t_idleDelay (ctx_at w 0) = 100 \<and>
     t_state (ctx_at w 0) = Closing"
    by (simp add: late_restart_def run_defs CloseWhenIdle_def idle_do_def idle_top_def idle_fire_def)
  then show ?thesis using runs_reachable by blast
qed

end
