(* ===== verification/Chunks.thy ===== *)
theory Chunks
  imports Prelude
begin

text \<open>
  Cutting a list into blocks: the blocks of \<open>n\<close> elements, the last one shorter; the complete blocks
  and the open one, and how they move when elements arrive.  Shared by the code that hashes a stream
  grain by grain and chunk by chunk.
\<close>

function chunks_of :: "nat \<Rightarrow> 'a list \<Rightarrow> 'a list list" where
  "chunks_of n xs = (if n = 0 \<or> xs = [] then [] else take n xs # chunks_of n (drop n xs))"
  by pat_completeness auto
termination by (relation "measure (\<lambda>(n, xs). length xs)") auto

declare chunks_of.simps [simp del]

definition full :: "nat \<Rightarrow> 'a list \<Rightarrow> 'a list list" where
  "full n xs = chunks_of n (take (length xs div n * n) xs)"

definition open_block :: "nat \<Rightarrow> 'a list \<Rightarrow> 'a list" where
  "open_block n xs = drop (length xs div n * n) xs"

lemma chunks_of_Nil [simp]: "chunks_of n [] = []"
  by (simp add: chunks_of.simps)

lemma chunks_of_step: "0 < n \<Longrightarrow> xs \<noteq> [] \<Longrightarrow> chunks_of n xs = take n xs # chunks_of n (drop n xs)"
  by (simp add: chunks_of.simps [of n xs])

lemma chunks_of_short: "0 < n \<Longrightarrow> xs \<noteq> [] \<Longrightarrow> length xs \<le> n \<Longrightarrow> chunks_of n xs = [xs]"
  by (simp add: chunks_of_step)

lemma chunks_of_append:
  assumes "0 < n" "length xs = k * n"
  shows "chunks_of n (xs @ ys) = chunks_of n xs @ chunks_of n ys"
  using assms(2)
proof (induction k arbitrary: xs)
  case 0
  then show ?case by simp
next
  case (Suc k)
  then have "xs \<noteq> []" "n \<le> length xs" "length (drop n xs) = k * n" using assms(1) by auto
  then show ?case using Suc.IH [of "drop n xs"] assms(1) by (simp add: chunks_of_step)
qed

lemma chunks_of_map: "chunks_of n (map f xs) = map (map f) (chunks_of n xs)"
  by (induction n xs rule: chunks_of.induct) (simp add: chunks_of.simps [of n "map f xs" for n xs] chunks_of.simps take_map drop_map)

lemma concat_chunks_of: "0 < n \<Longrightarrow> concat (chunks_of n xs) = xs"
proof (induction n xs rule: chunks_of.induct)
  case (1 n xs)
  then show ?case by (cases "xs = []") (simp_all add: chunks_of_step)
qed

lemma ceil_div_step:
  assumes "0 < n" "0 < (m :: nat)"
  shows "(m + n - 1) div n = Suc ((m - n + n - 1) div n)"
proof (cases "n \<le> m")
  case True
  then obtain k where k: "m = n + k" by (metis le_Suc_ex)
  then have k: "m + n - 1 = n + (k + n - 1)" "m - n + n - 1 = k + n - 1" using assms(1) by simp_all
  show ?thesis unfolding k using assms(1) by (subst div_add_self1) simp_all
next
  case False
  then have "m + n - 1 = (m - 1) + n" using assms by simp
  then have "(m + n - 1) div n = (m - 1 + n) div n" by (rule arg_cong)
  also have "\<dots> = (m - 1) div n + 1" by (rule div_add_self2) (use assms in simp)
  also have "\<dots> = 1" using False assms by simp
  also have "1 = Suc ((m - n + n - 1) div n)" using False assms by simp
  finally show ?thesis .
qed

lemma length_chunks_of: "0 < n \<Longrightarrow> length (chunks_of n xs) = (length xs + n - 1) div n"
proof (induction n xs rule: chunks_of.induct)
  case (1 n xs)
  show ?case
  proof (cases "xs = []")
    case True
    with 1 show ?thesis by simp
  next
    case False
    then have "length (chunks_of n xs) = Suc (length (chunks_of n (drop n xs)))"
      using 1(2) by (simp add: chunks_of_step)
    also have "\<dots> = Suc ((length xs - n + n - 1) div n)" using 1 False by simp
    also have "\<dots> = (length xs + n - 1) div n" using ceil_div_step [OF 1(2), of "length xs"] False by simp
    finally show ?thesis .
  qed
qed

lemma chunks_of_nth:
  assumes "0 < n" "k < length (chunks_of n xs)"
  shows "chunks_of n xs ! k = take n (drop (k * n) xs)"
  using assms
proof (induction n xs arbitrary: k rule: chunks_of.induct)
  case (1 n xs)
  then have ne: "xs \<noteq> []" by auto
  show ?case
  proof (cases k)
    case 0
    then show ?thesis using 1(2) ne by (simp add: chunks_of_step)
  next
    case (Suc j)
    then have "j < length (chunks_of n (drop n xs))" using 1(2,3) ne by (simp add: chunks_of_step)
    then show ?thesis using 1 ne Suc by (simp add: chunks_of_step add.commute)
  qed
qed

lemma chunks_of_lengths: "0 < n \<Longrightarrow> b \<in> set (chunks_of n xs) \<Longrightarrow> b \<noteq> [] \<and> length b \<le> n"
proof (induction n xs rule: chunks_of.induct)
  case (1 n xs)
  then show ?case by (cases "xs = []") (auto simp: chunks_of_step)
qed

text \<open>Blocks of blocks.\<close>

lemma chunks_of_chunks_of:
  assumes "0 < g" "0 < n"
  shows "chunks_of g (chunks_of n xs) = map (chunks_of n) (chunks_of (g * n) xs)"
proof (induction "length xs" arbitrary: xs rule: less_induct)
  case less
  have drops: "drop k (chunks_of n ys) = chunks_of n (drop (k * n) ys)" for k ys
  proof (induction k arbitrary: ys)
    case (Suc k)
    then show ?case using assms by (cases "ys = []") (simp_all add: chunks_of_step add.commute)
  qed simp
  have takes: "take k (chunks_of n ys) = chunks_of n (take (k * n) ys)" for k ys
  proof (induction k arbitrary: ys)
    case (Suc k)
    show ?case
    proof (cases "ys = []")
      case False
      then have "take (Suc k * n) ys \<noteq> []" using assms by simp
      then show ?thesis using False Suc assms by (simp add: chunks_of_step min_def drop_take)
    qed simp
  qed simp
  show ?case
  proof (cases "xs = []")
    case False
    have "chunks_of n xs \<noteq> []" "drop (g * n) xs = [] \<or> length (drop (g * n) xs) < length xs"
      using False assms by (auto simp: chunks_of_step)
    then show ?thesis
      using less [of "drop (g * n) xs"] False assms drops [of g xs] takes [of g xs]
      by (auto simp: chunks_of_step)
  qed simp
qed

lemma chunks_of_concat:
  assumes "\<forall>d \<in> set ds. length d = w" "0 < w" "0 < g"
  shows "chunks_of (g * w) (concat ds) = map concat (chunks_of g ds)"
  using assms(1)
proof (induction "length ds" arbitrary: ds rule: less_induct)
  case less
  have cut: "take (k * w) (concat es) = concat (take k es) \<and> drop (k * w) (concat es) = concat (drop k es)"
    if "\<forall>d \<in> set es. length d = w" for k es
    using that
  proof (induction k arbitrary: es)
    case (Suc k)
    then show ?case by (cases es) (auto simp: add.commute)
  qed simp
  show ?case
  proof (cases ds)
    case (Cons d es)
    then have "concat ds \<noteq> []" using less(2) assms(2) by auto
    moreover have "length (drop g ds) < length ds" "\<forall>d \<in> set (drop g ds). length d = w"
      using Cons assms(3) less(2) in_set_dropD by fastforce+
    ultimately show ?thesis
      using less(1) [of "drop g ds"] cut [OF less(2), of g] Cons assms by (simp add: chunks_of_step)
  qed simp
qed

lemma chunks_of_cut: "\<forall>d \<in> set ds. length d = w \<Longrightarrow> 0 < w \<Longrightarrow> chunks_of w (concat ds) = ds"
proof (induction ds)
  case (Cons d ds)
  then have "d \<noteq> []" by auto
  with Cons show ?case by (simp add: chunks_of_step)
qed simp

lemma concat_slot:
  assumes "\<forall>d \<in> set ds. length d = w" "0 < w" "k < length ds"
  shows "take w (drop (k * w) (concat ds)) = ds ! k"
  using chunks_of_nth [OF assms(2), of k "concat ds"] chunks_of_cut [OF assms(1,2)] assms(3) by simp

lemma length_concat_uniform: "\<forall>d \<in> set ds. length d = w \<Longrightarrow> length (concat ds) = length ds * w"
  by (induction ds) simp_all

section \<open>Complete blocks and the open one\<close>

lemma length_open_block [simp]: "length (open_block n xs) = length xs mod n"
  by (simp add: open_block_def minus_div_mult_eq_mod)

lemma open_block_Nil [simp]: "open_block n [] = []"
  by (simp add: open_block_def)

lemma full_Nil [simp]: "full n [] = []"
  by (simp add: full_def)

lemma take_open: "take (length xs div n * n) xs @ open_block n xs = xs"
  by (simp add: open_block_def)

lemma chunks_of_open:
  assumes "0 < n"
  shows "chunks_of n xs = full n xs @ (if open_block n xs = [] then [] else [open_block n xs])"
proof -
  have "length (take (length xs div n * n) xs) = length xs div n * n" by (simp add: div_times_less_eq_dividend)
  then have "chunks_of n xs = full n xs @ chunks_of n (open_block n xs)"
    using chunks_of_append [OF assms, of "take (length xs div n * n) xs" "length xs div n" "open_block n xs"]
    by (simp add: take_open full_def)
  moreover have "length (open_block n xs) \<le> n" using assms by (simp add: less_imp_le)
  ultimately show ?thesis using assms by (simp add: chunks_of_short)
qed

lemma length_full: "0 < n \<Longrightarrow> length (full n xs) = length xs div n"
proof -
  assume n: "0 < n"
  have "length (take (length xs div n * n) xs) = length xs div n * n" by (simp add: div_times_less_eq_dividend)
  then have "length (full n xs) = (length xs div n * n + n - 1) div n"
    unfolding full_def using length_chunks_of [OF n, of "take (length xs div n * n) xs"] by simp
  also have "\<dots> = length xs div n" by (rule div_nat_eqI) (use n in \<open>simp_all add: mult.commute\<close>)
  finally show ?thesis .
qed

lemma open_grows:
  assumes "length xs mod n + length ys < n"
  shows "full n (xs @ ys) = full n xs" "open_block n (xs @ ys) = open_block n xs @ ys"
proof -
  have n: "0 < n" using assms by simp
  have "length xs + length ys = length xs div n * n + (length xs mod n + length ys)" by simp
  then have d: "(length xs + length ys) div n = length xs div n"
    using assms n by (metis div_less div_mult_self3 add.commute add.right_neutral mult.commute neq0_conv)
  have le: "length xs div n * n \<le> length xs" by (rule div_times_less_eq_dividend)
  show "full n (xs @ ys) = full n xs" using d le by (simp add: full_def)
  show "open_block n (xs @ ys) = open_block n xs @ ys" using d le by (simp add: open_block_def)
qed

lemma open_closes:
  assumes "length xs mod n + length ys = n" "0 < n"
  shows "full n (xs @ ys) = full n xs @ [open_block n xs @ ys]" "open_block n (xs @ ys) = []"
proof -
  have "length xs + length ys = length xs div n * n + (length xs mod n + length ys)" by simp
  then have "length (xs @ ys) = Suc (length xs div n) * n" using assms(1) by simp
  then have m: "length (xs @ ys) mod n = 0" by simp
  then show o: "open_block n (xs @ ys) = []" by (metis length_0_conv length_open_block)
  have "length (take (length xs div n * n) xs) = length xs div n * n" by (simp add: div_times_less_eq_dividend)
  from chunks_of_append [OF assms(2) this, of "open_block n xs @ ys"]
  have "chunks_of n ((take (length xs div n * n) xs @ open_block n xs) @ ys) = full n xs @ chunks_of n (open_block n xs @ ys)"
    unfolding full_def append.assoc .
  then have "chunks_of n (xs @ ys) = full n xs @ chunks_of n (open_block n xs @ ys)"
    unfolding take_open .
  moreover have single: "chunks_of n (open_block n xs @ ys) = [open_block n xs @ ys]"
  proof (rule chunks_of_short [OF assms(2)])
    have l: "length (open_block n xs @ ys) = n" using assms by simp
    then show "length (open_block n xs @ ys) \<le> n" by simp
    show "open_block n xs @ ys \<noteq> []" using l assms(2) by (metis list.size(3) less_irrefl)
  qed
  ultimately have "chunks_of n (xs @ ys) = full n xs @ [open_block n xs @ ys]"
    using single by simp
  then show "full n (xs @ ys) = full n xs @ [open_block n xs @ ys]"
    using chunks_of_open [OF assms(2), of "xs @ ys"] o by simp
qed

end
