(* ===== verification/BlobMeta.thy ===== *)
theory BlobMeta
  imports Uid Chunks
begin

text \<open>
  The transfer manifest of a blob (\<open>amp/amp.support.blobmeta.go\<close>): chunk and grain arithmetic, the
  two-level chunk hash, the builder that mints a manifest while the bytes stream by, and the
  receiver's checks.  A hasher is the bytes written to it; the digest function of a kit, the registry
  of kits and the wire primitives of the protobuf library are parameters.  Byte counts are \<open>nat\<close>
  where the code keeps them between 0 and \<open>BlobLenMax\<close>; the arithmetic on a caller's numbers is at its
  width.
\<close>

section \<open>Constants and parameters\<close>

definition BlobMetaHashSize :: nat where "BlobMetaHashSize = 32"
definition BlobGrainSizeLog2 :: nat where "BlobGrainSizeLog2 = 12"
definition BlobChunkSizeLog2Min :: nat where "BlobChunkSizeLog2Min = 20"
definition BlobChunkSizeLog2Max :: nat where "BlobChunkSizeLog2Max = 30"
definition BlobMetaTargetChunks :: int where "BlobMetaTargetChunks = 32768"
definition BlobLenMax :: nat where "BlobLenMax = 2 ^ 50"
definition blobMetaComposeTag :: byte where "blobMetaComposeTag = 0x01"
definition blobMetaSpillLen :: nat where "blobMetaSpillLen = 2 * 2 ^ 30"

lemmas blob_consts = BlobMetaHashSize_def BlobGrainSizeLog2_def BlobChunkSizeLog2Min_def BlobChunkSizeLog2Max_def
  BlobMetaTargetChunks_def BlobLenMax_def blobMetaSpillLen_def

record hash_kit =
  HashSz :: nat
  Sum :: "byte list \<Rightarrow> byte list"

type_synonym kit_registry = "u32 \<Rightarrow> hash_kit outcome"

text \<open>What a registered kit promises: a digest has the kit's size.\<close>

definition kit_ok :: "hash_kit \<Rightarrow> bool" where
  "kit_ok kit \<longleftrightarrow> (\<forall>dat. length (Sum kit dat) = HashSz kit)"

record protowire =
  AppendTag :: "byte list \<Rightarrow> nat \<Rightarrow> nat \<Rightarrow> byte list"
  AppendVarint :: "byte list \<Rightarrow> u64 \<Rightarrow> byte list"
  AppendBytes :: "byte list \<Rightarrow> byte list \<Rightarrow> byte list"
  SizeVarint :: "u64 \<Rightarrow> nat"

text \<open>What protowire documents: a varint has its announced size, at most ten bytes, the tag of a field
  below 16 is one byte, and a byte string is its length and its bytes.\<close>

definition protowire_ok :: "protowire \<Rightarrow> bool" where
  "protowire_ok pw \<longleftrightarrow>
     (\<forall>b v. length (AppendVarint pw b v) = length b + SizeVarint pw v \<and> SizeVarint pw v \<le> 10) \<and>
     (\<forall>b n t. 0 < n \<longrightarrow> n < 16 \<longrightarrow> length (AppendTag pw b n t) = length b + 1) \<and>
     (\<forall>b x. AppendBytes pw b x = AppendVarint pw b (word_of_nat (length x)) @ x)"

record blob_meta =
  ChunkSizeLog2 :: u32
  TotalLen :: u64
  ChunkHashes :: "byte list"

record blob_ref =
  HashKitID :: u32
  MetaRoot :: uid
  ref_ChunkSizeLog2 :: u32
  BlobTag_I :: "int option"

definition HasBlobMeta :: "blob_ref \<Rightarrow> bool" where
  "HasBlobMeta ref \<longleftrightarrow> uid0 (MetaRoot ref) \<noteq> 0 \<or> uid1 (MetaRoot ref) \<noteq> 0"

definition MetaRootUID :: "blob_ref \<Rightarrow> uid" where
  "MetaRootUID ref = UID (uid0 (MetaRoot ref)) (uid1 (MetaRoot ref))"

section \<open>Chunk arithmetic\<close>

text \<open>A shift of an \<open>int64\<close>, and the \<open>uint64\<close> of one.\<close>

definition shl64 :: "int \<Rightarrow> nat \<Rightarrow> int" where
  "shl64 x c = go_int (x * 2 ^ c)"

definition u64_of :: "int \<Rightarrow> nat" where
  "u64_of x = nat (x mod 2 ^ 64)"

function choose_loop :: "int \<Rightarrow> nat \<Rightarrow> nat" where
  "choose_loop storedLen e =
     (if e < BlobChunkSizeLog2Max \<and> go_int (storedLen + shl64 1 e - 1) div 2 ^ e > BlobMetaTargetChunks
      then choose_loop storedLen (e + 1) else e)"
  by pat_completeness auto
termination by (relation "measure (\<lambda>(s, e). BlobChunkSizeLog2Max - e)") auto

declare choose_loop.simps [simp del]

definition ChooseBlobChunkSizeLog2 :: "int \<Rightarrow> nat" where
  "ChooseBlobChunkSizeLog2 storedLen = choose_loop storedLen BlobChunkSizeLog2Min"

definition BlobChunkCount :: "int \<Rightarrow> nat \<Rightarrow> nat" where
  "BlobChunkCount storedLen c =
     (if storedLen \<le> 0 then 0 else u64_of (storedLen + shl64 1 c - 1) div 2 ^ c)"

definition BlobChunkOffset :: "nat \<Rightarrow> nat \<Rightarrow> int" where
  "BlobChunkOffset chunkIndex c = shl64 (go_int (int chunkIndex)) c"

definition BlobChunkIndex :: "int \<Rightarrow> nat \<Rightarrow> nat" where
  "BlobChunkIndex position c = u64_of position div 2 ^ c"

definition BlobChunkRemaining :: "int \<Rightarrow> nat \<Rightarrow> int" where
  "BlobChunkRemaining position c =
     (let chunkSize = shl64 1 c in go_int (chunkSize - (position AND go_int (chunkSize - 1))))"

definition BlobChunkAligned :: "int \<Rightarrow> nat \<Rightarrow> bool" where
  "BlobChunkAligned position c \<longleftrightarrow> position AND go_int (shl64 1 c - 1) = 0"

definition BlobWireAddress :: "int \<Rightarrow> nat \<Rightarrow> nat \<times> nat" where
  "BlobWireAddress position c =
     (if c = 0 then (0, u64_of position)
      else (u64_of position div 2 ^ c, u64_of position AND u64_of (2 ^ c - 1)))"

definition BlobPullSpan :: "int \<Rightarrow> nat \<Rightarrow> nat \<Rightarrow> nat \<Rightarrow> (int \<times> int) option" where
  "BlobPullSpan blobLen c chunkBegin chunkCount =
     (if c \<ge> 63 \<or> (c > 0 \<and> chunkBegin > BlobLenMax div 2 ^ c) \<or> (c = 0 \<and> chunkBegin \<noteq> 0) then None
      else
        let startOffset = BlobChunkOffset chunkBegin c
        in if startOffset \<ge> blobLen \<and> blobLen > 0 then None
           else
             let spanLen = go_int (blobLen - startOffset);
                 requested = shl64 (go_int (int chunkCount)) c
             in Some (startOffset, if chunkCount > 0 \<and> requested < spanLen then requested else spanLen))"

definition blobLaneDead :: "nat \<Rightarrow> nat \<Rightarrow> bool" where
  "blobLaneDead storedLen c \<longleftrightarrow> int storedLen > shl64 BlobMetaTargetChunks c"

definition blobGrainsPerChunk :: "nat \<Rightarrow> nat" where
  "blobGrainsPerChunk c = 2 ^ (c - BlobGrainSizeLog2)"

section \<open>Two-level chunk hashing\<close>

definition newBlobHashKit :: "kit_registry \<Rightarrow> u32 \<Rightarrow> hash_kit outcome" where
  "newBlobHashKit newKit kitID =
     and_then (newKit kitID) (\<lambda>kit. if HashSz kit < BlobMetaHashSize then Inl BadRequest else Inr kit)"

text \<open>The loop both writers share: a turn takes what the open grain still holds, or what is left.  It
  would not end on a sink that never empties its grain; \<open>None\<close> stands for that.\<close>

partial_function (option) grain_loop ::
  "('s \<Rightarrow> nat) \<Rightarrow> ('s \<Rightarrow> byte list \<Rightarrow> 's outcome) \<Rightarrow> byte list \<Rightarrow> 's \<Rightarrow> 's outcome option" where
  "grain_loop inGrain turn stored s =
     (if stored = [] then Some (Inr s)
      else let span = min (2 ^ BlobGrainSizeLog2 - inGrain s) (length stored)
           in case turn s (take span stored) of
                Inl e \<Rightarrow> Some (Inl e)
              | Inr s' \<Rightarrow> grain_loop inGrain turn (drop span stored) s')"

record chunk_hasher =
  bch_fineKit :: hash_kit
  bch_composeKit :: hash_kit
  bch_fine :: "byte list"
  bch_compose :: "byte list"
  bch_inGrain :: nat
  bch_tagged :: bool

definition NewBlobChunkHasher :: "kit_registry \<Rightarrow> u32 \<Rightarrow> chunk_hasher outcome" where
  "NewBlobChunkHasher newKit kitID =
     and_then (newBlobHashKit newKit kitID) (\<lambda>fine.
     and_then (newBlobHashKit newKit kitID) (\<lambda>compose.
     Inr \<lparr>bch_fineKit = fine, bch_composeKit = compose, bch_fine = [], bch_compose = [],
          bch_inGrain = 0, bch_tagged = False\<rparr>))"

definition finishGrain :: "chunk_hasher \<Rightarrow> chunk_hasher" where
  "finishGrain bch =
     (let digest = Sum (bch_fineKit bch) (bch_fine bch);
          bch = bch\<lparr>bch_fine := [], bch_inGrain := 0\<rparr>;
          bch = (if \<not> bch_tagged bch then bch\<lparr>bch_compose := [blobMetaComposeTag], bch_tagged := True\<rparr> else bch)
      in bch\<lparr>bch_compose := bch_compose bch @ take BlobMetaHashSize digest\<rparr>)"

definition hasher_turn :: "chunk_hasher \<Rightarrow> byte list \<Rightarrow> chunk_hasher outcome" where
  "hasher_turn bch span =
     (let bch = bch\<lparr>bch_fine := bch_fine bch @ span, bch_inGrain := bch_inGrain bch + length span\<rparr>
      in Inr (if bch_inGrain bch = 2 ^ BlobGrainSizeLog2 then finishGrain bch else bch))"

definition hasher_Write :: "byte list \<Rightarrow> chunk_hasher \<Rightarrow> chunk_hasher outcome option" where
  "hasher_Write chunk bch = grain_loop bch_inGrain hasher_turn chunk bch"

definition SumChunk :: "chunk_hasher \<Rightarrow> chunk_hasher \<times> byte list" where
  "SumChunk bch =
     (let bch = (if bch_inGrain bch > 0 \<or> \<not> bch_tagged bch then finishGrain bch else bch);
          entry = take BlobMetaHashSize (Sum (bch_composeKit bch) (bch_compose bch))
      in (bch\<lparr>bch_tagged := False\<rparr>, entry))"

definition hasher_Reset :: "chunk_hasher \<Rightarrow> chunk_hasher" where
  "hasher_Reset bch = bch\<lparr>bch_fine := [], bch_inGrain := 0, bch_tagged := False\<rparr>"

function grain_run :: "hash_kit \<Rightarrow> byte list \<Rightarrow> byte list" where
  "grain_run fine chunk =
     (if chunk = [] then []
      else let span = min (2 ^ BlobGrainSizeLog2) (length chunk)
           in take BlobMetaHashSize (Sum fine (take span chunk)) @ grain_run fine (drop span chunk))"
  by pat_completeness auto
termination by (relation "measure (\<lambda>(k, chunk). length chunk)") (auto simp: blob_consts)

declare grain_run.simps [simp del]

definition BlobGrainRun :: "kit_registry \<Rightarrow> u32 \<Rightarrow> byte list \<Rightarrow> byte list outcome" where
  "BlobGrainRun newKit kitID chunk =
     and_then (newBlobHashKit newKit kitID) (\<lambda>fine. Inr (grain_run fine chunk))"

definition VerifyGrainRun :: "kit_registry \<Rightarrow> u32 \<Rightarrow> byte list \<Rightarrow> byte list \<Rightarrow> unit outcome" where
  "VerifyGrainRun newKit kitID entry run =
     (if length run = 0 \<or> length run mod BlobMetaHashSize \<noteq> 0 then Inl AuthFailed
      else and_then (newBlobHashKit newKit kitID) (\<lambda>compose.
           if take BlobMetaHashSize (Sum compose ([blobMetaComposeTag] @ run)) \<noteq> entry then Inl AuthFailed
           else Inr ()))"

section \<open>Minting a manifest\<close>

record meta_lane =
  ln_kit :: hash_kit
  ln_compose :: "byte list"
  ln_entries :: "byte list"
  ln_grains :: nat
  ln_tagged :: bool
  ln_dead :: bool

record meta_builder =
  kitID :: u32
  bld_kit :: hash_kit
  bld_fine :: "byte list"
  bld_inGrain :: nat
  total :: nat
  runBuf :: "byte list"
  lanes :: "meta_lane list option"

definition NewBlobMetaBuilder :: "kit_registry \<Rightarrow> u32 \<Rightarrow> meta_builder outcome" where
  "NewBlobMetaBuilder newKit k =
     and_then (newBlobHashKit newKit k) (\<lambda>fine.
     Inr \<lparr>kitID = k, bld_kit = fine, bld_fine = [], bld_inGrain = 0, total = 0, runBuf = [], lanes = None\<rparr>)"

definition feed_lane :: "byte list \<Rightarrow> nat \<Rightarrow> meta_lane \<Rightarrow> meta_lane" where
  "feed_lane digest e lane =
     (if ln_dead lane then lane
      else
        let lane = (if \<not> ln_tagged lane then lane\<lparr>ln_compose := [blobMetaComposeTag], ln_tagged := True\<rparr> else lane);
            lane = lane\<lparr>ln_compose := ln_compose lane @ digest, ln_grains := ln_grains lane + 1\<rparr>
        in if ln_grains lane = blobGrainsPerChunk e
           then lane\<lparr>ln_entries := ln_entries lane @ take BlobMetaHashSize (Sum (ln_kit lane) (ln_compose lane)),
                     ln_tagged := False, ln_grains := 0\<rparr>
           else lane)"

definition feedLanes :: "byte list \<Rightarrow> meta_lane list \<Rightarrow> meta_lane list" where
  "feedLanes digest ls = map (\<lambda>(ii, lane). feed_lane digest (BlobChunkSizeLog2Min + ii) lane) (enumerate 0 ls)"

definition prune_lane :: "nat \<Rightarrow> nat \<Rightarrow> meta_lane \<Rightarrow> meta_lane" where
  "prune_lane storedLen e lane =
     (if ln_dead lane then lane
      else if blobLaneDead storedLen e then lane\<lparr>ln_dead := True, ln_entries := []\<rparr> else lane)"

definition pruneLanes :: "nat \<Rightarrow> meta_lane list \<Rightarrow> meta_lane list" where
  "pruneLanes storedLen ls =
     map (\<lambda>(ii, lane). if ii < length ls - 1 then prune_lane storedLen (BlobChunkSizeLog2Min + ii) lane else lane)
       (enumerate 0 ls)"

definition spill :: "kit_registry \<Rightarrow> meta_builder \<Rightarrow> meta_builder outcome" where
  "spill newKit bld =
     (case newBlobHashKit newKit (kitID bld) of
        Inl _ \<Rightarrow> Inl Panic
      | Inr kit \<Rightarrow>
          let laneCount = BlobChunkSizeLog2Max - BlobChunkSizeLog2Min + 1;
              ls = replicate laneCount \<lparr>ln_kit = kit, ln_compose = [], ln_entries = [], ln_grains = 0,
                     ln_tagged = False, ln_dead = False\<rparr>;
              ls = foldl (\<lambda>ls digest. feedLanes digest ls) ls (chunks_of BlobMetaHashSize (runBuf bld))
          in Inr (bld\<lparr>runBuf := [], lanes := Some (pruneLanes (total bld) ls)\<rparr>))"

definition absorbGrain :: "kit_registry \<Rightarrow> meta_builder \<Rightarrow> meta_builder outcome" where
  "absorbGrain newKit bld =
     (let digest = Sum (bld_kit bld) (bld_fine bld);
          bld = bld\<lparr>bld_fine := [], bld_inGrain := 0\<rparr>
      in case lanes bld of
           None \<Rightarrow>
             let bld = bld\<lparr>runBuf := runBuf bld @ take BlobMetaHashSize digest\<rparr>
             in if total bld > blobMetaSpillLen then spill newKit bld else Inr bld
         | Some ls \<Rightarrow> Inr (bld\<lparr>lanes := Some (pruneLanes (total bld) (feedLanes (take BlobMetaHashSize digest) ls))\<rparr>))"

definition builder_turn :: "kit_registry \<Rightarrow> meta_builder \<Rightarrow> byte list \<Rightarrow> meta_builder outcome" where
  "builder_turn newKit bld span =
     (let bld = bld\<lparr>bld_fine := bld_fine bld @ span, bld_inGrain := bld_inGrain bld + length span,
                    total := total bld + length span\<rparr>
      in if bld_inGrain bld = 2 ^ BlobGrainSizeLog2 then absorbGrain newKit bld else Inr bld)"

definition builder_Write :: "kit_registry \<Rightarrow> byte list \<Rightarrow> meta_builder \<Rightarrow> meta_builder outcome option" where
  "builder_Write newKit stored bld =
     (if total bld + length stored > BlobLenMax then Some (Inl BadRequest)
      else grain_loop bld_inGrain (builder_turn newKit) stored bld)"

definition Finish :: "kit_registry \<Rightarrow> meta_builder \<Rightarrow> blob_meta option outcome" where
  "Finish newKit bld =
     and_then (if bld_inGrain bld > 0 then absorbGrain newKit bld else Inr bld) (\<lambda>bld.
     if total bld \<le> 2 ^ BlobGrainSizeLog2 then Inr None
     else
       let e = ChooseBlobChunkSizeLog2 (int (total bld));
           meta = (\<lambda>hashes. \<lparr>ChunkSizeLog2 = word_of_nat e, TotalLen = word_of_nat (total bld), ChunkHashes = hashes\<rparr>)
       in case lanes bld of
            None \<Rightarrow>
              and_then (newBlobHashKit newKit (kitID bld)) (\<lambda>compose.
              let runLen = blobGrainsPerChunk e * BlobMetaHashSize
              in Inr (Some (meta (concat (map (\<lambda>run. take BlobMetaHashSize (Sum compose ([blobMetaComposeTag] @ run)))
                   (chunks_of runLen (runBuf bld)))))))
          | Some ls \<Rightarrow>
              let lane = ls ! (e - BlobChunkSizeLog2Min)
              in if ln_dead lane then Inl DataFailure
                 else Inr (Some (meta
                   (if ln_grains lane > 0
                    then ln_entries lane @ take BlobMetaHashSize (Sum (ln_kit lane) (ln_compose lane))
                    else ln_entries lane))))"

section \<open>The manifest\<close>

definition CanonicalBytes :: "protowire \<Rightarrow> blob_meta \<Rightarrow> byte list" where
  "CanonicalBytes pw meta =
     (let canon = [];
          canon = (if ChunkSizeLog2 meta \<noteq> 0
                   then AppendVarint pw (AppendTag pw canon 1 0) (ucast (ChunkSizeLog2 meta)) else canon);
          canon = (if TotalLen meta \<noteq> 0 then AppendVarint pw (AppendTag pw canon 2 0) (TotalLen meta) else canon)
      in if length (ChunkHashes meta) > 0 then AppendBytes pw (AppendTag pw canon 3 2) (ChunkHashes meta) else canon)"

definition BlobMetaWireSize :: "protowire \<Rightarrow> int \<Rightarrow> nat \<Rightarrow> int" where
  "BlobMetaWireSize pw storedLen c =
     (let hashesLen = word_of_nat (BlobChunkCount storedLen c) * word_of_nat BlobMetaHashSize :: u64;
          sz = (if c \<noteq> 0 then 1 + int (SizeVarint pw (word_of_nat c)) else 0);
          sz = (if storedLen \<noteq> 0 then sz + 1 + int (SizeVarint pw (word_of_int storedLen)) else sz)
      in go_int (if hashesLen > 0 then sz + 1 + int (SizeVarint pw hashesLen) + sint hashesLen else sz))"

definition RootUID :: "kit_registry \<Rightarrow> protowire \<Rightarrow> blob_meta \<Rightarrow> u32 \<Rightarrow> uid outcome" where
  "RootUID newKit pw meta k =
     and_then (newKit k) (\<lambda>kit.
     let digest = Sum kit (CanonicalBytes pw meta)
     in if length digest < 16 then Inl Panic
        else Inr (UID (rd64 (take 8 digest)) (rd64 (take 8 (drop 8 digest)))))"

definition NumChunks :: "blob_meta \<Rightarrow> nat" where
  "NumChunks meta = length (ChunkHashes meta) div BlobMetaHashSize"

definition ChunkHash :: "blob_meta \<Rightarrow> u64 \<Rightarrow> byte list outcome" where
  "ChunkHash meta chunkIndex =
     (let start = unat (chunkIndex * word_of_nat BlobMetaHashSize);
          stop = unat (chunkIndex * word_of_nat BlobMetaHashSize + word_of_nat BlobMetaHashSize)
      in if start \<le> stop \<and> stop \<le> length (ChunkHashes meta)
         then Inr (take (stop - start) (drop start (ChunkHashes meta))) else Inl Panic)"

definition ChunkUID :: "blob_meta \<Rightarrow> u64 \<Rightarrow> uid outcome" where
  "ChunkUID meta chunkIndex =
     and_then (ChunkHash meta chunkIndex) (\<lambda>entry. Inr (UID (rd64 (take 8 entry)) (rd64 (take 8 (drop 8 entry)))))"

definition ChunkSpan :: "blob_meta \<Rightarrow> u64 \<Rightarrow> int \<times> int" where
  "ChunkSpan meta chunkIndex =
     (let c = unat (ChunkSizeLog2 meta);
          offset = shl64 (sint chunkIndex) c;
          len = shl64 1 c;
          remainder = go_int (sint (TotalLen meta) - offset)
      in (offset, if remainder < len then remainder else len))"

definition SetBlobMeta :: "kit_registry \<Rightarrow> protowire \<Rightarrow> blob_meta \<Rightarrow> u32 \<Rightarrow> blob_ref \<Rightarrow> blob_ref outcome" where
  "SetBlobMeta newKit pw meta k ref =
     and_then (RootUID newKit pw meta k) (\<lambda>root.
     Inr (ref\<lparr>MetaRoot := UID (uid0 root) (uid1 root), ref_ChunkSizeLog2 := ChunkSizeLog2 meta\<rparr>))"

definition VerifyBlobMeta :: "kit_registry \<Rightarrow> protowire \<Rightarrow> blob_ref \<Rightarrow> blob_meta option \<Rightarrow> unit outcome" where
  "VerifyBlobMeta newKit pw ref m =
     (if \<not> HasBlobMeta ref then Inl BadRequest
      else case m of
        None \<Rightarrow> Inl BadRequest
      | Some meta \<Rightarrow>
          if ChunkSizeLog2 meta \<noteq> ref_ChunkSizeLog2 ref then Inl AuthFailed
          else if ChunkSizeLog2 meta < word_of_nat BlobChunkSizeLog2Min \<or> ChunkSizeLog2 meta > word_of_nat BlobChunkSizeLog2Max
          then Inl AuthFailed
          else if (case BlobTag_I ref of None \<Rightarrow> False | Some len \<Rightarrow> TotalLen meta \<noteq> word_of_int len) then Inl AuthFailed
          else if TotalLen meta \<le> 2 ^ BlobGrainSizeLog2 then Inl AuthFailed
          else
            let numChunks = BlobChunkCount (sint (TotalLen meta)) (unat (ChunkSizeLog2 meta))
            in if int (length (ChunkHashes meta)) \<noteq> go_int (int numChunks * int BlobMetaHashSize) then Inl AuthFailed
               else and_then (RootUID newKit pw meta (HashKitID ref)) (\<lambda>root.
                    if root \<noteq> MetaRootUID ref then Inl AuthFailed else Inr ()))"

definition VerifyChunk :: "kit_registry \<Rightarrow> blob_meta \<Rightarrow> u64 \<Rightarrow> byte list \<Rightarrow> u32 \<Rightarrow> unit outcome option" where
  "VerifyChunk newKit meta chunkIndex chunk k =
     (if unat chunkIndex \<ge> NumChunks meta then Some (Inl AuthFailed)
      else if int (length chunk) \<noteq> snd (ChunkSpan meta chunkIndex) then Some (Inl AuthFailed)
      else case NewBlobChunkHasher newKit k of
             Inl e \<Rightarrow> Some (Inl e)
           | Inr hasher \<Rightarrow>
               map_option (\<lambda>r. and_then r (\<lambda>hasher.
                 and_then (ChunkHash meta chunkIndex) (\<lambda>entry.
                 if snd (SumChunk hasher) \<noteq> entry then Inl AuthFailed else Inr ())))
                 (hasher_Write chunk hasher))"

section \<open>What the hashes should be\<close>

abbreviation Grain :: nat where
  "Grain \<equiv> 2 ^ BlobGrainSizeLog2"

definition fine_digest :: "hash_kit \<Rightarrow> byte list \<Rightarrow> byte list" where
  "fine_digest kit grain = take BlobMetaHashSize (Sum kit grain)"

definition run_entry :: "hash_kit \<Rightarrow> byte list list \<Rightarrow> byte list" where
  "run_entry kit run = take BlobMetaHashSize (Sum kit (blobMetaComposeTag # concat run))"

definition chunk_entry :: "hash_kit \<Rightarrow> byte list \<Rightarrow> byte list" where
  "chunk_entry kit chunk = run_entry kit (map (fine_digest kit) (chunks_of Grain chunk))"

text \<open>The manifest of a blob: none for a single grain, else one entry for every chunk of the chosen
  size.\<close>

definition meta_of :: "hash_kit \<Rightarrow> byte list \<Rightarrow> blob_meta option" where
  "meta_of kit blob =
     (if length blob \<le> Grain then None
      else let e = ChooseBlobChunkSizeLog2 (int (length blob))
           in Some \<lparr>ChunkSizeLog2 = word_of_nat e, TotalLen = word_of_nat (length blob),
                ChunkHashes = concat (map (chunk_entry kit) (chunks_of (2 ^ e) blob))\<rparr>)"

lemma grain_pos: "0 < Grain"
  by simp

lemma newBlobHashKit_ok: "newBlobHashKit newKit k = Inr kit \<Longrightarrow> newKit k = Inr kit \<and> 32 \<le> HashSz kit"
  by (auto simp: newBlobHashKit_def and_then_eq_Inr BlobMetaHashSize_def split: if_splits)

lemma length_fine: "kit_ok kit \<Longrightarrow> 32 \<le> HashSz kit \<Longrightarrow> length (fine_digest kit g) = 32"
  by (simp add: fine_digest_def kit_ok_def BlobMetaHashSize_def)

lemma length_run_entry: "kit_ok kit \<Longrightarrow> 32 \<le> HashSz kit \<Longrightarrow> length (run_entry kit r) = 32"
  by (simp add: run_entry_def kit_ok_def BlobMetaHashSize_def)

section \<open>Streaming into grains\<close>

text \<open>The contract of a sink the loop writes to, over a relation between the sink and all bytes
  written so far.\<close>

locale grain_sink =
  fixes inGrain :: "'s \<Rightarrow> nat" and turn :: "'s \<Rightarrow> byte list \<Rightarrow> 's outcome" and rep :: "'s \<Rightarrow> byte list \<Rightarrow> bool"
  assumes in_grain: "rep s D \<Longrightarrow> inGrain s = length D mod Grain"
    and take_turn: "rep s D \<Longrightarrow> span \<noteq> [] \<Longrightarrow> length D mod Grain + length span \<le> Grain \<Longrightarrow>
      \<exists>s'. turn s span = Inr s' \<and> rep s' (D @ span)"
begin

lemma writes: "rep s D \<Longrightarrow> \<exists>s'. grain_loop inGrain turn stored s = Some (Inr s') \<and> rep s' (D @ stored)"
proof (induction "length stored" arbitrary: stored s D rule: less_induct)
  case less
  show ?case
  proof (cases "stored = []")
    case True
    with less.prems show ?thesis by (subst grain_loop.simps) auto
  next
    case False
    let ?n = "min (Grain - inGrain s) (length stored)"
    have room: "length D mod Grain < Grain" by simp
    then have n: "0 < ?n" using False by (simp add: in_grain [OF less.prems])
    have "length (take ?n stored) \<le> Grain - length D mod Grain" by (simp add: in_grain [OF less.prems])
    then have "length D mod Grain + length (take ?n stored) \<le> Grain" using room by linarith
    moreover have "take ?n stored \<noteq> []" using n False by simp
    ultimately obtain s' where s': "turn s (take ?n stored) = Inr s'" "rep s' (D @ take ?n stored)"
      using take_turn [OF less.prems] by blast
    have "length (drop ?n stored) < length stored" using n by simp
    from less.hyps [OF this s'(2)]
    obtain t where "grain_loop inGrain turn (drop ?n stored) s' = Some (Inr t)" "rep t (D @ stored)" by auto
    then show ?thesis using False s'(1) by (subst grain_loop.simps) (simp add: Let_def)
  qed
qed

end

subsection \<open>The chunk hasher\<close>

definition hasher_rep :: "hash_kit \<Rightarrow> chunk_hasher \<Rightarrow> byte list \<Rightarrow> bool" where
  "hasher_rep kit h D \<longleftrightarrow> bch_fineKit h = kit \<and> bch_composeKit h = kit \<and> bch_fine h = open_block Grain D \<and>
     bch_inGrain h = length D mod Grain \<and> (bch_tagged h \<longleftrightarrow> full Grain D \<noteq> []) \<and>
     (bch_tagged h \<longrightarrow> bch_compose h = blobMetaComposeTag # concat (map (fine_digest kit) (full Grain D)))"

lemma finishGrain_run:
  assumes "bch_fineKit h = kit" "bch_tagged h \<longleftrightarrow> ds \<noteq> []" "bch_tagged h \<longrightarrow> bch_compose h = blobMetaComposeTag # concat ds"
  shows "bch_compose (finishGrain h) = blobMetaComposeTag # concat (ds @ [fine_digest kit (bch_fine h)])"
  using assms by (auto simp: finishGrain_def Let_def fine_digest_def)

interpretation hasher: grain_sink bch_inGrain hasher_turn "hasher_rep kit" for kit
proof unfold_locales
  fix h and D :: "byte list"
  assume r: "hasher_rep kit h D"
  then show "bch_inGrain h = length D mod Grain" by (simp add: hasher_rep_def)
  fix span :: "byte list"
  assume span: "span \<noteq> []" "length D mod Grain + length span \<le> Grain"
  show "\<exists>h'. hasher_turn h span = Inr h' \<and> hasher_rep kit h' (D @ span)"
  proof (cases "length D mod Grain + length span = Grain")
    case False
    then have lt: "length D mod Grain + length span < Grain" using span by simp
    note o = open_grows [OF lt]
    have "(length D + length span) mod Grain = length D mod Grain + length span"
      using lt by (metis mod_add_left_eq mod_less)
    then show ?thesis using r lt o by (simp add: hasher_turn_def hasher_rep_def)
  next
    case True
    note o = open_closes [OF True grain_pos]
    let ?h = "h\<lparr>bch_fine := bch_fine h @ span, bch_inGrain := bch_inGrain h + length span\<rparr>"
    have "bch_compose (finishGrain ?h) =
        blobMetaComposeTag # concat (map (fine_digest kit) (full Grain D) @ [fine_digest kit (bch_fine ?h)])"
      by (rule finishGrain_run) (use r in \<open>auto simp: hasher_rep_def\<close>)
    moreover have "hasher_turn h span = Inr (finishGrain ?h)"
      using r True by (simp add: hasher_turn_def hasher_rep_def Let_def)
    moreover have "(length D + length span) mod Grain = 0" using True by (metis mod_add_left_eq mod_self)
    ultimately show ?thesis using r o by (simp add: hasher_rep_def finishGrain_def Let_def)
  qed
qed

lemma hasher_new:
  assumes "newBlobHashKit newKit k = Inr kit"
  shows "\<exists>h. NewBlobChunkHasher newKit k = Inr h \<and> hasher_rep kit h []"
  using assms by (simp add: NewBlobChunkHasher_def hasher_rep_def)

lemma SumChunk_entry:
  assumes "hasher_rep kit h D" "D \<noteq> []"
  shows "snd (SumChunk h) = chunk_entry kit D"
proof -
  have split: "chunks_of Grain D = full Grain D @ (if open_block Grain D = [] then [] else [open_block Grain D])"
    by (rule chunks_of_open [OF grain_pos])
  show ?thesis
  proof (cases "open_block Grain D = []")
    case True
    then have z: "bch_inGrain h = 0" using assms(1) length_open_block [of Grain D] by (simp add: hasher_rep_def)
    have "full Grain D \<noteq> []" using split True assms(2) by (auto simp: chunks_of_step)
    then show ?thesis using assms(1) z split True
      by (simp add: SumChunk_def hasher_rep_def chunk_entry_def run_entry_def Let_def)
  next
    case False
    then have p: "0 < bch_inGrain h"
      using assms(1) length_open_block [of Grain D] by (metis hasher_rep_def length_greater_0_conv)
    have "bch_compose (finishGrain h) =
        blobMetaComposeTag # concat (map (fine_digest kit) (full Grain D) @ [fine_digest kit (bch_fine h)])"
      by (rule finishGrain_run) (use assms(1) in \<open>auto simp: hasher_rep_def\<close>)
    then show ?thesis using assms(1) p split False
      by (simp add: SumChunk_def hasher_rep_def chunk_entry_def run_entry_def Let_def finishGrain_def)
  qed
qed

lemma grain_run_digests: "grain_run kit chunk = concat (map (fine_digest kit) (chunks_of Grain chunk))"
proof (induction kit chunk rule: grain_run.induct)
  case (1 kit chunk)
  then show ?case
    by (cases "chunk = []")
      (simp_all add: grain_run.simps [of kit chunk] grain_run.simps [of kit "[]"] chunks_of_step [of Grain chunk]
        fine_digest_def Let_def min_def)
qed

subsection \<open>The lanes of the builder\<close>

definition lane_ok :: "hash_kit \<Rightarrow> nat \<Rightarrow> byte list list \<Rightarrow> meta_lane \<Rightarrow> bool" where
  "lane_ok kit g ds lane \<longleftrightarrow> ln_kit lane = kit \<and>
     (\<not> ln_dead lane \<longrightarrow>
        ln_entries lane = concat (map (run_entry kit) (full g ds)) \<and> ln_grains lane = length ds mod g \<and>
        (ln_tagged lane \<longleftrightarrow> open_block g ds \<noteq> []) \<and>
        (ln_tagged lane \<longrightarrow> ln_compose lane = blobMetaComposeTag # concat (open_block g ds)))"

lemma feed_lane_ok:
  assumes "lane_ok kit (blobGrainsPerChunk e) ds lane"
  shows "lane_ok kit (blobGrainsPerChunk e) (ds @ [d]) (feed_lane d e lane)" "ln_dead (feed_lane d e lane) = ln_dead lane"
proof -
  let ?g = "blobGrainsPerChunk e"
  have g: "0 < ?g" by (simp add: blobGrainsPerChunk_def)
  show "ln_dead (feed_lane d e lane) = ln_dead lane" by (simp add: feed_lane_def Let_def)
  show "lane_ok kit ?g (ds @ [d]) (feed_lane d e lane)"
  proof (cases "ln_dead lane")
    case True
    with assms show ?thesis by (simp add: lane_ok_def feed_lane_def)
  next
    case False
    note l = assms [unfolded lane_ok_def] False
    have lt: "length ds mod ?g < ?g" using g by simp
    show ?thesis
    proof (cases "length ds mod ?g + 1 = ?g")
      case True
      have c: "length ds mod ?g + length [d] = ?g" using True by simp
      note o = open_closes [OF c g]
      have "(length ds + 1) mod ?g = 0" using True by (metis mod_add_left_eq mod_self)
      then show ?thesis using l True o
        by (auto simp: lane_ok_def feed_lane_def Let_def run_entry_def)
    next
      case False
      have c: "length ds mod ?g + length [d] < ?g" using False lt by simp
      note o = open_grows [OF c]
      have "(length ds + 1) mod ?g = length ds mod ?g + 1" using c by (metis length_Cons list.size(3) mod_add_left_eq mod_less One_nat_def)
      then show ?thesis using l False o
        by (auto simp: lane_ok_def feed_lane_def Let_def)
    qed
  qed
qed

definition lane_at :: "nat \<Rightarrow> nat" where
  "lane_at i = blobGrainsPerChunk (BlobChunkSizeLog2Min + i)"

definition lanes_ok :: "hash_kit \<Rightarrow> nat \<Rightarrow> byte list list \<Rightarrow> meta_lane list \<Rightarrow> bool" where
  "lanes_ok kit tot ds ls \<longleftrightarrow> length ls = 11 \<and>
     (\<forall>i < 11. lane_ok kit (lane_at i) ds (ls ! i) \<and>
        (ln_dead (ls ! i) \<longleftrightarrow> i < 10 \<and> blobLaneDead tot (BlobChunkSizeLog2Min + i)))"

lemma feedLanes_nth: "i < length ls \<Longrightarrow> feedLanes d ls ! i = feed_lane d (BlobChunkSizeLog2Min + i) (ls ! i)"
  by (simp add: feedLanes_def nth_enumerate_eq)

lemma pruneLanes_nth:
  "i < length ls \<Longrightarrow> pruneLanes tot ls ! i =
     (if i < length ls - 1 then prune_lane tot (BlobChunkSizeLog2Min + i) (ls ! i) else ls ! i)"
  by (simp add: pruneLanes_def nth_enumerate_eq)

lemma length_lanes [simp]: "length (feedLanes d ls) = length ls" "length (pruneLanes tot ls) = length ls"
  by (simp_all add: feedLanes_def pruneLanes_def)

lemma prune_lane_ok: "lane_ok kit g ds lane \<Longrightarrow> lane_ok kit g ds (prune_lane tot e lane)"
  by (simp add: lane_ok_def prune_lane_def)

lemma blobLaneDead_mono: "blobLaneDead tot e \<Longrightarrow> tot \<le> tot' \<Longrightarrow> blobLaneDead tot' e"
  by (simp add: blobLaneDead_def)

lemma prune_ok:
  assumes "length ls = 11" "\<forall>i < 11. lane_ok kit (lane_at i) ds (ls ! i)" "tot \<le> tot'"
    "\<forall>i < 11. ln_dead (ls ! i) \<longrightarrow> i < 10 \<and> blobLaneDead tot (BlobChunkSizeLog2Min + i)"
  shows "lanes_ok kit tot' ds (pruneLanes tot' ls)"
  using assms blobLaneDead_mono [OF _ assms(3)]
  by (auto simp: lanes_ok_def pruneLanes_nth prune_lane_ok) (auto simp: prune_lane_def split: if_splits)

lemma feed_prune_ok:
  assumes "lanes_ok kit tot ds ls" "tot \<le> tot'"
  shows "lanes_ok kit tot' (ds @ [d]) (pruneLanes tot' (feedLanes d ls))"
proof (rule prune_ok [OF _ _ assms(2)])
  show "length (feedLanes d ls) = 11" using assms(1) by (simp add: lanes_ok_def)
  show "\<forall>i < 11. lane_ok kit (lane_at i) (ds @ [d]) (feedLanes d ls ! i)"
    using assms(1) by (auto simp: lanes_ok_def feedLanes_nth lane_at_def intro!: feed_lane_ok(1))
  show "\<forall>i < 11. ln_dead (feedLanes d ls ! i) \<longrightarrow> i < 10 \<and> blobLaneDead tot (BlobChunkSizeLog2Min + i)"
    using assms(1) by (auto simp: lanes_ok_def feedLanes_nth lane_at_def feed_lane_ok(2))
qed

lemma replay_ok:
  assumes "length ls = 11" "\<forall>i < 11. lane_ok kit (lane_at i) es (ls ! i) \<and> \<not> ln_dead (ls ! i)"
  shows "length (foldl (\<lambda>ls d. feedLanes d ls) ls ds) = 11 \<and>
    (\<forall>i < 11. lane_ok kit (lane_at i) (es @ ds) (foldl (\<lambda>ls d. feedLanes d ls) ls ds ! i) \<and>
      \<not> ln_dead (foldl (\<lambda>ls d. feedLanes d ls) ls ds ! i))"
  using assms
proof (induction ds arbitrary: ls es)
  case (Cons d ds)
  have "\<forall>i < 11. lane_ok kit (lane_at i) (es @ [d]) (feedLanes d ls ! i) \<and> \<not> ln_dead (feedLanes d ls ! i)"
    using Cons.prems by (auto simp: feedLanes_nth lane_at_def feed_lane_ok)
  then show ?case using Cons.IH [of "feedLanes d ls" "es @ [d]"] Cons.prems(1) by simp
qed simp

subsection \<open>The builder\<close>

definition absorbed :: "hash_kit \<Rightarrow> nat \<Rightarrow> byte list list \<Rightarrow> meta_builder \<Rightarrow> bool" where
  "absorbed kit tot ds b \<longleftrightarrow>
     (case lanes b of None \<Rightarrow> runBuf b = concat ds | Some ls \<Rightarrow> lanes_ok kit tot ds ls)"

definition builder_kit :: "kit_registry \<Rightarrow> hash_kit \<Rightarrow> meta_builder \<Rightarrow> bool" where
  "builder_kit newKit kit b \<longleftrightarrow> newBlobHashKit newKit (kitID b) = Inr kit \<and> kit_ok kit \<and> bld_kit b = kit"

lemma spill_ok:
  assumes "builder_kit newKit kit b" "\<forall>d \<in> set ds. length d = 32" "runBuf b = concat ds"
  shows "\<exists>ls. spill newKit b = Inr (b\<lparr>runBuf := [], lanes := Some ls\<rparr>) \<and> lanes_ok kit (total b) ds ls"
proof -
  let ?fresh = "replicate 11 \<lparr>ln_kit = kit, ln_compose = [], ln_entries = [], ln_grains = 0, ln_tagged = False, ln_dead = False\<rparr>"
  have cut: "chunks_of BlobMetaHashSize (runBuf b) = ds"
    using chunks_of_cut [OF assms(2)] assms(3) by (simp add: BlobMetaHashSize_def)
  have "\<forall>i < 11. lane_ok kit (lane_at i) [] (?fresh ! i) \<and> \<not> ln_dead (?fresh ! i)"
    by (simp add: lane_ok_def)
  note r = replay_ok [OF length_replicate this, of ds, simplified]
  have "lanes_ok kit (total b) ds (pruneLanes (total b) (foldl (\<lambda>ls d. feedLanes d ls) ?fresh ds))"
    by (rule prune_ok [of _ _ _ 0]) (use r in auto)
  moreover have "BlobChunkSizeLog2Max - BlobChunkSizeLog2Min + 1 = 11" by (simp add: blob_consts)
  moreover from this have "spill newKit b = Inr (b\<lparr>runBuf := [],
      lanes := Some (pruneLanes (total b) (foldl (\<lambda>ls d. feedLanes d ls) ?fresh ds))\<rparr>)"
    using assms(1) cut by (simp add: spill_def builder_kit_def Let_def)
  ultimately show ?thesis by blast
qed

lemma absorb_ok:
  assumes k: "builder_kit newKit kit b" and d: "\<forall>d \<in> set ds. length d = 32" and a: "absorbed kit tot ds b" and t: "tot \<le> total b"
  shows "\<exists>b'. absorbGrain newKit b = Inr b' \<and> absorbed kit (total b) (ds @ [fine_digest kit (bld_fine b)]) b' \<and>
    builder_kit newKit kit b' \<and> bld_fine b' = [] \<and> bld_inGrain b' = 0 \<and> total b' = total b"
proof -
  let ?d = "fine_digest kit (bld_fine b)"
  have kit: "bld_kit b = kit" "kit_ok kit" "32 \<le> HashSz kit" using k newBlobHashKit_ok by (auto simp: builder_kit_def)
  have ds: "\<forall>d \<in> set (ds @ [?d]). length d = 32" using d kit by (simp add: length_fine)
  show ?thesis
  proof (cases "lanes b")
    case (Some ls)
    then have "lanes_ok kit tot ds ls" using a by (simp add: absorbed_def)
    from feed_prune_ok [OF this t] show ?thesis
      using Some k kit by (simp add: absorbGrain_def absorbed_def builder_kit_def fine_digest_def Let_def)
  next
    case None
    then have buf: "runBuf b = concat ds" using a by (simp add: absorbed_def)
    let ?b = "b\<lparr>bld_fine := [], bld_inGrain := 0, runBuf := runBuf b @ ?d\<rparr>"
    have ab: "absorbGrain newKit b = (if total b > blobMetaSpillLen then spill newKit ?b else Inr ?b)"
      using None kit by (simp add: absorbGrain_def Let_def fine_digest_def)
    have "builder_kit newKit kit ?b" using k by (simp add: builder_kit_def)
    from spill_ok [OF this ds] buf obtain ls where
      ls: "spill newKit ?b = Inr (?b\<lparr>runBuf := [], lanes := Some ls\<rparr>)" "lanes_ok kit (total b) (ds @ [?d]) ls" by auto
    show ?thesis
      using ab ls None buf k by (auto simp: absorbed_def builder_kit_def)
  qed
qed

definition builder_rep :: "kit_registry \<Rightarrow> hash_kit \<Rightarrow> meta_builder \<Rightarrow> byte list \<Rightarrow> bool" where
  "builder_rep newKit kit b D \<longleftrightarrow> builder_kit newKit kit b \<and> bld_fine b = open_block Grain D \<and>
     bld_inGrain b = length D mod Grain \<and> total b = length D \<and>
     absorbed kit (length D div Grain * Grain) (map (fine_digest kit) (full Grain D)) b"

lemma fine_lengths:
  assumes "builder_kit newKit kit b" "d \<in> set (map (fine_digest kit) gs)"
  shows "length d = 32"
  using assms newBlobHashKit_ok by (auto simp: builder_kit_def length_fine)

interpretation builder: grain_sink bld_inGrain "builder_turn newKit" "builder_rep newKit kit" for newKit kit
proof unfold_locales
  fix b and D :: "byte list"
  assume r: "builder_rep newKit kit b D"
  then show "bld_inGrain b = length D mod Grain" by (simp add: builder_rep_def)
  fix span :: "byte list"
  assume span: "span \<noteq> []" "length D mod Grain + length span \<le> Grain"
  let ?b = "b\<lparr>bld_fine := bld_fine b @ span, bld_inGrain := bld_inGrain b + length span, total := total b + length span\<rparr>"
  let ?ds = "map (fine_digest kit) (full Grain D)"
  have k: "builder_kit newKit kit ?b" and a: "absorbed kit (length D div Grain * Grain) ?ds ?b"
    using r by (simp_all add: builder_rep_def builder_kit_def absorbed_def split: option.splits)
  show "\<exists>b'. builder_turn newKit b span = Inr b' \<and> builder_rep newKit kit b' (D @ span)"
  proof (cases "length D mod Grain + length span = Grain")
    case False
    then have lt: "length D mod Grain + length span < Grain" using span by simp
    note o = open_grows [OF lt]
    have "(length D + length span) mod Grain = length D mod Grain + length span"
      using lt by (metis mod_add_left_eq mod_less)
    moreover have "(length D + length span) div Grain = length D div Grain"
      using o(1) length_full [OF grain_pos, of "D @ span"] length_full [OF grain_pos, of D] by simp
    ultimately show ?thesis using r k a lt o by (simp add: builder_turn_def builder_rep_def)
  next
    case True
    note o = open_closes [OF True grain_pos]
    have m: "(length D + length span) mod Grain = 0" using True by (metis mod_add_left_eq mod_self)
    then have q: "(length D + length span) div Grain * Grain = length D + length span"
      by (metis add.right_neutral mult_div_mod_eq mult.commute)
    have tot: "total ?b = length (D @ span)" using r by (simp add: builder_rep_def)
    have "length D div Grain * Grain \<le> total ?b" using tot by (simp add: le_trans [OF div_times_less_eq_dividend])
    from absorb_ok [OF k _ a this] fine_lengths [OF k] obtain b' where
      b': "absorbGrain newKit ?b = Inr b'" "absorbed kit (total ?b) (?ds @ [fine_digest kit (bld_fine ?b)]) b'"
        "builder_kit newKit kit b'" "bld_fine b' = []" "bld_inGrain b' = 0" "total b' = total ?b" by blast
    have "builder_turn newKit b span = Inr b'"
      using b'(1) r True by (simp add: builder_turn_def builder_rep_def Let_def)
    moreover have "builder_rep newKit kit b' (D @ span)"
      using b'(2-6) tot m q o r by (simp add: builder_rep_def)
    ultimately show ?thesis by blast
  qed
qed

subsection \<open>The chosen chunk size\<close>

lemma shl64_small: "0 \<le> x \<Longrightarrow> x < 2 ^ 20 \<Longrightarrow> e \<le> 40 \<Longrightarrow> shl64 x e = x * 2 ^ e"
proof -
  assume x: "0 \<le> x" "x < 2 ^ 20" "e \<le> 40"
  have "(2::int) ^ e \<le> 2 ^ 40" using x(3) by (rule power_increasing) simp
  then have "x * 2 ^ e \<le> 2 ^ 20 * 2 ^ 40" by (intro mult_mono) (use x in simp_all)
  moreover have "0 \<le> x * 2 ^ e" using x by simp
  ultimately show ?thesis unfolding shl64_def by (intro go_int_id) simp_all
qed

lemma int_ceil: "int n + 2 ^ e - 1 = int (n + 2 ^ e - 1)"
proof -
  have "1 \<le> n + 2 ^ e" by (rule trans_le_add2) simp
  then show ?thesis by (subst of_nat_diff) simp_all
qed

lemma word64_pos: "0 < m \<Longrightarrow> m \<le> 2 ^ 40 \<Longrightarrow> sint (word_of_nat m :: u64) = int m \<and> 0 < (word_of_nat m :: u64)"
  by (simp add: signed_of_nat signed_take_bit_int_eq_self word_less_nat_alt unat_of_nat)

lemma ceil_chunks:
  assumes "n \<le> 2 ^ 50" "e \<le> 30"
  shows "go_int (int n + shl64 1 e - 1) div 2 ^ e = int ((n + 2 ^ e - 1) div 2 ^ e)"
proof -
  have "(2::int) ^ e \<le> 2 ^ 30" using assms(2) by (rule power_increasing) simp
  moreover have one: "(1::int) \<le> 2 ^ e" by simp
  moreover have "int n \<le> 2 ^ 50" using assms(1) by (metis assms(1) of_nat_le_iff of_nat_numeral of_nat_power)
  moreover have "go_int (x + p - 1) = x + p - 1" if "x \<le> 2 ^ 50" "0 \<le> x" "1 \<le> p" "p \<le> 2 ^ 30" for x p
    by (rule go_int_id) (use that in simp_all)
  ultimately have "go_int (int n + 2 ^ e - 1) = int n + 2 ^ e - 1" by (meson of_nat_0_le_iff)
  then have "go_int (int n + shl64 1 e - 1) = int n + 2 ^ e - 1" using assms(2) by (simp add: shl64_small)
  also have "\<dots> = int (n + 2 ^ e - 1)" by (rule int_ceil)
  finally show ?thesis by (simp add: zdiv_int)
qed

lemma ceil_gt: "(K::nat) < (n + 2 ^ e - 1) div 2 ^ e \<longleftrightarrow> K * 2 ^ e < n"
proof -
  have "K < (n + 2 ^ e - 1) div 2 ^ e \<longleftrightarrow> Suc K * 2 ^ e \<le> n + 2 ^ e - 1"
    unfolding less_eq_Suc_le by (rule less_eq_div_iff_mult_less_eq) simp
  also have "\<dots> \<longleftrightarrow> K * 2 ^ e < n"
  proof -
    have "0 < (2::nat) ^ e" by simp
    then show ?thesis unfolding mult_Suc by linarith
  qed
  finally show ?thesis .
qed

lemma dead_iff: "e \<le> 30 \<Longrightarrow> blobLaneDead n e \<longleftrightarrow> 32768 * 2 ^ e < n"
proof -
  assume e: "e \<le> 30"
  have "int 32768 * 2 ^ e < int n \<longleftrightarrow> 32768 * 2 ^ e < n"
    by (metis of_nat_less_iff of_nat_mult of_nat_numeral of_nat_power)
  then show ?thesis using e by (simp add: blobLaneDead_def BlobMetaTargetChunks_def shl64_small)
qed

lemma choose_loop_spec:
  assumes "n \<le> 2 ^ 50" "e \<le> 30"
  shows "e \<le> choose_loop (int n) e \<and> choose_loop (int n) e \<le> 30 \<and>
    (choose_loop (int n) e = 30 \<or> \<not> blobLaneDead n (choose_loop (int n) e)) \<and>
    (\<forall>e'. e \<le> e' \<and> e' < choose_loop (int n) e \<longrightarrow> blobLaneDead n e')"
  using assms(2)
proof (induction "30 - e" arbitrary: e)
  case 0
  then have "e = 30" by simp
  then show ?case by (auto simp: choose_loop.simps [of "int n" 30] BlobChunkSizeLog2Max_def)
next
  case (Suc k)
  then have e: "e < 30" by simp
  have c: "go_int (int n + shl64 1 e - 1) div 2 ^ e > BlobMetaTargetChunks \<longleftrightarrow> blobLaneDead n e"
    using ceil_chunks [OF assms(1), of e] ceil_gt [of 32768 n e] e
    by (simp add: BlobMetaTargetChunks_def dead_iff)
  show ?case
  proof (cases "blobLaneDead n e")
    case False
    then have "choose_loop (int n) e = e" using c by (simp add: choose_loop.simps [of "int n" e])
    then show ?thesis using False e by auto
  next
    case True
    then have "choose_loop (int n) e = choose_loop (int n) (e + 1)"
      using c e by (simp add: choose_loop.simps [of "int n" e] BlobChunkSizeLog2Max_def)
    moreover have "e' = e \<or> e + 1 \<le> e'" if "e \<le> e'" for e' using that by linarith
    ultimately show ?thesis using Suc.hyps(1) [of "e + 1"] Suc.hyps(2) e True by fastforce
  qed
qed

lemma choose_spec:
  assumes "n \<le> BlobLenMax"
  defines "e \<equiv> ChooseBlobChunkSizeLog2 (int n)"
  shows "20 \<le> e" "e \<le> 30" "e = 30 \<or> n \<le> 32768 * 2 ^ e" "\<And>e'. 20 \<le> e' \<Longrightarrow> e' < e \<Longrightarrow> 32768 * 2 ^ e' < n"
proof -
  note c = choose_loop_spec [of n 20]
  have n: "n \<le> 2 ^ 50" using assms(1) by (simp add: BlobLenMax_def)
  have e: "e = choose_loop (int n) 20" by (simp add: e_def ChooseBlobChunkSizeLog2_def BlobChunkSizeLog2Min_def)
  show 1: "20 \<le> e" "e \<le> 30" using c n e by auto
  show "e = 30 \<or> n \<le> 32768 * 2 ^ e" using c n e dead_iff [OF 1(2), of n] by auto
  show "32768 * 2 ^ e' < n" if "20 \<le> e'" "e' < e" for e' using c n e that 1 dead_iff [of e' n] by auto
qed

subsection \<open>Finishing\<close>

lemma entries_of_chunks:
  assumes "20 \<le> e"
  shows "map (run_entry kit) (chunks_of (blobGrainsPerChunk e) (map (fine_digest kit) (chunks_of Grain blob))) =
    map (chunk_entry kit) (chunks_of (2 ^ e) blob)"
proof -
  let ?g = "blobGrainsPerChunk e"
  have "?g * Grain = 2 ^ (e - 12 + 12)" unfolding blobGrainsPerChunk_def BlobGrainSizeLog2_def power_add by simp
  then have "?g * Grain = 2 ^ e" using assms by simp
  moreover have "0 < ?g" by (simp add: blobGrainsPerChunk_def)
  ultimately have "chunks_of ?g (chunks_of Grain blob) = map (chunks_of Grain) (chunks_of (2 ^ e) blob)"
    using chunks_of_chunks_of [of ?g Grain blob] by simp
  then show ?thesis by (simp add: chunks_of_map chunk_entry_def)
qed

lemma lane_total:
  assumes "lane_ok kit g ds lane" "\<not> ln_dead lane" "0 < g"
  shows "(if ln_grains lane > 0 then ln_entries lane @ take BlobMetaHashSize (Sum (ln_kit lane) (ln_compose lane))
     else ln_entries lane) = concat (map (run_entry kit) (chunks_of g ds))"
proof -
  have "open_block g ds \<noteq> [] \<longleftrightarrow> 0 < length ds mod g"
    using length_open_block [of g ds] by (metis length_greater_0_conv)
  then show ?thesis
    using assms chunks_of_open [OF assms(3), of ds] by (auto simp: lane_ok_def run_entry_def)
qed

lemma Finish_ok:
  assumes r: "builder_rep newKit kit b D" and len: "length D \<le> BlobLenMax"
  shows "Finish newKit b = Inr (meta_of kit D)"
proof -
  let ?ds = "map (fine_digest kit) (chunks_of Grain D)" and ?e = "ChooseBlobChunkSizeLog2 (int (length D))"
  note k = r [unfolded builder_rep_def, THEN conjunct1]
  have split: "chunks_of Grain D = full Grain D @ (if open_block Grain D = [] then [] else [open_block Grain D])"
    by (rule chunks_of_open [OF grain_pos])
  have empty: "open_block Grain D = [] \<longleftrightarrow> length D mod Grain = 0"
    using length_open_block [of Grain D] by (metis length_0_conv)
  have "\<exists>b'. (if bld_inGrain b > 0 then absorbGrain newKit b else Inr b) = Inr b' \<and> absorbed kit (length D) ?ds b' \<and>
      builder_kit newKit kit b' \<and> total b' = length D"
  proof (cases "length D mod Grain = 0")
    case True
    then have "length D div Grain * Grain = length D" by (metis add.right_neutral mult_div_mod_eq mult.commute)
    then show ?thesis using r True split empty by (simp add: builder_rep_def)
  next
    case False
    have le: "length D div Grain * Grain \<le> total b" using r by (simp add: builder_rep_def div_times_less_eq_dividend)
    have a: "absorbed kit (length D div Grain * Grain) (map (fine_digest kit) (full Grain D)) b"
      using r by (simp add: builder_rep_def)
    from absorb_ok [OF k _ a le] fine_lengths [OF k] show ?thesis
      using r False split empty by (auto simp: builder_rep_def)
  qed
  then obtain b' where b': "(if bld_inGrain b > 0 then absorbGrain newKit b else Inr b) = Inr b'"
      "absorbed kit (length D) ?ds b'" "builder_kit newKit kit b'" "total b' = length D" by blast
  show ?thesis
  proof (cases "length D \<le> Grain")
    case True
    then show ?thesis using b' by (simp add: Finish_def meta_of_def)
  next
    case False
    note e = choose_spec [OF len]
    let ?g = "blobGrainsPerChunk ?e"
    have g: "0 < ?g" by (simp add: blobGrainsPerChunk_def)
    note entries = entries_of_chunks [OF e(1), of kit D]
    show ?thesis
    proof (cases "lanes b'")
      case None
      have w: "\<forall>d \<in> set ?ds. length d = 32" using fine_lengths [OF k] by blast
      have "runBuf b' = concat ?ds" using b'(2) None by (simp add: absorbed_def)
      then have runs: "chunks_of (?g * BlobMetaHashSize) (runBuf b') = map concat (chunks_of ?g ?ds)"
        using chunks_of_concat [OF w _ g] by (simp add: BlobMetaHashSize_def)
      have "map (\<lambda>run. take BlobMetaHashSize (Sum kit ([blobMetaComposeTag] @ run))) (map concat (chunks_of ?g ?ds)) =
          map (chunk_entry kit) (chunks_of (2 ^ ?e) D)"
        unfolding entries [symmetric] by (simp add: run_entry_def)
      then show ?thesis
        using b' None False runs by (simp add: Finish_def meta_of_def builder_kit_def Let_def)
    next
      case (Some ls)
      let ?lane = "ls ! (?e - BlobChunkSizeLog2Min)"
      have i: "?e - BlobChunkSizeLog2Min < 11" "BlobChunkSizeLog2Min + (?e - BlobChunkSizeLog2Min) = ?e"
        using e by (simp_all add: BlobChunkSizeLog2Min_def)
      have L: "lanes_ok kit (length D) ?ds ls" using b'(2) Some by (simp add: absorbed_def)
      then have ok: "lane_ok kit ?g ?ds ?lane" using i by (auto simp: lanes_ok_def lane_at_def)
      have "?e = 30 \<or> \<not> blobLaneDead (length D) ?e" using e(2,3) dead_iff [OF e(2), of "length D"] by auto
      then have alive: "\<not> ln_dead ?lane" using L i by (auto simp: lanes_ok_def BlobChunkSizeLog2Min_def)
      note t = lane_total [OF ok alive g, unfolded entries]
      show ?thesis
        using b' Some False alive t by (simp add: Finish_def meta_of_def Let_def)
    qed
  qed
qed

section \<open>Properties\<close>

text \<open>A stream of writes.\<close>

fun write_all :: "kit_registry \<Rightarrow> byte list list \<Rightarrow> meta_builder \<Rightarrow> meta_builder outcome option" where
  "write_all newKit [] b = Some (Inr b)"
| "write_all newKit (seg # segs) b =
     (case builder_Write newKit seg b of Some (Inr b') \<Rightarrow> write_all newKit segs b' | r \<Rightarrow> r)"

lemma write_all_rep:
  assumes "builder_rep newKit kit b D" "length D + length (concat segs) \<le> BlobLenMax"
  shows "\<exists>b'. write_all newKit segs b = Some (Inr b') \<and> builder_rep newKit kit b' (D @ concat segs)"
  using assms
proof (induction segs arbitrary: b D)
  case (Cons seg segs)
  then have "total b + length seg \<le> BlobLenMax" by (simp add: builder_rep_def)
  moreover obtain b' where "grain_loop bld_inGrain (builder_turn newKit) seg b = Some (Inr b')"
      "builder_rep newKit kit b' (D @ seg)"
    using builder.writes [OF Cons.prems(1), of seg] by blast
  ultimately show ?case using Cons.IH [of b' "D @ seg"] Cons.prems(2) by (simp add: builder_Write_def)
qed simp

lemma builder_new:
  assumes "NewBlobMetaBuilder newKit k = Inr b" "newKit k = Inr kit" "kit_ok kit"
  shows "builder_rep newKit kit b []" "32 \<le> HashSz kit" "newBlobHashKit newKit k = Inr kit"
proof -
  show "newBlobHashKit newKit k = Inr kit" "32 \<le> HashSz kit"
    using assms by (auto simp: NewBlobMetaBuilder_def newBlobHashKit_def BlobMetaHashSize_def and_then_eq_Inr split: if_splits)
  then show "builder_rep newKit kit b []"
    using assms by (auto simp: NewBlobMetaBuilder_def builder_rep_def builder_kit_def absorbed_def)
qed

text \<open>C12. However the stored bytes are cut into writes, and however far the builder spills, the manifest it
  mints is the one of the whole blob: none for a single grain, else the entries of its chunks at the
  chosen size.\<close>

theorem blob_meta_streams:
  assumes "NewBlobMetaBuilder newKit k = Inr b" "newKit k = Inr kit" "kit_ok kit" "length (concat segs) \<le> BlobLenMax"
  shows "\<exists>b'. write_all newKit segs b = Some (Inr b') \<and> Finish newKit b' = Inr (meta_of kit (concat segs))"
proof -
  obtain b' where "write_all newKit segs b = Some (Inr b')" "builder_rep newKit kit b' (concat segs)"
    using write_all_rep [OF builder_new(1) [OF assms(1-3)], of segs] assms(4) by auto
  then show ?thesis using Finish_ok assms(4) by blast
qed

definition toy_kit :: hash_kit where
  "toy_kit = \<lparr>HashSz = 32, Sum = (\<lambda>dat. [1, 1, 1, 1, 1, 1, 1, 1, 1, 1, 1, 1, 1, 1, 1, 1] @ replicate 15 0 @ [foldr (+) dat 0])\<rparr>"

definition toy_kits :: kit_registry where
  "toy_kits k = Inr toy_kit"

lemma toy_kit_ok: "kit_ok toy_kit" "toy_kits k = Inr toy_kit" "newBlobHashKit toy_kits k = Inr toy_kit" "32 \<le> HashSz toy_kit"
  by (simp_all add: kit_ok_def toy_kit_def toy_kits_def newBlobHashKit_def BlobMetaHashSize_def)

lemma toy_new: "\<exists>b. NewBlobMetaBuilder toy_kits k = Inr b"
  by (simp add: NewBlobMetaBuilder_def toy_kit_ok)

theorem blob_meta_streams_witness:
  "\<exists>b b' meta. NewBlobMetaBuilder toy_kits 0 = Inr b \<and>
     write_all toy_kits [replicate 5000 1, [], replicate 4000 2] b = Some (Inr b') \<and>
     Finish toy_kits b' = Inr (Some meta) \<and> TotalLen meta = 9000"
proof -
  obtain b where b: "NewBlobMetaBuilder toy_kits 0 = Inr b" using toy_new by blast
  have "length (concat [replicate 5000 (1::byte), [], replicate 4000 2]) \<le> BlobLenMax" by (simp add: BlobLenMax_def)
  from blob_meta_streams [OF b toy_kit_ok(2,1) this] b show ?thesis
    by (auto simp: meta_of_def BlobGrainSizeLog2_def Let_def)
qed

subsection \<open>The receiver\<close>

lemma meta_of_facts:
  assumes "meta_of kit blob = Some meta" "length blob \<le> BlobLenMax"
  defines "e \<equiv> ChooseBlobChunkSizeLog2 (int (length blob))"
  shows "meta = \<lparr>ChunkSizeLog2 = word_of_nat e, TotalLen = word_of_nat (length blob),
      ChunkHashes = concat (map (chunk_entry kit) (chunks_of (2 ^ e) blob))\<rparr>"
    "20 \<le> e" "e \<le> 30" "4096 < length blob" "unat (ChunkSizeLog2 meta) = e" "unat (TotalLen meta) = length blob"
    "sint (TotalLen meta) = int (length blob)" "length blob \<le> 2 ^ 50"
proof -
  show m: "meta = \<lparr>ChunkSizeLog2 = word_of_nat e, TotalLen = word_of_nat (length blob),
      ChunkHashes = concat (map (chunk_entry kit) (chunks_of (2 ^ e) blob))\<rparr>" and "4096 < length blob"
    using assms(1) by (auto simp: meta_of_def e_def Let_def BlobGrainSizeLog2_def split: if_splits)
  show e: "20 \<le> e" "e \<le> 30" using choose_spec [OF assms(2)] by (simp_all add: e_def)
  show len: "length blob \<le> 2 ^ 50" using assms(2) by (simp add: BlobLenMax_def)
  show "unat (ChunkSizeLog2 meta) = e" using e by (simp add: m unat_of_nat)
  show "unat (TotalLen meta) = length blob" using len by (simp add: m unat_of_nat)
  show "sint (TotalLen meta) = int (length blob)"
    using len by (simp add: m signed_of_nat signed_take_bit_int_eq_self)
qed

lemma chunk_slots:
  assumes "meta_of kit blob = Some meta" "length blob \<le> BlobLenMax" "kit_ok kit" "32 \<le> HashSz kit"
  defines "e \<equiv> ChooseBlobChunkSizeLog2 (int (length blob))"
  assumes "i < length (chunks_of (2 ^ e) blob)"
  shows "NumChunks meta = length (chunks_of (2 ^ e) blob)" "unat (word_of_nat i :: u64) = i"
    "ChunkHash meta (word_of_nat i) = Inr (chunk_entry kit (chunks_of (2 ^ e) blob ! i))"
    "snd (ChunkSpan meta (word_of_nat i)) = int (length (chunks_of (2 ^ e) blob ! i))"
    "fst (ChunkSpan meta (word_of_nat i)) = int (i * 2 ^ e)"
proof -
  let ?cs = "chunks_of (2 ^ e) blob" and ?w = "word_of_nat i :: u64"
  note f = meta_of_facts [OF assms(1,2), folded e_def]
  have p: "0 < (2::nat) ^ e" by simp
  have widths: "\<forall>d \<in> set (map (chunk_entry kit) ?cs). length d = 32"
    using length_run_entry [OF assms(3,4)] by (simp add: chunk_entry_def)
  have hashes: "length (ChunkHashes meta) = length ?cs * 32"
    using length_concat_uniform [OF widths] by (subst f(1)) simp
  then show n: "NumChunks meta = length ?cs" by (simp add: NumChunks_def BlobMetaHashSize_def)
  have lt: "i * 2 ^ e < length blob"
  proof -
    have "i < (length blob + 2 ^ e - 1) div 2 ^ e" using assms(6) length_chunks_of [OF p, of blob] by simp
    then show ?thesis using ceil_gt by blast
  qed
  moreover have "i \<le> i * 2 ^ e" by simp
  ultimately have i: "i < 2 ^ 50" using f(8) by linarith
  then show u: "unat ?w = i" by (simp add: unat_of_nat)
  have start: "unat (?w * word_of_nat BlobMetaHashSize) = i * 32" "unat (?w * word_of_nat BlobMetaHashSize + word_of_nat BlobMetaHashSize) = i * 32 + 32"
  proof -
    have w: "?w * word_of_nat BlobMetaHashSize = word_of_nat (i * 32)"
      "word_of_nat (i * 32) + word_of_nat BlobMetaHashSize = (word_of_nat (i * 32 + 32) :: u64)"
      by (simp_all add: BlobMetaHashSize_def)
    have small: "unat (word_of_nat m :: u64) = m" if "m < 2 ^ 60" for m using that by (simp add: unat_of_nat)
    show "unat (?w * word_of_nat BlobMetaHashSize) = i * 32"
      "unat (?w * word_of_nat BlobMetaHashSize + word_of_nat BlobMetaHashSize) = i * 32 + 32"
      unfolding w by (rule small, use i in simp)+
  qed
  have "take 32 (drop (i * 32) (ChunkHashes meta)) = chunk_entry kit (?cs ! i)"
    using concat_slot [OF widths, of i] assms(6) by (subst f(1)) simp
  moreover have "i * 32 + 32 \<le> length (ChunkHashes meta)" using assms(6) hashes by simp
  ultimately show "ChunkHash meta ?w = Inr (chunk_entry kit (?cs ! i))" by (simp add: ChunkHash_def start)
  have s: "sint ?w = int i" using i by (simp add: signed_of_nat signed_take_bit_int_eq_self)
  have "int i * 2 ^ e < int (length blob)" using lt by (metis of_nat_less_iff of_nat_mult of_nat_numeral of_nat_power)
  moreover have "int (length blob) \<le> 2 ^ 50" using f(8) by (metis of_nat_le_iff of_nat_numeral of_nat_power)
  moreover have "0 \<le> int i * 2 ^ e" by simp
  moreover have "go_int x = x \<and> go_int (y - x) = y - x" if "x < y" "y \<le> 2 ^ 50" "0 \<le> x" for x y
    using that by (simp add: go_int_id)
  ultimately have o: "shl64 (sint ?w) e = int i * 2 ^ e" "go_int (int (length blob) - int i * 2 ^ e) = int (length blob) - int i * 2 ^ e"
    unfolding shl64_def s by blast+
  have one: "shl64 1 e = 2 ^ e" using f(3) by (simp add: shl64_small)
  show "fst (ChunkSpan meta ?w) = int (i * 2 ^ e)"
    using o f(5) by (simp add: ChunkSpan_def Let_def)
  have "length (?cs ! i) = min (2 ^ e) (length blob - i * 2 ^ e)"
    using chunks_of_nth [OF p assms(6)] by (simp add: min.commute)
  moreover have "int (length blob - i * 2 ^ e) = int (length blob) - int i * 2 ^ e" using lt by (simp add: of_nat_diff)
  moreover have "int (min (2 ^ e) m) = min (2 ^ e) (int m)" for m by (simp add: of_nat_min)
  ultimately have c: "int (length (?cs ! i)) = min (2 ^ e) (int (length blob) - int i * 2 ^ e)" by (simp only:)
  have "snd (ChunkSpan meta ?w) =
      (if int (length blob) - int i * 2 ^ e < 2 ^ e then int (length blob) - int i * 2 ^ e else 2 ^ e)"
    using o one f(5,7) by (simp add: ChunkSpan_def Let_def)
  then show "snd (ChunkSpan meta ?w) = int (length (?cs ! i))" unfolding c by (simp add: min_def)
qed

text \<open>What is hashed for the entry of a chunk: the composed run, then each grain.  Two chunks clash under a kit
  when, at one and the same place, what is hashed for the one differs from what is hashed for the other and has
  its digest: a collision that the two chunks exhibit.\<close>

definition hashed_inputs :: "hash_kit \<Rightarrow> byte list \<Rightarrow> byte list list" where
  "hashed_inputs kit chunk =
     (let grains = chunks_of Grain chunk in (blobMetaComposeTag # concat (map (fine_digest kit) grains)) # grains)"

definition chunks_clash :: "hash_kit \<Rightarrow> byte list \<Rightarrow> byte list \<Rightarrow> bool" where
  "chunks_clash kit c c' \<longleftrightarrow>
     list_ex (\<lambda>(x, y). x \<noteq> y \<and> fine_digest kit x = fine_digest kit y) (zip (hashed_inputs kit c) (hashed_inputs kit c'))"

lemma entry_binds:
  assumes "chunk_entry kit c = chunk_entry kit c'" "c \<noteq> c'" "kit_ok kit" "32 \<le> HashSz kit"
  shows "chunks_clash kit c c'"
proof -
  let ?run = "\<lambda>c. map (fine_digest kit) (chunks_of Grain c)"
  have w: "\<forall>d \<in> set (?run x). length d = 32" for x using length_fine [OF assms(3,4)] by simp
  show ?thesis
  proof (cases "concat (?run c) = concat (?run c')")
    case False
    then show ?thesis
      using assms(1) by (simp add: chunks_clash_def hashed_inputs_def chunk_entry_def run_entry_def fine_digest_def Let_def)
  next
    case True
    have r: "chunks_of 32 (concat (?run x)) = ?run x" for x by (rule chunks_of_cut [OF w]) simp
    have "?run c = chunks_of 32 (concat (?run c))" by (rule r [symmetric])
    also have "\<dots> = ?run c'" unfolding True by (rule r)
    finally have runs: "?run c = ?run c'" .
    have "chunks_of Grain c \<noteq> chunks_of Grain c'"
      using assms(2) concat_chunks_of [OF grain_pos, of c] concat_chunks_of [OF grain_pos, of c'] by auto
    moreover have len: "length (chunks_of Grain c) = length (chunks_of Grain c')" using runs map_eq_imp_length_eq by blast
    ultimately obtain k where k: "k < length (chunks_of Grain c)" "chunks_of Grain c ! k \<noteq> chunks_of Grain c' ! k"
      using nth_equalityI by blast
    moreover have "?run c ! k = ?run c' ! k" using runs by simp
    ultimately have "fine_digest kit (chunks_of Grain c ! k) = fine_digest kit (chunks_of Grain c' ! k)"
      using len by simp
    moreover have "(chunks_of Grain c ! k, chunks_of Grain c' ! k) \<in> set (zip (hashed_inputs kit c) (hashed_inputs kit c'))"
      using k(1) len by (auto simp: hashed_inputs_def Let_def set_zip)
    ultimately show ?thesis
      unfolding chunks_clash_def list_ex_iff using k(2) by (intro bexI) simp_all
  qed
qed

text \<open>The outcome of a check of bytes of the right length: the hasher's loop ends, and the entry is
  compared.\<close>

lemma VerifyChunk_run:
  assumes "newBlobHashKit newKit k = Inr kit" "unat i < NumChunks meta" "int (length chunk) = snd (ChunkSpan meta i)"
    "chunk \<noteq> []" "ChunkHash meta i = Inr entry"
  shows "VerifyChunk newKit meta i chunk k = Some (if chunk_entry kit chunk = entry then Inr () else Inl AuthFailed)"
proof -
  obtain h where h: "NewBlobChunkHasher newKit k = Inr h" "hasher_rep kit h []" using hasher_new [OF assms(1)] by blast
  obtain h' where h': "hasher_Write chunk h = Some (Inr h')" "hasher_rep kit h' chunk"
    using hasher.writes [OF h(2), of chunk] by (auto simp: hasher_Write_def)
  show ?thesis
    using assms h(1) h'(1) SumChunk_entry [OF h'(2) assms(4)] by (simp add: VerifyChunk_def)
qed

text \<open>C13. The receiver's gate.  Under the manifest a builder mints, the check of bytes offered as a chunk of the
  blob ends; it accepts them exactly when they have that chunk's length and its hash entry, and refuses all others as
  not authentic.  So it accepts the chunk itself, and any other bytes only if they and the chunk
  exhibit a collision of the hash, in the run or in a grain.\<close>

theorem VerifyChunk_exact:
  assumes "newKit k = Inr kit" "kit_ok kit" "32 \<le> HashSz kit" "meta_of kit blob = Some meta" "length blob \<le> BlobLenMax"
    "e = unat (ChunkSizeLog2 meta)" "i < length (chunks_of (2 ^ e) blob)"
  shows "VerifyChunk newKit meta (word_of_nat i) chunk k
      = Some (if length chunk = length (chunks_of (2 ^ e) blob ! i)
                 \<and> chunk_entry kit chunk = chunk_entry kit (chunks_of (2 ^ e) blob ! i)
              then Inr () else Inl AuthFailed)
    \<and> (VerifyChunk newKit meta (word_of_nat i) chunk k = Some (Inr ()) \<longrightarrow>
         chunk = chunks_of (2 ^ e) blob ! i \<or> chunks_clash kit chunk (chunks_of (2 ^ e) blob ! i))"
proof -
  let ?c = "chunks_of (2 ^ e) blob ! i"
  have nk: "newBlobHashKit newKit k = Inr kit" using assms(1,3) by (simp add: newBlobHashKit_def BlobMetaHashSize_def)
  have e: "e = ChooseBlobChunkSizeLog2 (int (length blob))" using meta_of_facts(5) [OF assms(4,5)] assms(6) by simp
  note slot = chunk_slots [OF assms(4,5,2,3), folded e, OF assms(7)]
  have ne: "?c \<noteq> []" using chunks_of_lengths [of "2 ^ e" ?c blob] assms(7) by simp
  have lt: "unat (word_of_nat i :: u64) < NumChunks meta" using slot(1,2) assms(7) by simp
  have run: "VerifyChunk newKit meta (word_of_nat i) chunk k
      = Some (if length chunk = length ?c \<and> chunk_entry kit chunk = chunk_entry kit ?c then Inr () else Inl AuthFailed)"
  proof (cases "int (length chunk) = snd (ChunkSpan meta (word_of_nat i))")
    case False
    then show ?thesis using lt slot(4) by (simp add: VerifyChunk_def)
  next
    case True
    then have l: "length chunk = length ?c" using slot(4) by simp
    then have "chunk \<noteq> []" using ne by auto
    from VerifyChunk_run [OF nk lt True this slot(3)] l show ?thesis by simp
  qed
  moreover have "chunk = ?c \<or> chunks_clash kit chunk ?c" if "VerifyChunk newKit meta (word_of_nat i) chunk k = Some (Inr ())"
    using that entry_binds [OF _ _ assms(2,3), of chunk ?c] unfolding run by (auto split: if_splits)
  ultimately show ?thesis by blast
qed

lemma choose_small: "n \<le> 2 ^ 35 \<Longrightarrow> ChooseBlobChunkSizeLog2 (int n) = 20"
proof -
  assume n: "n \<le> 2 ^ 35"
  then have "n \<le> BlobLenMax" by (simp add: BlobLenMax_def)
  note c = choose_spec [OF this]
  have "\<not> 20 < ChooseBlobChunkSizeLog2 (int n)" using c(4) [of 20] n by auto
  then show ?thesis using c(1) by simp
qed

definition toy_meta :: blob_meta where
  "toy_meta = the (meta_of toy_kit (replicate 9000 1))"

lemma toy_meta: "meta_of toy_kit (replicate 9000 1) = Some toy_meta" "unat (ChunkSizeLog2 toy_meta) = 20"
  "length (replicate 9000 (1::byte)) \<le> BlobLenMax" "chunks_of (2 ^ 20) (replicate 9000 (1::byte)) = [replicate 9000 1]"
proof -
  show m: "meta_of toy_kit (replicate 9000 1) = Some toy_meta"
    by (simp add: toy_meta_def meta_of_def BlobGrainSizeLog2_def Let_def)
  show len: "length (replicate 9000 (1::byte)) \<le> BlobLenMax" by (simp add: BlobLenMax_def)
  show "unat (ChunkSizeLog2 toy_meta) = 20" using meta_of_facts(5) [OF m len] choose_small [of 9000] by simp
  show "chunks_of (2 ^ 20) (replicate 9000 (1::byte)) = [replicate 9000 1]" by (rule chunks_of_short) simp_all
qed

theorem VerifyChunk_exact_witness:
  "VerifyChunk toy_kits toy_meta 0 (replicate 9000 1) 0 = Some (Inr ())
   \<and> VerifyChunk toy_kits toy_meta 0 (replicate 9001 1) 0 = Some (Inl AuthFailed)"
proof -
  note V = VerifyChunk_exact [of toy_kits 0 toy_kit "replicate 9000 1" toy_meta 20 0, OF toy_kit_ok(2,1,4) toy_meta(1,3)]
  show ?thesis using V [of "replicate 9000 1"] V [of "replicate 9001 1"] toy_meta(2,4) by simp
qed

subsection \<open>The commitment\<close>

lemma manifest_sizes:
  assumes "meta_of kit blob = Some meta" "length blob \<le> BlobLenMax" "kit_ok kit" "32 \<le> HashSz kit"
  defines "c \<equiv> BlobChunkCount (int (length blob)) (unat (ChunkSizeLog2 meta))"
  shows "length (ChunkHashes meta) = c * 32" "0 < c" "c \<le> 2 ^ 20"
proof -
  let ?n = "length blob" and ?e = "ChooseBlobChunkSizeLog2 (int (length blob))"
  note f = meta_of_facts [OF assms(1,2)] and ch = choose_spec [OF assms(2)]
  have p: "0 < (2::nat) ^ ?e" by simp
  have pos: "0 < ?n" using f(4) by linarith
  have le: "?n + 2 ^ ?e - 1 < 2 ^ 64"
  proof -
    have "(2::nat) ^ ?e \<le> 2 ^ 30" by (rule power_increasing [OF f(3)]) simp
    then show ?thesis using f(8) by simp
  qed
  have "u64_of (int ?n + shl64 1 ?e - 1) = ?n + 2 ^ ?e - 1"
  proof -
    have "int ?n + shl64 1 ?e - 1 = int (?n + 2 ^ ?e - 1)"
      using f(3) int_ceil [of ?n ?e] by (simp add: shl64_small)
    then show ?thesis using le unfolding u64_of_def by (metis mod_less nat_int of_nat_mod of_nat_numeral of_nat_power)
  qed
  then have c: "c = (?n + 2 ^ ?e - 1) div 2 ^ ?e"
    using pos unfolding c_def f(5) by (simp add: BlobChunkCount_def)
  then have cl: "c = length (chunks_of (2 ^ ?e) blob)" using length_chunks_of [OF p, of blob] by simp
  have widths: "\<forall>d \<in> set (map (chunk_entry kit) (chunks_of (2 ^ ?e) blob)). length d = 32"
    using length_run_entry [OF assms(3,4)] by (simp add: chunk_entry_def)
  show "length (ChunkHashes meta) = c * 32"
    using length_concat_uniform [OF widths] by (subst f(1)) (simp add: cl)
  show "0 < c" using c ceil_gt [of 0 ?n ?e] pos by simp
  have "\<not> 2 ^ 20 < c"
  proof
    assume "2 ^ 20 < c"
    then have "2 ^ 20 * 2 ^ ?e < ?n" using c ceil_gt [of "2 ^ 20" ?n ?e] by simp
    then show False using ch(3) f(8) by auto
  qed
  then show "c \<le> 2 ^ 20" by simp
qed

lemma WireSize_exact:
  assumes "meta_of kit blob = Some meta" "length blob \<le> BlobLenMax" "kit_ok kit" "32 \<le> HashSz kit" "protowire_ok pw"
  shows "int (length (CanonicalBytes pw meta)) = BlobMetaWireSize pw (int (length blob)) (unat (ChunkSizeLog2 meta))"
proof -
  let ?n = "length blob" and ?e = "ChooseBlobChunkSizeLog2 (int (length blob))"
  note f = meta_of_facts [OF assms(1,2)] and z = manifest_sizes [OF assms(1-4)]
  define c where "c = BlobChunkCount (int ?n) (unat (ChunkSizeLog2 meta))"
  note z = z [folded c_def]
  let ?h = "word_of_nat (c * 32) :: u64"
  have vs: "length (AppendVarint pw b v) = length b + SizeVarint pw v" "SizeVarint pw v \<le> 10"
    "0 < m \<Longrightarrow> m < 16 \<Longrightarrow> length (AppendTag pw b m t) = length b + 1"
    "AppendBytes pw b x = AppendVarint pw b (word_of_nat (length x)) @ x" for b v m t x
    using assms(5) unfolding protowire_ok_def by blast+
  have nz: "ChunkSizeLog2 meta \<noteq> 0" "TotalLen meta \<noteq> 0" "0 < length (ChunkHashes meta)"
    using f(2,4,5,6) z by auto
  have w: "ucast (ChunkSizeLog2 meta) = (word_of_nat ?e :: u64)" "TotalLen meta = word_of_nat ?n"
    using of_nat_unat [of "ChunkSizeLog2 meta", where 'a = "64 word"] of_nat_unat [of "TotalLen meta", where 'a = u64]
    by (simp_all add: f(5,6))
  have canon: "length (CanonicalBytes pw meta) =
      1 + SizeVarint pw (word_of_nat ?e) + (1 + SizeVarint pw (word_of_nat ?n)) + (1 + SizeVarint pw ?h + c * 32)"
    using nz by (simp add: CanonicalBytes_def vs w z(1))
  have h: "sint ?h = int c * 32" "0 < ?h"
    using word64_pos [of "c * 32"] z(2,3) by simp_all
  have hashes: "word_of_nat c * word_of_nat BlobMetaHashSize = ?h" by (simp add: BlobMetaHashSize_def)
  have n: "int ?n \<noteq> 0" "blob \<noteq> []" using f(4) by auto
  have "BlobMetaWireSize pw (int ?n) (unat (ChunkSizeLog2 meta)) =
      go_int (1 + int (SizeVarint pw (word_of_nat ?e)) + 1 + int (SizeVarint pw (word_of_nat ?n)) + 1 + int (SizeVarint pw ?h) + int c * 32)"
    unfolding BlobMetaWireSize_def c_def [symmetric] hashes using f(2,5) n h
    by (simp only: Let_def if_True of_nat_eq_0_iff) simp
  also have "\<dots> = 1 + int (SizeVarint pw (word_of_nat ?e)) + 1 + int (SizeVarint pw (word_of_nat ?n)) + 1 + int (SizeVarint pw ?h) + int c * 32"
    using vs(2) [of "word_of_nat ?e"] vs(2) [of "word_of_nat ?n"] vs(2) [of ?h] z(3) by (intro go_int_id) simp_all
  finally show ?thesis unfolding canon by simp
qed

text \<open>C30. The commitment: a ref stamped with a minted manifest accepts it, its announced wire size is its
  exact length, and every manifest the ref accepts has the same root and chunk size, and, when the ref
  states the stored length, the same length and number of entries.\<close>

theorem manifest_committed:
  assumes "newKit k = Inr kit" "kit_ok kit" "32 \<le> HashSz kit" "protowire_ok pw"
    "meta_of kit blob = Some meta" "length blob \<le> BlobLenMax"
    "SetBlobMeta newKit pw meta k ref = Inr ref'" "HasBlobMeta ref'" "HashKitID ref = k"
    "BlobTag_I ref = None \<or> BlobTag_I ref = Some (int (length blob))"
  shows "VerifyBlobMeta newKit pw ref' (Some meta) = Inr () \<and>
    int (length (CanonicalBytes pw meta)) = BlobMetaWireSize pw (int (length blob)) (unat (ChunkSizeLog2 meta)) \<and>
    (\<forall>m. VerifyBlobMeta newKit pw ref' (Some m) = Inr () \<longrightarrow>
      RootUID newKit pw m k = RootUID newKit pw meta k \<and> ChunkSizeLog2 m = ChunkSizeLog2 meta \<and>
      (BlobTag_I ref \<noteq> None \<longrightarrow> TotalLen m = TotalLen meta \<and> length (ChunkHashes m) = length (ChunkHashes meta)))"
proof -
  note f = meta_of_facts [OF assms(5,6)] and z = manifest_sizes [OF assms(5,6,2,3)]
  let ?c = "BlobChunkCount (int (length blob)) (unat (ChunkSizeLog2 meta))"
  obtain root where root: "RootUID newKit pw meta k = Inr root"
    "ref' = ref\<lparr>MetaRoot := UID (uid0 root) (uid1 root), ref_ChunkSizeLog2 := ChunkSizeLog2 meta\<rparr>"
    using assms(7) by (auto simp: SetBlobMeta_def and_then_eq_Inr)
  have r: "MetaRootUID ref' = root" by (simp add: root(2) MetaRootUID_def)
  have fields: "ref_ChunkSizeLog2 ref' = ChunkSizeLog2 meta" "HashKitID ref' = k" "BlobTag_I ref' = BlobTag_I ref"
    using root(2) assms(9) by simp_all
  have bounds: "\<not> ChunkSizeLog2 meta < word_of_nat BlobChunkSizeLog2Min" "\<not> ChunkSizeLog2 meta > word_of_nat BlobChunkSizeLog2Max"
    using f(2,3,5) by (simp_all add: word_less_nat_alt blob_consts)
  have long: "\<not> TotalLen meta \<le> 2 ^ BlobGrainSizeLog2"
    using f(4,6) by (simp add: word_le_nat_alt BlobGrainSizeLog2_def)
  have tl: "TotalLen meta = word_of_int (int (length blob))" by (subst f(1)) simp
  have "int (length (ChunkHashes meta)) = int ?c * 32" using z(1) by simp
  moreover have "go_int (int ?c * 32) = int ?c * 32" using z(3) by (intro go_int_id) simp_all
  ultimately have entries: "int (length (ChunkHashes meta)) = go_int (int (BlobChunkCount (sint (TotalLen meta)) (unat (ChunkSizeLog2 meta))) * int BlobMetaHashSize)"
    by (simp add: f(7) BlobMetaHashSize_def)
  have "VerifyBlobMeta newKit pw ref' (Some meta) = Inr ()"
    using assms(8,10) fields bounds long entries root(1) r tl
    by (auto simp: VerifyBlobMeta_def Let_def)
  moreover have "RootUID newKit pw m k = RootUID newKit pw meta k \<and> ChunkSizeLog2 m = ChunkSizeLog2 meta \<and>
      (BlobTag_I ref \<noteq> None \<longrightarrow> TotalLen m = TotalLen meta \<and> length (ChunkHashes m) = length (ChunkHashes meta))"
    if v: "VerifyBlobMeta newKit pw ref' (Some m) = Inr ()" for m
  proof -
    have m: "ChunkSizeLog2 m = ChunkSizeLog2 meta" "RootUID newKit pw m k = Inr root"
      "int (length (ChunkHashes m)) = go_int (int (BlobChunkCount (sint (TotalLen m)) (unat (ChunkSizeLog2 m))) * int BlobMetaHashSize)"
      "\<And>len. BlobTag_I ref = Some len \<Longrightarrow> TotalLen m = word_of_int len"
      using v fields r by (auto simp: VerifyBlobMeta_def Let_def and_then_eq_Inr split: if_splits)
    have "TotalLen m = TotalLen meta" if "BlobTag_I ref \<noteq> None" using m(4) that assms(10) tl by auto
    then show ?thesis using m(1-3) root(1) entries by auto
  qed
  ultimately show ?thesis using WireSize_exact [OF assms(5,6,2,3,4)] by blast
qed

definition toy_wire :: protowire where
  "toy_wire = \<lparr>AppendTag = (\<lambda>b n t. b @ [word_of_nat (8 * n + t)]), AppendVarint = (\<lambda>b v. b @ [ucast v]),
     AppendBytes = (\<lambda>b x. b @ [word_of_nat (length x)] @ x), SizeVarint = (\<lambda>v. 1)\<rparr>"

lemma toy_wire_ok: "protowire_ok toy_wire"
proof -
  have "(ucast (word_of_nat n :: u64) :: byte) = word_of_nat n" for n
    by (rule bit_word_eqI) (simp add: bit_simps)
  then show ?thesis by (simp add: protowire_ok_def toy_wire_def)
qed

lemma toy_root: "RootUID toy_kits toy_wire meta k = Inr (UID 0x0101010101010101 0x0101010101010101)"
  by (simp add: RootUID_def toy_kits_def toy_kit_def rd64_def be_val_def)

theorem manifest_committed_witness:
  "\<exists>ref. VerifyBlobMeta toy_kits toy_wire ref (Some toy_meta) = Inr () \<and> BlobTag_I ref = Some 9000"
proof -
  let ?ref = "\<lparr>HashKitID = 0, MetaRoot = UID 0 0, ref_ChunkSizeLog2 = 0, BlobTag_I = Some 9000\<rparr>"
  obtain ref' where s: "SetBlobMeta toy_kits toy_wire toy_meta 0 ?ref = Inr ref'" and r: "HasBlobMeta ref'" "BlobTag_I ref' = Some 9000"
    by (simp add: SetBlobMeta_def toy_root HasBlobMeta_def)
  have "VerifyBlobMeta toy_kits toy_wire ref' (Some toy_meta) = Inr ()"
    using manifest_committed [OF toy_kit_ok(2,1,4) toy_wire_ok toy_meta(1,3) s r(1)] by simp
  with r(2) show ?thesis by blast
qed

section \<open>Spans\<close>

lemma shl64_exact: "0 \<le> x \<Longrightarrow> x * 2 ^ c < 2 ^ 63 \<Longrightarrow> shl64 x c = x * 2 ^ c"
  unfolding shl64_def by (rule go_int_pos) simp_all

text \<open>The two views of a stored-byte position agree, and the rest of its chunk is what its offset leaves.\<close>

lemma chunk_addressing:
  assumes "0 \<le> p" "p < 2 ^ 63" "0 < c" "c < 63"
  shows "BlobChunkIndex p c = nat p div 2 ^ c" "BlobWireAddress p c = (nat p div 2 ^ c, nat p mod 2 ^ c)"
    "BlobChunkRemaining p c = 2 ^ c - p mod 2 ^ c" "BlobChunkAligned p c \<longleftrightarrow> p mod 2 ^ c = 0"
proof -
  have u: "u64_of p = nat p" using assms(1,2) by (simp add: u64_of_def)
  have lt: "(2::int) ^ c < 2 ^ 63" by (rule power_strict_increasing [OF assms(4)]) simp
  have pow: "(1::int) \<le> 2 ^ c" by simp
  have m: "u64_of (2 ^ c - 1) = 2 ^ c - 1"
  proof -
    have "(2 ^ c - 1 :: int) mod 2 ^ 64 = 2 ^ c - 1" using lt pow by (intro mod_pos_pos_trivial) auto
    then show ?thesis unfolding u64_of_def by (metis of_nat_1 of_nat_diff of_nat_numeral of_nat_power one_le_numeral one_le_power nat_int)
  qed
  have a: "n AND 2 ^ c - 1 = n mod 2 ^ c" for n :: nat
    by (metis take_bit_eq_mask take_bit_eq_mod mask_eq_exp_minus_1)
  have ai: "x AND 2 ^ c - 1 = x mod 2 ^ c" for x :: int
    by (metis take_bit_eq_mask take_bit_eq_mod mask_eq_exp_minus_1)
  have one: "shl64 1 c = 2 ^ c" using lt by (simp add: shl64_exact)
  have g: "go_int (2 ^ c - 1) = 2 ^ c - 1" using lt pow by (intro go_int_pos) linarith+
  show "BlobChunkIndex p c = nat p div 2 ^ c" by (simp add: BlobChunkIndex_def u)
  show "BlobWireAddress p c = (nat p div 2 ^ c, nat p mod 2 ^ c)"
    using assms(3) m a by (simp add: BlobWireAddress_def u)
  have r: "0 \<le> p mod 2 ^ c" "p mod 2 ^ c < 2 ^ c" by simp_all
  have "go_int (2 ^ c - p mod 2 ^ c) = 2 ^ c - p mod 2 ^ c" using lt r by (intro go_int_pos) linarith+
  then show "BlobChunkRemaining p c = 2 ^ c - p mod 2 ^ c"
    by (simp add: BlobChunkRemaining_def Let_def one g ai)
  show "BlobChunkAligned p c \<longleftrightarrow> p mod 2 ^ c = 0" by (simp add: BlobChunkAligned_def one g ai)
qed

text \<open>C39. A pull that is granted lies inside a non-empty blob, provided the requested count does not overflow
  the shift; an unbounded count yields a negative length, and an empty blob grants spans outside it.\<close>

theorem BlobPullSpan_inside:
  assumes "BlobPullSpan blobLen c chunkBegin chunkCount = Some (startOffset, spanLen)"
    "0 < blobLen" "blobLen \<le> 2 ^ 50" "int chunkCount * 2 ^ c < 2 ^ 63"
  shows "startOffset = int chunkBegin * 2 ^ c \<and> 0 < spanLen \<and> startOffset + spanLen \<le> blobLen \<and>
    (startOffset + spanLen = blobLen \<or> spanLen = int chunkCount * 2 ^ c)"
proof -
  have c: "c < 63" "c = 0 \<longrightarrow> chunkBegin = 0" "0 < c \<longrightarrow> chunkBegin \<le> BlobLenMax div 2 ^ c"
    using assms(1) by (auto simp: BlobPullSpan_def split: if_splits)
  have le: "chunkBegin * 2 ^ c \<le> 2 ^ 50"
  proof (cases "c = 0")
    case False
    then show ?thesis using c(3) by (simp add: BlobLenMax_def less_eq_div_iff_mult_less_eq)
  qed (use c(2) in simp)
  have small: "go_int (int m) = int m" if "m \<le> 2 ^ 50" for m using that by (intro go_int_id) simp_all
  have o: "BlobChunkOffset chunkBegin c = int chunkBegin * 2 ^ c"
  proof -
    have "chunkBegin \<le> chunkBegin * 2 ^ c" by simp
    then have "chunkBegin \<le> 2 ^ 50" using le by linarith
    moreover have "int chunkBegin * 2 ^ c < 2 ^ 63"
    proof -
      have "int (chunkBegin * 2 ^ c) \<le> int (2 ^ 50)" using le by (simp only: of_nat_le_iff)
      then show ?thesis by simp
    qed
    ultimately show ?thesis by (simp add: BlobChunkOffset_def small shl64_exact)
  qed
  have n: "shl64 (go_int (int chunkCount)) c = int chunkCount * 2 ^ c"
  proof -
    have "int chunkCount * 1 \<le> int chunkCount * 2 ^ c" by (intro mult_left_mono) simp_all
    then have "go_int (int chunkCount) = int chunkCount" using assms(4) by (intro go_int_id) simp_all
    then show ?thesis using assms(4) by (simp add: shl64_exact)
  qed
  have pos: "0 \<le> int chunkBegin * 2 ^ c" by simp
  have st: "startOffset = int chunkBegin * 2 ^ c" "startOffset < blobLen"
    and sp: "spanLen = (if 0 < chunkCount \<and> int chunkCount * 2 ^ c < go_int (blobLen - startOffset)
      then int chunkCount * 2 ^ c else go_int (blobLen - startOffset))"
    using assms(1,2) o n by (auto simp: BlobPullSpan_def Let_def split: if_splits)
  have "go_int (b - x) = b - x" if "0 \<le> x" "x < b" "b \<le> 2 ^ 50" for b x using that by (intro go_int_pos) simp_all
  then have "go_int (blobLen - startOffset) = blobLen - startOffset" using st pos assms(3) by blast
  then show ?thesis using st sp by auto
qed

theorem BlobPullSpan_inside_witness: "BlobPullSpan 5000000 20 2 1 = Some (2097152, 1048576) \<and> (2097152 + 1048576 :: int) \<le> 5000000"
proof -
  have "BlobPullSpan 5000000 20 2 1 = Some (2097152, 1048576)"
    by (simp add: BlobPullSpan_def BlobLenMax_def BlobChunkOffset_def shl64_def go_int_id Let_def)
  with BlobPullSpan_inside [OF this] show ?thesis by simp
qed

lemma BlobPullSpan_overflows:
  "BlobPullSpan (2 ^ 22) 20 0 (2 ^ 43) = Some (0, - (2 ^ 63))" "BlobPullSpan 0 20 5 0 = Some (5242880, - 5242880)"
proof -
  have "go_int (2 ^ 43 * 2 ^ 20) = - (2 ^ 63)" by (simp add: go_int_def signed_of_int signed_take_bit_eq_take_bit_shift take_bit_eq_mod)
  then show "BlobPullSpan (2 ^ 22) 20 0 (2 ^ 43) = Some (0, - (2 ^ 63))"
    by (simp add: BlobPullSpan_def BlobChunkOffset_def shl64_def go_int_id Let_def)
  show "BlobPullSpan 0 20 5 0 = Some (5242880, - 5242880)"
    by (simp add: BlobPullSpan_def BlobLenMax_def BlobChunkOffset_def shl64_def go_int_id Let_def)
qed

text \<open>The tag does not separate the two levels: stored bytes that start with it are hashed, as a grain,
  to the entry of a digest run.\<close>

lemma grain_poses_as_run:
  assumes "kit_ok kit" "32 \<le> HashSz kit" "chunk \<noteq> []" "length chunk \<le> 127 * Grain"
  defines "grain \<equiv> blobMetaComposeTag # grain_run kit chunk"
  shows "length grain \<le> Grain" "fine_digest kit grain = chunk_entry kit chunk"
proof -
  show "fine_digest kit grain = chunk_entry kit chunk"
    by (simp add: grain_def fine_digest_def chunk_entry_def run_entry_def grain_run_digests)
  have w: "\<forall>d \<in> set (map (fine_digest kit) (chunks_of Grain chunk)). length d = 32" using length_fine [OF assms(1,2)] by simp
  have "length (chunks_of Grain chunk) = (length chunk + Grain - 1) div Grain" by (rule length_chunks_of [OF grain_pos])
  also have "\<dots> \<le> (127 * Grain + Grain - 1) div Grain" using assms(4) by (intro div_le_mono) simp
  also have "\<dots> = 127" by (simp add: BlobGrainSizeLog2_def)
  finally show "length grain \<le> Grain"
    using length_concat_uniform [OF w] by (simp add: grain_def grain_run_digests BlobGrainSizeLog2_def)
qed

text \<open>The narrow-link receiver: the run a full holder derives is accepted for its chunk.\<close>

lemma VerifyGrainRun_accepts:
  assumes "newBlobHashKit newKit k = Inr kit" "kit_ok kit" "chunk \<noteq> []"
  shows "\<exists>run. BlobGrainRun newKit k chunk = Inr run \<and> VerifyGrainRun newKit k (chunk_entry kit chunk) run = Inr ()"
proof -
  have w: "\<forall>d \<in> set (map (fine_digest kit) (chunks_of Grain chunk)). length d = 32"
    using length_fine newBlobHashKit_ok assms(1,2) by auto
  have "length (grain_run kit chunk) = length (chunks_of Grain chunk) * 32"
    using length_concat_uniform [OF w] by (simp add: grain_run_digests)
  moreover have "0 < length (chunks_of Grain chunk)" using assms(3) by (simp add: chunks_of_step)
  then have "grain_run kit chunk \<noteq> []" using calculation by fastforce
  ultimately show ?thesis
    using assms(1) by (simp add: BlobGrainRun_def VerifyGrainRun_def BlobMetaHashSize_def chunk_entry_def run_entry_def
        flip: grain_run_digests)
qed

end
