(* ===== verification/Selector.thy ===== *)
theory Selector
  imports Address TagName UidTime "HOL-Library.Multiset" "HOL-Library.Product_Lexorder"
begin

text \<open>
  What \<open>amp/amp.support.attrs.go\<close> adds to the message types: the acceptance windows of epoch terms
  and vault settings, and the item selectors of a request with their normalization and the test that
  admits an address.  A selector's spans are shared objects: the selector holds a store of spans and
  the positions its slice points to.
\<close>

section \<open>Acceptance windows\<close>

definition DefaultMaxGracePeriod :: int where "DefaultMaxGracePeriod = 90 * 24 * 60 * 60"
definition DefaultQuarantineRetention :: int where "DefaultQuarantineRetention = 7 * 24 * 60 * 60"
definition DefaultMaxFutureSkew :: int where "DefaultMaxFutureSkew = 5 * 60"
definition DefaultRateLimitWindow :: int where "DefaultRateLimitWindow = 24 * 60 * 60"
definition DefaultBootstrapTTL :: int where "DefaultBootstrapTTL = 7 * 24 * 60 * 60"
definition DefaultBlobRateLimitWindow :: int where "DefaultBlobRateLimitWindow = 24 * 60 * 60"

text \<open>The grace period of terms is their field, or none for nil terms.\<close>

definition GracePeriod :: "int option \<Rightarrow> int" where
  "GracePeriod maxGrace = (case maxGrace of None \<Rightarrow> DefaultMaxGracePeriod
     | Some g \<Rightarrow> if g \<le> 0 then DefaultMaxGracePeriod else g)"

definition TxWithinGracePeriod :: "int option \<Rightarrow> uid \<Rightarrow> uid \<Rightarrow> bool" where
  "TxWithinGracePeriod terms txTimeID newEpochTimeID =
     (let txUnix = UID_Unix txTimeID; epochUnix = UID_Unix newEpochTimeID
      in if txUnix \<ge> epochUnix then True else go_int (epochUnix - txUnix) \<le> GracePeriod terms)"

definition WithinRevocationCliff :: "int option \<Rightarrow> uid \<Rightarrow> uid \<Rightarrow> bool" where
  "WithinRevocationCliff terms txTimeID cutTimeID =
     (let txUnix = UID_Unix txTimeID; cutUnix = UID_Unix cutTimeID
      in if txUnix \<le> cutUnix then True else go_int (txUnix - cutUnix) \<le> GracePeriod terms)"

text \<open>A vault setting in seconds as a \<open>Duration\<close> in nanoseconds; the product is an \<open>int64\<close>.\<close>

definition seconds :: "int \<Rightarrow> int" where
  "seconds secs = go_int (secs * 1000000000)"

definition setting :: "int option \<Rightarrow> int \<Rightarrow> int" where
  "setting config dflt =
     (let secs = (case config of None \<Rightarrow> 0 | Some s \<Rightarrow> s)
      in seconds (if secs \<le> 0 then dflt else secs))"

definition QuarantineRetention :: "int option \<Rightarrow> int" where
  "QuarantineRetention config = setting config DefaultQuarantineRetention"

definition MaxFutureSkew :: "int option \<Rightarrow> int" where
  "MaxFutureSkew config = setting config DefaultMaxFutureSkew"

definition RateLimitWindow :: "int option \<Rightarrow> int" where
  "RateLimitWindow config = setting config DefaultRateLimitWindow"

definition BootstrapTTL :: "int option \<Rightarrow> int" where
  "BootstrapTTL config = setting config DefaultBootstrapTTL"

text \<open>The blob window falls back to the window of messages.\<close>

definition BlobRateLimitWindow :: "(int \<times> int) option \<Rightarrow> int" where
  "BlobRateLimitWindow config =
     (let secs = (case config of None \<Rightarrow> 0
                  | Some (blobSecs, secs) \<Rightarrow> if blobSecs \<le> 0 then secs else blobSecs)
      in seconds (if secs \<le> 0 then DefaultBlobRateLimitWindow else secs))"

definition IsExpired :: "int option \<Rightarrow> int \<Rightarrow> bool" where
  "IsExpired expiresAt now = (case expiresAt of None \<Rightarrow> True | Some t \<Rightarrow> if t \<le> 0 then False else now > t)"

definition NonZeroInt64 :: "int \<Rightarrow> int \<Rightarrow> int" where
  "NonZeroInt64 val fallback = (if val > 0 then val else fallback)"

definition NonZeroUint32 :: "u32 \<Rightarrow> u32 \<Rightarrow> u32" where
  "NonZeroUint32 val fallback = (if val > 0 then val else fallback)"

text \<open>Go's division truncates towards zero.\<close>

definition WithinFutureSkew :: "int \<Rightarrow> uid \<Rightarrow> int \<Rightarrow> bool" where
  "WithinFutureSkew nowUnix txID maxSkew =
     (let maxSecs = (if maxSkew < 0 then - (- maxSkew div 1000000000) else maxSkew div 1000000000);
          maxSecs = (if maxSecs \<le> 0 then DefaultMaxFutureSkew else maxSecs)
      in go_int (UID_Unix txID - nowUnix) \<le> maxSecs)"

definition EffectiveCryptoKit :: "uid \<Rightarrow> uid option \<Rightarrow> uid" where
  "EffectiveCryptoKit poly25519 kit =
     (case kit of None \<Rightarrow> poly25519 | Some k \<Rightarrow> if \<not> IsNil k then k else poly25519)"

definition MemberAdmission_Unset :: u32 where "MemberAdmission_Unset = 0"
definition DefaultMemberAdmission :: u32 where "DefaultMemberAdmission = 1"

definition EffectiveAdmission :: "u32 option \<Rightarrow> u32" where
  "EffectiveAdmission terms =
     (case terms of None \<Rightarrow> DefaultMemberAdmission
      | Some a \<Rightarrow> if a = MemberAdmission_Unset then DefaultMemberAdmission else a)"

section \<open>Identities of a blob\<close>

definition PlaintextUID :: "uid option \<Rightarrow> uid \<Rightarrow> uid" where
  "PlaintextUID assetTag contentHash = (case assetTag of Some t \<Rightarrow> t | None \<Rightarrow> contentHash)"

definition StorageUID :: "uid option \<Rightarrow> uid option \<Rightarrow> uid \<Rightarrow> uid" where
  "StorageUID blobTag assetTag contentHash =
     (case blobTag of Some t \<Rightarrow> t | None \<Rightarrow> PlaintextUID assetTag contentHash)"

definition BlobIsPublic :: "uid \<Rightarrow> bool" where
  "BlobIsPublic epochID \<longleftrightarrow> uid0 epochID = 0 \<and> uid1 epochID = 0"

section \<open>Item selectors\<close>

record item_span =
  span_NodeID :: uid
  span_AttrID :: uid
  ItemID_Min :: uid
  ItemID_Max :: uid
  EditID_Min :: uid
  EditID_Max :: uid
  EditsPerItem :: int

record item_selector =
  store :: "item_span list"
  Spans :: "nat list"
  Normalized :: bool

abbreviation span_at :: "item_selector \<Rightarrow> nat \<Rightarrow> item_span" where
  "span_at sel p \<equiv> store sel ! p"

definition span_CompareTo :: "item_span \<Rightarrow> item_span \<Rightarrow> int" where
  "span_CompareTo a b =
     (if CompareTo (span_NodeID a) (span_NodeID b) \<noteq> 0 then CompareTo (span_NodeID a) (span_NodeID b)
      else if CompareTo (span_AttrID a) (span_AttrID b) \<noteq> 0 then CompareTo (span_AttrID a) (span_AttrID b)
      else if CompareTo (ItemID_Min a) (ItemID_Min b) \<noteq> 0 then CompareTo (ItemID_Min a) (ItemID_Min b)
      else if CompareTo (ItemID_Max a) (ItemID_Max b) \<noteq> 0 then CompareTo (ItemID_Max a) (ItemID_Max b)
      else 0)"

definition AddSpan :: "uid \<Rightarrow> uid \<Rightarrow> uid \<Rightarrow> uid \<Rightarrow> item_selector \<Rightarrow> item_selector" where
  "AddSpan nodeID attrID itemID_min itemID_max sel =
     sel\<lparr>store := store sel @ [\<lparr>span_NodeID = nodeID, span_AttrID = attrID, ItemID_Min = itemID_min,
           ItemID_Max = itemID_max, EditID_Min = nilUID, EditID_Max = nilUID, EditsPerItem = 1\<rparr>],
         Spans := Spans sel @ [length (store sel)], Normalized := False\<rparr>"

definition Select :: "'a element_id_scheme \<Rightarrow> item_selector \<Rightarrow> item_selector" where
  "Select elem sel =
     (let (itemMin, itemMax) = (if IsWildcard (ItemID elem) then (nilUID, MaxID) else (ItemID elem, ItemID elem))
      in AddSpan (NodeID elem) (AttrID elem) itemMin itemMax sel)"

text \<open>Whether one span admits an address, and the test of a request.\<close>

definition span_admits :: "item_span \<Rightarrow> address \<Rightarrow> bool" where
  "span_admits span addr =
     (if \<not> IsWildcard (span_NodeID span) \<and> span_NodeID span \<noteq> NodeID addr then False
      else if \<not> IsWildcard (span_AttrID span) \<and> span_AttrID span \<noteq> AttrID addr then False
      else if CompareTo (ItemID addr) (ItemID_Min span) < 0 \<or> CompareTo (ItemID addr) (ItemID_Max span) > 0 then False
      else if IsSet (EditID_Min span) \<and> CompareTo (EditID addr) (EditID_Min span) < 0 then False
      else if IsSet (EditID_Max span) \<and> CompareTo (EditID addr) (EditID_Max span) > 0 then False
      else True)"

definition Admits :: "item_selector \<Rightarrow> address \<Rightarrow> bool" where
  "Admits sel addr = list_ex (\<lambda>p. span_admits (span_at sel p) addr) (Spans sel)"

text \<open>Normalization: the check and clamp of every span, the removal of inverted ones by moving the last
  span of the slice into their place, and the sort of the whole slice before it is cut.\<close>

definition clamp_span :: "item_span \<Rightarrow> item_span" where
  "clamp_span span =
     (if uid0 (ItemID_Max span) = UID_0_Max \<and> uid1 (ItemID_Max span) > UID_1_Max
      then span\<lparr>ItemID_Max := UID (uid0 (ItemID_Max span)) UID_1_Max\<rparr> else span)"

definition drop_span :: "item_span \<Rightarrow> bool" where
  "drop_span span =
     (if uid0 (ItemID_Min span) = UID_0_Max \<and> uid1 (ItemID_Min span) > UID_1_Max then True
      else uid0 (ItemID_Min span) > uid0 (ItemID_Max span) \<or>
        (uid0 (ItemID_Min span) = uid0 (ItemID_Max span) \<and> uid1 (ItemID_Min span) > uid1 (ItemID_Max span)))"

function norm_loop :: "item_span list \<Rightarrow> nat list \<Rightarrow> nat \<Rightarrow> nat \<Rightarrow> (item_span list \<times> nat list \<times> nat) outcome" where
  "norm_loop st spans i N =
     (if i < N then
        let p = spans ! i
        in if IsNil (span_NodeID (st ! p)) then Inl BadRequest
           else if IsNil (span_AttrID (st ! p)) then Inl BadRequest
           else
             let st = st[p := clamp_span (st ! p)]
             in if drop_span (st ! p) then norm_loop st (spans[i := spans ! (N - 1)]) i (N - 1)
                else norm_loop st spans (i + 1) N
      else Inr (st, spans, N))"
  by pat_completeness auto
termination by (relation "measure (\<lambda>(st, spans, i, N). N - i)") auto

declare norm_loop.simps [simp del]

text \<open>\<open>sort.Slice\<close> with the reversed comparison.\<close>

fun sort_insert :: "item_span list \<Rightarrow> nat \<Rightarrow> nat list \<Rightarrow> nat list" where
  "sort_insert st p [] = [p]"
| "sort_insert st p (q # qs) = (if span_CompareTo (st ! q) (st ! p) > 0 then q # sort_insert st p qs else p # q # qs)"

definition sort_spans :: "item_span list \<Rightarrow> nat list \<Rightarrow> nat list" where
  "sort_spans st spans = foldr (sort_insert st) spans []"

definition selector_Normalize :: "bool \<Rightarrow> item_selector \<Rightarrow> item_selector outcome" where
  "selector_Normalize force sel =
     (if \<not> force \<and> Normalized sel then Inr sel
      else and_then (norm_loop (store sel) (Spans sel) 0 (length (Spans sel))) (\<lambda>(st, spans, N).
           Inr (sel\<lparr>store := st, Spans := take N (sort_spans st spans), Normalized := True\<rparr>)))"

section \<open>Requests\<close>

text \<open>The path of the invoked URL, if there is one; the URL parser is \<open>net/url\<close>.\<close>

definition TrimSlashes :: "string \<Rightarrow> string" where
  "TrimSlashes path = dropWhile (\<lambda>c. c = CHR ''/'') path"

fun cut_slash :: "string \<Rightarrow> (string \<times> string) option" where
  "cut_slash [] = None"
| "cut_slash (c # cs) =
     (if c = CHR ''/'' then Some ([], cs) else map_option (\<lambda>(a, b). (c # a, b)) (cut_slash cs))"

definition VerbPath :: "string option \<Rightarrow> string" where
  "VerbPath invokePath =
     (case invokePath of None \<Rightarrow> []
      | Some path \<Rightarrow> (case cut_slash (TrimSlashes path) of Some (_, rest) \<Rightarrow> rest | None \<Rightarrow> []))"

definition Verb :: "string option \<Rightarrow> string" where
  "Verb invokePath = (case cut_slash (VerbPath invokePath) of Some (verb, _) \<Rightarrow> verb | None \<Rightarrow> VerbPath invokePath)"

fun SplitN :: "nat \<Rightarrow> string \<Rightarrow> string list" where
  "SplitN 0 s = []"
| "SplitN (Suc 0) s = [s]"
| "SplitN (Suc (Suc n)) s = (case cut_slash s of None \<Rightarrow> [s] | Some (a, b) \<Rightarrow> a # SplitN (Suc n) b)"

definition ParseAsAddressURL :: "(byte list \<Rightarrow> byte list) \<Rightarrow> string option \<Rightarrow> item_selector \<Rightarrow> item_selector outcome" where
  "ParseAsAddressURL H invokePath sel =
     (case invokePath of None \<Rightarrow> Inl BadRequest
      | Some path \<Rightarrow>
          let path = (if path \<noteq> [] \<and> hd path = CHR ''/'' then tl path else path);
              IDs = map (\<lambda>part. NameID (Parse H part)) (tl (SplitN 4 path))
          in Inr (case IDs of
                    [node] \<Rightarrow> AddSpan node WildcardID nilUID MaxID sel
                  | [node, attr] \<Rightarrow> AddSpan node attr nilUID MaxID sel
                  | [node, attr, item] \<Rightarrow> AddSpan node attr item item sel
                  | _ \<Rightarrow> sel))"

section \<open>The windows are exact\<close>

lemma UID_Unix_bounds: "0 \<le> UID_Unix t" "UID_Unix t < 2 ^ 48"
proof -
  have "unat (uid0 t) < 2 ^ 64" using unsigned_less [of "uid0 t", where ?'a = nat] by simp
  then have n: "unat (drop_bit 16 (uid0 t)) < 2 ^ 48" by (simp add: unat64_shr less_mult_imp_div_less)
  have s: "sint (drop_bit 16 (uid0 t)) = int (unat (drop_bit 16 (uid0 t)))"
    by (rule sint_unat) (use n in simp)
  have "int (unat (drop_bit 16 (uid0 t))) < int (2 ^ 48)" using n by (simp only: of_nat_less_iff)
  then show "0 \<le> UID_Unix t" "UID_Unix t < 2 ^ 48"
    unfolding UID_Unix_def s by simp_all
qed

text \<open>No identifier, however forged, makes a window wrap around: each is the comparison of the times.\<close>

theorem windows_exact:
  assumes "0 \<le> now" "now < 2 ^ 62" "1000000000 \<le> maxSkew"
  shows "(TxWithinGracePeriod terms tx epoch \<longleftrightarrow> UID_Unix epoch \<le> UID_Unix tx + GracePeriod terms) \<and>
    (WithinRevocationCliff terms tx cutID \<longleftrightarrow> UID_Unix tx \<le> UID_Unix cutID + GracePeriod terms) \<and>
    (WithinFutureSkew now tx maxSkew \<longleftrightarrow> UID_Unix tx \<le> now + maxSkew div 1000000000)"
proof -
  have grace: "0 < GracePeriod terms" by (simp add: GracePeriod_def DefaultMaxGracePeriod_def split: option.split)
  have exact: "go_int (a - b) = a - b" if "0 \<le> a" "a < 2 ^ 48" "0 \<le> b" "b < 2 ^ 62" for a b
    using that by (intro go_int_id) simp_all
  have small: "UID_Unix t < 2 ^ 62" for t using UID_Unix_bounds(2) [of t] by simp
  have skew: "0 < maxSkew div 1000000000" using assms(3) by (simp add: pos_imp_zdiv_pos_iff)
  show ?thesis
    using grace skew assms exact [OF UID_Unix_bounds [of epoch] UID_Unix_bounds(1) small, of tx]
      exact [OF UID_Unix_bounds [of tx] UID_Unix_bounds(1) small, of cutID] exact [OF UID_Unix_bounds [of tx] assms(1,2)]
    by (auto simp: TxWithinGracePeriod_def WithinRevocationCliff_def WithinFutureSkew_def Let_def)
qed

theorem windows_exact_witness:
  "WithinFutureSkew 1700000000 (UID 0xFFFFFFFFFFFFFFFF 0) 300000000000 \<longleftrightarrow> UID_Unix (UID 0xFFFFFFFFFFFFFFFF 0) \<le> 1700000300"
  using windows_exact [of 1700000000 300000000000] by simp

text \<open>A setting is converted to nanoseconds without a bound: a long one becomes negative.\<close>

lemma long_setting_wraps: "BootstrapTTL (Some 9223372037) < 0" "RateLimitWindow (Some 9223372037) < 0"
proof -
  have "seconds 9223372037 = - 9223372036709551616"
    by (simp add: seconds_def go_int_def signed_of_int signed_take_bit_eq_take_bit_shift take_bit_eq_mod)
  then show "BootstrapTTL (Some 9223372037) < 0" "RateLimitWindow (Some 9223372037) < 0"
    by (simp_all add: BootstrapTTL_def RateLimitWindow_def setting_def)
qed

section \<open>Normalization\<close>

type_synonym span_key = "nat \<times> nat \<times> nat \<times> nat"

definition span_key :: "item_span \<Rightarrow> span_key" where
  "span_key s = (uval (span_NodeID s), uval (span_AttrID s), uval (ItemID_Min s), uval (ItemID_Max s))"

lemma span_CompareTo_key: "span_CompareTo a b > 0 \<longleftrightarrow> span_key b < span_key a"
  by (auto simp: span_CompareTo_def span_key_def CompareTo_uval cmp_int_def split: if_splits)

lemma mset_sort_insert: "mset (sort_insert st p qs) = add_mset p (mset qs)"
  by (induction qs) auto

lemma mset_sort_spans: "mset (sort_spans st ps) = mset ps"
  by (induction ps) (simp_all add: sort_spans_def mset_sort_insert)

lemma sorted_sort_insert:
  "sorted_wrt (\<lambda>p q. span_key (st ! q) \<le> span_key (st ! p)) qs \<Longrightarrow>
   sorted_wrt (\<lambda>p q. span_key (st ! q) \<le> span_key (st ! p)) (sort_insert st p qs)"
proof (induction qs)
  case (Cons q qs)
  have set: "set (sort_insert st p qs) = insert p (set qs)"
    using mset_sort_insert [of st p qs] by (metis set_mset_add_mset_insert set_mset_mset)
  show ?case
  proof (cases "span_key (st ! p) < span_key (st ! q)")
    case True
    then show ?thesis using Cons set by (auto simp: span_CompareTo_key)
  next
    case False
    then show ?thesis using Cons.prems by (auto simp: span_CompareTo_key intro: order_trans)
  qed
qed simp

lemma sorted_sort_spans: "sorted_wrt (\<lambda>p q. span_key (st ! q) \<le> span_key (st ! p)) (sort_spans st ps)"
  unfolding sort_spans_def by (induction ps) (simp_all add: sorted_sort_insert)

lemma clamp_span_simps [simp]:
  "span_NodeID (clamp_span s) = span_NodeID s" "span_AttrID (clamp_span s) = span_AttrID s" "ItemID_Min (clamp_span s) = ItemID_Min s"
  "EditID_Min (clamp_span s) = EditID_Min s" "EditID_Max (clamp_span s) = EditID_Max s" "clamp_span (clamp_span s) = clamp_span s"
  by (simp_all add: clamp_span_def)

lemma clamp_span_Max: "ItemID_Max (clamp_span s) = min (ItemID_Max s) MaxID"
proof -
  have top: "uid0 a \<le> UID_0_Max" for a unfolding UID_0_Max_def by (rule le_max64)
  have beyond: "uid0 a = UID_0_Max \<and> uid1 a > UID_1_Max \<longleftrightarrow> MaxID < a" for a
  proof (cases "uid0 a < UID_0_Max")
    case True
    then have "\<not> UID_0_Max < uid0 a" "uid0 a \<noteq> UID_0_Max" by auto
    then show ?thesis using True by (simp add: less_uid_def CompareTo_def MaxID_def)
  next
    case False
    then have "uid0 a = UID_0_Max" using top [of a] by simp
    then show ?thesis by (auto simp: less_uid_def CompareTo_def MaxID_def)
  qed
  show ?thesis
  proof (cases "MaxID < ItemID_Max s")
    case True
    then show ?thesis using beyond [of "ItemID_Max s"] by (simp add: clamp_span_def MaxID_def min.absorb2)
  next
    case False
    then have "clamp_span s = s" using beyond [of "ItemID_Max s"] by (auto simp: clamp_span_def)
    then show ?thesis using False by (simp add: min.absorb1 not_less)
  qed
qed

definition span_proper :: "item_span \<Rightarrow> bool" where
  "span_proper s \<longleftrightarrow> \<not> IsNil (span_NodeID s) \<and> \<not> IsNil (span_AttrID s) \<and> \<not> drop_span (clamp_span s)"

lemma norm_loop_proper:
  assumes "\<forall>p \<in> set ps. p < length st \<and> span_proper (st ! p)" "i \<le> length ps"
  shows "\<exists>st'. norm_loop st ps i (length ps) = Inr (st', ps, length ps) \<and> length st' = length st \<and>
    (\<forall>p < length st. st' ! p = (if p \<in> set (drop i ps) then clamp_span (st ! p) else st ! p))"
  using assms
proof (induction "length ps - i" arbitrary: i st)
  case 0
  then show ?case by (simp add: norm_loop.simps [of st ps i])
next
  case (Suc k)
  then have i: "i < length ps" by simp
  let ?p = "ps ! i" and ?st = "st[ps ! i := clamp_span (st ! (ps ! i))]"
  have p: "?p < length st" "span_proper (st ! ?p)" using Suc.prems(1) i by simp_all
  have good: "\<forall>p \<in> set ps. p < length ?st \<and> span_proper (?st ! p)"
    using Suc.prems(1) p by (auto simp: nth_list_update span_proper_def)
  have "norm_loop st ps i (length ps) = norm_loop ?st ps (i + 1) (length ps)"
    using i p by (simp add: norm_loop.simps [of st ps i] span_proper_def Let_def)
  moreover have "k = length ps - (i + 1)" "i + 1 \<le> length ps" using Suc.hyps(2) i by simp_all
  ultimately obtain st' where st': "norm_loop st ps i (length ps) = Inr (st', ps, length ps)" "length st' = length ?st"
      "\<forall>p < length ?st. st' ! p = (if p \<in> set (drop (i + 1) ps) then clamp_span (?st ! p) else ?st ! p)"
    using Suc.hyps(1) [OF _ good] by auto
  have "drop i ps = ?p # drop (i + 1) ps" using i by (simp add: Cons_nth_drop_Suc)
  then have "st' ! p = (if p \<in> set (drop i ps) then clamp_span (st ! p) else st ! p)" if "p < length st" for p
    using st'(3) that p(1) by (cases "p = ?p") (auto simp: nth_list_update)
  then show ?case using st'(1,2) by simp
qed

text \<open>When no span is inverted, normalization keeps every span, sorts them in reverse, and the selector
  admits exactly the same addresses.\<close>

theorem Normalize_keeps_spans:
  assumes "\<forall>p \<in> set (Spans sel). p < length (store sel) \<and> span_proper (span_at sel p)" "force \<or> \<not> Normalized sel"
  shows "\<exists>sel'. selector_Normalize force sel = Inr sel' \<and> Normalized sel' \<and> mset (Spans sel') = mset (Spans sel) \<and>
    sorted_wrt (\<lambda>p q. span_key (span_at sel' q) \<le> span_key (span_at sel' p)) (Spans sel') \<and>
    (\<forall>addr. ItemID addr \<le> MaxID \<longrightarrow> Admits sel' addr = Admits sel addr)"
proof -
  obtain st where st: "norm_loop (store sel) (Spans sel) 0 (length (Spans sel)) = Inr (st, Spans sel, length (Spans sel))"
    "\<forall>p < length (store sel). st ! p = (if p \<in> set (Spans sel) then clamp_span (span_at sel p) else span_at sel p)"
    using norm_loop_proper [OF assms(1), of 0] by auto
  let ?sel = "sel\<lparr>store := st, Spans := sort_spans st (Spans sel), Normalized := True\<rparr>"
  have len: "length (sort_spans st (Spans sel)) = length (Spans sel)" by (metis mset_sort_spans size_mset)
  have "selector_Normalize force sel = Inr ?sel"
    using assms(2) st(1) len by (auto simp: selector_Normalize_def)
  moreover have "Admits ?sel addr = Admits sel addr" if max: "ItemID addr \<le> MaxID" for addr
  proof -
    have one: "span_admits (st ! p) addr = span_admits (span_at sel p) addr" if "p \<in> set (Spans sel)" for p
    proof -
      have "st ! p = clamp_span (span_at sel p)" using st(2) assms(1) that by simp
      then show ?thesis using max by (auto simp: span_admits_def CompareTo_simps clamp_span_Max not_less min_less_iff_disj)
    qed
    have "set (sort_spans st (Spans sel)) = set (Spans sel)" by (metis mset_sort_spans set_mset_mset)
    then show ?thesis using one by (simp add: Admits_def list_ex_iff)
  qed
  ultimately show ?thesis by (auto simp: mset_sort_spans sorted_sort_spans)
qed

definition no_spans :: item_selector where
  "no_spans = \<lparr>store = [], Spans = [], Normalized = False\<rparr>"

definition two_spans :: item_selector where
  "two_spans = AddSpan (UID 0 3) (UID 0 7) nilUID MaxID (AddSpan (UID 0 2) (UID 0 7) nilUID MaxID no_spans)"

definition inverted_first :: item_selector where
  "inverted_first = AddSpan (UID 0 3) (UID 0 7) nilUID MaxID (AddSpan (UID 0 2) (UID 0 7) nilUID MaxID
     (AddSpan (UID 0 1) (UID 0 7) (UID 0 5) (UID 0 4) no_spans))"

lemmas span_samples = two_spans_def inverted_first_def no_spans_def AddSpan_def span_proper_def clamp_span_def
  drop_span_def IsNil_def nilUID_def MaxID_def UID_0_Max_def UID_1_Max_def

theorem Normalize_keeps_spans_witness:
  "\<exists>sel'. selector_Normalize False two_spans = Inr sel' \<and> mset (Spans sel') = {#0, 1#} \<and>
     Admits sel' \<lparr>NodeID = UID 0 2, AttrID = UID 0 7, ItemID = UID 0 9, EditID = nilUID\<rparr>"
proof -
  have proper: "\<forall>p \<in> set (Spans two_spans). p < length (store two_spans) \<and> span_proper (span_at two_spans p)"
    by (simp add: span_samples)
  have "\<not> Normalized two_spans" "mset (Spans two_spans) = {#0, 1#}"
    "Admits two_spans \<lparr>NodeID = UID 0 2, AttrID = UID 0 7, ItemID = UID 0 9, EditID = nilUID\<rparr>"
    by (simp_all add: span_samples Admits_def span_admits_def CompareTo_def IsWildcard_def UID_1_Wildcard_def IsSet_def)
  moreover have "UID 0 9 \<le> MaxID" by (simp add: less_eq_uid_def CompareTo_def MaxID_def UID_0_Max_def)
  ultimately show ?thesis using Normalize_keeps_spans [OF proper, of False] by auto
qed

text \<open>Dropping an inverted span can lose a proper one: the span moved into its place is also left at the
  end of the slice, both copies are sorted, and the cut removes another span.\<close>

lemma Normalize_loses_span:
  "\<exists>sel'. selector_Normalize True inverted_first = Inr sel' \<and> Spans sel' = [2, 2] \<and>
     Admits inverted_first \<lparr>NodeID = UID 0 2, AttrID = UID 0 7, ItemID = UID 0 9, EditID = nilUID\<rparr> \<and>
     \<not> Admits sel' \<lparr>NodeID = UID 0 2, AttrID = UID 0 7, ItemID = UID 0 9, EditID = nilUID\<rparr>"
  by (simp add: span_samples selector_Normalize_def norm_loop.simps sort_spans_def span_CompareTo_def CompareTo_def
      Admits_def span_admits_def IsWildcard_def UID_1_Wildcard_def IsSet_def)

end
