(* ===== verification/Locus.thy ===== *)
theory Locus
  imports Bindings
begin

text \<open>
  Loci: the span of 64 attribute identifiers behind one base (\<open>stdlib/tag/tag.locus.go\<close>), its
  hexagonal layout, and the binding that folds a span into typed cells
  (\<open>amp/amp.support.locus.go\<close>).  Decoding is the parameter \<open>unmarshal\<close>, callbacks are the list
  of events an update fires.  The layouts in floating point are not modelled.
\<close>

section \<open>Addressing a span\<close>

definition locusMask :: u64 where "locusMask = 0x3F"
definition locusSpan :: int where "locusSpan = 64"
definition locusHexCells :: nat where "locusHexCells = 37"

definition LocusBase :: "uid \<Rightarrow> uid" where
  "LocusBase u = UID (uid0 u) (uid1 u AND NOT locusMask)"

definition LocusCell :: "uid \<Rightarrow> int" where
  "LocusCell u = uint (uid1 u AND locusMask)"

definition WithCell :: "uid \<Rightarrow> int \<Rightarrow> uid" where
  "WithCell u c = UID (uid0 u) (uid1 u OR (word_of_int c AND locusMask))"

definition LocusMatch :: "uid \<Rightarrow> uid \<Rightarrow> bool" where
  "LocusMatch base u \<longleftrightarrow> uid0 u = uid0 base \<and> uid1 u AND NOT locusMask = uid1 base AND NOT locusMask"

section \<open>The hexagonal layout\<close>

definition LocusHexSpiral :: "(int \<times> int) list" where
  "LocusHexSpiral =
     [(0, 0),
      (1, 0), (0, 1), (-1, 1), (-1, 0), (0, -1), (1, -1),
      (2, 0), (1, 1), (0, 2), (-1, 2), (-2, 2), (-2, 1),
      (-2, 0), (-1, -1), (0, -2), (1, -2), (2, -2), (2, -1),
      (3, 0), (2, 1), (1, 2), (0, 3), (-1, 3), (-2, 3),
      (-3, 3), (-3, 2), (-3, 1), (-3, 0), (-2, -1), (-1, -2),
      (0, -3), (1, -3), (2, -3), (3, -3), (3, -2), (3, -1)]"

text \<open>The loop of \<open>cellToRing\<close> in \<open>int\<close> arithmetic; it is entered with ring and start 1.\<close>

partial_function (option) ring_loop :: "int \<Rightarrow> int \<Rightarrow> int \<Rightarrow> (int \<times> int) option" where
  "ring_loop c ring start =
     (let count = go_int (6 * ring)
      in if c < go_int (start + count) then Some (ring, go_int (c - start))
         else ring_loop c (go_int (ring + 1)) (go_int (start + count)))"

lemmas [code] = ring_loop.simps

definition cellToRing :: "int \<Rightarrow> (int \<times> int) option" where
  "cellToRing c = ring_loop c 1 1"

section \<open>The binding\<close>

definition locusDefaultMax :: int where "locusDefaultMax = 37"

record 'v locus_cell =
  lc_cell :: int
  lc_editID :: uid
  lc_value :: 'v

record 'v locus_binding =
  loc_Base :: tag_name
  loc_Max :: int
  loc_revision :: uid
  loc_nodeID :: uid
  attached :: "'v locus_cell list"

datatype 'v locus_event = OnCell int "'v attr_item" | LocusSync

definition NewLocusBinding :: "tag_name \<Rightarrow> 'v locus_binding" where
  "NewLocusBinding base =
     \<lparr>loc_Base = base, loc_Max = locusDefaultMax, loc_revision = nilUID, loc_nodeID = nilUID, attached = []\<rparr>"

definition locus_Bind :: "uid \<Rightarrow> 'v locus_binding \<Rightarrow> 'v locus_binding outcome" where
  "locus_Bind n loc =
     (if IsSet (loc_nodeID loc) \<and> loc_nodeID loc \<noteq> n then Inl Panic else Inr (loc\<lparr>loc_nodeID := n\<rparr>))"

definition LiveCount :: "'v locus_binding \<Rightarrow> nat" where
  "LiveCount loc = length (attached loc)"

text \<open>The position of a cell in the sparse list; every operation scans for the first match.\<close>

fun cell_index :: "int \<Rightarrow> 'v locus_cell list \<Rightarrow> nat option" where
  "cell_index c [] = None"
| "cell_index c (a # as) = (if lc_cell a = c then Some 0 else map_option Suc (cell_index c as))"

definition findCell :: "int \<Rightarrow> 'v locus_binding \<Rightarrow> nat option" where
  "findCell c loc = cell_index c (attached loc)"

definition GetCell :: "'v locus_binding \<Rightarrow> int \<Rightarrow> 'v option" where
  "GetCell loc c = map_option (\<lambda>i. lc_value (attached loc ! i)) (cell_index c (attached loc))"

fun enum_cells :: "('s \<Rightarrow> int \<Rightarrow> 'v \<Rightarrow> 's \<times> bool) \<Rightarrow> 'v locus_cell list \<Rightarrow> 's \<Rightarrow> 's" where
  "enum_cells fn [] s = s"
| "enum_cells fn (a # as) s =
     (let (s', more) = fn s (lc_cell a) (lc_value a) in if \<not> more then s' else enum_cells fn as s')"

definition EnumCells :: "('s \<Rightarrow> int \<Rightarrow> 'v \<Rightarrow> 's \<times> bool) \<Rightarrow> 'v locus_binding \<Rightarrow> 's \<Rightarrow> 's" where
  "EnumCells fn loc s = enum_cells fn (attached loc) s"

definition UpsertCell ::
  "('v \<Rightarrow> unit outcome) \<Rightarrow> ('v \<Rightarrow> byte list outcome) \<Rightarrow> 'v locus_binding \<Rightarrow> tx_msg \<Rightarrow> int \<Rightarrow> 'v
     \<Rightarrow> tx_msg \<times> unit outcome" where
  "UpsertCell check marshal loc tx c val =
     (if IsNil (loc_nodeID loc) then (tx, Inl Panic)
      else Upsert check marshal tx (loc_nodeID loc) (WithCell (NameID (loc_Base loc)) c) nilUID (Some val))"

definition DeleteCell ::
  "('v \<Rightarrow> unit outcome) \<Rightarrow> ('v \<Rightarrow> byte list outcome) \<Rightarrow> 'v locus_binding \<Rightarrow> tx_msg \<Rightarrow> int \<Rightarrow> tx_msg \<times> bool" where
  "DeleteCell check marshal loc tx c =
     (case findCell c loc of
        None \<Rightarrow> (tx, False)
      | Some _ \<Rightarrow>
          (fst (Delete check marshal tx
                  \<lparr>NodeID = loc_nodeID loc, AttrID = WithCell (NameID (loc_Base loc)) c, ItemID = nilUID\<rparr> None), True))"

text \<open>The removal moves the last cell into the hole.\<close>

definition detachCell :: "int \<Rightarrow> 'v locus_binding \<Rightarrow> 'v locus_binding" where
  "detachCell c loc =
     (case cell_index c (attached loc) of
        None \<Rightarrow> loc
      | Some i \<Rightarrow> loc\<lparr>attached := butlast ((attached loc)[i := last (attached loc)])\<rparr>)"

definition locus_Clear :: "'v locus_binding \<Rightarrow> 'v locus_binding" where
  "locus_Clear loc = loc\<lparr>attached := [], loc_revision := nilUID\<rparr>"

definition locus_op ::
  "(byte list \<Rightarrow> 'v outcome) \<Rightarrow> 'v \<Rightarrow> tx_msg \<Rightarrow> nat \<Rightarrow> tx_op \<Rightarrow> 'v locus_binding
     \<Rightarrow> 'v locus_binding \<times> 'v locus_event list" where
  "locus_op unmarshal zero tx idx op loc =
     (let addr = Addr op; c = LocusCell (AttrID addr); att = findCell c loc
      in if NodeID addr \<noteq> loc_nodeID loc then (loc, [])
         else if \<not> LocusMatch (NameID (loc_Base loc)) (AttrID addr) then (loc, [])
         else if c \<ge> loc_Max loc then (loc, [])
         else if (case att of None \<Rightarrow> False
                  | Some i \<Rightarrow> CompareTo (lc_editID (attached loc ! i)) (EditID addr) \<ge> 0) then (loc, [])
         else if op_is_delete op
         then (detachCell c loc, [OnCell c \<lparr>AI_Addr = addr, AI_Value = zero, AI_Deleted = True, AI_Tx = None\<rparr>])
         else case UnmarshalOpValue unmarshal tx (int idx) of
                Inl _ \<Rightarrow> (loc, [])
              | Inr v \<Rightarrow>
                  let new = \<lparr>lc_cell = c, lc_editID = EditID addr, lc_value = v\<rparr>
                  in (case att of
                        None \<Rightarrow> loc\<lparr>attached := attached loc @ [new]\<rparr>
                      | Some i \<Rightarrow> loc\<lparr>attached := (attached loc)[i := (attached loc ! i)\<lparr>lc_editID := EditID addr, lc_value := v\<rparr>]\<rparr>,
                      [OnCell c \<lparr>AI_Addr = addr, AI_Value = v, AI_Deleted = False, AI_Tx = None\<rparr>]))"

fun locus_ops ::
  "(byte list \<Rightarrow> 'v outcome) \<Rightarrow> 'v \<Rightarrow> tx_msg \<Rightarrow> nat \<Rightarrow> tx_op list \<Rightarrow> 'v locus_binding
     \<Rightarrow> 'v locus_binding \<times> 'v locus_event list" where
  "locus_ops unmarshal zero tx idx [] loc = (loc, [])"
| "locus_ops unmarshal zero tx idx (op # ops) loc =
     (let (loc1, ev1) = locus_op unmarshal zero tx idx op loc;
          (loc2, ev2) = locus_ops unmarshal zero tx (Suc idx) ops loc1
      in (loc2, ev1 @ ev2))"

definition locus_OnNodeUpdate ::
  "(byte list \<Rightarrow> 'v outcome) \<Rightarrow> 'v \<Rightarrow> node_update \<Rightarrow> 'v locus_binding
     \<Rightarrow> 'v locus_binding \<times> 'v locus_event list" where
  "locus_OnNodeUpdate unmarshal zero update loc0 =
     (let loc = loc0\<lparr>loc_revision := NU_Revision update\<rparr>
      in if loc_nodeID loc \<noteq> NU_NodeID update \<and> \<not> IsNil (loc_nodeID loc) then (loc, [])
         else let loc1 = (if loc_nodeID loc \<noteq> NU_NodeID update then loc\<lparr>loc_nodeID := NU_NodeID update\<rparr> else loc);
                  (loc2, ev) = locus_ops unmarshal zero (NU_Tx update) 0 (Ops (NU_Tx update)) loc1
              in (loc2, ev @ [LocusSync]))"

section \<open>Addressing: lemmas\<close>

definition aligned :: "uid \<Rightarrow> bool" where
  "aligned base \<longleftrightarrow> uid1 base AND locusMask = 0"

lemma mask6: "locusMask = mask 6"
  by (simp add: locusMask_def mask_eq_exp_minus_1)

lemma LocusCell_range [simp]: "0 \<le> LocusCell u" "LocusCell u < 64"
proof -
  have "LocusCell u = uint (uid1 u) mod 64"
    by (simp add: LocusCell_def mask6 unsigned_take_bit_eq take_bit_eq_mod [of 6 "uint (uid1 u)"] flip: take_bit_eq_mask)
  then show "LocusCell u < 64" by simp
qed (simp add: LocusCell_def)

lemma word_bits_eqI6: "(\<And>i. i < 64 \<Longrightarrow> bit a i = bit b i) \<Longrightarrow> a = (b :: u64)"
  by (auto intro: bit_word_eqI)

lemma bit_mask6: "bit locusMask i \<longleftrightarrow> i < 6"
  by (auto simp: mask6 bit_mask_iff)

lemma split_mask: "(w AND NOT locusMask) OR (w AND locusMask) = w"
  by (rule word_bits_eqI6) (auto simp: bit_simps)

lemma aligned_bits: "aligned base \<Longrightarrow> i < 6 \<Longrightarrow> \<not> bit (uid1 base) i"
  unfolding aligned_def by (metis bit_and_iff bit_mask6 bit_0_eq bot_apply bot_bool_def)

lemma WithCell_parts:
  assumes "aligned base"
  shows "uid1 (WithCell base c) AND locusMask = word_of_int c AND locusMask"
    "uid1 (WithCell base c) AND NOT locusMask = uid1 base"
  by (auto intro!: word_bits_eqI6 simp: WithCell_def bit_simps bit_mask6 aligned_bits [OF assms] simp del: bit_word_of_int_iff)

lemma cell_word: "0 \<le> c \<Longrightarrow> c < 64 \<Longrightarrow> uint ((word_of_int c :: u64) AND locusMask) = c"
  by (simp add: mask6 unsigned_take_bit_eq uint_word_of_int take_bit_eq_mod [of 6 c] flip: take_bit_eq_mask)

lemma WithCell_own: "LocusMatch base u \<Longrightarrow> aligned base \<Longrightarrow> WithCell base (LocusCell u) = u"
proof -
  assume a: "LocusMatch base u" "aligned base"
  then have "uid1 base AND NOT locusMask = uid1 base"
    using WithCell_parts(2) [OF a(2), of 0] by (simp add: WithCell_def)
  then show ?thesis using a(1) split_mask [of "uid1 u"]
    by (cases u) (simp add: WithCell_def LocusCell_def LocusMatch_def)
qed

lemma LocusMatch_inject: "LocusMatch base u \<Longrightarrow> LocusMatch base w \<Longrightarrow> LocusCell u = LocusCell w \<Longrightarrow> u = w"
proof -
  assume m: "LocusMatch base u" "LocusMatch base w" "LocusCell u = LocusCell w"
  then have "uid1 u AND locusMask = uid1 w AND locusMask" by (simp add: LocusCell_def word_uint_eq_iff)
  then have "uid1 u = uid1 w"
    using m(1,2) split_mask [of "uid1 u"] split_mask [of "uid1 w"] by (simp add: LocusMatch_def)
  then show "u = w" using m(1,2) by (cases u; cases w) (simp add: LocusMatch_def)
qed


lemma low6: "take_bit 6 (c mod 18446744073709551616) = c mod (64 :: int)"
  by (simp add: take_bit_eq_mod mod_mod_cancel)

lemma LocusCell_WithCell: "aligned base \<Longrightarrow> LocusCell (WithCell base c) = c mod 64"
  unfolding LocusCell_def
  by (simp only: WithCell_parts) (simp add: mask6 unsigned_take_bit_eq uint_word_of_int low6 flip: take_bit_eq_mask)

lemma WithCell_mod: "WithCell base (c mod 64) = WithCell base c"
proof -
  have "word_of_int (c mod 64) AND locusMask = (word_of_int c AND locusMask :: u64)"
    by (simp add: word_uint_eq_iff mask6 unsigned_take_bit_eq uint_word_of_int low6 take_bit_eq_mod [of 6 "c mod 64"]
        flip: take_bit_eq_mask)
  then show ?thesis by (simp add: WithCell_def)
qed

lemma LocusMatch_WithCell: "aligned base \<Longrightarrow> LocusMatch base (WithCell base c)"
proof -
  assume a: "aligned base"
  then have "uid1 base AND NOT locusMask = uid1 base"
    using WithCell_parts(2) [OF a, of 0] by (simp add: WithCell_def)
  then show ?thesis using WithCell_parts(2) [OF a, of c] by (simp add: LocusMatch_def) (simp add: WithCell_def)
qed

section \<open>The rings\<close>

definition hex_distance :: "int \<times> int \<Rightarrow> int" where
  "hex_distance p = (\<bar>fst p\<bar> + \<bar>snd p\<bar> + \<bar>fst p + snd p\<bar>) div 2"

text \<open>The cells before ring \<open>r\<close>: the centre and six, twelve, ... cells.\<close>

definition ring_start :: "int \<Rightarrow> int" where
  "ring_start r = 1 + 3 * r * (r - 1)"

lemma ring_start_Suc: "ring_start (r + 1) = ring_start r + 6 * r"
  by (simp add: ring_start_def algebra_simps)

lemma ring_start_ge: "1 \<le> r \<Longrightarrow> r \<le> ring_start r"
proof -
  assume r: "1 \<le> r"
  then have "0 \<le> (r - 1) * (3 * r - 1)" by (intro mult_nonneg_nonneg) simp_all
  then show ?thesis by (simp add: ring_start_def algebra_simps)
qed

lemma ring_loop_spec:
  "1 \<le> r \<Longrightarrow> ring_start r \<le> c \<Longrightarrow> c < 2 ^ 60 \<Longrightarrow>
   \<exists>ring idx. ring_loop c r (ring_start r) = Some (ring, idx) \<and> r \<le> ring \<and>
     0 \<le> idx \<and> idx < 6 * ring \<and> c = ring_start ring + idx"
proof (induction "nat (c - ring_start r)" arbitrary: r rule: less_induct)
  case less
  have b: "r \<le> ring_start r" "ring_start r < 2 ^ 60" using ring_start_ge [OF less.prems(1)] less.prems(2,3) by simp_all
  have g: "go_int (6 * r) = 6 * r" "go_int (ring_start r + 6 * r) = ring_start (r + 1)"
    "go_int (r + 1) = r + 1" "go_int (c - ring_start r) = c - ring_start r"
    unfolding ring_start_Suc using b less.prems by (intro go_int_pos; simp)+
  have step: "ring_loop c r (ring_start r)
      = (if c < ring_start (r + 1) then Some (r, c - ring_start r) else ring_loop c (r + 1) (ring_start (r + 1)))"
    by (subst ring_loop.simps) (simp add: g Let_def)
  show ?case
  proof (cases "c < ring_start (r + 1)")
    case True
    then show ?thesis unfolding step using less.prems by (simp add: ring_start_Suc)
  next
    case False
    have "nat (c - ring_start (r + 1)) < nat (c - ring_start r)"
      using False less.prems by (simp add: ring_start_Suc)
    from less.hyps [OF this] False less.prems have
      "\<exists>ring idx. ring_loop c (r + 1) (ring_start (r + 1)) = Some (ring, idx) \<and> r + 1 \<le> ring \<and>
         0 \<le> idx \<and> idx < 6 * ring \<and> c = ring_start ring + idx" by simp
    then show ?thesis unfolding step using False by (metis add.commute dual_order.trans less_le zless_add1_eq)
  qed
qed

lemma cellToRing_spec:
  assumes "0 < c" "c < 2 ^ 60"
  shows "\<exists>ring idx. cellToRing c = Some (ring, idx) \<and> 1 \<le> ring \<and> 0 \<le> idx \<and> idx < 6 * ring \<and>
     c = 1 + 3 * ring * (ring - 1) + idx"
  using ring_loop_spec [of 1 c] assms by (simp add: cellToRing_def ring_start_def)

text \<open>The spiral lists every cell of the hexagon of radius three once, and its ring is its distance.\<close>

lemma spiral_table:
  "list_all (\<lambda>q. list_all (\<lambda>r. (q, r) \<in> set LocusHexSpiral \<longleftrightarrow> \<bar>q + r\<bar> \<le> 3) [-3..3]) [-3..3]"
  by code_simp

lemma spiral_covers: "set LocusHexSpiral = {(q, r). \<bar>q\<bar> \<le> 3 \<and> \<bar>r\<bar> \<le> 3 \<and> \<bar>q + r\<bar> \<le> 3}"
proof -
  have "list_all (\<lambda>(q, r). -3 \<le> q \<and> q \<le> 3 \<and> -3 \<le> r \<and> r \<le> 3) LocusHexSpiral"
    by (simp add: LocusHexSpiral_def)
  then have a: "-3 \<le> q \<and> q \<le> 3 \<and> -3 \<le> r \<and> r \<le> 3" if "(q, r) \<in> set LocusHexSpiral" for q r
    using that unfolding list_all_iff by blast
  have b: "(q, r) \<in> set LocusHexSpiral \<longleftrightarrow> \<bar>q + r\<bar> \<le> 3" if "-3 \<le> q" "q \<le> 3" "-3 \<le> r" "r \<le> 3" for q r
    using spiral_table [unfolded list_all_iff set_upto, rule_format, of q r] that by (simp only: atLeastAtMost_iff)
  have c: "\<bar>x\<bar> \<le> 3 \<longleftrightarrow> -3 \<le> x \<and> x \<le> 3" for x :: int by arith
  have "(q, r) \<in> set LocusHexSpiral \<longleftrightarrow> \<bar>q\<bar> \<le> 3 \<and> \<bar>r\<bar> \<le> 3 \<and> \<bar>q + r\<bar> \<le> 3" for q r
    using a [of q r] b [of q r] unfolding c [of q] c [of r] by blast
  then show ?thesis by (auto simp del: abs_le_iff)
qed

lemma spiral_rings:
  "length LocusHexSpiral = locusHexCells \<and> distinct LocusHexSpiral \<and>
   list_all (\<lambda>c. map_option fst (cellToRing (int c)) = Some (hex_distance (LocusHexSpiral ! c))) [1..<37] \<and>
   list_all (\<lambda>c. let p = LocusHexSpiral ! c; q = LocusHexSpiral ! (c + 1)
                 in hex_distance p \<noteq> hex_distance q \<or> hex_distance (fst p - fst q, snd p - snd q) = 1) [0..<36]"
  by code_simp


section \<open>The cells of a binding\<close>

definition cells_of :: "'v locus_cell list \<Rightarrow> (int \<rightharpoonup> uid \<times> 'v)" where
  "cells_of as = map_of (map (\<lambda>a. (lc_cell a, (lc_editID a, lc_value a))) as)"

abbreviation cells :: "'v locus_binding \<Rightarrow> (int \<rightharpoonup> uid \<times> 'v)" where
  "cells loc \<equiv> cells_of (attached loc)"

definition locus_ok :: "'v locus_binding \<Rightarrow> bool" where
  "locus_ok loc \<longleftrightarrow> distinct (map lc_cell (attached loc)) \<and>
     (\<forall>c \<in> lc_cell ` set (attached loc). 0 \<le> c \<and> c < 64 \<and> c < loc_Max loc)"

definition same_locus :: "'v locus_binding \<Rightarrow> 'v locus_binding \<Rightarrow> bool" where
  "same_locus a b \<longleftrightarrow> loc_Base a = loc_Base b \<and> loc_Max a = loc_Max b \<and> loc_nodeID a = loc_nodeID b"

lemma cell_index_None: "cell_index c as = None \<longleftrightarrow> c \<notin> lc_cell ` set as"
  by (induction as) auto

lemma cell_index_Some: "cell_index c as = Some i \<Longrightarrow> i < length as \<and> lc_cell (as ! i) = c"
  by (induction as arbitrary: i) (auto split: if_splits)

lemma cells_index: "cells_of as c = map_option (\<lambda>i. (lc_editID (as ! i), lc_value (as ! i))) (cell_index c as)"
  by (induction as) (auto simp: cells_of_def option.map_comp comp_def)

lemma GetCell_cells: "GetCell loc c = map_option snd (cells loc c)"
  by (simp add: GetCell_def cells_index option.map_comp comp_def)

lemma cells_update:
  "cell_index c as = Some i \<Longrightarrow>
   cells_of (as[i := (as ! i)\<lparr>lc_editID := e, lc_value := v\<rparr>]) = (cells_of as)(c \<mapsto> (e, v))"
  by (induction as arbitrary: i) (auto simp: cells_of_def split: if_splits)

lemma cells_append:
  "c \<notin> lc_cell ` set as \<Longrightarrow>
   cells_of (as @ [\<lparr>lc_cell = c, lc_editID = e, lc_value = v\<rparr>]) = (cells_of as)(c \<mapsto> (e, v))"
  by (induction as) (auto simp: cells_of_def)

lemma map_of_perm: "distinct (map fst xs) \<Longrightarrow> mset xs = mset ys \<Longrightarrow> map_of xs = map_of ys"
proof (rule ext)
  fix k
  assume a: "distinct (map fst xs)" "mset xs = mset ys"
  then have d: "distinct (map fst ys)" by (metis mset_eq_imp_distinct_iff mset_map)
  have "set xs = set ys" using a(2) by (rule mset_eq_setD)
  then have "map_of xs k = Some v \<longleftrightarrow> map_of ys k = Some v" for v
    using map_of_eq_Some_iff [OF a(1)] map_of_eq_Some_iff [OF d] by simp
  then show "map_of xs k = map_of ys k" by (metis not_None_eq)
qed

lemma detach_perm: "i < length xs \<Longrightarrow> mset xs = mset (xs ! i # butlast (xs[i := last xs]))"
proof -
  assume i: "i < length xs"
  then obtain ys z where x: "xs = ys @ [z]" by (metis length_0_conv not_less_zero rev_exhaust)
  show ?thesis
  proof (cases "i = length ys")
    case False
    then have "i < length ys" using i x by simp
    then show ?thesis by (simp add: x list_update_append nth_append mset_update)
  qed (simp add: x)
qed

lemma cells_detach:
  assumes "distinct (map lc_cell as)" "cell_index c as = Some i"
  defines "bs \<equiv> butlast (as[i := last as])"
  shows "cells_of bs = (cells_of as)(c := None) \<and> distinct (map lc_cell bs) \<and> set bs \<subseteq> set as"
proof -
  let ?e = "\<lambda>a. (lc_cell a, (lc_editID a, lc_value a))"
  have i: "i < length as" "lc_cell (as ! i) = c" using cell_index_Some [OF assms(2)] by simp_all
  have m: "mset as = mset (as ! i # bs)" unfolding bs_def by (rule detach_perm [OF i(1)])
  have "mset (map lc_cell as) = mset (map lc_cell (as ! i # bs))" using m by (metis mset_map)
  then have d: "distinct (c # map lc_cell bs)" using assms(1) i(2) mset_eq_imp_distinct_iff by fastforce
  have "map_of (map ?e as) = map_of (map ?e (as ! i # bs))"
    by (rule map_of_perm) (use assms(1) m in \<open>simp_all add: comp_def\<close>)
  moreover have "cells_of bs c = None" using d by (simp add: cells_index cell_index_None)
  ultimately have "cells_of bs = (cells_of as)(c := None)"
    unfolding cells_of_def using i(2) by (auto simp: fun_eq_iff)
  then show ?thesis using d m by (metis distinct.simps(2) mset_eq_setD set_subset_Cons)
qed

lemma detachCell_spec:
  assumes "locus_ok loc"
  shows "cells (detachCell c loc) = (cells loc)(c := None) \<and> locus_ok (detachCell c loc) \<and> same_locus (detachCell c loc) loc"
proof (cases "cell_index c (attached loc)")
  case None
  then have "cells loc c = None" by (simp only: cells_index option.map)
  then have "cells loc = (cells loc)(c := None)" by (auto simp: fun_eq_iff)
  then show ?thesis using None assms by (simp add: detachCell_def same_locus_def)
next
  case (Some i)
  have "distinct (map lc_cell (attached loc))" using assms by (simp add: locus_ok_def)
  note h = cells_detach [OF this Some]
  then show ?thesis using assms Some by (auto simp: detachCell_def locus_ok_def same_locus_def)
qed

section \<open>Deliveries to cells\<close>

text \<open>What one op means for the cells: the content is \<open>None\<close> for a delete.\<close>

definition locus_step :: "int \<times> uid \<times> 'v outcome option \<Rightarrow> (int \<rightharpoonup> uid \<times> 'v) \<Rightarrow> (int \<rightharpoonup> uid \<times> 'v)" where
  "locus_step d m =
     (let (c, e, x) = d
      in if (case m c of None \<Rightarrow> False | Some (e', _) \<Rightarrow> e \<le> e') then m
         else case x of None \<Rightarrow> m(c := None) | Some (Inl _) \<Rightarrow> m | Some (Inr v) \<Rightarrow> m(c \<mapsto> (e, v)))"

definition locus_admits :: "'v locus_binding \<Rightarrow> address \<Rightarrow> bool" where
  "locus_admits loc addr \<longleftrightarrow> NodeID addr = loc_nodeID loc \<and> LocusMatch (NameID (loc_Base loc)) (AttrID addr) \<and>
     LocusCell (AttrID addr) < loc_Max loc"

fun locus_deliveries ::
  "(byte list \<Rightarrow> 'v outcome) \<Rightarrow> 'v locus_binding \<Rightarrow> tx_msg \<Rightarrow> nat \<Rightarrow> tx_op list
     \<Rightarrow> (int \<times> uid \<times> 'v outcome option) list" where
  "locus_deliveries unmarshal loc tx idx [] = []"
| "locus_deliveries unmarshal loc tx idx (op # ops) =
     (if locus_admits loc (Addr op)
      then [(LocusCell (AttrID (Addr op)), EditID (Addr op), op_content unmarshal tx idx op)] else [])
     @ locus_deliveries unmarshal loc tx (Suc idx) ops"

definition locus_all_deliveries ::
  "(byte list \<Rightarrow> 'v outcome) \<Rightarrow> 'v locus_binding \<Rightarrow> node_update list \<Rightarrow> (int \<times> uid \<times> 'v outcome option) list" where
  "locus_all_deliveries unmarshal loc us =
     concat (map (\<lambda>u. locus_deliveries unmarshal loc (NU_Tx u) 0 (Ops (NU_Tx u))) us)"

definition locus_receive ::
  "(byte list \<Rightarrow> 'v outcome) \<Rightarrow> 'v \<Rightarrow> node_update list \<Rightarrow> 'v locus_binding \<Rightarrow> 'v locus_binding" where
  "locus_receive unmarshal zero us loc = fold (\<lambda>u l. fst (locus_OnNodeUpdate unmarshal zero u l)) us loc"

lemma locus_deliveries_same: "same_locus a b \<Longrightarrow> locus_deliveries unmarshal a tx idx ops = locus_deliveries unmarshal b tx idx ops"
proof -
  assume "same_locus a b"
  then have "locus_admits a = locus_admits b" by (simp add: fun_eq_iff locus_admits_def same_locus_def)
  then show ?thesis by (induction ops arbitrary: idx) simp_all
qed

lemma same_locus_trans: "same_locus a b \<Longrightarrow> same_locus b c \<Longrightarrow> same_locus a c"
  by (simp add: same_locus_def)

lemma locus_op_rejects: "\<not> locus_admits loc (Addr op) \<Longrightarrow> locus_op unmarshal zero tx idx op loc = (loc, [])"
  by (auto simp: locus_op_def locus_admits_def Let_def)

lemma locus_op_step:
  assumes "locus_ok loc" "locus_admits loc (Addr op)"
  shows "cells (fst (locus_op unmarshal zero tx idx op loc))
       = locus_step (LocusCell (AttrID (Addr op)), EditID (Addr op), op_content unmarshal tx idx op) (cells loc)
     \<and> locus_ok (fst (locus_op unmarshal zero tx idx op loc)) \<and> same_locus (fst (locus_op unmarshal zero tx idx op loc)) loc"
proof -
  let ?c = "LocusCell (AttrID (Addr op))" and ?e = "EditID (Addr op)"
  let ?att = "cell_index ?c (attached loc)"
  let ?stale = "case ?att of None \<Rightarrow> False | Some i \<Rightarrow> CompareTo (lc_editID (attached loc ! i)) ?e \<ge> 0"
  have g: "NodeID (Addr op) = loc_nodeID loc" "LocusMatch (NameID (loc_Base loc)) (AttrID (Addr op))" "\<not> loc_Max loc \<le> ?c"
    using assms(2) by (simp_all add: locus_admits_def)
  have st: "?stale \<longleftrightarrow> (case cells loc ?c of None \<Rightarrow> False | Some (e', _) \<Rightarrow> ?e \<le> e')"
    by (cases ?att) (simp_all add: cells_index CompareTo_simps)
  have same: "same_locus loc loc" by (simp add: same_locus_def)
  consider "?stale" | "\<not> ?stale" "op_is_delete op" | e where "\<not> ?stale" "\<not> op_is_delete op" "UnmarshalOpValue unmarshal tx (int idx) = Inl e"
    | v where "\<not> ?stale" "\<not> op_is_delete op" "UnmarshalOpValue unmarshal tx (int idx) = Inr v"
    by (cases "UnmarshalOpValue unmarshal tx (int idx)") auto
  then show ?thesis
  proof cases
    case 1
    then have "fst (locus_op unmarshal zero tx idx op loc) = loc"
      using g by (simp add: locus_op_def findCell_def Let_def)
    then show ?thesis using 1 st assms(1) same by (simp add: locus_step_def)
  next
    case 2
    then have "fst (locus_op unmarshal zero tx idx op loc) = detachCell ?c loc"
      using g by (simp add: locus_op_def findCell_def Let_def)
    then show ?thesis using 2 st detachCell_spec [OF assms(1)] by (simp add: locus_step_def op_content_def)
  next
    case 3
    then have "fst (locus_op unmarshal zero tx idx op loc) = loc"
      using g by (simp add: locus_op_def findCell_def Let_def)
    then show ?thesis using 3 st assms(1) same by (simp add: locus_step_def op_content_def)
  next
    case (4 v)
    let ?l = "fst (locus_op unmarshal zero tx idx op loc)"
    have "cells ?l = (cells loc)(?c \<mapsto> (?e, v)) \<and> locus_ok ?l \<and> same_locus ?l loc"
    proof (cases ?att)
      case None
      then have n: "?c \<notin> lc_cell ` set (attached loc)" by (simp add: cell_index_None)
      have l: "?l = loc\<lparr>attached := attached loc @ [\<lparr>lc_cell = ?c, lc_editID = ?e, lc_value = v\<rparr>]\<rparr>"
        using 4 g None by (simp add: locus_op_def findCell_def Let_def)
      show ?thesis unfolding l using n assms(1) g(3) by (simp add: cells_append locus_ok_def same_locus_def)
    next
      case (Some i)
      have l: "?l = loc\<lparr>attached := (attached loc)[i := (attached loc ! i)\<lparr>lc_editID := ?e, lc_value := v\<rparr>]\<rparr>"
        using 4 g Some by (simp add: locus_op_def findCell_def Let_def)
      have "map lc_cell (attached ?l) = map lc_cell (attached loc)" "loc_Max ?l = loc_Max loc"
        unfolding l by (simp_all add: map_update list_update_same_conv cell_index_Some [OF Some])
      then have "locus_ok ?l" using assms(1) unfolding locus_ok_def set_map [symmetric] by (simp only: simp_thms) blast
      then show ?thesis unfolding l by (simp add: cells_update [OF Some] same_locus_def)
    qed
    then show ?thesis using 4 st by (simp add: locus_step_def op_content_def)
  qed
qed


lemma locus_ops_step:
  "locus_ok loc \<Longrightarrow>
   cells (fst (locus_ops unmarshal zero tx idx ops loc))
     = fold locus_step (locus_deliveries unmarshal loc tx idx ops) (cells loc)
   \<and> locus_ok (fst (locus_ops unmarshal zero tx idx ops loc)) \<and> same_locus (fst (locus_ops unmarshal zero tx idx ops loc)) loc"
proof (induction ops arbitrary: idx loc)
  case Nil
  then show ?case by (simp add: same_locus_def)
next
  case (Cons op ops)
  let ?l = "fst (locus_op unmarshal zero tx idx op loc)"
  have st: "fst (locus_ops unmarshal zero tx idx (op # ops) loc) = fst (locus_ops unmarshal zero tx (Suc idx) ops ?l)"
    by (simp add: case_prod_beta Let_def)
  show ?case
  proof (cases "locus_admits loc (Addr op)")
    case False
    then show ?thesis using Cons.IH [OF Cons.prems, of "Suc idx"] unfolding st
      by (simp add: locus_op_rejects del: locus_ops.simps)
  next
    case True
    note h = locus_op_step [OF Cons.prems True, of unmarshal zero tx idx]
    then have l: "locus_ok ?l" "same_locus ?l loc" by blast+
    show ?thesis using Cons.IH [OF l(1), of "Suc idx"] h True unfolding st locus_deliveries_same [OF l(2)]
      by (simp add: same_locus_def del: locus_ops.simps)
  qed
qed

lemma locus_OnNodeUpdate_step:
  assumes "locus_ok loc" "NU_NodeID u = loc_nodeID loc"
  shows "cells (fst (locus_OnNodeUpdate unmarshal zero u loc))
       = fold locus_step (locus_deliveries unmarshal loc (NU_Tx u) 0 (Ops (NU_Tx u))) (cells loc)
     \<and> locus_ok (fst (locus_OnNodeUpdate unmarshal zero u loc)) \<and> same_locus (fst (locus_OnNodeUpdate unmarshal zero u loc)) loc"
proof -
  let ?b = "loc\<lparr>loc_revision := NU_Revision u\<rparr>"
  have c: "same_locus ?b loc" "cells ?b = cells loc" "locus_ok ?b"
    using assms(1) by (simp_all add: same_locus_def locus_ok_def)
  have f: "fst (locus_OnNodeUpdate unmarshal zero u loc) = fst (locus_ops unmarshal zero (NU_Tx u) 0 (Ops (NU_Tx u)) ?b)"
    using assms(2) by (simp add: locus_OnNodeUpdate_def Let_def case_prod_beta)
  show ?thesis
    using locus_ops_step [OF c(3), of unmarshal zero "NU_Tx u" 0 "Ops (NU_Tx u)"] c(1,2)
    unfolding f locus_deliveries_same [OF c(1)] by (simp add: same_locus_def)
qed

lemma locus_receive_step:
  "locus_ok loc \<Longrightarrow> list_all (\<lambda>u. NU_NodeID u = loc_nodeID loc) us \<Longrightarrow>
   cells (locus_receive unmarshal zero us loc) = fold locus_step (locus_all_deliveries unmarshal loc us) (cells loc)
   \<and> locus_ok (locus_receive unmarshal zero us loc) \<and> same_locus (locus_receive unmarshal zero us loc) loc"
proof (induction us arbitrary: loc)
  case Nil
  then show ?case by (simp add: locus_receive_def locus_all_deliveries_def same_locus_def)
next
  case (Cons u us)
  let ?l = "fst (locus_OnNodeUpdate unmarshal zero u loc)"
  have u: "NU_NodeID u = loc_nodeID loc" using Cons.prems(2) by simp
  note h = locus_OnNodeUpdate_step [OF Cons.prems(1) u, of unmarshal zero]
  then have l: "locus_ok ?l" "same_locus ?l loc" by blast+
  have a: "list_all (\<lambda>u. NU_NodeID u = loc_nodeID ?l) us" using Cons.prems(2) l(2) by (simp add: same_locus_def)
  have d: "locus_all_deliveries unmarshal ?l us = locus_all_deliveries unmarshal loc us"
    by (simp add: locus_all_deliveries_def locus_deliveries_same [OF l(2)])
  show ?case using Cons.IH [OF l(1) a] h d
    by (simp add: locus_receive_def locus_all_deliveries_def same_locus_def)
qed

section \<open>Upserts are last writer wins\<close>

definition upserts :: "int \<times> uid \<times> 'v outcome option \<Rightarrow> bool" where
  "upserts d \<longleftrightarrow> (case snd (snd d) of Some (Inr _) \<Rightarrow> True | _ \<Rightarrow> False)"

text \<open>A delivery to a cell as a delivery to the attribute identifier of the cell.\<close>

definition keyed :: "uid \<Rightarrow> int \<times> uid \<times> 'v outcome option \<Rightarrow> 'v delivery" where
  "keyed base d = (WithCell base (fst d), fst (snd d), projr (the (snd (snd d))))"

lemma WithCell_inject: "aligned base \<Longrightarrow> 0 \<le> a \<Longrightarrow> a < 64 \<Longrightarrow> 0 \<le> b \<Longrightarrow> b < 64 \<Longrightarrow> WithCell base a = WithCell base b \<longleftrightarrow> a = b"
  using LocusCell_WithCell [of base a] LocusCell_WithCell [of base b] by (metis mod_pos_pos_trivial)

lemma upserts_shape: "upserts d \<Longrightarrow> \<exists>a e v. d = (a, e, Some (Inr v))"
  by (cases d) (auto simp: upserts_def split: option.splits sum.splits)

lemma locus_step_lww:
  assumes "aligned base" "upserts d" "0 \<le> fst d" "fst d < 64" "0 \<le> c" "c < 64"
    and "\<forall>c. 0 \<le> c \<longrightarrow> c < 64 \<longrightarrow> m' (WithCell base c) = m c"
  shows "lww_step (keyed base d) m' (WithCell base c) = locus_step d m c"
proof -
  obtain a e v where d: "d = (a, e, Some (Inr v))"
    using upserts_shape [OF assms(2)] by blast
  have m: "m' (WithCell base a) = m a" "m' (WithCell base c) = m c" using assms d by simp_all
  have i: "WithCell base c = WithCell base a \<longleftrightarrow> c = a" using WithCell_inject assms d by simp
  show ?thesis unfolding d keyed_def lww_step_at fst_conv snd_conv option.sel sum.sel i m
    by (auto simp: locus_step_def m split: option.splits)
qed

lemma locus_fold_lww:
  assumes "aligned base" "0 \<le> c" "c < 64"
  shows "list_all (\<lambda>d. upserts d \<and> 0 \<le> fst d \<and> fst d < 64) ds \<Longrightarrow>
    \<forall>c. 0 \<le> c \<longrightarrow> c < 64 \<longrightarrow> m' (WithCell base c) = m c \<Longrightarrow>
    fold lww_step (map (keyed base) ds) m' (WithCell base c) = fold locus_step ds m c"
proof (induction ds arbitrary: m m')
  case Nil
  then show ?case using assms by simp
next
  case (Cons d ds)
  have "\<forall>c. 0 \<le> c \<longrightarrow> c < 64 \<longrightarrow> lww_step (keyed base d) m' (WithCell base c) = locus_step d m c"
    by (intro allI impI locus_step_lww [OF assms(1)]) (use Cons.prems in simp_all)
  then show ?case using Cons.IH Cons.prems(1) by simp
qed

lemma deliveries_in_span: "list_all (\<lambda>d. 0 \<le> fst d \<and> fst d < 64 \<and> fst d < loc_Max loc) (locus_all_deliveries unmarshal loc us)"
proof -
  have "list_all (\<lambda>d. 0 \<le> fst d \<and> fst d < 64 \<and> fst d < loc_Max loc) (locus_deliveries unmarshal loc tx idx ops)" for tx idx ops
    by (induction ops arbitrary: idx) (simp_all add: locus_admits_def)
  then show ?thesis by (simp add: locus_all_deliveries_def list_all_iff)
qed


section \<open>Properties\<close>

lemma aligned_nil: "aligned nilUID"
  by (simp add: aligned_def nilUID_def)

definition spanned :: "(int \<times> uid \<times> 'v outcome option) list \<Rightarrow> bool" where
  "spanned D \<longleftrightarrow> list_all (\<lambda>d. upserts d \<and> 0 \<le> fst d \<and> fst d < 64) D"

lemma keyed_mem:
  assumes "spanned D" "0 \<le> c" "c < 64"
  shows "(WithCell nilUID c, e, v) \<in> set (map (keyed nilUID) D) \<longleftrightarrow> (c, e, Some (Inr v)) \<in> set D"
proof -
  have "keyed nilUID d = (WithCell nilUID c, e, v) \<longleftrightarrow> d = (c, e, Some (Inr v))" if d: "d \<in> set D" for d
  proof -
    have u: "upserts d" "0 \<le> fst d" "fst d < 64" using assms(1) d by (auto simp: spanned_def list_all_iff)
    then obtain a f w where s: "d = (a, f, Some (Inr w))" using upserts_shape by blast
    show ?thesis using WithCell_inject [OF aligned_nil, of a c] assms(2,3) u by (simp add: s keyed_def)
  qed
  then show ?thesis unfolding set_map image_iff by (metis (no_types, lifting))
qed

lemma keyed_order:
  assumes "spanned D" "set D = set E" "\<forall>x \<in> set D. \<forall>y \<in> set D. fst x = fst y \<and> fst (snd x) = fst (snd y) \<longrightarrow> x = y"
  shows "fold lww_step (map (keyed nilUID) D) Map.empty = fold lww_step (map (keyed nilUID) E) Map.empty"
proof -
  have "\<forall>x \<in> set (map (keyed nilUID) D). \<forall>y \<in> set (map (keyed nilUID) D). same_edit_same_content x y"
  proof (intro ballI)
    fix x y assume "x \<in> set (map (keyed nilUID) D)" "y \<in> set (map (keyed nilUID) D)"
    then obtain d f where d: "d \<in> set D" "x = keyed nilUID d" "f \<in> set D" "y = keyed nilUID f" by auto
    then have "WithCell nilUID (fst d) = WithCell nilUID (fst f) \<longleftrightarrow> fst d = fst f"
      using assms(1) WithCell_inject [OF aligned_nil, of "fst d" "fst f"] by (auto simp: spanned_def list_all_iff)
    then show "same_edit_same_content x y"
      using assms(3) d by (auto simp: same_edit_same_content_def keyed_def)
  qed
  from lww.delivery_order [OF this, of "map (keyed nilUID) E"] assms(2) show ?thesis by simp
qed

lemma keyed_winner:
  assumes "spanned D" "0 \<le> c" "c < 64"
  shows "fold lww_step (map (keyed nilUID) D) Map.empty (WithCell nilUID c) = Some (e, v) \<Longrightarrow>
      (c, e, Some (Inr v)) \<in> set D \<and> (\<forall>e' x. (c, e', x) \<in> set D \<longrightarrow> e' \<le> e)"
    "fold lww_step (map (keyed nilUID) D) Map.empty (WithCell nilUID c) = None \<Longrightarrow> (c, e, x) \<notin> set D"
proof -
  note mem = keyed_mem [OF assms]
  have some: "\<exists>w. x = Some (Inr w)" if "(c, e, x) \<in> set D" for e x
    using assms(1) that upserts_shape [of "(c, e, x)"] by (auto simp: spanned_def list_all_iff)
  show "(c, e, Some (Inr v)) \<in> set D \<and> (\<forall>e' x. (c, e', x) \<in> set D \<longrightarrow> e' \<le> e)"
    if w: "fold lww_step (map (keyed nilUID) D) Map.empty (WithCell nilUID c) = Some (e, v)"
    using lww_winner [OF w] mem some by blast
  show "(c, e, x) \<notin> set D" if n: "fold lww_step (map (keyed nilUID) D) Map.empty (WithCell nilUID c) = None"
    using n some mem by (metis lww_present)
qed

lemma locus_receive_lww:
  assumes "attached loc = []" "list_all (\<lambda>u. NU_NodeID u = loc_nodeID loc) us"
    "list_all upserts (locus_all_deliveries unmarshal loc us)" "0 \<le> c" "c < 64"
  shows "locus_ok (locus_receive unmarshal zero us loc) \<and> spanned (locus_all_deliveries unmarshal loc us)
    \<and> GetCell (locus_receive unmarshal zero us loc) c
      = map_option snd (fold lww_step (map (keyed nilUID) (locus_all_deliveries unmarshal loc us)) Map.empty (WithCell nilUID c))"
proof -
  have ok: "locus_ok loc" and c0: "cells loc = Map.empty" using assms(1) by (simp_all add: locus_ok_def cells_of_def)
  have span: "list_all (\<lambda>d. upserts d \<and> 0 \<le> fst d \<and> fst d < 64) (locus_all_deliveries unmarshal loc us)"
    using deliveries_in_span [of loc unmarshal us] assms(3) by (auto simp: list_all_iff)
  note r = locus_receive_step [OF ok assms(2), of unmarshal zero]
  show ?thesis
    using r span locus_fold_lww [OF aligned_nil assms(4,5) span, of Map.empty Map.empty]
    by (simp add: GetCell_cells c0 spanned_def)
qed

text \<open>C19. A locus that receives upserts only is a last-writer-wins store: after any run of updates a
  cell holds the value of the delivery with the greatest edit identifier for it, a cell without
  delivery is free, the cells stay distinct and below the maximum, and a replica that receives the same
  updates in another order, or some of them again, holds the same cells.\<close>

theorem Locus_upserts_converge:
  assumes "attached loc = []" "list_all (\<lambda>u. NU_NodeID u = loc_nodeID loc) us"
    and "list_all upserts (locus_all_deliveries unmarshal loc us)"
    and "\<forall>x \<in> set (locus_all_deliveries unmarshal loc us). \<forall>y \<in> set (locus_all_deliveries unmarshal loc us).
           fst x = fst y \<and> fst (snd x) = fst (snd y) \<longrightarrow> x = y"
    and "set us = set vs" "0 \<le> c" "c < 64"
  shows "(GetCell (locus_receive unmarshal zero us loc) c = Some v \<longrightarrow>
            (\<exists>e. (c, e, Some (Inr v)) \<in> set (locus_all_deliveries unmarshal loc us) \<and>
                 (\<forall>e' x. (c, e', x) \<in> set (locus_all_deliveries unmarshal loc us) \<longrightarrow> e' \<le> e)))
       \<and> (GetCell (locus_receive unmarshal zero us loc) c = None \<longrightarrow>
            (\<forall>e x. (c, e, x) \<notin> set (locus_all_deliveries unmarshal loc us)))
       \<and> locus_ok (locus_receive unmarshal zero us loc)
       \<and> GetCell (locus_receive unmarshal zero us loc) c = GetCell (locus_receive unmarshal zero vs loc) c"
proof -
  let ?D = "locus_all_deliveries unmarshal loc us" and ?E = "locus_all_deliveries unmarshal loc vs"
  have vs: "list_all (\<lambda>u. NU_NodeID u = loc_nodeID loc) vs" using assms(2,5) by (simp add: list_all_iff)
  have DE: "set ?D = set ?E" using assms(5) by (simp add: locus_all_deliveries_def)
  then have "list_all upserts ?E" using assms(3) by (simp add: list_all_iff)
  note ru = locus_receive_lww [OF assms(1-3,6,7), of zero] and rv = locus_receive_lww [OF assms(1) vs this assms(6,7), of zero]
  have span: "spanned ?D" using ru by blast
  note won = keyed_winner [OF span assms(6,7)]
  have live: "\<exists>e. (c, e, Some (Inr v)) \<in> set ?D \<and> (\<forall>e' x. (c, e', x) \<in> set ?D \<longrightarrow> e' \<le> e)"
    if "GetCell (locus_receive unmarshal zero us loc) c = Some v"
    using that ru won(1) by auto
  have free: "(c, e, x) \<notin> set ?D" if "GetCell (locus_receive unmarshal zero us loc) c = None" for e x
    using that ru won(2) by simp
  show ?thesis using live free ru rv keyed_order [OF span DE assms(4)] by simp
qed

definition toy_locus :: "byte locus_binding" where
  "toy_locus = (NewLocusBinding \<lparr>NameID = UID 1 0, Text = []\<rparr>)\<lparr>loc_nodeID := UID 1 1\<rparr>"

lemma toy_locus_deliveries:
  "locus_all_deliveries toy_decode toy_locus [toy_update 1 0 5, toy_update 2 0 6] =
     [(2, UID 0 1, Some (Inr 5)), (2, UID 0 2, Some (Inr 6))]"
  by code_simp

theorem Locus_upserts_converge_witness:
  "GetCell (locus_receive toy_decode 0 [toy_update 1 0 5, toy_update 2 0 6] toy_locus) 2
     = GetCell (locus_receive toy_decode 0 [toy_update 2 0 6, toy_update 1 0 5, toy_update 2 0 6] toy_locus) 2"
  by (rule Locus_upserts_converge [THEN conjunct2, THEN conjunct2, THEN conjunct2])
    (unfold toy_locus_deliveries, auto simp: toy_locus_def NewLocusBinding_def toy_update_def upserts_def)

text \<open>A delete forgets its edit identifier: an older upsert that arrives after the delete, or arrives
  again, brings the cell back, so replicas that received the same two updates disagree for ever.  The
  attribute binding of the same updates drops the item in every order.\<close>

theorem deleted_cell_returns:
  "GetCell (locus_receive toy_decode 0 [toy_update 1 0 5, toy_update 2 8 0] toy_locus) 2 = None
   \<and> GetCell (locus_receive toy_decode 0 [toy_update 2 8 0, toy_update 1 0 5] toy_locus) 2 = Some 5
   \<and> GetCell (locus_receive toy_decode 0 [toy_update 1 0 5, toy_update 2 8 0, toy_update 1 0 5] toy_locus) 2 = Some 5
   \<and> GetItem (receive toy_decode 0 [toy_update 1 0 5, toy_update 2 8 0] toy_binding) (UID 1 3) = None
   \<and> GetItem (receive toy_decode 0 [toy_update 2 8 0, toy_update 1 0 5] toy_binding) (UID 1 3) = None"
  by code_simp

text \<open>C34. A write goes round: the transaction of \<open>UpsertCell\<close> puts the value into the cell it
  names, when the edit is newer than the cell's, and into no other; the cell number is taken modulo 64, so a
  number outside the span names another cell.\<close>

theorem UpsertCell_delivers:
  assumes "UpsertCell check marshal loc tx c val = (tx', Inr ())" "Ops tx = []" "length (DataStore tx') < 2 ^ 64"
    and "locus_ok loc" "aligned (NameID (loc_Base loc))" "c mod 64 < loc_Max loc"
    and "\<forall>b. marshal val = Inr b \<longrightarrow> unmarshal b = Inr val"
    and "\<forall>e w. cells loc (c mod 64) = Some (e, w) \<longrightarrow> e < TxID (TxEnvelope tx)"
    and "NU_Tx u = tx'" "NU_NodeID u = loc_nodeID loc"
  shows "GetCell (fst (locus_OnNodeUpdate unmarshal zero u loc)) k
    = (if k = c mod 64 then Some val else GetCell loc k)"
proof -
  let ?a = "WithCell (NameID (loc_Base loc)) c"
  have "Upsert check marshal tx (loc_nodeID loc) ?a nilUID (Some val) = (tx', Inr ())"
    using assms(1) by (auto simp: UpsertCell_def split: if_splits)
  then obtain op where mo: "MarshalOp check marshal tx \<lparr>Addr = \<lparr>NodeID = loc_nodeID loc, AttrID = ?a, ItemID = nilUID, EditID = nilUID\<rparr>,
      Flags = 4, Logical = 0, DataOfs = 0, DataLen = 0\<rparr> (Some val) = ((tx', op), Inr ())"
    unfolding Upsert_def by (auto simp: Let_def split: prod.splits)
  have ops: "Ops tx' = [op]" "Addr op = \<lparr>NodeID = loc_nodeID loc, AttrID = ?a, ItemID = nilUID, EditID = TxID (TxEnvelope tx)\<rparr>"
    "Flags op = 4"
    using mo assms(2) by (auto simp: MarshalOp_def Let_def split: sum.splits)
  obtain b where b: "marshal val = Inr b"
    using mo by (auto simp: MarshalOp_def Let_def outcome_simps split: sum.splits)
  have "OpValueBytes tx' 0 = Inr b" using MarshalOp_reads_back [OF mo assms(3)] assms(2) b by simp
  then have v: "UnmarshalOpValue unmarshal tx' 0 = Inr val" using assms(7) b by (simp add: UnmarshalOpValue_def)
  have adm: "locus_admits loc (Addr op)"
    using assms(5,6) by (simp add: ops locus_admits_def LocusMatch_WithCell LocusCell_WithCell)
  have "locus_deliveries unmarshal loc tx' 0 (Ops tx') = [(c mod 64, TxID (TxEnvelope tx), Some (Inr val))]"
    using adm v assms(5) by (simp add: ops op_content_def op_is_delete_def LocusCell_WithCell)
  then have "cells (fst (locus_OnNodeUpdate unmarshal zero u loc))
      = locus_step (c mod 64, TxID (TxEnvelope tx), Some (Inr val)) (cells loc)"
    using locus_OnNodeUpdate_step [OF assms(4,10), of unmarshal zero] by (simp add: assms(9))
  then show ?thesis using assms(8)
    by (auto simp: GetCell_cells locus_step_def split: option.splits)
qed

definition cell_tx :: tx_msg where
  "cell_tx = TxNew\<lparr>TxEnvelope := SetTxID (UID 0 7) (TxEnvelope TxNew)\<rparr>"

theorem UpsertCell_delivers_witness:
  "GetCell (fst (locus_OnNodeUpdate Inr []
       \<lparr>NU_NodeID = UID 1 1, NU_Revision = UID 0 9,
        NU_Tx = fst (UpsertCell (\<lambda>_. Inr ()) Inr ((NewLocusBinding \<lparr>NameID = UID 1 0, Text = []\<rparr>)\<lparr>loc_nodeID := UID 1 1\<rparr>) cell_tx 66 [5])\<rparr>
       ((NewLocusBinding \<lparr>NameID = UID 1 0, Text = []\<rparr>)\<lparr>loc_nodeID := UID 1 1\<rparr>))) 2 = Some [5]"
proof -
  let ?l = "(NewLocusBinding \<lparr>NameID = UID 1 0, Text = []\<rparr>)\<lparr>loc_nodeID := UID 1 1\<rparr> :: byte list locus_binding"
  let ?t = "UpsertCell (\<lambda>_. Inr ()) Inr ?l cell_tx 66 [5]"
  have t: "?t = (fst ?t, Inr ())" "length (DataStore (fst ?t)) < 2 ^ 64"
    by (simp_all add: UpsertCell_def Upsert_def MarshalOp_def Let_def cell_tx_def TxNew_def IsNil_def NewLocusBinding_def)
  show ?thesis
    by (subst UpsertCell_delivers [OF t(1) _ t(2)])
      (simp_all add: cell_tx_def TxNew_def NewLocusBinding_def locus_ok_def aligned_def locusDefaultMax_def cells_of_def)
qed

text \<open>The layout of a locus: the spiral lists every cell of the hexagon of radius three exactly once,
  ring by ring, each next to its predecessor on the ring, and \<open>cellToRing\<close> finds the ring and the
  position in it for every cell number below \<open>2 ^ 60\<close>.\<close>

theorem hex_layout:
  "set LocusHexSpiral = {(q, r). \<bar>q\<bar> \<le> 3 \<and> \<bar>r\<bar> \<le> 3 \<and> \<bar>q + r\<bar> \<le> 3}
   \<and> length LocusHexSpiral = locusHexCells \<and> distinct LocusHexSpiral
   \<and> list_all (\<lambda>c. map_option fst (cellToRing (int c)) = Some (hex_distance (LocusHexSpiral ! c))) [1..<37]
   \<and> list_all (\<lambda>c. let p = LocusHexSpiral ! c; q = LocusHexSpiral ! (c + 1)
                   in hex_distance p \<noteq> hex_distance q \<or> hex_distance (fst p - fst q, snd p - snd q) = 1) [0..<36]
   \<and> (0 < c \<and> c < 2 ^ 60 \<longrightarrow>
       (\<exists>ring idx. cellToRing c = Some (ring, idx) \<and> 1 \<le> ring \<and> 0 \<le> idx \<and> idx < 6 * ring \<and>
          c = 1 + 3 * ring * (ring - 1) + idx))"
  using spiral_covers spiral_rings cellToRing_spec by blast

theorem hex_layout_witness: "\<exists>ring idx. cellToRing 20 = Some (ring, idx) \<and> 0 \<le> idx \<and> idx < 6 * ring"
  using hex_layout [of 20] by auto

end
