(* ===== verification/Registry.thy ===== *)
theory Registry
  imports Enclave BlobMeta Locus
begin

text \<open>
  The registries of pluggable kits: \<open>stdlib/safe/registry.go\<close>, the hash kits of
  \<open>stdlib/safe/safe.support.go\<close>, the calls of \<open>stdlib/safe/api.safe.go\<close> that go through a kit, the
  locus kits of \<open>stdlib/tag/tag.locus.go\<close>, and the identifiers of attestations
  (\<open>amp/amp.support.ledger.go\<close>).  A descriptor is registered by pointer; the pointer is its address
  with the immutable descriptor behind it.
\<close>

section \<open>The generic registry\<close>

record 'a pointer =
  address_of :: nat
  pointee :: 'a

type_synonym ('k, 'p) registry = "'k \<rightharpoonup> 'p option"

definition newRegistry :: "('k, 'p) registry" where
  "newRegistry = Map.empty"

text \<open>Indexing a Go map yields nil for an absent key.\<close>

definition reg_at :: "('k, 'p) registry \<Rightarrow> 'k \<Rightarrow> 'p option" where
  "reg_at reg key = (case reg key of None \<Rightarrow> None | Some p \<Rightarrow> p)"

definition Register :: "'k \<Rightarrow> 'p option \<Rightarrow> ('k, 'p) registry \<Rightarrow> ('k, 'p) registry outcome" where
  "Register key val reg =
     (if reg_at reg key \<noteq> None \<and> reg_at reg key \<noteq> val then Inl AlreadyRegistered
      else Inr (reg(key \<mapsto> val)))"

definition Registry_Get :: "('k, 'p) registry \<Rightarrow> 'k \<Rightarrow> 'p outcome" where
  "Registry_Get reg key = (case reg_at reg key of Some p \<Rightarrow> Inr p | None \<Rightarrow> Inl ItemNotFound)"

section \<open>Hash kits\<close>

definition minHashKitDigest :: nat where "minHashKitDigest = 32"

definition HashKitID_Blake2s_256 :: u32 where "HashKitID_Blake2s_256 = 0"
definition HashKitID_SHA2_256 :: u32 where "HashKitID_SHA2_256 = 2"
definition HashKitID_SHA3_256 :: u32 where "HashKitID_SHA3_256 = 3"

record hash_spec =
  hs_ID :: u32
  hs_New :: "byte list \<Rightarrow> byte list"
  hs_Size :: nat

type_synonym hash_kits = "(u32, hash_spec pointer) registry"

definition RegisterHashKit :: "hash_spec pointer \<Rightarrow> hash_kits \<Rightarrow> hash_kits outcome" where
  "RegisterHashKit spec reg =
     (if hs_Size (pointee spec) < minHashKitDigest then Inl BadRequest
      else Register (hs_ID (pointee spec)) (Some spec) reg)"

definition GetHashKit :: "hash_kits \<Rightarrow> u32 \<Rightarrow> hash_spec pointer outcome" where
  "GetHashKit reg hashKitID = Registry_Get reg hashKitID"

definition NewHashKit :: "hash_kits \<Rightarrow> u32 \<Rightarrow> hash_kit outcome" where
  "NewHashKit reg hashKitID =
     and_then (GetHashKit reg hashKitID) (\<lambda>spec.
     Inr \<lparr>HashSz = hs_Size (pointee spec), Sum = hs_New (pointee spec)\<rparr>)"

definition mustRegisterHashKit :: "hash_spec pointer \<Rightarrow> hash_kits \<Rightarrow> hash_kits outcome" where
  "mustRegisterHashKit spec reg = (case RegisterHashKit spec reg of Inl _ \<Rightarrow> Inl Panic | Inr reg' \<Rightarrow> Inr reg')"

text \<open>The registrations of \<open>init\<close>; the three hash functions are third-party code, and the addresses
  are those of three allocations.\<close>

definition init_hash_kits ::
  "(byte list \<Rightarrow> byte list) \<Rightarrow> (byte list \<Rightarrow> byte list) \<Rightarrow> (byte list \<Rightarrow> byte list) \<Rightarrow> nat \<times> nat \<times> nat
     \<Rightarrow> hash_kits \<Rightarrow> hash_kits outcome" where
  "init_hash_kits blake2s sha2 sha3 adr reg =
     (let (a, b, c) = adr in
      and_then (mustRegisterHashKit \<lparr>address_of = a, pointee = \<lparr>hs_ID = HashKitID_Blake2s_256, hs_New = blake2s, hs_Size = 32\<rparr>\<rparr> reg) (\<lambda>reg.
      and_then (mustRegisterHashKit \<lparr>address_of = b, pointee = \<lparr>hs_ID = HashKitID_SHA2_256, hs_New = sha2, hs_Size = 32\<rparr>\<rparr> reg) (\<lambda>reg.
      mustRegisterHashKit \<lparr>address_of = c, pointee = \<lparr>hs_ID = HashKitID_SHA3_256, hs_New = sha3, hs_Size = 32\<rparr>\<rparr> reg)))"

section \<open>Crypto kits\<close>

record crypto_kit = kit +
  ck_ID :: uid
  kit_Verify :: "(byte list \<Rightarrow> byte list \<Rightarrow> byte list \<Rightarrow> unit outcome) option"
  kit_Seal :: "(byte list \<Rightarrow> byte list \<Rightarrow> byte list \<Rightarrow> byte list outcome) option"

type_synonym crypto_kits = "(uid, crypto_kit pointer) registry"

definition RegisterCryptoKit :: "crypto_kit pointer \<Rightarrow> crypto_kits \<Rightarrow> crypto_kits outcome" where
  "RegisterCryptoKit k reg = Register (ck_ID (pointee k)) (Some k) reg"

definition CryptoKit :: "crypto_kits \<Rightarrow> uid \<Rightarrow> crypto_kit pointer outcome" where
  "CryptoKit reg cryptoKitID = Registry_Get reg cryptoKitID"

definition SealFor :: "crypto_kits \<Rightarrow> byte list \<Rightarrow> uid \<Rightarrow> byte list \<Rightarrow> byte list \<Rightarrow> byte list outcome" where
  "SealFor reg rand peerKit peerPubKey msg =
     and_then (CryptoKit reg peerKit) (\<lambda>k.
     case kit_Seal (pointee k) of None \<Rightarrow> Inl Unimplemented | Some seal \<Rightarrow> seal rand msg peerPubKey)"

definition VerifySignature :: "crypto_kits \<Rightarrow> uid \<Rightarrow> byte list \<Rightarrow> byte list \<Rightarrow> byte list \<Rightarrow> unit outcome" where
  "VerifySignature reg cryptoKitID sig digest signerPubKey =
     and_then (CryptoKit reg cryptoKitID) (\<lambda>k.
     case kit_Verify (pointee k) of None \<Rightarrow> Inl Unimplemented | Some verify \<Rightarrow> verify sig digest signerPubKey)"

section \<open>Locus kits\<close>

definition LocusKit_HexSpiral :: int where "LocusKit_HexSpiral = 1"
definition LocusKit_Linear :: int where "LocusKit_Linear = 2"
definition LocusKit_RadialRing :: int where "LocusKit_RadialRing = 3"
definition LocusKit_S2 :: int where "LocusKit_S2 = 4"
definition LocusKit_Torus :: int where "LocusKit_Torus = 5"

record 'l locus_kit =
  lk_ID :: int
  MaxCells :: int
  Layout :: 'l

type_synonym 'l locus_kits = "int \<rightharpoonup> 'l locus_kit pointer"

text \<open>A failed registration leaves the table as it was.\<close>

definition RegisterLocusKit :: "'l locus_kit pointer \<Rightarrow> 'l locus_kits \<Rightarrow> 'l locus_kits outcome" where
  "RegisterLocusKit k reg =
     (case reg (lk_ID (pointee k)) of
        None \<Rightarrow> Inr (reg(lk_ID (pointee k) \<mapsto> k))
      | Some existing \<Rightarrow> if existing \<noteq> k then Inl Other else Inr reg)"

definition GetLocusKit :: "'l locus_kits \<Rightarrow> int \<Rightarrow> 'l locus_kit pointer outcome" where
  "GetLocusKit reg k = (case reg k of None \<Rightarrow> Inl Other | Some p \<Rightarrow> Inr p)"

section \<open>Attestations\<close>

record attestation_key =
  at_Type :: u32
  at_Subject :: uid
  at_CitedTxID :: uid
  at_CitedOpIndex :: u32

definition attestation_bytes :: "attestation_key \<Rightarrow> byte list" where
  "attestation_bytes k = be32 (at_Type k) @ be64 (uid0 (at_Subject k)) @ be64 (uid1 (at_Subject k))
     @ be64 (uid0 (at_CitedTxID k)) @ be64 (uid1 (at_CitedTxID k)) @ be32 (at_CitedOpIndex k)"

text \<open>The error of \<open>NewHashKit\<close> is dropped, so that a missing kit is a call on a nil hasher; a short
  digest is sliced out of range.\<close>

definition AttestationItemID :: "hash_kits \<Rightarrow> attestation_key \<Rightarrow> uid outcome" where
  "AttestationItemID reg k =
     (case NewHashKit reg HashKitID_Blake2s_256 of
        Inl _ \<Rightarrow> Inl Panic
      | Inr kit \<Rightarrow>
          let digest = Sum kit (attestation_bytes k)
          in if length digest < 16 then Inl Panic else Inr (UID (get64 0 digest) (get64 8 digest)))"

section \<open>What a registry promises\<close>

locale kit_table =
  fixes register :: "'p \<Rightarrow> 's \<Rightarrow> 's outcome" and fetch :: "'s \<Rightarrow> 'k \<Rightarrow> 'p outcome" and key :: "'p \<Rightarrow> 'k"
  assumes own: "register p s = Inr s' \<Longrightarrow> fetch s' (key p) = Inr p"
    and others: "register p s = Inr s' \<Longrightarrow> k \<noteq> key p \<Longrightarrow> fetch s' k = fetch s k"
    and taken: "fetch s (key p) = Inr q \<Longrightarrow> register p s = Inr s' \<Longrightarrow> q = p"
begin

text \<open>Registrations in order; one that fails is dropped by its caller.\<close>

fun registers :: "'p list \<Rightarrow> 's \<Rightarrow> 's" where
  "registers [] s = s"
| "registers (p # ps) s = registers ps (case register p s of Inl _ \<Rightarrow> s | Inr s' \<Rightarrow> s')"

lemma first_wins: "fetch s k = Inr q \<Longrightarrow> fetch (registers ps s) k = Inr q"
proof (induction ps arbitrary: s)
  case (Cons p ps)
  have "fetch (case register p s of Inl _ \<Rightarrow> s | Inr s' \<Rightarrow> s') k = Inr q"
  proof (cases "register p s")
    case (Inr s')
    then show ?thesis using Cons.prems own [OF Inr] others [OF Inr] taken [OF _ Inr] by (cases "k = key p") auto
  qed (simp add: Cons.prems)
  then show ?case by (simp add: Cons.IH)
qed simp

lemma fetched_from: "fetch (registers ps s) k = Inr q \<Longrightarrow> fetch s k = Inr q \<or> (q \<in> set ps \<and> (\<exists>s s'. register q s = Inr s'))"
proof (induction ps arbitrary: s)
  case (Cons p ps)
  have h: "fetch (case register p s of Inl _ \<Rightarrow> s | Inr s' \<Rightarrow> s') k = Inr q
      \<or> (q \<in> set ps \<and> (\<exists>s s'. register q s = Inr s'))"
    using Cons by simp
  show ?case
  proof (cases "register p s")
    case (Inr s')
    then show ?thesis using h own [OF Inr] others [OF Inr] by (cases "k = key p") auto
  qed (use h in auto)
qed simp

end

lemma Register_laws:
  "Register k (Some p) s = Inr s' \<Longrightarrow> Registry_Get s' k = Inr p"
  "Register k v s = Inr s' \<Longrightarrow> j \<noteq> k \<Longrightarrow> Registry_Get s' j = Registry_Get s j"
  "Registry_Get s k = Inr q \<Longrightarrow> Register k (Some p) s = Inr s' \<Longrightarrow> q = p"
  by (auto simp: Register_def Registry_Get_def reg_at_def split: if_splits option.splits)

interpretation crypto_table: kit_table RegisterCryptoKit CryptoKit "\<lambda>p. ck_ID (pointee p)"
  by unfold_locales (auto simp: RegisterCryptoKit_def CryptoKit_def intro: Register_laws)

interpretation hash_table: kit_table RegisterHashKit GetHashKit "\<lambda>p. hs_ID (pointee p)"
  by unfold_locales (auto simp: RegisterHashKit_def GetHashKit_def split: if_splits intro: Register_laws)

interpretation locus_table: kit_table RegisterLocusKit GetLocusKit "\<lambda>p. lk_ID (pointee p)"
  by unfold_locales (auto simp: RegisterLocusKit_def GetLocusKit_def split: if_splits option.splits)


section \<open>The start-up tables\<close>

lemma RegisterHashKit_wide: "RegisterHashKit p s = Inr s' \<Longrightarrow> 32 \<le> hs_Size (pointee p)"
  by (auto simp: RegisterHashKit_def minHashKitDigest_def split: if_splits)

lemma init_hash_kits_run:
  "init_hash_kits blake2s sha2 sha3 (a, b, c) newRegistry = Inr
     (hash_table.registers
        [\<lparr>address_of = a, pointee = \<lparr>hs_ID = 0, hs_New = blake2s, hs_Size = 32\<rparr>\<rparr>,
         \<lparr>address_of = b, pointee = \<lparr>hs_ID = 2, hs_New = sha2, hs_Size = 32\<rparr>\<rparr>,
         \<lparr>address_of = c, pointee = \<lparr>hs_ID = 3, hs_New = sha3, hs_Size = 32\<rparr>\<rparr>] newRegistry)"
  by (simp add: init_hash_kits_def mustRegisterHashKit_def RegisterHashKit_def minHashKitDigest_def Register_def
      reg_at_def newRegistry_def HashKitID_Blake2s_256_def HashKitID_SHA2_256_def HashKitID_SHA3_256_def)

definition init_locus_kits :: "'l \<Rightarrow> 'l \<Rightarrow> 'l \<Rightarrow> 'l \<Rightarrow> nat \<times> nat \<times> nat \<times> nat \<Rightarrow> 'l locus_kit pointer list" where
  "init_locus_kits hex linear radial torus adr = (let (a0, a1, a2, a3) = adr in
     [\<lparr>address_of = a0, pointee = \<lparr>lk_ID = LocusKit_HexSpiral, MaxCells = int locusHexCells, Layout = hex\<rparr>\<rparr>,
      \<lparr>address_of = a1, pointee = \<lparr>lk_ID = LocusKit_Linear, MaxCells = locusSpan, Layout = linear\<rparr>\<rparr>,
      \<lparr>address_of = a2, pointee = \<lparr>lk_ID = LocusKit_RadialRing, MaxCells = int locusHexCells, Layout = radial\<rparr>\<rparr>,
      \<lparr>address_of = a3, pointee = \<lparr>lk_ID = LocusKit_Torus, MaxCells = locusSpan, Layout = torus\<rparr>\<rparr>])"

lemma locus_kits_fit:
  "list_all (\<lambda>k. 0 < MaxCells (pointee k) \<and> MaxCells (pointee k) \<le> locusSpan) (init_locus_kits hex linear radial torus adr)
   \<and> GetLocusKit (locus_table.registers (init_locus_kits hex linear radial torus adr) Map.empty) LocusKit_S2 = Inl Other"
  by (cases adr) (simp add: init_locus_kits_def RegisterLocusKit_def GetLocusKit_def locusHexCells_def locusSpan_def
      LocusKit_HexSpiral_def LocusKit_Linear_def LocusKit_RadialRing_def LocusKit_S2_def LocusKit_Torus_def)

section \<open>Attestation identifiers\<close>

lemma append_inject: "length a = length c \<Longrightarrow> a @ b = c @ d \<longleftrightarrow> a = c \<and> b = d"
  by (rule append_eq_append_conv) simp

lemma be32_inject: "be32 v = be32 w \<longleftrightarrow> v = w"
  by (metis be_val_be32 word_unat_eq_iff)

lemma be64_inject: "be64 v = be64 w \<longleftrightarrow> v = w"
  by (metis rd64_be64)

lemma attestation_bytes_inject: "attestation_bytes a = attestation_bytes b \<longleftrightarrow> a = b"
  by (cases a; cases b; cases "at_Subject a"; cases "at_Subject b"; cases "at_CitedTxID a"; cases "at_CitedTxID b")
    (auto simp: attestation_bytes_def append_inject be32_inject be64_inject)

lemma get64_bytes: "length d = 16 \<Longrightarrow> be64 (get64 0 d) @ be64 (get64 8 d) = d"
  by (simp add: get64_def be64_rd64)

section \<open>The default hash\<close>

lemma default_hash_kept:
  assumes "init_hash_kits blake2s sha2 sha3 adr newRegistry = Inr reg"
  shows "NewHashKit (hash_table.registers ps reg) 0 = Inr \<lparr>HashSz = 32, Sum = blake2s\<rparr>"
proof -
  obtain a b c where adr: "adr = (a, b, c)" by (cases adr)
  have "GetHashKit reg 0 = Inr \<lparr>address_of = a, pointee = \<lparr>hs_ID = 0, hs_New = blake2s, hs_Size = 32\<rparr>\<rparr>"
    using assms [unfolded adr init_hash_kits_run]
    by (auto simp: GetHashKit_def Registry_Get_def RegisterHashKit_def minHashKitDigest_def Register_def
        reg_at_def newRegistry_def)
  from hash_table.first_wins [OF this, of ps] show ?thesis by (simp add: NewHashKit_def)
qed

section \<open>Properties\<close>

text \<open>The default hash is pinned: whatever is registered after start-up, the zero kit id and the
  manifests of blobs resolve to BLAKE2s, every kit that resolves has a digest of at least 32 bytes and so is
  accepted for blob manifests, and it is one that was registered under its own id.\<close>

theorem default_hash_pinned:
  assumes "init_hash_kits blake2s sha2 sha3 adr newRegistry = Inr reg"
  shows "NewHashKit (hash_table.registers ps reg) 0 = Inr \<lparr>HashSz = 32, Sum = blake2s\<rparr>
    \<and> (NewHashKit (hash_table.registers ps reg) k = Inr kit \<longrightarrow>
         32 \<le> HashSz kit \<and> newBlobHashKit (NewHashKit (hash_table.registers ps reg)) k = Inr kit)"
proof -
  obtain a b c where adr: "adr = (a, b, c)" by (cases adr)
  let ?i = "[\<lparr>address_of = a, pointee = \<lparr>hs_ID = 0, hs_New = blake2s, hs_Size = 32\<rparr>\<rparr>,
         \<lparr>address_of = b, pointee = \<lparr>hs_ID = 2, hs_New = sha2, hs_Size = 32\<rparr>\<rparr>,
         \<lparr>address_of = c, pointee = \<lparr>hs_ID = 3, hs_New = sha3, hs_Size = 32\<rparr>\<rparr>]"
  have reg: "reg = hash_table.registers ?i newRegistry" using assms by (simp add: adr init_hash_kits_run)
  have wide: "32 \<le> HashSz kit" if n: "NewHashKit (hash_table.registers ps reg) k = Inr kit"
  proof -
    obtain q where q: "GetHashKit (hash_table.registers ps reg) k = Inr q" "HashSz kit = hs_Size (pointee q)"
      using n by (auto simp: NewHashKit_def outcome_simps)
    have none: "GetHashKit newRegistry k \<noteq> Inr q" by (simp add: GetHashKit_def Registry_Get_def newRegistry_def reg_at_def)
    have "\<exists>s s'. RegisterHashKit q s = Inr s'"
      using hash_table.fetched_from [OF q(1)] hash_table.fetched_from [of ?i newRegistry k q] none unfolding reg by blast
    then show ?thesis using RegisterHashKit_wide q(2) by auto
  qed
  show ?thesis using default_hash_kept [OF assms] wide by (auto simp: newBlobHashKit_def BlobMetaHashSize_def)
qed

theorem default_hash_pinned_witness:
  "\<exists>reg. init_hash_kits id id id (1, 2, 3) newRegistry = Inr reg \<and>
     NewHashKit (hash_table.registers [\<lparr>address_of = 9, pointee = \<lparr>hs_ID = 0, hs_New = rev, hs_Size = 64\<rparr>\<rparr>] reg) 0
       = Inr \<lparr>HashSz = 32, Sum = id\<rparr>"
  using default_hash_pinned [OF init_hash_kits_run, THEN conjunct1] init_hash_kits_run by blast

text \<open>An attestation identifier names one fact: two keys with the same identifier are equal, or the
  default hash collides in its first sixteen bytes on their distinct canonical bytes.\<close>

theorem attestation_identity:
  assumes "AttestationItemID reg a = Inr u" "AttestationItemID reg b = Inr u" "a \<noteq> b"
    and "NewHashKit reg HashKitID_Blake2s_256 = Inr kit"
  shows "attestation_bytes a \<noteq> attestation_bytes b \<and>
    take 16 (Sum kit (attestation_bytes a)) = take 16 (Sum kit (attestation_bytes b))"
proof -
  have d: "take 16 (Sum kit (attestation_bytes k)) = be64 (uid0 u) @ be64 (uid1 u)" if "AttestationItemID reg k = Inr u" for k
  proof -
    let ?d = "Sum kit (attestation_bytes k)"
    have l: "16 \<le> length ?d" and u: "u = UID (get64 0 ?d) (get64 8 ?d)"
      using that assms(4) by (auto simp: AttestationItemID_def Let_def split: if_splits)
    have "be64 (get64 0 (take 16 ?d)) @ be64 (get64 8 (take 16 ?d)) = take 16 ?d"
      by (rule get64_bytes) (use l in simp)
    then show ?thesis by (simp add: u get64_def drop_take)
  qed
  show ?thesis using assms(3) d [OF assms(1)] d [OF assms(2)] by (simp add: attestation_bytes_inject)
qed

definition toy_attestation :: "u32 \<Rightarrow> attestation_key" where
  "toy_attestation n = \<lparr>at_Type = 1, at_Subject = UID 1 2, at_CitedTxID = UID 3 4, at_CitedOpIndex = n\<rparr>"

definition zero_hash :: hash_kits where
  "zero_hash = [0 \<mapsto> Some \<lparr>address_of = 1, pointee = \<lparr>hs_ID = 0, hs_New = (\<lambda>_. replicate 32 0), hs_Size = 32\<rparr>\<rparr>]"

theorem attestation_identity_witness:
  "attestation_bytes (toy_attestation 0) \<noteq> attestation_bytes (toy_attestation 1)"
proof -
  have k: "NewHashKit zero_hash HashKitID_Blake2s_256 = Inr \<lparr>HashSz = 32, Sum = \<lambda>_. replicate 32 0\<rparr>"
    by (simp add: NewHashKit_def GetHashKit_def Registry_Get_def reg_at_def zero_hash_def HashKitID_Blake2s_256_def)
  have "AttestationItemID zero_hash (toy_attestation n) = Inr (UID (get64 0 (replicate 32 0)) (get64 8 (replicate 32 0)))" for n
    by (simp add: AttestationItemID_def Let_def k)
  then show ?thesis
    using attestation_identity [of zero_hash "toy_attestation 0" _ "toy_attestation 1", OF _ _ _ k]
    by (simp add: toy_attestation_def)
qed

text \<open>Dispatch fails closed: nothing is verified or sealed under a kit that was never registered, and a
  kit that lacks the capability refuses instead of accepting.\<close>

lemma dispatch_closed:
  "VerifySignature (crypto_table.registers ps newRegistry) kid sig dg pub = Inr r \<Longrightarrow>
   \<exists>p \<in> set ps. (\<exists>verify. kit_Verify (pointee p) = Some verify \<and> verify sig dg pub = Inr r)"
proof -
  assume v: "VerifySignature (crypto_table.registers ps newRegistry) kid sig dg pub = Inr r"
  then obtain q where q: "CryptoKit (crypto_table.registers ps newRegistry) kid = Inr q"
    by (auto simp: VerifySignature_def outcome_simps)
  have "CryptoKit newRegistry kid \<noteq> Inr q" by (simp add: CryptoKit_def Registry_Get_def newRegistry_def reg_at_def)
  then have "q \<in> set ps" using crypto_table.fetched_from [OF q] by blast
  then show ?thesis using v q by (auto simp: VerifySignature_def split: option.splits)
qed

end
