(* ===== verification/WordList.thy ===== *)
theory WordList
  imports Main
begin

text \<open>
  The canonical vocabulary of phrases (\<open>PhraseWords\<close> of \<open>stdlib/safe/safe.consts.go\<close>), a string
  that \<open>strings.Fields\<close> splits, and the claims made beside it: 256 distinct lower-case words in
  alphabetical order that differ in their first four letters.  Strings are ASCII.
\<close>

section \<open>The word list\<close>

definition newline :: char where "newline = CHR 0x0A"

definition PhraseLines :: "string list" where
  "PhraseLines =
     [''able acid acre agent album alert alien alloy amber anchor angel ankle apple arena armor artist'',
      ''atlas atom auto avid awake axis baby bacon badge baker balm band bark barn base bath'',
      ''beach beam bear bench berry bike bill bird black blade blaze bliss block blood blue blur'',
      ''board boat bolt bone book boot born bottle brain brass brave bread brick bridge brook brown'',
      ''brush buddy budget build bulb bunny cabin cable cake calm camel candy canyon cargo carrot castle'',
      ''cave center chair cherry chest chime chip church circle cliff clock cloud coast cobra comet copper'',
      ''coral cosmic cotton couch cradle crane crate crown crystal cube daisy dance dart dawn deep desk'',
      ''diamond disco doll dome donut dove dozen drift drum dune dusk eagle earth echo edge ember'',
      ''emerald energy evil falcon feast feather felt ferry field flag flame fleece flower flute focus forge'',
      ''frame frost fuel galaxy gate giant glacier globe glow golden grape gravel green grove guard harbor'',
      ''harvest hatch hawk heart helmet hero hickory honey hood horizon horn island ivory jade jelly kelp'',
      ''kitten ladder lantern laser lemon linen lotus lunar magnet maple marble meadow melon mint moss needle'',
      ''nickel north ocean olive opal orchid otter oyster paper parade peach pebble petal piano pine pixel'',
      ''planet poem puzzle quiet quiz radio raven ribbon river robot rodeo rope rose rust saber safari'',
      ''salt satin scout shadow silver smoke snow solar sonic spark spire spruce star steel stone storm'',
      ''sugar summit swan taxi tiger torch tulip ultra urban valley velvet violet wagon wolf yellow zebra'']"

definition PhraseWords :: string where
  "PhraseWords = [newline] @ concat (map (\<lambda>line. line @ [newline]) PhraseLines)"

definition IsSpace :: "char \<Rightarrow> bool" where
  "IsSpace c \<longleftrightarrow> c \<in> {CHR 0x09, CHR 0x0A, CHR 0x0B, CHR 0x0C, CHR 0x0D, CHR 0x20}"

text \<open>\<open>fields_from w s\<close> splits \<open>s\<close>, with the letters \<open>w\<close> of an open field before it, in reverse.\<close>

fun fields_from :: "string \<Rightarrow> string \<Rightarrow> string list" where
  "fields_from w [] = (if w = [] then [] else [rev w])"
| "fields_from w (c # cs) =
     (if IsSpace c then (if w = [] then fields_from [] cs else rev w # fields_from [] cs)
      else fields_from (c # w) cs)"

definition Fields :: "string \<Rightarrow> string list" where
  "Fields s = fields_from [] s"

definition ToLower :: "string \<Rightarrow> string" where
  "ToLower s = map (\<lambda>c. if 65 \<le> (of_char c :: nat) \<and> (of_char c :: nat) \<le> 90 then char_of (of_char c + 32 :: nat) else c) s"

definition phraseList :: "string list" where
  "phraseList = Fields PhraseWords"

section \<open>The word list: lemmas\<close>

definition plain_word :: "string \<Rightarrow> bool" where
  "plain_word w \<longleftrightarrow> w \<noteq> [] \<and> list_all (\<lambda>c. 97 \<le> (of_char c :: nat) \<and> (of_char c :: nat) \<le> 122) w"

lemma fields_word: "list_all (\<lambda>c. \<not> IsSpace c) w \<Longrightarrow> fields_from u (w @ s) = fields_from (rev w @ u) s"
  by (induction w arbitrary: u) simp_all

lemma fields_lines: "fields_from w (line @ newline # s) = fields_from w line @ fields_from [] s"
  by (induction w line rule: fields_from.induct) (simp_all add: IsSpace_def newline_def)

lemma Fields_lines: "Fields (concat (map (\<lambda>line. line @ [newline]) ls)) = concat (map Fields ls)"
  by (induction ls) (simp_all add: Fields_def fields_lines)

lemma phrase_rows:
  "map Fields PhraseLines =
     [[''able'', ''acid'', ''acre'', ''agent'', ''album'', ''alert'', ''alien'', ''alloy'', 
       ''amber'', ''anchor'', ''angel'', ''ankle'', ''apple'', ''arena'', ''armor'', ''artist''],
      [''atlas'', ''atom'', ''auto'', ''avid'', ''awake'', ''axis'', ''baby'', ''bacon'', 
       ''badge'', ''baker'', ''balm'', ''band'', ''bark'', ''barn'', ''base'', ''bath''],
      [''beach'', ''beam'', ''bear'', ''bench'', ''berry'', ''bike'', ''bill'', ''bird'', 
       ''black'', ''blade'', ''blaze'', ''bliss'', ''block'', ''blood'', ''blue'', ''blur''],
      [''board'', ''boat'', ''bolt'', ''bone'', ''book'', ''boot'', ''born'', ''bottle'', 
       ''brain'', ''brass'', ''brave'', ''bread'', ''brick'', ''bridge'', ''brook'', ''brown''],
      [''brush'', ''buddy'', ''budget'', ''build'', ''bulb'', ''bunny'', ''cabin'', ''cable'', 
       ''cake'', ''calm'', ''camel'', ''candy'', ''canyon'', ''cargo'', ''carrot'', ''castle''],
      [''cave'', ''center'', ''chair'', ''cherry'', ''chest'', ''chime'', ''chip'', ''church'', 
       ''circle'', ''cliff'', ''clock'', ''cloud'', ''coast'', ''cobra'', ''comet'', ''copper''],
      [''coral'', ''cosmic'', ''cotton'', ''couch'', ''cradle'', ''crane'', ''crate'', ''crown'', 
       ''crystal'', ''cube'', ''daisy'', ''dance'', ''dart'', ''dawn'', ''deep'', ''desk''],
      [''diamond'', ''disco'', ''doll'', ''dome'', ''donut'', ''dove'', ''dozen'', ''drift'', 
       ''drum'', ''dune'', ''dusk'', ''eagle'', ''earth'', ''echo'', ''edge'', ''ember''],
      [''emerald'', ''energy'', ''evil'', ''falcon'', ''feast'', ''feather'', ''felt'', ''ferry'', 
       ''field'', ''flag'', ''flame'', ''fleece'', ''flower'', ''flute'', ''focus'', ''forge''],
      [''frame'', ''frost'', ''fuel'', ''galaxy'', ''gate'', ''giant'', ''glacier'', ''globe'', 
       ''glow'', ''golden'', ''grape'', ''gravel'', ''green'', ''grove'', ''guard'', ''harbor''],
      [''harvest'', ''hatch'', ''hawk'', ''heart'', ''helmet'', ''hero'', ''hickory'', ''honey'', 
       ''hood'', ''horizon'', ''horn'', ''island'', ''ivory'', ''jade'', ''jelly'', ''kelp''],
      [''kitten'', ''ladder'', ''lantern'', ''laser'', ''lemon'', ''linen'', ''lotus'', ''lunar'', 
       ''magnet'', ''maple'', ''marble'', ''meadow'', ''melon'', ''mint'', ''moss'', ''needle''],
      [''nickel'', ''north'', ''ocean'', ''olive'', ''opal'', ''orchid'', ''otter'', ''oyster'', 
       ''paper'', ''parade'', ''peach'', ''pebble'', ''petal'', ''piano'', ''pine'', ''pixel''],
      [''planet'', ''poem'', ''puzzle'', ''quiet'', ''quiz'', ''radio'', ''raven'', ''ribbon'', 
       ''river'', ''robot'', ''rodeo'', ''rope'', ''rose'', ''rust'', ''saber'', ''safari''],
      [''salt'', ''satin'', ''scout'', ''shadow'', ''silver'', ''smoke'', ''snow'', ''solar'', 
       ''sonic'', ''spark'', ''spire'', ''spruce'', ''star'', ''steel'', ''stone'', ''storm''],
      [''sugar'', ''summit'', ''swan'', ''taxi'', ''tiger'', ''torch'', ''tulip'', ''ultra'', 
       ''urban'', ''valley'', ''velvet'', ''violet'', ''wagon'', ''wolf'', ''yellow'', ''zebra'']]"
  by code_simp

lemma phraseList_rows: "phraseList = concat (map Fields PhraseLines)"
proof -
  have "Fields (newline # s) = Fields s" for s by (simp add: Fields_def IsSpace_def newline_def)
  then show ?thesis by (simp add: phraseList_def PhraseWords_def Fields_lines)
qed

lemma phrase_count: "length phraseList = 256"
  unfolding phraseList_rows phrase_rows by simp

lemma phrase_plain: "list_all plain_word phraseList"
  unfolding phraseList_rows phrase_rows by (simp add: plain_word_def)

text \<open>The first four letters as a number, for the order of the list.\<close>

definition prefix_key :: "string \<Rightarrow> nat" where
  "prefix_key w = foldl (\<lambda>a c. a * 256 + of_char c) 0 w"

fun ascending :: "nat list \<Rightarrow> bool" where
  "ascending (a # b # bs) = (a < b \<and> ascending (b # bs))"
| "ascending _ = True"

lemma ascending_distinct: "ascending ns \<Longrightarrow> distinct (ns :: nat list)"
proof -
  have "a < b" if "ascending (a # bs)" "b \<in> set bs" for a b bs
    using that by (induction bs arbitrary: a) (auto, force)
  then show "distinct ns" if "ascending ns" using that
  proof (induction ns rule: ascending.induct)
    case (1 a b bs)
    then show ?case by (metis ascending.simps(1) distinct.simps(2) less_irrefl)
  qed simp_all
qed

lemma phrase_ascending: "ascending (map (\<lambda>w. prefix_key (take 4 w)) phraseList)"
  unfolding phraseList_rows phrase_rows by (simp add: prefix_key_def)

lemma phrase_distinct4: "distinct (map (take 4) phraseList)"
proof -
  have "distinct (map prefix_key (map (take 4) phraseList))"
    using ascending_distinct [OF phrase_ascending] by (simp add: comp_def)
  then show ?thesis by (simp only: distinct_map)
qed


lemma phrase_distinct: "distinct phraseList"
  using phrase_distinct4 by (simp only: distinct_map)

end
