(* ===== verification/Phrase.thy ===== *)
theory Phrase
  imports Registry WordList
begin

text \<open>
  Spoken key material (\<open>stdlib/safe/phrase.go\<close>): the canonical list of 256 words
  (\<open>stdlib/safe/safe.consts.go\<close>), the encoding of entropy as words with a checksum, and keys derived
  from a phrase.  Strings are ASCII; \<open>strings.Fields\<close> and \<open>strings.ToLower\<close> are modelled there.
  The hash is the registered default, HKDF and the kits are parameters.
\<close>

section \<open>The lookup table\<close>

definition PhraseWordCount :: nat where "PhraseWordCount = 256"
definition PhraseChecksumSize :: nat where "PhraseChecksumSize = 4"

text \<open>The lookup table is built at start-up, where a bad list is a panic.\<close>

fun lookup_from :: "nat \<Rightarrow> string list \<Rightarrow> (string \<rightharpoonup> byte) \<Rightarrow> (string \<rightharpoonup> byte) outcome" where
  "lookup_from i [] m = Inr m"
| "lookup_from i (w # ws) m =
     (if m w \<noteq> None then Inl Panic else lookup_from (Suc i) ws (m(w \<mapsto> word_of_nat i)))"

definition phraseLookup :: "(string \<rightharpoonup> byte) outcome" where
  "phraseLookup =
     (if length phraseList \<noteq> PhraseWordCount then Inl Panic else lookup_from 0 phraseList Map.empty)"

definition PhraseWordAt :: "int \<Rightarrow> string outcome" where
  "PhraseWordAt idx =
     (if idx < 0 \<or> idx \<ge> int (length phraseList) then Inl Panic else Inr (phraseList ! nat idx))"

definition PhraseWordIndex :: "string \<Rightarrow> int outcome" where
  "PhraseWordIndex w =
     and_then phraseLookup (\<lambda>m. case m w of Some i \<Rightarrow> Inr (uint i) | None \<Rightarrow> Inr (- 1))"

section \<open>Encoding\<close>

type_synonym phrase = "string list"

text \<open>The error of \<open>NewHashKit\<close> is dropped: without a default hash the hasher is nil.\<close>

definition phraseDigest :: "hash_kits \<Rightarrow> byte list \<Rightarrow> byte list outcome" where
  "phraseDigest reg entropy =
     (case NewHashKit reg 0 of Inl _ \<Rightarrow> Inl Panic | Inr kit \<Rightarrow> Inr (Sum kit entropy))"

fun words_of :: "byte list \<Rightarrow> string list outcome" where
  "words_of [] = Inr []"
| "words_of (b # bs) =
     and_then (PhraseWordAt (uint b)) (\<lambda>w. and_then (words_of bs) (\<lambda>ws. Inr (w # ws)))"

definition EncodePhrase :: "hash_kits \<Rightarrow> byte list \<Rightarrow> phrase outcome" where
  "EncodePhrase reg entropy =
     and_then (phraseDigest reg entropy) (\<lambda>digest.
     and_then (words_of entropy) (\<lambda>out.
     if length digest < PhraseChecksumSize then Inl Panic
     else and_then (words_of (take PhraseChecksumSize digest)) (\<lambda>sum. Inr (out @ sum))))"

fun indices_of :: "string list \<Rightarrow> byte list outcome" where
  "indices_of [] = Inr []"
| "indices_of (w # ws) =
     and_then (PhraseWordIndex w) (\<lambda>idx.
     if idx < 0 then Inl BadRequest
     else and_then (indices_of ws) (\<lambda>raw. Inr (word_of_int idx # raw)))"

definition DecodePhrase :: "hash_kits \<Rightarrow> phrase \<Rightarrow> byte list outcome" where
  "DecodePhrase reg words =
     (if length words \<le> PhraseChecksumSize then Inl BadRequest
      else and_then (indices_of words) (\<lambda>raw.
        let n = length raw - PhraseChecksumSize; entropy = take n raw; supplied = drop n raw
        in and_then (phraseDigest reg entropy) (\<lambda>digest.
           if length digest < PhraseChecksumSize then Inl Panic
           else if supplied \<noteq> take PhraseChecksumSize digest then Inl BadRequest
           else Inr entropy)))"

fun Join :: "string \<Rightarrow> string list \<Rightarrow> string" where
  "Join sep [] = []"
| "Join sep [w] = w"
| "Join sep (w # v # ws) = w @ sep @ Join sep (v # ws)"

definition Phrase_String :: "phrase \<Rightarrow> string" where
  "Phrase_String phrase = Join '' '' phrase"

definition ParsePhrase :: "string \<Rightarrow> phrase" where
  "ParsePhrase input = Fields (ToLower input)"

definition Phrase_DeriveKey :: "primitives \<Rightarrow> hash_kits \<Rightarrow> phrase \<Rightarrow> string \<Rightarrow> byte list outcome" where
  "Phrase_DeriveKey P reg phrase purpose =
     and_then (DecodePhrase reg phrase) (\<lambda>entropy. DeriveSubKey P entropy purpose)"

text \<open>A key pair from a phrase: \<open>stream\<close> is the reader of HKDF over the entropy, as the bytes it yields.\<close>

record key_spec =
  ks_CryptoKitID :: uid
  ks_KeyType :: int
  ks_RequestedSize :: nat

definition KeyPairFromPhrase ::
  "crypto_kits \<Rightarrow> hash_kits \<Rightarrow> (byte list \<Rightarrow> string \<Rightarrow> byte list) \<Rightarrow> phrase \<Rightarrow> key_spec \<Rightarrow> string \<Rightarrow> key_pair outcome" where
  "KeyPairFromPhrase kits reg stream phrase spec purpose =
     and_then (CryptoKit kits (ks_CryptoKitID spec)) (\<lambda>k.
     and_then (DecodePhrase reg phrase) (\<lambda>entropy.
     let rng = stream entropy purpose;
         kp = \<lparr>kp_Pub = \<lparr>pk_CryptoKitID = ks_CryptoKitID spec, pk_KeyType = ks_KeyType spec, pk_TimeID = nilUID, pk_Bytes = []\<rparr>,
               kp_Prv = []\<rparr>
     in and_then (generateKeyForSpec (kit.truncate (pointee k)) rng (ks_RequestedSize spec) kp) (\<lambda>(kp, _). Inr kp)))"

section \<open>Words and indices\<close>

lemma lookup_from_spec:
  "distinct ws \<Longrightarrow> \<forall>w \<in> set ws. m w = None \<Longrightarrow>
   \<exists>m'. lookup_from i ws m = Inr m' \<and> (\<forall>j < length ws. m' (ws ! j) = Some (word_of_nat (i + j))) \<and>
     (\<forall>w. w \<notin> set ws \<longrightarrow> m' w = m w)"
proof (induction ws arbitrary: i m)
  case (Cons w ws)
  have "\<forall>v \<in> set ws. (m(w \<mapsto> word_of_nat i)) v = None" using Cons.prems by auto
  from Cons.IH [OF _ this, of "Suc i"] Cons.prems(1) obtain m' where
    m': "lookup_from (Suc i) ws (m(w \<mapsto> word_of_nat i)) = Inr m'"
    "\<forall>j < length ws. m' (ws ! j) = Some (word_of_nat (Suc i + j))"
    "\<forall>v. v \<notin> set ws \<longrightarrow> m' v = (m(w \<mapsto> word_of_nat i)) v"
    unfolding distinct.simps by blast
  have "m' ((w # ws) ! j) = Some (word_of_nat (i + j))" if "j < length (w # ws)" for j
    using that m'(2,3) Cons.prems(1) by (cases j) auto
  then show ?case using m' Cons.prems(2) by auto
qed simp

lemma PhraseWordIndex_spec:
  "PhraseWordIndex w = (if w \<in> set phraseList then Inr (int (LEAST j. phraseList ! j = w)) else Inr (- 1))" (is ?idx)
  "j < 256 \<Longrightarrow> PhraseWordIndex (phraseList ! j) = Inr (int j)"
proof -
  obtain m where m: "phraseLookup = Inr m" "\<forall>j < 256. m (phraseList ! j) = Some (word_of_nat j)"
    "\<forall>w. w \<notin> set phraseList \<longrightarrow> m w = None"
    using lookup_from_spec [OF phrase_distinct, of Map.empty 0]
    by (auto simp: phraseLookup_def PhraseWordCount_def phrase_count)
  have at: "PhraseWordIndex (phraseList ! j) = Inr (int j)" if "j < 256" for j
    unfolding PhraseWordIndex_def m(1) and_then_simps m(2) [rule_format, OF that] option.case
    using that by (simp add: uint_nat unat_of_nat)
  then show "j < 256 \<Longrightarrow> PhraseWordIndex (phraseList ! j) = Inr (int j)" .
  show ?idx
  proof (cases "w \<in> set phraseList")
    case True
    then obtain j where j: "j < 256" "phraseList ! j = w" by (metis in_set_conv_nth phrase_count)
    then have "(LEAST j. phraseList ! j = w) < 256" "phraseList ! (LEAST j. phraseList ! j = w) = w"
      by (metis (mono_tags, lifting) LeastI Least_le le_less_trans)+
    then show ?thesis using at True by metis
  next
    case False
    then show ?thesis unfolding PhraseWordIndex_def m(1) and_then_simps by (simp add: m(3))
  qed
qed

abbreviation word_at :: "byte \<Rightarrow> string" where "word_at b \<equiv> phraseList ! unat b"

lemma unat_byte: "unat (b :: byte) < 256"
  using unsigned_less [of b] by simp

lemma words_of_map: "words_of bs = Inr (map word_at bs)"
proof (induction bs)
  case (Cons b bs)
  have "PhraseWordAt (uint b) = Inr (word_at b)"
    using uint_lt2p [of b] by (simp add: PhraseWordAt_def phrase_count not_le)
  then show ?case by (simp add: Cons.IH)
qed simp

lemma indices_of_map: "indices_of (map word_at bs) = Inr bs"
proof (induction bs)
  case (Cons b bs)
  have "PhraseWordIndex (word_at b) = Inr (uint b)"
    unfolding uint_nat by (rule PhraseWordIndex_spec(2) [OF unat_byte])
  then show ?case by (simp add: Cons.IH)
qed simp

lemma indices_of_Inr: "indices_of ws = Inr raw \<Longrightarrow> ws = map word_at raw"
proof (induction ws arbitrary: raw)
  case (Cons w ws)
  obtain idx raw' where r: "PhraseWordIndex w = Inr idx" "\<not> idx < 0" "indices_of ws = Inr raw'" "raw = word_of_int idx # raw'"
    using Cons.prems by (auto simp: outcome_simps split: if_splits)
  then have "w \<in> set phraseList" by (auto simp: PhraseWordIndex_spec(1) split: if_splits)
  then obtain j where j: "j < 256" "phraseList ! j = w" by (metis in_set_conv_nth phrase_count)
  then have idx: "idx = int j" using r(1) PhraseWordIndex_spec(2) [OF j(1)] by simp
  have "word_at (word_of_int idx) = w" unfolding idx using j by (simp add: unat_of_nat)
  then show ?case using Cons.IH [OF r(3)] by (simp add: r(4))
qed simp

lemma EncodePhrase_map:
  assumes "NewHashKit reg 0 = Inr kit" "4 \<le> length (Sum kit e)"
  shows "EncodePhrase reg e = Inr (map word_at (e @ take 4 (Sum kit e)))"
  using assms by (simp add: EncodePhrase_def phraseDigest_def words_of_map PhraseChecksumSize_def)

lemma DecodePhrase_iff:
  assumes "NewHashKit reg 0 = Inr kit" "\<forall>e. 4 \<le> length (Sum kit e)"
  shows "DecodePhrase reg ws = Inr e \<longleftrightarrow> e \<noteq> [] \<and> EncodePhrase reg e = Inr ws"
proof
  assume d: "DecodePhrase reg ws = Inr e"
  then obtain raw where r: "4 < length ws" "indices_of ws = Inr raw" "e = take (length raw - 4) raw"
    "drop (length raw - 4) raw = take 4 (Sum kit e)"
    using assms by (auto simp: DecodePhrase_def PhraseChecksumSize_def Let_def phraseDigest_def outcome_simps split: if_splits)
  have ws: "ws = map word_at raw" by (rule indices_of_Inr [OF r(2)])
  have raw: "raw = e @ take 4 (Sum kit e)" using r(3,4) by (metis append_take_drop_id)
  have "e \<noteq> []" using r(1,3) ws by auto
  moreover have "EncodePhrase reg e = Inr ws" unfolding EncodePhrase_map [OF assms(1) assms(2) [rule_format]] ws raw ..
  ultimately show "e \<noteq> [] \<and> EncodePhrase reg e = Inr ws" by blast
next
  assume e: "e \<noteq> [] \<and> EncodePhrase reg e = Inr ws"
  have l: "4 \<le> length (Sum kit e)" using assms(2) by blast
  have ws: "ws = map word_at (e @ take 4 (Sum kit e))" using e EncodePhrase_map [OF assms(1) l] by simp
  have "indices_of ws = Inr (e @ take 4 (Sum kit e))" unfolding ws by (rule indices_of_map)
  then show "DecodePhrase reg ws = Inr e"
    using e l assms(1) ws by (simp add: DecodePhrase_def PhraseChecksumSize_def Let_def phraseDigest_def not_le)
qed

section \<open>Writing a phrase down\<close>

lemma plain_chars:
  assumes "plain_word w"
  shows "list_all (\<lambda>c. \<not> IsSpace c) w" "ToLower w = w"
proof -
  have sp: "\<not> IsSpace c" if "97 \<le> (of_char c :: nat)" for c using that by (auto simp: IsSpace_def)
  show "list_all (\<lambda>c. \<not> IsSpace c) w" using assms sp by (auto simp: plain_word_def list_all_iff)
  show "ToLower w = w" unfolding ToLower_def
    by (rule map_idI) (use assms in \<open>auto simp: plain_word_def list_all_iff\<close>)
qed

lemma ToLower_append: "ToLower (a @ b) = ToLower a @ ToLower b"
  by (simp add: ToLower_def)

lemma Parse_Join: "list_all plain_word ws \<Longrightarrow> ParsePhrase (Phrase_String ws) = ws"
proof -
  assume p: "list_all plain_word ws"
  have low: "ToLower (Join '' '' ws) = Join '' '' ws" using p
    by (induction "'' ''" ws rule: Join.induct) (simp_all add: plain_chars(2) ToLower_append, simp_all add: ToLower_def)
  have "fields_from [] (Join '' '' ws) = ws" using p
  proof (induction "'' ''" ws rule: Join.induct)
    case (2 w)
    then show ?case using fields_word [of w "[]" "[]"] by (simp add: plain_chars plain_word_def)
  next
    case (3 w v ws)
    have "w \<noteq> []" "list_all (\<lambda>c. \<not> IsSpace c) w" using 3 by (simp_all add: plain_chars plain_word_def)
    then show ?case using 3 fields_word [of w "[]"] by (simp add: IsSpace_def)
  qed (simp add: Fields_def)
  then show ?thesis by (simp add: ParsePhrase_def Phrase_String_def Fields_def low)
qed

section \<open>Properties\<close>

text \<open>C31. A phrase is a canonical name of its entropy: encoding never fails, a phrase has four words more
  than the entropy has bytes, survives being written down and typed again, and is the only phrase that decodes
  to the entropy; the empty entropy has a phrase that does not decode.\<close>

theorem phrase_canonical:
  assumes "init_hash_kits blake2s sha2 sha3 adr newRegistry = Inr reg0" "\<forall>dat. length (blake2s dat) = 32"
  shows "\<exists>ws. EncodePhrase (hash_table.registers ps reg0) e = Inr ws \<and> length ws = length e + 4 \<and>
     ParsePhrase (Phrase_String ws) = ws \<and>
     (\<forall>vs. DecodePhrase (hash_table.registers ps reg0) vs = Inr e \<longleftrightarrow> e \<noteq> [] \<and> vs = ws)"
proof -
  let ?r = "hash_table.registers ps reg0" and ?k = "\<lparr>HashSz = 32, Sum = blake2s\<rparr>"
  have k: "NewHashKit ?r 0 = Inr ?k" by (rule default_hash_kept [OF assms(1)])
  have l: "\<forall>e. 4 \<le> length (Sum ?k e)" using assms(2) by simp
  let ?w = "map word_at (e @ take 4 (blake2s e))"
  have enc: "EncodePhrase ?r e = Inr ?w" using EncodePhrase_map [OF k] l by simp
  have "plain_word (word_at b)" for b
    using phrase_plain unat_byte [of b] phrase_count by (metis list_all_length)
  then have "list_all plain_word ?w" unfolding list_all_iff set_map by blast
  then have "ParsePhrase (Phrase_String ?w) = ?w" by (rule Parse_Join)
  then show ?thesis using enc DecodePhrase_iff [OF k l, of _ e] assms(2) by auto
qed

theorem phrase_canonical_witness:
  "\<exists>reg ws. EncodePhrase reg [7, 200] = Inr ws \<and> DecodePhrase reg ws = Inr [7, 200] \<and> length ws = 6"
proof -
  obtain reg where "init_hash_kits (\<lambda>dat. replicate 32 0) id id (1, 2, 3) newRegistry = Inr reg"
    using init_hash_kits_run by blast
  from phrase_canonical [OF this, where ps = "[]" and e = "[7, 200]"] show ?thesis by auto
qed

text \<open>A mistake in the checksum words alone never passes, whatever the hash.\<close>

lemma checksum_fixed:
  assumes "DecodePhrase reg ws = Inr e" "take (length ws - 4) vs = take (length ws - 4) ws" "length vs = length ws" "vs \<noteq> ws"
    and "NewHashKit reg 0 = Inr kit" "\<forall>e. 4 \<le> length (Sum kit e)"
  shows "DecodePhrase reg vs \<noteq> Inr f"
proof
  assume "DecodePhrase reg vs = Inr f"
  then have v: "vs = map word_at (f @ take 4 (Sum kit f))" and w: "ws = map word_at (e @ take 4 (Sum kit e))"
    using assms(1) EncodePhrase_map [OF assms(5)] assms(6) by (auto simp: DecodePhrase_iff [OF assms(5,6)])
  have n: "length ws - 4 = length e" "length f = length e" using v w assms(3,6) by simp_all
  then have "map word_at f = map word_at e" using assms(2) v w by simp
  then have "f = e" using indices_of_map by (metis sum.inject(2))
  then show False using v w assms(4) by simp
qed

end
