(* ===== verification/SymbolTable.thy ===== *)
theory SymbolTable
  imports Prelude
begin

text \<open>
  Value interning (\<open>stdlib/symbol/api.symbol.go\<close>, \<open>stdlib/symbol/issuer.go\<close>,
  \<open>stdlib/symbol/memory_table\<close>): an open-addressing map from value hashes to entries whose bytes live
  in pooled buffers, and the map back from identifiers.  The hash \<open>data.HashBuf\<close> is the Go runtime's and
  a parameter.  The current buffer is the last pool: both names share one array in the code.
\<close>

section \<open>Identifiers and issuers\<close>

type_synonym symbol_id = u32

definition go_int32 :: "int \<Rightarrow> int" where
  "go_int32 x = sint (word_of_int x :: 32 word)"

definition IDSz :: nat where "IDSz = 4"
definition DefaultIssuerMin :: u32 where "DefaultIssuerMin = 600"

definition AppendID :: "byte list \<Rightarrow> u32 \<Rightarrow> byte list" where
  "AppendID io i = io @ [ucast (drop_bit 24 i), ucast (drop_bit 16 i), ucast (drop_bit 8 i), ucast i]"

text \<open>\<open>binary.BigEndian.Uint32\<close> panics on less than four bytes.\<close>

definition ReadID :: "byte list \<Rightarrow> (u32 \<times> byte list) outcome" where
  "ReadID inp = (if length inp < IDSz then Inl Panic else Inr (word_of_nat (be_val (take 4 inp)), drop IDSz inp))"

record issuer =
  iss_refCount :: int
  nextID :: u32

definition NewVolatileIssuer :: "u32 \<Rightarrow> issuer" where
  "NewVolatileIssuer startAt = \<lparr>iss_refCount = 1, nextID = startAt\<rparr>"

definition MintNext :: "issuer \<Rightarrow> issuer \<times> u32 outcome" where
  "MintNext iss =
     (if iss_refCount iss \<le> 0 then (iss, Inl ErrIssuerNotOpen)
      else let iss = iss\<lparr>nextID := nextID iss + 1\<rparr> in (iss, Inr (nextID iss)))"

definition iss_PushOpen :: "issuer \<Rightarrow> issuer outcome" where
  "iss_PushOpen iss =
     (let iss = iss\<lparr>iss_refCount := go_int32 (iss_refCount iss + 1)\<rparr>
      in if iss_refCount iss \<le> 1 then Inl Panic else Inr iss)"

definition iss_Close :: "issuer \<Rightarrow> issuer \<times> unit outcome" where
  "iss_Close iss =
     (let iss = iss\<lparr>iss_refCount := go_int32 (iss_refCount iss - 1)\<rparr>
      in (iss, if iss_refCount iss < 0 then Inl ErrIssuerNotOpen else Inr ()))"

section \<open>The table\<close>

record kv_entry =
  symID :: u32
  poolIdx :: int
  poolOfs :: int
  kv_len :: int

text \<open>A closed table has no issuer and nil maps: reading them finds nothing, writing them panics.\<close>

record symbol_table =
  PoolSz :: int
  st_issuer :: "issuer option"
  st_refCount :: int
  valueCache :: "u64 \<rightharpoonup> kv_entry"
  tokenCache :: "u32 \<rightharpoonup> kv_entry"
  curBufPoolSz :: int
  curBufPoolIdx :: int
  bufPools :: "byte list list"

definition createTable :: "issuer option \<Rightarrow> u32 \<Rightarrow> int \<Rightarrow> symbol_table outcome" where
  "createTable iss initsAt poolSz =
     and_then (case iss of None \<Rightarrow> Inr (NewVolatileIssuer initsAt) | Some i \<Rightarrow> iss_PushOpen i) (\<lambda>iss.
     Inr \<lparr>PoolSz = poolSz, st_issuer = Some iss, st_refCount = 1, valueCache = Map.empty, tokenCache = Map.empty,
          curBufPoolSz = 0, curBufPoolIdx = -1, bufPools = []\<rparr>)"

definition st_PushOpen :: "symbol_table \<Rightarrow> symbol_table" where
  "st_PushOpen st = st\<lparr>st_refCount := go_int32 (st_refCount st + 1)\<rparr>"

definition st_Close :: "symbol_table \<Rightarrow> symbol_table \<times> unit outcome" where
  "st_Close st =
     (let st = st\<lparr>st_refCount := go_int32 (st_refCount st - 1)\<rparr>
      in if st_refCount st > 0 then (st, Inr ())
         else case st_issuer st of
                None \<Rightarrow> (st, Inl Panic)
              | Some iss \<Rightarrow> (st\<lparr>st_issuer := None, valueCache := Map.empty, tokenCache := Map.empty, bufPools := []\<rparr>,
                            snd (iss_Close iss)))"

definition slice :: "symbol_table \<Rightarrow> kv_entry \<Rightarrow> byte list" where
  "slice st kv = take (nat (kv_len kv)) (drop (nat (poolOfs kv)) (bufPools st ! nat (poolIdx kv)))"

definition equals :: "symbol_table \<Rightarrow> kv_entry \<Rightarrow> byte list \<Rightarrow> bool" where
  "equals st kv buf = (if go_int32 (int (length buf)) \<noteq> kv_len kv then False else slice st kv = buf)"

definition bufForEntry :: "symbol_table \<Rightarrow> kv_entry option \<Rightarrow> byte list option" where
  "bufForEntry st kvo = (case kvo of None \<Rightarrow> None | Some kv \<Rightarrow> if symID kv = 0 then None else Some (slice st kv))"

text \<open>The probe loop: the slot where it stops and the entry there, if the value is found; \<open>None\<close>
  outside stands for a full table without the value, where it would not stop.\<close>

partial_function (option) probe :: "symbol_table \<Rightarrow> byte list \<Rightarrow> u64 \<Rightarrow> (u64 \<times> kv_entry option) option" where
  "probe st buf hash =
     (case valueCache st hash of
        None \<Rightarrow> Some (hash, None)
      | Some kv \<Rightarrow> if equals st kv buf then Some (hash, Some kv) else probe st buf (hash + 1))"

definition getIDFromCache :: "(byte list \<Rightarrow> u64) \<Rightarrow> symbol_table \<Rightarrow> byte list \<Rightarrow> u32 option" where
  "getIDFromCache H st buf =
     map_option (\<lambda>(_, kvo). case kvo of None \<Rightarrow> 0 | Some kv \<Rightarrow> symID kv) (probe st buf (H buf))"

text \<open>The copy of a value into the pools.\<close>

definition pool_cap :: "symbol_table \<Rightarrow> int" where
  "pool_cap st = (if curBufPoolIdx st < 0 then 0 else int (length (bufPools st ! nat (curBufPoolIdx st))))"

definition ensure_pool :: "int \<Rightarrow> symbol_table \<Rightarrow> symbol_table" where
  "ensure_pool n st =
     (if go_int32 (curBufPoolSz st + n) > pool_cap st
      then st\<lparr>curBufPoolSz := 0, curBufPoolIdx := go_int32 (curBufPoolIdx st + 1),
              bufPools := bufPools st @ [replicate (nat (max (PoolSz st) n)) 0]\<rparr>
      else st)"

definition copy_in :: "byte list \<Rightarrow> int \<Rightarrow> symbol_table \<Rightarrow> symbol_table" where
  "copy_in buf n st =
     (let i = nat (curBufPoolIdx st); ofs = nat (curBufPoolSz st); pool = bufPools st ! i
      in st\<lparr>bufPools := (bufPools st)[i := take ofs pool @ take (nat n) buf @ drop (ofs + nat n) pool],
            curBufPoolSz := go_int32 (curBufPoolSz st + n)\<rparr>)"

definition allocAndBindToID ::
  "(byte list \<Rightarrow> u64) \<Rightarrow> byte list \<Rightarrow> u32 \<Rightarrow> symbol_table \<Rightarrow> symbol_table outcome option" where
  "allocAndBindToID H buf bindID st =
     (case probe st buf (H buf) of
        None \<Rightarrow> None
      | Some (hash, found) \<Rightarrow>
          Some (if (case found of None \<Rightarrow> False | Some kv \<Rightarrow> symID kv = bindID) then Inr st
                else
                  let n = go_int32 (int (length buf));
                      st = ensure_pool n st;
                      kv = \<lparr>symID = bindID, poolIdx = curBufPoolIdx st, poolOfs = curBufPoolSz st, kv_len = n\<rparr>
                  in if n < 0 \<or> go_int32 (poolOfs kv + n) < poolOfs kv \<or> go_int32 (poolOfs kv + n) > pool_cap st then Inl Panic
                     else if st_issuer st = None then Inl Panic
                     else let st = copy_in buf n st
                          in Inr (st\<lparr>valueCache := (valueCache st)(hash \<mapsto> kv), tokenCache := (tokenCache st)(symID kv \<mapsto> kv)\<rparr>)))"

definition getsetValueIDPair ::
  "(byte list \<Rightarrow> u64) \<Rightarrow> byte list \<Rightarrow> u32 \<Rightarrow> bool \<Rightarrow> symbol_table \<Rightarrow> (symbol_table \<times> u32 \<times> bool) outcome option" where
  "getsetValueIDPair H val i autoIssue st =
     (if length val = 0 then Some (Inr (st, 0, False))
      else
        let issued = (i = 0 \<and> autoIssue);
            minted = (if issued
                      then (case st_issuer st of
                              None \<Rightarrow> Inl Panic
                            | Some iss \<Rightarrow> let (iss, r) = MintNext iss
                                          in Inr (st\<lparr>st_issuer := Some iss\<rparr>, case r of Inl _ \<Rightarrow> 0 | Inr new \<Rightarrow> new))
                      else Inr (st, i))
        in case minted of
             Inl e \<Rightarrow> Some (Inl e)
           | Inr (st, i) \<Rightarrow>
               if i \<noteq> 0 then map_option (\<lambda>r. and_then r (\<lambda>st. Inr (st, i, issued))) (allocAndBindToID H val i st)
               else Some (Inr (st, i, issued)))"

definition GetSymbolID ::
  "(byte list \<Rightarrow> u64) \<Rightarrow> byte list \<Rightarrow> bool \<Rightarrow> symbol_table \<Rightarrow> (symbol_table \<times> u32 \<times> bool) outcome option" where
  "GetSymbolID H val autoIssue st =
     (case getIDFromCache H st val of
        None \<Rightarrow> None
      | Some i \<Rightarrow>
          if i \<noteq> 0 then Some (Inr (st, i, False))
          else map_option (\<lambda>r. and_then r (\<lambda>(st, i, _). Inr (st, i, i \<noteq> 0))) (getsetValueIDPair H val 0 autoIssue st))"

definition SetSymbolID ::
  "(byte list \<Rightarrow> u64) \<Rightarrow> byte list \<Rightarrow> u32 \<Rightarrow> symbol_table \<Rightarrow> (symbol_table \<times> u32 \<times> bool) outcome option" where
  "SetSymbolID H val i st = getsetValueIDPair H val i (i = 0) st"

definition GetSymbol :: "u32 \<Rightarrow> byte list \<Rightarrow> symbol_table \<Rightarrow> byte list option" where
  "GetSymbol i io st =
     (if i = 0 then None
      else case bufForEntry st (tokenCache st i) of None \<Rightarrow> None | Some b \<Rightarrow> Some (io @ b))"


section \<open>The pools\<close>

lemma go_int32_id: "0 \<le> x \<Longrightarrow> x < 2 ^ 31 \<Longrightarrow> go_int32 x = x"
  by (simp add: go_int32_def signed_of_int signed_take_bit_int_eq_self)

definition pools_ok :: "symbol_table \<Rightarrow> bool" where
  "pools_ok st \<longleftrightarrow> curBufPoolIdx st = int (length (bufPools st)) - 1 \<and> 0 \<le> curBufPoolSz st \<and>
     curBufPoolSz st \<le> pool_cap st \<and> (\<forall>p \<in> set (bufPools st). int (length p) < 2 ^ 30) \<and> PoolSz st < 2 ^ 30"

definition entry_ok :: "symbol_table \<Rightarrow> kv_entry \<Rightarrow> bool" where
  "entry_ok st kv \<longleftrightarrow> symID kv \<noteq> 0 \<and> 0 \<le> poolIdx kv \<and> poolIdx kv \<le> curBufPoolIdx st \<and> 0 \<le> poolOfs kv \<and>
     0 < kv_len kv \<and> kv_len kv < 2 ^ 30 \<and>
     poolOfs kv + kv_len kv \<le> int (length (bufPools st ! nat (poolIdx kv))) \<and>
     (poolIdx kv = curBufPoolIdx st \<longrightarrow> poolOfs kv + kv_len kv \<le> curBufPoolSz st)"

lemma entry_length: "entry_ok st kv \<Longrightarrow> int (length (slice st kv)) = kv_len kv"
  unfolding entry_ok_def slice_def length_take length_drop by (auto simp: min_def)

lemma last_pool: "xs \<noteq> [] \<Longrightarrow> nat (int (length xs) - 1) < length xs"
  by (cases xs) auto

lemma cap_bound: "pools_ok st \<Longrightarrow> 0 \<le> pool_cap st \<and> pool_cap st < 2 ^ 30"
proof -
  assume a: "pools_ok st"
  show ?thesis
  proof (cases "bufPools st = []")
    case True
    then show ?thesis using a by (simp add: pools_ok_def pool_cap_def)
  next
    case False
    then have i: "\<not> curBufPoolIdx st < 0" "nat (curBufPoolIdx st) < length (bufPools st)"
      using a last_pool [of "bufPools st"] by (simp_all add: pools_ok_def)
    then have "bufPools st ! nat (curBufPoolIdx st) \<in> set (bufPools st)" by simp
    then show ?thesis using a i(1) by (simp add: pools_ok_def pool_cap_def)
  qed
qed

lemma ensure_pool_spec:
  assumes "pools_ok st" "0 < n" "n < 2 ^ 30" "length (bufPools st) < 2 ^ 30"
  shows "pools_ok (ensure_pool n st)" "curBufPoolSz (ensure_pool n st) + n \<le> pool_cap (ensure_pool n st)"
    "0 \<le> curBufPoolIdx (ensure_pool n st)"
    "entry_ok st kv \<Longrightarrow> entry_ok (ensure_pool n st) kv \<and> slice (ensure_pool n st) kv = slice st kv"
proof -
  have c: "0 \<le> curBufPoolSz st" "curBufPoolSz st \<le> pool_cap st" "pool_cap st < 2 ^ 30"
    "curBufPoolIdx st = int (length (bufPools st)) - 1" "PoolSz st < 2 ^ 30"
    using assms(1) cap_bound [OF assms(1)] by (simp_all add: pools_ok_def)
  have g: "go_int32 (curBufPoolSz st + n) = curBufPoolSz st + n" "go_int32 (curBufPoolIdx st + 1) = int (length (bufPools st))"
    using c assms(2-4) by (simp_all add: go_int32_id)
  have new: "ensure_pool n st = st\<lparr>curBufPoolSz := 0, curBufPoolIdx := int (length (bufPools st)),
      bufPools := bufPools st @ [replicate (nat (max (PoolSz st) n)) 0]\<rparr>" if "curBufPoolSz st + n > pool_cap st"
    using that by (simp add: ensure_pool_def g)
  have old: "ensure_pool n st = st" if "\<not> curBufPoolSz st + n > pool_cap st"
    using that by (simp add: ensure_pool_def g)
  have l: "nat (max (PoolSz st) n) < 2 ^ 30" "n \<le> int (nat (max (PoolSz st) n))"
    using c(5) assms(2,3) by (simp_all add: nat_less_iff)
  show "pools_ok (ensure_pool n st)"
    using assms(1) l(1) by (cases "curBufPoolSz st + n > pool_cap st") (auto simp: new old pools_ok_def pool_cap_def nth_append)
  show "curBufPoolSz (ensure_pool n st) + n \<le> pool_cap (ensure_pool n st)"
    using l(2) by (cases "curBufPoolSz st + n > pool_cap st") (simp_all add: new old, simp add: pool_cap_def nth_append)
  show "0 \<le> curBufPoolIdx (ensure_pool n st)"
  proof (cases "curBufPoolSz st + n > pool_cap st")
    case False
    then have "0 < pool_cap st" using c(1) assms(2) by linarith
    then show ?thesis using False by (simp add: old pool_cap_def split: if_splits)
  qed (simp add: new)
  show "entry_ok st kv \<Longrightarrow> entry_ok (ensure_pool n st) kv \<and> slice (ensure_pool n st) kv = slice st kv"
    using c(4) by (cases "curBufPoolSz st + n > pool_cap st") (auto simp: new old entry_ok_def slice_def nth_append)
qed

lemma take_drop_within: "a + b \<le> n \<Longrightarrow> n \<le> length p \<Longrightarrow> take b (drop a (take n p @ q)) = take b (drop a p)"
proof -
  assume "a + b \<le> n" "n \<le> length p"
  then have "take (b + a) (take n p @ q) = take (b + a) p" by (simp add: min_def)
  then show ?thesis by (simp only: take_drop)
qed

lemma copy_in_spec:
  assumes "pools_ok st" "int (length buf) = n" "0 < n" "curBufPoolSz st + n \<le> pool_cap st" "0 \<le> curBufPoolIdx st"
  shows "pools_ok (copy_in buf n st)" "length (bufPools (copy_in buf n st)) = length (bufPools st)"
    "entry_ok st kv \<Longrightarrow> entry_ok (copy_in buf n st) kv \<and> slice (copy_in buf n st) kv = slice st kv"
    "i \<noteq> 0 \<Longrightarrow> entry_ok (copy_in buf n st) \<lparr>symID = i, poolIdx = curBufPoolIdx st, poolOfs = curBufPoolSz st, kv_len = n\<rparr>"
    "slice (copy_in buf n st) \<lparr>symID = i, poolIdx = curBufPoolIdx st, poolOfs = curBufPoolSz st, kv_len = n\<rparr> = buf"
proof -
  let ?i = "nat (curBufPoolIdx st)" and ?o = "nat (curBufPoolSz st)"
  let ?p = "bufPools st ! ?i"
  let ?q = "take ?o ?p @ buf @ drop (?o + nat n) ?p"
  have i: "?i < length (bufPools st)" and cap: "pool_cap st = int (length ?p)" and sz: "0 \<le> curBufPoolSz st"
    "curBufPoolIdx st = int (length (bufPools st)) - 1"
    using assms(1,5) last_pool [of "bufPools st"] by (simp_all add: pools_ok_def pool_cap_def)
  have b: "curBufPoolSz st + n < 2 ^ 30" using assms(4) cap_bound [OF assms(1)] by simp
  have tk: "take (nat n) buf = buf" using assms(2) by simp
  have st: "copy_in buf n st = st\<lparr>bufPools := (bufPools st)[?i := ?q], curBufPoolSz := curBufPoolSz st + n\<rparr>"
    using b sz(1) assms(3) tk by (simp add: copy_in_def Let_def go_int32_id)
  have o: "?o + nat n \<le> length ?p" using assms(3,4) sz(1) cap by linarith
  then have lq: "length ?q = length ?p" using assms(2) by simp
  have "?p \<in> set (bufPools st)" using i by simp
  then have "int (length ?q) < 2 ^ 30" unfolding lq using assms(1) by (simp add: pools_ok_def)
  then show "pools_ok (copy_in buf n st)"
    using assms(1,3-5) i cap lq unfolding st pools_ok_def
    by (auto simp: pool_cap_def dest!: set_update_subset_insert [THEN subsetD])
  show "length (bufPools (copy_in buf n st)) = length (bufPools st)" by (simp add: st)
  show "slice (copy_in buf n st) \<lparr>symID = i, poolIdx = curBufPoolIdx st, poolOfs = curBufPoolSz st, kv_len = n\<rparr> = buf"
    using i o assms(2) by (simp add: slice_def st)
  show "i \<noteq> 0 \<Longrightarrow> entry_ok (copy_in buf n st) \<lparr>symID = i, poolIdx = curBufPoolIdx st, poolOfs = curBufPoolSz st, kv_len = n\<rparr>"
    using i lq sz assms(2-5) b cap by (simp add: entry_ok_def st)
  assume e: "entry_ok st kv"
  show "entry_ok (copy_in buf n st) kv \<and> slice (copy_in buf n st) kv = slice st kv"
  proof (cases "poolIdx kv = curBufPoolIdx st")
    case True
    have "0 \<le> poolOfs kv" "0 < kv_len kv" "poolOfs kv + kv_len kv \<le> curBufPoolSz st"
      using e True by (simp_all add: entry_ok_def)
    then have k: "nat (poolOfs kv) + nat (kv_len kv) \<le> ?o" "?o \<le> length ?p" using o by linarith+
    have q: "bufPools (copy_in buf n st) ! nat (poolIdx kv) = ?q" using True i by (simp add: st)
    have "slice (copy_in buf n st) kv = slice st kv"
      unfolding slice_def q unfolding True by (rule take_drop_within [OF k])
    moreover have "entry_ok (copy_in buf n st) kv"
      using e True i lq assms(3) unfolding entry_ok_def q by (simp add: st)
    ultimately show ?thesis by blast
  next
    case False
    then have "nat (poolIdx kv) \<noteq> ?i" using e assms(5) by (simp add: entry_ok_def eq_nat_nat_iff)
    then show ?thesis using e False by (simp add: entry_ok_def slice_def st)
  qed
qed


section \<open>Probing\<close>

text \<open>The slots from the home of an entry's value up to the entry are taken by other values.\<close>

definition chain :: "(byte list \<Rightarrow> u64) \<Rightarrow> symbol_table \<Rightarrow> u64 \<Rightarrow> kv_entry \<Rightarrow> bool" where
  "chain H st h kv \<longleftrightarrow>
     (\<forall>m < unat (h - H (slice st kv)). \<exists>kv'. valueCache st (H (slice st kv) + word_of_nat m) = Some kv' \<and>
        slice st kv' \<noteq> slice st kv)"

definition table_ok :: "(byte list \<Rightarrow> u64) \<Rightarrow> symbol_table \<Rightarrow> bool" where
  "table_ok H st \<longleftrightarrow> pools_ok st \<and> st_issuer st \<noteq> None \<and>
     (\<forall>h kv. valueCache st h = Some kv \<longrightarrow> entry_ok st kv \<and> chain H st h kv) \<and>
     (\<forall>i kv. tokenCache st i = Some kv \<longrightarrow> entry_ok st kv \<and> symID kv = i)"

definition room :: "symbol_table \<Rightarrow> bool" where
  "room st \<longleftrightarrow> length (bufPools st) < 2 ^ 30 \<and> dom (valueCache st) \<noteq> UNIV"

lemma equals_slice: "entry_ok st kv \<Longrightarrow> int (length buf) < 2 ^ 31 \<Longrightarrow> equals st kv buf \<longleftrightarrow> slice st kv = buf"
  using entry_length [of st kv] by (auto simp: equals_def go_int32_id)

lemma probe_steps:
  "\<forall>m < n. \<exists>kv. valueCache st (h + word_of_nat m) = Some kv \<and> \<not> equals st kv buf \<Longrightarrow>
   (case valueCache st (h + word_of_nat n) of None \<Rightarrow> True | Some kv \<Rightarrow> equals st kv buf) \<Longrightarrow>
   probe st buf h = Some (h + word_of_nat n, valueCache st (h + word_of_nat n))"
proof (induction n arbitrary: h)
  case 0
  then show ?case by (subst probe.simps) (auto split: option.splits)
next
  case (Suc n)
  have "\<exists>kv. valueCache st h = Some kv \<and> \<not> equals st kv buf" using Suc.prems(1) [rule_format, of 0] by simp
  then have p: "probe st buf h = probe st buf (h + 1)" by (subst probe.simps) auto
  have s: "h + 1 + word_of_nat m = h + word_of_nat (Suc m)" for m by simp
  have "probe st buf (h + 1) = Some (h + 1 + word_of_nat n, valueCache st (h + 1 + word_of_nat n))"
    by (rule Suc.IH) (unfold s, use Suc.prems in auto)
  then show ?case by (simp only: p s)
qed

lemma table_entry:
  assumes "table_ok H st" "valueCache st h = Some kv"
  shows "entry_ok st kv" "chain H st h kv"
  using assms by (auto simp: table_ok_def)

lemma probe_hit:
  assumes "table_ok H st" "valueCache st h = Some kv" "slice st kv = v"
  shows "probe st v (H v) = Some (h, Some kv)"
proof -
  let ?n = "unat (h - H v)"
  have e: "entry_ok st kv" and c: "chain H st h kv" using table_entry [OF assms(1,2)] .
  have l: "int (length v) < 2 ^ 31" using entry_length [OF e] e assms(3) by (simp add: entry_ok_def)
  have h: "H v + word_of_nat ?n = h" by simp
  have "\<exists>kv. valueCache st (H v + word_of_nat m) = Some kv \<and> \<not> equals st kv v" if "m < ?n" for m
    using c that equals_slice [OF table_entry(1) [OF assms(1)] l] unfolding chain_def assms(3) by metis
  moreover have "equals st kv v" using equals_slice [OF e l] assms(3) by simp
  ultimately show ?thesis using probe_steps [of ?n st "H v" v] assms(2) unfolding h by simp
qed

lemma probe_miss:
  assumes "table_ok H st" "room st" "int (length v) < 2 ^ 31"
    and "\<forall>h kv. valueCache st h = Some kv \<longrightarrow> slice st kv \<noteq> v"
  shows "\<exists>h. probe st v (H v) = Some (h, None) \<and> valueCache st h = None \<and>
    (\<forall>m < unat (h - H v). valueCache st (H v + word_of_nat m) \<noteq> None)"
proof -
  obtain w where "valueCache st w = None" using assms(2) by (auto simp: room_def)
  then have "valueCache st (H v + word_of_nat (unat (w - H v))) = None" by simp
  then have "\<exists>n. valueCache st (H v + word_of_nat n) = None" by blast
  then obtain n where n: "valueCache st (H v + word_of_nat n) = None" "\<forall>m < n. valueCache st (H v + word_of_nat m) \<noteq> None"
    unfolding exists_least_iff [of "\<lambda>n. valueCache st (H v + word_of_nat n) = None"] by blast
  have eq: "\<not> equals st kv v" if "valueCache st h = Some kv" for h kv
    using equals_slice [OF table_entry(1) [OF assms(1) that] assms(3)] assms(4) that by simp
  have pr: "probe st v (H v) = Some (H v + word_of_nat n, valueCache st (H v + word_of_nat n))"
  proof (rule probe_steps)
    show "\<forall>m < n. \<exists>kv. valueCache st (H v + word_of_nat m) = Some kv \<and> \<not> equals st kv v"
      using n(2) eq by blast
  qed (simp add: n(1))
  have le: "unat (H v + word_of_nat n - H v) \<le> n"
    by (simp add: unat_of_nat)
  have "\<forall>m < unat (H v + word_of_nat n - H v). valueCache st (H v + word_of_nat m) \<noteq> None"
    using n(2) le order_less_le_trans by blast
  with pr show ?thesis using n(1) by (intro exI [of _ "H v + word_of_nat n"]) simp
qed

lemma one_slot:
  assumes "table_ok H st" "valueCache st h = Some kv" "valueCache st h' = Some kv'" "slice st kv = slice st kv'"
  shows "h = h' \<and> kv = kv'"
proof -
  have "Some (h, Some kv) = Some (h', Some kv')"
    using probe_hit [OF assms(1,2) refl] probe_hit [OF assms(1,3) assms(4) [symmetric]] by (rule trans [OF sym])
  then show ?thesis by blast
qed

section \<open>The table as two maps\<close>

type_synonym interning = "(byte list \<rightharpoonup> u32) \<times> (u32 \<rightharpoonup> byte list)"

definition represents :: "symbol_table \<Rightarrow> interning \<Rightarrow> bool" where
  "represents st a \<longleftrightarrow>
     (\<forall>v i. fst a v = Some i \<longleftrightarrow> (\<exists>h kv. valueCache st h = Some kv \<and> slice st kv = v \<and> symID kv = i)) \<and>
     (\<forall>i. snd a i = map_option (slice st) (tokenCache st i))"

text \<open>What binding a value means: nothing when the value has the identifier already.\<close>

definition bind_value :: "byte list \<Rightarrow> u32 \<Rightarrow> interning \<Rightarrow> interning" where
  "bind_value v i a = (if fst a v = Some i then a else ((fst a)(v \<mapsto> i), (snd a)(i \<mapsto> v)))"

lemma represents_Some:
  "represents st a \<Longrightarrow> fst a v = Some i \<Longrightarrow> \<exists>h kv. valueCache st h = Some kv \<and> slice st kv = v \<and> symID kv = i"
  unfolding represents_def by blast

lemma represents_None: "represents st a \<Longrightarrow> fst a v = None \<Longrightarrow> \<forall>h kv. valueCache st h = Some kv \<longrightarrow> slice st kv \<noteq> v"
  unfolding represents_def by (metis option.distinct(1))

lemma getID_represents:
  assumes "table_ok H st" "room st" "represents st a" "int (length v) < 2 ^ 31"
  shows "getIDFromCache H st v = Some (case fst a v of None \<Rightarrow> 0 | Some i \<Rightarrow> i)"
proof (cases "fst a v")
  case None
  note this = represents_None [OF assms(3) None]
  from probe_miss [OF assms(1,2,4) this] show ?thesis using None by (auto simp: getIDFromCache_def)
next
  case (Some i)
  then obtain h kv where "valueCache st h = Some kv" "slice st kv = v" "symID kv = i"
    using represents_Some [OF assms(3)] by blast
  then show ?thesis using probe_hit [OF assms(1)] Some by (simp add: getIDFromCache_def)
qed

text \<open>One operation takes at most one slot and one pool.\<close>

definition grows :: "symbol_table \<Rightarrow> symbol_table \<Rightarrow> bool" where
  "grows st st' \<longleftrightarrow> length (bufPools st') \<le> Suc (length (bufPools st)) \<and>
     card (dom (valueCache st')) \<le> Suc (card (dom (valueCache st)))"

lemma alloc_represents:
  assumes "table_ok H st" "room st" "represents st a" "v \<noteq> []" "int (length v) < 2 ^ 30" "i \<noteq> 0"
  shows "\<exists>st'. allocAndBindToID H v i st = Some (Inr st') \<and> table_ok H st' \<and> represents st' (bind_value v i a) \<and>
    st_issuer st' = st_issuer st \<and> grows st st'"
proof (cases "fst a v = Some i")
  case True
  then obtain h kv where "valueCache st h = Some kv" "slice st kv = v" "symID kv = i"
    using represents_Some [OF assms(3)] by blast
  then have "allocAndBindToID H v i st = Some (Inr st)" using probe_hit [OF assms(1)] by (simp add: allocAndBindToID_def)
  then show ?thesis using True assms(1,3) by (simp add: bind_value_def grows_def)
next
  case new: False
  have len31: "int (length v) < 2 ^ 31" using assms(5) by simp
  let ?n = "int (length v)" and ?e = "ensure_pool (int (length v)) st"
  let ?kv = "\<lparr>symID = i, poolIdx = curBufPoolIdx ?e, poolOfs = curBufPoolSz ?e, kv_len = ?n\<rparr>"
  let ?c = "copy_in v ?n ?e"
  obtain h found where pr: "probe st v (H v) = Some (h, found)"
    "found = valueCache st h" "(case found of None \<Rightarrow> False | Some kv \<Rightarrow> symID kv = i) = False"
    "(\<forall>m < unat (h - H v). \<exists>kv'. valueCache st (H v + word_of_nat m) = Some kv' \<and> slice st kv' \<noteq> v)"
    "\<forall>h' kv'. valueCache st h' = Some kv' \<and> slice st kv' = v \<longrightarrow> h' = h"
    "\<forall>kv'. valueCache st h = Some kv' \<longrightarrow> slice st kv' = v"
  proof (cases "\<exists>h kv. valueCache st h = Some kv \<and> slice st kv = v")
    case True
    then obtain h kv where k: "valueCache st h = Some kv" "slice st kv = v" by blast
    then have i: "symID kv \<noteq> i" using new assms(3) unfolding represents_def by blast
    show thesis
    proof (rule that [of h "Some kv"])
      show "probe st v (H v) = Some (h, Some kv)" by (rule probe_hit [OF assms(1) k])
      show "\<forall>m < unat (h - H v). \<exists>kv'. valueCache st (H v + word_of_nat m) = Some kv' \<and> slice st kv' \<noteq> v"
        using table_entry(2) [OF assms(1) k(1)] unfolding chain_def k(2) .
      show "\<forall>h' kv'. valueCache st h' = Some kv' \<and> slice st kv' = v \<longrightarrow> h' = h"
        using one_slot [OF assms(1) _ k(1)] unfolding k(2) by blast
    qed (simp_all add: i k)
  next
    case False
    then have f: "\<forall>h kv. valueCache st h = Some kv \<longrightarrow> slice st kv \<noteq> v" by blast
    obtain h where h: "probe st v (H v) = Some (h, None)" "valueCache st h = None"
      "\<forall>m < unat (h - H v). valueCache st (H v + word_of_nat m) \<noteq> None"
      using probe_miss [OF assms(1,2) len31 f] by blast
    show thesis
    proof (rule that [of h None])
      show "\<forall>m < unat (h - H v). \<exists>kv'. valueCache st (H v + word_of_nat m) = Some kv' \<and> slice st kv' \<noteq> v"
        using h(3) f by blast
    qed (use h f in auto)
  qed
  have p: "pools_ok st" "0 < ?n" "length (bufPools st) < 2 ^ 30" "st_issuer st \<noteq> None"
    using assms(1,2,4) by (simp_all add: table_ok_def room_def)
  note e = ensure_pool_spec [OF p(1,2) assms(5) p(3)]
  note c = copy_in_spec [OF e(1) refl p(2) e(2,3)]
  have keep: "entry_ok ?c kv \<and> slice ?c kv = slice st kv" if "entry_ok st kv" for kv
    using e(4) [OF that] c(3) by metis
  have same: "valueCache ?c = valueCache st" "tokenCache ?c = tokenCache st" "st_issuer ?c = st_issuer st"
    "st_issuer ?e = st_issuer st" "valueCache ?e = valueCache st" "tokenCache ?e = tokenCache st"
    by (simp_all add: copy_in_def ensure_pool_def Let_def)
  let ?s = "?c\<lparr>valueCache := (valueCache st)(h \<mapsto> ?kv), tokenCache := (tokenCache st)(i \<mapsto> ?kv)\<rparr>"
  have b: "0 \<le> curBufPoolSz ?e" "curBufPoolSz ?e + ?n < 2 ^ 31" "go_int32 ?n = ?n"
    using e(1,2) cap_bound [OF e(1)] assms(5) by (simp_all add: pools_ok_def go_int32_id)
  then have "go_int32 (curBufPoolSz ?e + ?n) = curBufPoolSz ?e + ?n" using p(2) by (simp add: go_int32_id)
  then have run: "allocAndBindToID H v i st = Some (Inr ?s)"
    using pr(1,3) b e(2) p(2,4) same by (simp add: allocAndBindToID_def Let_def)
  have sl: "slice ?s kv = slice ?c kv" "entry_ok ?s kv = entry_ok ?c kv" for kv
    by (simp_all add: slice_def entry_ok_def)
  have kv: "entry_ok ?c ?kv" "slice ?c ?kv = v" using c(4,5) assms(6) by auto
  have ents: "entry_ok ?s kv' \<and> chain H ?s h' kv' \<and> slice ?s kv' = (if h' = h then v else slice st kv')"
    if "valueCache ?s h' = Some kv'" for h' kv'
  proof (cases "h' = h")
    case True
    then have [simp]: "kv' = ?kv" using that by simp
    have "chain H ?s h ?kv"
      unfolding chain_def sl kv(2)
    proof (intro allI impI)
      fix m assume m: "m < unat (h - H v)"
      then obtain kv1 where k1: "valueCache st (H v + word_of_nat m) = Some kv1" "slice st kv1 \<noteq> v" using pr(4) by blast
      then have "H v + word_of_nat m \<noteq> h" using pr(6) by auto
      then show "\<exists>kv'. valueCache ?s (H v + word_of_nat m) = Some kv' \<and> slice ?c kv' \<noteq> v"
        using k1 keep [OF table_entry(1) [OF assms(1) k1(1)]] by simp
    qed
    then show ?thesis using kv True by (simp add: sl)
  next
    case False
    then have k: "valueCache st h' = Some kv'" using that by simp
    note ke = keep [OF table_entry(1) [OF assms(1) k]]
    have ch: "chain H st h' kv'" using table_entry(2) [OF assms(1) k] .
    have ne: "slice st kv' \<noteq> v" using pr(5) k False by blast
    have "chain H ?s h' kv'"
      unfolding chain_def sl ke [THEN conjunct2]
    proof (intro allI impI)
      fix m assume "m < unat (h' - H (slice st kv'))"
      then obtain kv1 where k1: "valueCache st (H (slice st kv') + word_of_nat m) = Some kv1" "slice st kv1 \<noteq> slice st kv'"
        using ch unfolding chain_def by blast
      show "\<exists>kv''. valueCache ?s (H (slice st kv') + word_of_nat m) = Some kv'' \<and> slice ?c kv'' \<noteq> slice st kv'"
        using k1 ne kv(2) keep [OF table_entry(1) [OF assms(1) k1(1)]] by (cases "H (slice st kv') + word_of_nat m = h") auto
    qed
    then show ?thesis using ke False by (simp add: sl)
  qed
  have toks: "entry_ok ?s kv' \<and> symID kv' = j \<and> slice ?s kv' = (if j = i then v else slice st kv')"
    if "tokenCache ?s j = Some kv'" for j kv'
    using that kv keep assms(1) by (cases "j = i") (auto simp: sl table_ok_def)
  have ok: "table_ok H ?s"
    using ents toks c(1) p(4) same(3) unfolding table_ok_def by (auto simp: pools_ok_def pool_cap_def)
  have old: "fst a u = Some j \<longleftrightarrow> (\<exists>h kv. valueCache st h = Some kv \<and> slice st kv = u \<and> symID kv = j)" for u j
    using assms(3) by (simp add: represents_def)
  have "((fst a)(v \<mapsto> i)) u = Some j \<longleftrightarrow> (\<exists>h' kv'. valueCache ?s h' = Some kv' \<and> slice ?s kv' = u \<and> symID kv' = j)" for u j
  proof (cases "u = v")
    case True
    have "h' = h \<and> kv' = ?kv" if "valueCache ?s h' = Some kv'" "slice ?s kv' = v" for h' kv'
      using ents [OF that(1)] that pr(5) by (cases "h' = h") auto
    moreover have "valueCache ?s h = Some ?kv" "slice ?s ?kv = v" using kv(2) by (simp_all add: sl)
    ultimately show ?thesis using True by (metis fun_upd_same kv_entry.select_convs(1) option.inject)
  next
    case False
    have "(\<exists>h' kv'. valueCache ?s h' = Some kv' \<and> slice ?s kv' = u \<and> symID kv' = j)
        \<longleftrightarrow> (\<exists>h' kv'. valueCache st h' = Some kv' \<and> slice st kv' = u \<and> symID kv' = j)"
    proof
      assume "\<exists>h' kv'. valueCache ?s h' = Some kv' \<and> slice ?s kv' = u \<and> symID kv' = j"
      then obtain h' kv' where k: "valueCache ?s h' = Some kv'" "slice ?s kv' = u" "symID kv' = j" by blast
      then have "h' \<noteq> h" using ents [OF k(1)] False by auto
      then show "\<exists>h' kv'. valueCache st h' = Some kv' \<and> slice st kv' = u \<and> symID kv' = j" using k ents [OF k(1)] by auto
    next
      assume "\<exists>h' kv'. valueCache st h' = Some kv' \<and> slice st kv' = u \<and> symID kv' = j"
      then obtain h' kv' where k: "valueCache st h' = Some kv'" "slice st kv' = u" "symID kv' = j" by blast
      then have "h' \<noteq> h" using pr(6) False by auto
      then show "\<exists>h' kv'. valueCache ?s h' = Some kv' \<and> slice ?s kv' = u \<and> symID kv' = j"
        using k keep [OF table_entry(1) [OF assms(1) k(1)]] by (auto simp: sl)
    qed
    then show ?thesis using old False by simp
  qed
  moreover have "((snd a)(i \<mapsto> v)) j = map_option (slice ?s) (tokenCache ?s j)" for j
  proof (cases "tokenCache ?s j")
    case (Some kv')
    then show ?thesis using toks [OF Some] assms(3) by (auto simp: represents_def split: if_splits)
  qed (use assms(3) in \<open>auto simp: represents_def split: if_splits\<close>)
  ultimately have "represents ?s (bind_value v i a)" using new by (simp add: represents_def bind_value_def)
  moreover have "length (bufPools ?c) \<le> Suc (length (bufPools st))" by (simp add: c(2)) (simp add: ensure_pool_def)
  then have "grows st ?s" by (simp add: grows_def card_insert_if)
  ultimately show ?thesis using run ok same(3) by auto
qed


section \<open>The operations on the two maps\<close>

lemma represents_empty: "table_ok H st \<Longrightarrow> represents st a \<Longrightarrow> fst a [] = None"
proof (rule ccontr)
  assume a: "table_ok H st" "represents st a" "fst a [] \<noteq> None"
  then obtain h kv where k: "valueCache st h = Some kv" "slice st kv = []" using represents_Some by blast
  then show False using entry_length [OF table_entry(1) [OF a(1) k(1)]] table_entry(1) [OF a(1) k(1)]
    by (simp add: entry_ok_def)
qed

lemma represents_nonzero: "table_ok H st \<Longrightarrow> represents st a \<Longrightarrow> fst a v = Some i \<Longrightarrow> i \<noteq> 0"
  using represents_Some [of st a v i] table_entry(1) by (metis entry_ok_def)

lemma GetSymbol_represents:
  "table_ok H st \<Longrightarrow> represents st a \<Longrightarrow> GetSymbol i io st = (if i = 0 then None else map_option ((@) io) (snd a i))"
  unfolding GetSymbol_def bufForEntry_def represents_def table_ok_def entry_ok_def
  by (cases "tokenCache st i") auto

lemma GetSymbolID_known:
  assumes "table_ok H st" "room st" "represents st a" "int (length v) < 2 ^ 31" "fst a v = Some i"
  shows "GetSymbolID H v auto st = Some (Inr (st, i, False))"
  using getID_represents [OF assms(1-4)] represents_nonzero [OF assms(1,3,5)] assms(5) by (simp add: GetSymbolID_def)

lemma represents_issuer: "represents (st\<lparr>st_issuer := x\<rparr>) a \<longleftrightarrow> represents st a"
proof -
  have "slice (st\<lparr>st_issuer := x\<rparr>) = slice st" by (simp add: fun_eq_iff slice_def)
  then show ?thesis by (simp add: represents_def)
qed

lemma table_ok_issuer: "table_ok H st \<Longrightarrow> table_ok H (st\<lparr>st_issuer := Some x\<rparr>)"
proof -
  have "slice (st\<lparr>st_issuer := Some x\<rparr>) = slice st" "entry_ok (st\<lparr>st_issuer := Some x\<rparr>) = entry_ok st"
    "pools_ok (st\<lparr>st_issuer := Some x\<rparr>) = pools_ok st"
    by (simp_all add: fun_eq_iff slice_def entry_ok_def pools_ok_def pool_cap_def)
  then show "table_ok H st \<Longrightarrow> table_ok H (st\<lparr>st_issuer := Some x\<rparr>)" by (simp add: table_ok_def chain_def)
qed

text \<open>A fresh identifier, however the caller got there.\<close>

lemma getset_mints:
  assumes "table_ok H st" "room st" "represents st a" "v \<noteq> []" "int (length v) < 2 ^ 30"
    and "st_issuer st = Some iss" "0 < iss_refCount iss" "nextID iss + 1 \<noteq> 0" "fst a v \<noteq> Some (nextID iss + 1)"
  shows "\<exists>st'. getsetValueIDPair H v 0 True st = Some (Inr (st', nextID iss + 1, True)) \<and> table_ok H st' \<and>
    represents st' ((fst a)(v \<mapsto> nextID iss + 1), (snd a)(nextID iss + 1 \<mapsto> v)) \<and>
    st_issuer st' = Some (iss\<lparr>nextID := nextID iss + 1\<rparr>) \<and> grows st st'"
proof -
  let ?i = "nextID iss + 1" and ?t = "st\<lparr>st_issuer := Some (iss\<lparr>nextID := nextID iss + 1\<rparr>)\<rparr>"
  have "room ?t" using assms(2) by (simp add: room_def)
  from alloc_represents [OF table_ok_issuer [OF assms(1)] this, unfolded represents_issuer, OF assms(3-5,8)]
  obtain st' where s: "allocAndBindToID H v ?i ?t = Some (Inr st')" "table_ok H st'"
    "represents st' (bind_value v ?i a)" "st_issuer st' = st_issuer ?t" "grows ?t st'" by blast
  have "getsetValueIDPair H v 0 True st = Some (Inr (st', ?i, True))"
    using assms(4,6-8) s(1) by (simp add: getsetValueIDPair_def MintNext_def Let_def)
  then show ?thesis using s assms(9) by (simp add: bind_value_def grows_def)
qed

lemma GetSymbolID_new:
  assumes "table_ok H st" "room st" "represents st a" "v \<noteq> []" "int (length v) < 2 ^ 30" "fst a v = None"
    and "st_issuer st = Some iss" "0 < iss_refCount iss" "nextID iss + 1 \<noteq> 0"
  shows "\<exists>st'. GetSymbolID H v True st = Some (Inr (st', nextID iss + 1, True)) \<and> table_ok H st' \<and>
    represents st' ((fst a)(v \<mapsto> nextID iss + 1), (snd a)(nextID iss + 1 \<mapsto> v)) \<and>
    st_issuer st' = Some (iss\<lparr>nextID := nextID iss + 1\<rparr>) \<and> grows st st'"
proof -
  have "int (length v) < 2 ^ 31" using assms(5) by simp
  note miss = getID_represents [OF assms(1-3) this]
  have "fst a v \<noteq> Some (nextID iss + 1)" using assms(6) by simp
  from getset_mints [OF assms(1-5,7-9) this] miss assms(6,9) show ?thesis by (auto simp: GetSymbolID_def)
qed

section \<open>Sessions of interning\<close>

text \<open>Values interned one after the other, with the identifiers they got.\<close>

fun intern_all ::
  "(byte list \<Rightarrow> u64) \<Rightarrow> byte list list \<Rightarrow> symbol_table \<Rightarrow> (symbol_table \<times> u32 list) outcome option" where
  "intern_all H [] st = Some (Inr (st, []))"
| "intern_all H (v # vs) st =
     (case GetSymbolID H v True st of
        None \<Rightarrow> None
      | Some (Inl e) \<Rightarrow> Some (Inl e)
      | Some (Inr (st, i, _)) \<Rightarrow> map_option (\<lambda>r. and_then r (\<lambda>(st, is). Inr (st, i # is))) (intern_all H vs st))"

text \<open>A table used by auto-issue only: the two maps are inverse, and the identifiers given are those the
  issuer has passed, one per slot.\<close>

definition session_ok :: "(byte list \<Rightarrow> u64) \<Rightarrow> nat \<Rightarrow> symbol_table \<Rightarrow> interning \<Rightarrow> bool" where
  "session_ok H n st a \<longleftrightarrow> table_ok H st \<and> represents st a \<and>
     (\<forall>v i. fst a v = Some i \<longleftrightarrow> snd a i = Some v) \<and>
     (\<exists>iss. st_issuer st = Some iss \<and> 0 < iss_refCount iss \<and> unat (nextID iss) + n < 2 ^ 30 \<and>
        (\<forall>v i. fst a v = Some i \<longrightarrow> unat i \<le> unat (nextID iss))) \<and>
     length (bufPools st) + n < 2 ^ 30 \<and> card (dom (valueCache st)) + n < 2 ^ 30"

lemma session_room: "session_ok H n st a \<Longrightarrow> room st"
proof -
  assume "session_ok H n st a"
  then have "card (dom (valueCache st)) < 2 ^ 30" "length (bufPools st) < 2 ^ 30" by (simp_all add: session_ok_def)
  moreover have "card (UNIV :: u64 set) = 2 ^ 64" by (simp add: card_word)
  ultimately show ?thesis by (auto simp: room_def)
qed

lemma session_step:
  assumes "session_ok H (Suc n) st a" "v \<noteq> []" "int (length v) < 2 ^ 30"
  shows "\<exists>st' i b a'. GetSymbolID H v True st = Some (Inr (st', i, b)) \<and> session_ok H n st' a' \<and> fst a' v = Some i \<and>
    fst a \<subseteq>\<^sub>m fst a'"
proof (cases "fst a v")
  case (Some i)
  have "GetSymbolID H v True st = Some (Inr (st, i, False))"
    using assms Some session_room [OF assms(1)] by (intro GetSymbolID_known) (auto simp: session_ok_def)
  moreover have "session_ok H n st a" using assms(1) by (auto simp: session_ok_def)
  ultimately show ?thesis using Some map_le_refl by blast
next
  case None
  obtain iss where iss: "st_issuer st = Some iss" "0 < iss_refCount iss" "unat (nextID iss) + Suc n < 2 ^ 30"
    "\<forall>v i. fst a v = Some i \<longrightarrow> unat i \<le> unat (nextID iss)"
    using assms(1) by (auto simp: session_ok_def)
  have ok: "table_ok H st" "represents st a" "\<forall>v i. fst a v = Some i \<longleftrightarrow> snd a i = Some v"
    "length (bufPools st) + Suc n < 2 ^ 30" "card (dom (valueCache st)) + Suc n < 2 ^ 30"
    using assms(1) by (simp_all add: session_ok_def)
  let ?i = "nextID iss + 1"
  have u: "unat ?i = Suc (unat (nextID iss))" using iss(3) by (subst unat_add_lem [THEN iffD1]) simp_all
  then have nz: "?i \<noteq> 0" by auto
  from GetSymbolID_new [OF ok(1) session_room [OF assms(1)] ok(2) assms(2,3) None iss(1,2) nz]
  obtain st' where s: "GetSymbolID H v True st = Some (Inr (st', ?i, True))" "table_ok H st'"
    "represents st' ((fst a)(v \<mapsto> ?i), (snd a)(?i \<mapsto> v))" "st_issuer st' = Some (iss\<lparr>nextID := ?i\<rparr>)" "grows st st'" by blast
  have new: "fst a w \<noteq> Some ?i" for w using iss(4) u by fastforce
  have old: "snd a j \<noteq> Some v" for j using ok(3) None by (metis option.distinct(1))
  have "((fst a)(v \<mapsto> ?i)) w = Some j \<longleftrightarrow> ((snd a)(?i \<mapsto> v)) j = Some w" for w j
    using ok(3) new old by auto
  moreover have "unat j \<le> unat ?i" if "((fst a)(v \<mapsto> ?i)) w = Some j" for w j
    using that iss(4) u by (auto simp: le_Suc_eq split: if_splits)
  moreover have "unat ?i + n < 2 ^ 30" "length (bufPools st') + n < 2 ^ 30" "card (dom (valueCache st')) + n < 2 ^ 30"
    using iss(3) u ok(4,5) s(5) by (simp_all add: grows_def)
  ultimately have ok': "session_ok H n st' ((fst a)(v \<mapsto> ?i), (snd a)(?i \<mapsto> v))"
    using s(2-4) iss(2) unfolding session_ok_def by simp
  have "fst a \<subseteq>\<^sub>m (fst a)(v \<mapsto> ?i)" using None by (auto simp: map_le_def)
  then show ?thesis using s(1) ok'
    by (intro exI [of _ st'] exI [of _ ?i] exI [of _ True] exI [of _ "((fst a)(v \<mapsto> ?i), (snd a)(?i \<mapsto> v))"]) simp
qed

lemma session_all:
  "session_ok H (length vs + n) st a \<Longrightarrow> \<forall>v \<in> set vs. v \<noteq> [] \<and> int (length v) < 2 ^ 30 \<Longrightarrow>
   \<exists>st' is a'. intern_all H vs st = Some (Inr (st', is)) \<and> session_ok H n st' a' \<and> length is = length vs \<and>
     (\<forall>k < length vs. fst a' (vs ! k) = Some (is ! k)) \<and> fst a \<subseteq>\<^sub>m fst a'"
proof (induction vs arbitrary: st a)
  case Nil
  then have "session_ok H n st a" by simp
  moreover have "fst a \<subseteq>\<^sub>m fst a" by (rule map_le_refl)
  ultimately show ?case unfolding intern_all.simps by (intro exI conjI) (auto simp del: split_paired_Ex)
next
  case (Cons v vs)
  have p: "session_ok H (Suc (length vs + n)) st a" "v \<noteq> []" "int (length v) < 2 ^ 30" using Cons.prems by simp_all
  obtain st1 i b a1 where s: "GetSymbolID H v True st = Some (Inr (st1, i, b))" "session_ok H (length vs + n) st1 a1"
    "fst a1 v = Some i" "fst a \<subseteq>\<^sub>m fst a1" using session_step [OF p] by blast
  obtain st' "is" a' where r: "intern_all H vs st1 = Some (Inr (st', is))" "session_ok H n st' a'" "length is = length vs"
    "\<forall>k < length vs. fst a' (vs ! k) = Some (is ! k)" "fst a1 \<subseteq>\<^sub>m fst a'"
    using Cons.IH [OF s(2)] Cons.prems(2) by (metis list.set_intros(2))
  have "fst a' v = Some i" using s(3) r(5) by (metis domI map_le_def)
  then have "\<forall>k < length (v # vs). fst a' ((v # vs) ! k) = Some ((i # is) ! k)" using r(4) by (simp add: nth_Cons split: nat.split)
  moreover have "intern_all H (v # vs) st = Some (Inr (st', i # is))" using s(1) r(1) by simp
  ultimately show ?case using r(2,3) map_le_trans [OF s(4) r(5)]
    by (intro exI [of _ st'] exI [of _ "i # is"] exI [of _ a']) simp
qed

lemma session_start:
  assumes "createTable None start poolSz = Inr st" "poolSz < 2 ^ 30" "unat start + n < 2 ^ 30"
  shows "session_ok H n st (Map.empty, Map.empty)"
  using assms by (auto simp: createTable_def NewVolatileIssuer_def session_ok_def table_ok_def pools_ok_def pool_cap_def represents_def)

section \<open>Properties\<close>

text \<open>C15. Interning, for every hash function: a session on a new table ends its probe loops, gives equal
  identifiers to equal values only, never reuses one, and at its end every identifier still reads back as the
  value it was given for.\<close>

theorem interning_session:
  assumes "createTable None start poolSz = Inr st0" "poolSz < 2 ^ 30" "unat start + length vs < 2 ^ 30"
    and "\<forall>v \<in> set vs. v \<noteq> [] \<and> int (length v) < 2 ^ 30"
  shows "\<exists>st is. intern_all H vs st0 = Some (Inr (st, is)) \<and> length is = length vs \<and>
    (\<forall>j k. j < length vs \<longrightarrow> k < length vs \<longrightarrow> (is ! j = is ! k \<longleftrightarrow> vs ! j = vs ! k)) \<and>
    (\<forall>k < length vs. GetSymbol (is ! k) io st = Some (io @ vs ! k))"
proof -
  have "session_ok H (length vs + 0) st0 (Map.empty, Map.empty)"
    using session_start [OF assms(1,2)] assms(3) by simp
  from session_all [OF this assms(4)] obtain st' "is" a' where r: "intern_all H vs st0 = Some (Inr (st', is))"
    "session_ok H 0 st' a'" "length is = length vs" "\<forall>k < length vs. fst a' (vs ! k) = Some (is ! k)" by blast
  have ok: "table_ok H st'" "represents st' a'" "\<forall>v i. fst a' v = Some i \<longleftrightarrow> snd a' i = Some v"
    using r(2) by (simp_all add: session_ok_def)
  have "GetSymbol (is ! k) io st' = Some (io @ vs ! k)" if "k < length vs" for k
    using GetSymbol_represents [OF ok(1,2)] ok(3) r(4) that represents_nonzero [OF ok(1,2)] by simp
  moreover have "is ! j = is ! k \<longleftrightarrow> vs ! j = vs ! k" if "j < length vs" "k < length vs" for j k
    using r(4) ok(3) that by (metis option.inject)
  ultimately show ?thesis using r(1,3) by blast
qed

theorem interning_session_witness:
  "\<exists>st0 st i. createTable None DefaultIssuerMin 16 = Inr st0 \<and>
     intern_all (\<lambda>_. 7) [[1], [2, 3], [1]] st0 = Some (Inr (st, i)) \<and> i ! 0 = i ! 2 \<and> i ! 0 \<noteq> i ! 1
     \<and> GetSymbol (i ! 1) [] st = Some [2, 3]"
proof -
  obtain st0 where c: "createTable None DefaultIssuerMin 16 = Inr st0" by (simp add: createTable_def)
  obtain st i where s: "intern_all (\<lambda>_. 7) [[1], [2, 3], [1]] st0 = Some (Inr (st, i))"
    "\<forall>j k. j < 3 \<longrightarrow> k < 3 \<longrightarrow> (i ! j = i ! k \<longleftrightarrow> [[1], [2, 3], [1 :: byte]] ! j = [[1], [2, 3], [1]] ! k)"
    "\<forall>k < 3. GetSymbol (i ! k) [] st = Some ([[1], [2, 3], [1]] ! k)"
    using interning_session [OF c, of "[[1], [2, 3], [1]]" "\<lambda>_. 7" "[]"] by (auto simp: DefaultIssuerMin_def numeral_3_eq_3)
  have "i ! 0 = i ! 2" "i ! 0 \<noteq> i ! 1" "GetSymbol (i ! 1) [] st = Some [2, 3]"
    using s(2) [rule_format, of 0 2] s(2) [rule_format, of 0 1] s(3) [rule_format, of 1] by simp_all
  then show ?thesis using c s(1) by blast
qed

text \<open>Identifiers are unique per value only when calls do not overlap: the cache is read under one lock
  and the value is bound under another, so two callers that both miss a value before either binds it are given
  different identifiers for it.  \<open>SetSymbolID\<close> with identifier 0 skips the lookup altogether, although it is
  documented as \<open>GetSymbolID\<close> with auto-issue, and renames a value that is known.\<close>

theorem overlapping_callers_differ:
  assumes "table_ok H st" "room st" "represents st a" "v \<noteq> []" "int (length v) < 2 ^ 30"
    and "st_issuer st = Some iss" "0 < iss_refCount iss" "nextID iss + 1 \<noteq> 0" "nextID iss + 2 \<noteq> 0"
    and "fst a v = None" "length (bufPools st) + 1 < 2 ^ 30" "card (dom (valueCache st)) + 1 < 2 ^ 30"
  shows "\<exists>st1 st2. getIDFromCache H st v = Some 0 \<and>
    getsetValueIDPair H v 0 True st = Some (Inr (st1, nextID iss + 1, True)) \<and>
    getsetValueIDPair H v 0 True st1 = Some (Inr (st2, nextID iss + 2, True)) \<and>
    GetSymbolID H v True st1 = Some (Inr (st1, nextID iss + 1, False)) \<and>
    SetSymbolID H v 0 st1 = Some (Inr (st2, nextID iss + 2, True))"
proof -
  have l: "int (length v) < 2 ^ 31" using assms(5) by simp
  have n1: "fst a v \<noteq> Some (nextID iss + 1)" using assms(10) by simp
  obtain st1 where s1: "getsetValueIDPair H v 0 True st = Some (Inr (st1, nextID iss + 1, True))" "table_ok H st1"
    "represents st1 ((fst a)(v \<mapsto> nextID iss + 1), (snd a)(nextID iss + 1 \<mapsto> v))"
    "st_issuer st1 = Some (iss\<lparr>nextID := nextID iss + 1\<rparr>)" "grows st st1"
    using getset_mints [OF assms(1-8) n1] by blast
  have "card (UNIV :: u64 set) = 2 ^ 64" by (simp add: card_word)
  then have r1: "room st1" using s1(5) assms(11,12) by (auto simp: room_def grows_def)
  let ?iss = "iss\<lparr>nextID := nextID iss + 1\<rparr>"
  have q: "nextID ?iss + 1 = nextID iss + 2" by simp
  have "nextID ?iss + 1 \<noteq> 0" "0 < iss_refCount ?iss" using assms(7,9) by (simp_all only: q) simp_all
  moreover have "fst ((fst a)(v \<mapsto> nextID iss + 1), (snd a)(nextID iss + 1 \<mapsto> v)) v \<noteq> Some (nextID ?iss + 1)" by simp
  ultimately obtain st2 where s2: "getsetValueIDPair H v 0 True st1 = Some (Inr (st2, nextID iss + 2, True))"
    using getset_mints [OF s1(2) r1 s1(3) assms(4,5) s1(4)] unfolding q by blast
  have "getIDFromCache H st v = Some 0" using getID_represents [OF assms(1-3) l] assms(10) by simp
  moreover have "GetSymbolID H v True st1 = Some (Inr (st1, nextID iss + 1, False))"
    by (rule GetSymbolID_known [OF s1(2) r1 s1(3) l]) simp
  ultimately show ?thesis using s1(1) s2 by (auto simp: SetSymbolID_def)
qed

lemma overlapping_table:
  "\<exists>st. createTable None DefaultIssuerMin 16 = Inr st \<and> session_ok (\<lambda>_. 7) 9 st (Map.empty, Map.empty) \<and>
     st_issuer st = Some \<lparr>iss_refCount = 1, nextID = 600\<rparr> \<and> bufPools st = [] \<and> valueCache st = Map.empty"
proof -
  obtain st0 where c: "createTable None DefaultIssuerMin 16 = Inr st0" by (simp add: createTable_def)
  have "session_ok (\<lambda>_. 7) 9 st0 (Map.empty, Map.empty)"
    by (rule session_start [OF c]) (simp_all add: DefaultIssuerMin_def)
  then show ?thesis using c by (auto simp: createTable_def NewVolatileIssuer_def DefaultIssuerMin_def)
qed

theorem overlapping_callers_differ_witness:
  "\<exists>st st1 st2. getsetValueIDPair (\<lambda>_. 7) [5] 0 True st = Some (Inr (st1, 601, True)) \<and>
     getsetValueIDPair (\<lambda>_. 7) [5] 0 True st1 = Some (Inr (st2, 602, True))"
proof -
  obtain st where s: "session_ok (\<lambda>_. 7) 9 st (Map.empty, Map.empty)" "st_issuer st = Some \<lparr>iss_refCount = 1, nextID = 600\<rparr>"
    "bufPools st = []" "valueCache st = Map.empty" using overlapping_table by blast
  have t: "table_ok (\<lambda>_. 7) st" "represents st (Map.empty, Map.empty)" using s(1) by (simp_all add: session_ok_def)
  show ?thesis
    using overlapping_callers_differ [OF t(1) session_room [OF s(1)] t(2), of "[5]", OF _ _ s(2)] s(3,4) by auto
qed

text \<open>A binding that is made again is skipped when the value has the identifier, even if the identifier
  has since been given to another value.\<close>

lemma rebind_skipped:
  "w \<noteq> v \<Longrightarrow> snd (bind_value v i (bind_value w i (bind_value v i a))) i = Some w \<or> fst a w = Some i"
  by (auto simp: bind_value_def)

lemma AppendID_ReadID: "ReadID (AppendID [] i @ rest) = Inr (i, rest)"
proof -
  have "be_bytes 4 n = [word_of_nat (n div 2 ^ 24), word_of_nat (n div 2 ^ 16), word_of_nat (n div 2 ^ 8), word_of_nat n]" for n
  proof -
    have "(4 :: nat) = Suc (Suc (Suc (Suc 0)))" by simp
    then show ?thesis by (simp only: be_bytes.simps) (simp flip: div_mult2_eq)
  qed
  moreover have "ucast (drop_bit k i) = (word_of_nat (unat i div 2 ^ k) :: byte)" for k
    using unsigned_less [of i, where ?'a = nat]
    by (simp add: word_unat_eq_iff unsigned_ucast_eq unsigned_drop_bit_eq unsigned_of_nat take_bit_nat_eq_self flip: drop_bit_eq_div)
  moreover have "ucast i = (word_of_nat (unat i) :: byte)" by (simp add: word_unat_eq_iff unsigned_ucast_eq unsigned_of_nat)
  ultimately have "AppendID [] i = be32 i" by (simp only: AppendID_def be32_def append_Nil)
  then show ?thesis by (simp add: ReadID_def IDSz_def)
qed

end
