(* ===== verification/Encode.thy ===== *)
theory Encode
  imports Base32 Chunks
begin

text \<open>
  Binary data as text (\<open>stdlib/encode/encode.go\<close>): the unpadded base32 coding over the lower-case
  geohash alphabet, the filter that forgives what a token picks up in transit, and the decoder behind it.
  The coding itself is Go's \<open>encoding/base32\<close>: blocks of five bytes are eight digits; the last block is
  filled with zero bits and cut.
\<close>

section \<open>The coding\<close>

text \<open>The \<open>n\<close> low base-32 digits of a number, the highest first.\<close>

fun b32_digits :: "nat \<Rightarrow> nat \<Rightarrow> nat list" where
  "b32_digits 0 v = []"
| "b32_digits (Suc n) v = b32_digits n (v div 32) @ [v mod 32]"

text \<open>How many digits a block of bytes takes, and how many bytes a block of digits holds: a block of one,
  three or six digits holds none, since no byte count produces it.\<close>

definition block_digits :: "nat \<Rightarrow> nat" where
  "block_digits n = (n * 8 + 4) div 5"

definition block_bytes :: "nat \<Rightarrow> nat" where
  "block_bytes j = (if j = 8 then 5 else if j = 7 then 4 else if j = 5 then 3 else if j = 4 then 2
                    else if j = 2 then 1 else 0)"

definition encode_block :: "byte list \<Rightarrow> nat list" where
  "encode_block c = take (block_digits (length c)) (b32_digits 8 (be_val (c @ replicate (5 - length c) 0)))"

definition decode_block :: "nat list \<Rightarrow> byte list" where
  "decode_block ds = take (block_bytes (length ds)) (be_bytes 5 (b32_val (ds @ replicate (8 - length ds) 0)))"

definition EncodeToString :: "byte list \<Rightarrow> string" where
  "EncodeToString bs = map ((!) Base32Alphabet_Lower) (concat (map encode_block (chunks_of 5 bs)))"

text \<open>The decoder stops at the first character that is not of the alphabet.\<close>

fun digits_of :: "string \<Rightarrow> nat list outcome" where
  "digits_of [] = Inr []"
| "digits_of (c # cs) =
     (case index_of c Base32Alphabet_Lower of
        None \<Rightarrow> Inl Other
      | Some d \<Rightarrow> and_then (digits_of cs) (\<lambda>ds. Inr (d # ds)))"

definition decode_text :: "string \<Rightarrow> byte list outcome" where
  "decode_text s = and_then (digits_of s) (\<lambda>ds. Inr (concat (map decode_block (chunks_of 8 ds))))"

text \<open>\<open>DecodeString\<close> drops the line ends first.\<close>

definition DecodeString :: "string \<Rightarrow> byte list outcome" where
  "DecodeString s = decode_text (filter (\<lambda>c. c \<noteq> CHR 13 \<and> c \<noteq> CHR 10) s)"

definition ToBase32 :: "byte list \<Rightarrow> string" where
  "ToBase32 bs =
     (if bs = [] then ''0''
      else let str = EncodeToString bs
           in if list_all (\<lambda>c. c = CHR ''0'') str then ''0'' else str)"

section \<open>The filter\<close>

record sanitizer =
  src :: string
  atStart :: bool

definition BOM :: string where "BOM = [CHR 0xEF, CHR 0xBB, CHR 0xBF]"

definition is_noise :: "char \<Rightarrow> bool" where
  "is_noise c \<longleftrightarrow> c = CHR ''-'' \<or> c = CHR '' '' \<or> ord c \<in> {9, 13, 10, 11, 12 :: nat}"

definition fold_char :: "char \<Rightarrow> char" where
  "fold_char c =
     (if c \<in> {CHR ''i'', CHR ''I'', CHR ''l'', CHR ''L''} then CHR ''1''
      else if c \<in> {CHR ''o'', CHR ''O''} then CHR ''0''
      else if ord c \<ge> (65 :: nat) \<and> ord c \<le> (90 :: nat) then char_of (ord c + 32 :: nat) else c)"

text \<open>One \<open>Read\<close> into a buffer of \<open>n\<close> bytes: what it delivers and what is left of the source.\<close>

fun sanitize_loop :: "nat \<Rightarrow> string \<Rightarrow> string \<times> string" where
  "sanitize_loop n [] = ([], [])"
| "sanitize_loop n (c # cs) =
     (if n = 0 then ([], c # cs)
      else if is_noise c then sanitize_loop n cs
      else let (out, rest) = sanitize_loop (n - 1) cs in (fold_char c # out, rest))"

definition drop_bom :: "sanitizer \<Rightarrow> sanitizer" where
  "drop_bom san =
     (if atStart san
      then \<lparr>src = (if take 3 (src san) = BOM then drop 3 (src san) else src san), atStart = False\<rparr>
      else san)"

definition sanitizer_Read :: "nat \<Rightarrow> sanitizer \<Rightarrow> string outcome \<times> sanitizer" where
  "sanitizer_Read n san =
     (let san = drop_bom san; (out, rest) = sanitize_loop n (src san)
      in (if out = [] \<and> n > 0 then Inl EndOfStream else Inr out, san\<lparr>src := rest\<rparr>))"

text \<open>Everything the filter delivers until the source ends, in reads of the sizes given.\<close>

fun read_stream :: "nat list \<Rightarrow> sanitizer \<Rightarrow> string" where
  "read_stream [] san = []"
| "read_stream (n # ns) san =
     (case sanitizer_Read n san of
        (Inl e, _) \<Rightarrow> []
      | (Inr out, san') \<Rightarrow> out @ read_stream ns san')"

definition sanitized :: "string \<Rightarrow> string" where
  "sanitized s = map fold_char (filter (\<lambda>c. \<not> is_noise c) s)"

definition NewDecoder :: "string \<Rightarrow> sanitizer" where
  "NewDecoder s = \<lparr>src = s, atStart = True\<rparr>"

text \<open>The library's stream decoder asks for multiples of eight characters, so that the blocks are those
  of the whole stream whatever the sizes (\<open>read_stream_all\<close> below): one read as long as the source.\<close>

definition FromBase32 :: "string \<Rightarrow> byte list outcome" where
  "FromBase32 s = decode_text (read_stream [Suc (length s)] (NewDecoder s))"

definition DebugLabel :: "byte list \<Rightarrow> string" where
  "DebugLabel bs =
     (if bs = [] then ''null''
      else let ascii = list_all (\<lambda>b. 32 \<le> b \<and> b \<le> 126) bs;
               buf = (if length bs > 12 then take 12 bs else bs)
           in (if ascii then map (\<lambda>b. char_of (unat b)) buf else EncodeToString buf)
              @ (if length bs > 12 then ellipsis else []))"

section \<open>One block\<close>

lemma length_b32_digits [simp]: "length (b32_digits n v) = n"
  by (induction n arbitrary: v) auto

lemma b32_digits_small: "d \<in> set (b32_digits n v) \<Longrightarrow> d < 32"
  by (induction n arbitrary: v) auto

lemma b32_val_digits: "b32_val (b32_digits n v) = v mod 32 ^ n"
proof (induction n arbitrary: v)
  case (Suc n)
  then show ?case by (simp del: power_Suc add: mod32_snoc)
qed simp

lemma b32_digits_shift: "take n (b32_digits (n + k) v) = b32_digits n (v div 32 ^ k)"
proof (induction k arbitrary: v)
  case (Suc k)
  then show ?case by (simp add: div_mult2_eq)
qed simp

lemma b32_val_pad: "b32_val (ds @ replicate k 0) = b32_val ds * 32 ^ k"
proof (induction k)
  case (Suc k)
  have "ds @ replicate (Suc k) 0 = (ds @ replicate k 0) @ [0]" by (simp add: replicate_append_same)
  then show ?case using Suc by (simp only: b32_val_simps) simp
qed simp

lemma be_bytes_shift: "take n (be_bytes (n + k) v) = be_bytes n (v div 256 ^ k)"
proof (induction k arbitrary: v)
  case (Suc k)
  then show ?case by (simp add: div_mult2_eq)
qed simp

lemma be_val_pad: "be_val (c @ replicate k 0) = be_val c * 256 ^ k"
proof (induction k)
  case (Suc k)
  have "c @ replicate (Suc k) 0 = (c @ replicate k 0) @ [0]" by (simp add: replicate_append_same)
  then show ?case using Suc by (simp only: be_val_snoc) simp
qed simp

lemma block_len: "0 < n \<Longrightarrow> n \<le> 5 \<Longrightarrow> n = 1 \<or> n = 2 \<or> n = 3 \<or> n = 4 \<or> n = (5 :: nat)"
  by arith

lemma block_counts:
  assumes "0 < n" "n \<le> 5"
  shows "block_digits n \<le> 8 \<and> 0 < block_digits n \<and> block_bytes (block_digits n) = n
    \<and> (5 - n) * 8 \<ge> (8 - block_digits n) * 5 \<and> block_digits n * 5 \<ge> n * 8"
  using block_len [OF assms] by (auto simp: block_digits_def block_bytes_def)

lemma decode_encode_block:
  assumes "c \<noteq> []" "length c \<le> 5"
  shows "decode_block (encode_block c) = c \<and> length (encode_block c) = block_digits (length c)
    \<and> (\<forall>d \<in> set (encode_block c). d < 32)"
proof -
  let ?n = "length c" and ?m = "block_digits (length c)"
  have "0 < ?n" using assms(1) by simp
  note bc = block_counts [OF this assms(2)]
  let ?v = "be_val c * 256 ^ (5 - ?n)"
  have e: "encode_block c = b32_digits ?m (?v div 32 ^ (8 - ?m))"
    using b32_digits_shift [of ?m "8 - ?m" ?v] bc by (simp add: encode_block_def be_val_pad)
  have pow: "(256 :: nat) ^ (5 - ?n) = 32 ^ (8 - ?m) * 2 ^ ((5 - ?n) * 8 - (8 - ?m) * 5)"
  proof -
    have "(256 :: nat) ^ (5 - ?n) = 2 ^ ((5 - ?n) * 8)" by (simp add: power_mult mult.commute)
    also have "\<dots> = 2 ^ ((8 - ?m) * 5 + ((5 - ?n) * 8 - (8 - ?m) * 5))" using bc by simp
    also have "\<dots> = 32 ^ (8 - ?m) * 2 ^ ((5 - ?n) * 8 - (8 - ?m) * 5)"
      by (simp only: power_add power_mult mult.commute [of _ 5]) simp
    finally show ?thesis .
  qed
  have div: "?v div 32 ^ (8 - ?m) * 32 ^ (8 - ?m) = ?v" unfolding pow by simp
  have "?v < 256 ^ ?n * 256 ^ (5 - ?n)" using be_val_bound [of c] by (intro mult_strict_right_mono) simp_all
  also have "\<dots> = 32 ^ 8" using assms(2) by (simp add: power_add [symmetric])
  finally have "?v < 32 ^ ?m * 32 ^ (8 - ?m)" using bc by (simp add: power_add [symmetric])
  then have small: "?v div 32 ^ (8 - ?m) < 32 ^ ?m" by (simp add: less_mult_imp_div_less)
  have "b32_val (encode_block c @ replicate (8 - ?m) 0) = ?v"
    unfolding e b32_val_pad b32_val_digits using small div by simp
  then have "decode_block (encode_block c) = take ?n (be_bytes (?n + (5 - ?n)) ?v)"
    using bc assms(2) by (simp add: decode_block_def e)
  also have "\<dots> = be_bytes ?n (be_val c)" unfolding be_bytes_shift by simp
  finally have "decode_block (encode_block c) = c" by simp
  then show ?thesis by (auto simp: e dest: b32_digits_small)
qed

section \<open>The whole text\<close>

lemma alphabet_index:
  "\<forall>d \<in> set [0..<32]. index_of (Base32Alphabet_Lower ! d) Base32Alphabet_Lower = Some d"
  by code_simp

lemma digits_of_alphabet: "\<forall>d \<in> set ds. d < 32 \<Longrightarrow> digits_of (map ((!) Base32Alphabet_Lower) ds) = Inr ds"
  using alphabet_index by (induction ds) auto

lemma encode_blocks:
  "chunks_of 8 (concat (map encode_block (chunks_of 5 bs))) = map encode_block (chunks_of 5 bs)"
proof (induction "5 :: nat" bs rule: chunks_of.induct)
  case (1 bs)
  show ?case
  proof (cases "length bs \<le> 5")
    case True
    show ?thesis
    proof (cases "bs = []")
      case False
      then have "0 < length bs" by simp
      with block_counts [OF this True] decode_encode_block [OF False True]
      have "encode_block bs \<noteq> []" "length (encode_block bs) \<le> 8" by auto
      then show ?thesis using False True by (simp add: chunks_of_short)
    qed simp
  next
    case False
    then have ne: "bs \<noteq> []" "take 5 bs \<noteq> []" "length (take 5 bs) = 5" by auto
    have l: "length (encode_block (take 5 bs)) = 1 * 8"
      using decode_encode_block [OF ne(2)] ne(3) by (simp add: block_digits_def)
    have one: "chunks_of 8 (encode_block (take 5 bs)) = [encode_block (take 5 bs)]"
      using l by (intro chunks_of_short) auto
    show ?thesis
      using chunks_of_append [OF _ l] 1 ne one by (simp add: chunks_of_step)
  qed
qed

lemma encode_digits_small: "d \<in> set (concat (map encode_block (chunks_of 5 bs))) \<Longrightarrow> d < 32"
proof -
  assume "d \<in> set (concat (map encode_block (chunks_of 5 bs)))"
  then obtain c where "c \<in> set (chunks_of 5 bs)" "d \<in> set (encode_block c)" by auto
  then show "d < 32" using decode_encode_block [of c] chunks_of_lengths [of 5 c bs] by simp
qed

lemma decode_encode: "decode_text (EncodeToString bs) = Inr bs"
proof -
  have "concat (map decode_block (map encode_block (chunks_of 5 bs))) = concat (map id (chunks_of 5 bs))"
    unfolding map_map using decode_encode_block chunks_of_lengths [of 5 _ bs]
    by (intro arg_cong [of _ _ concat] map_cong) auto
  then show ?thesis
    using encode_digits_small by (simp add: decode_text_def EncodeToString_def digits_of_alphabet encode_blocks
        concat_chunks_of)
qed

lemma encode_alphabet: "set (EncodeToString bs) \<subseteq> set Base32Alphabet_Lower"
proof -
  have "length Base32Alphabet_Lower = 32" by code_simp
  then show ?thesis using encode_digits_small by (fastforce simp: EncodeToString_def)
qed

lemma alphabet_chars:
  "\<forall>c \<in> set Base32Alphabet_Lower. \<not> is_noise c \<and> fold_char c = c \<and> c \<noteq> CHR 13 \<and> c \<noteq> CHR 10 \<and> c \<noteq> CHR 0xEF"
  by code_simp

lemma DecodeString_encode: "DecodeString (EncodeToString bs) = Inr bs"
proof -
  have "filter (\<lambda>c. c \<noteq> CHR 13 \<and> c \<noteq> CHR 10) (EncodeToString bs) = EncodeToString bs"
    using encode_alphabet [of bs] alphabet_chars by (intro filter_True) blast
  then show ?thesis by (simp add: DecodeString_def decode_encode)
qed

lemma length_encode: "length (EncodeToString bs) = (length bs * 8 + 4) div 5"
proof -
  have "length (concat (map encode_block (chunks_of 5 bs))) = (length bs * 8 + 4) div 5"
  proof (induction "5 :: nat" bs rule: chunks_of.induct)
    case (1 bs)
    show ?case
    proof (cases "length bs \<le> 5")
      case True
      then show ?thesis
        using decode_encode_block [of bs] by (cases "bs = []") (auto simp: chunks_of_short block_digits_def)
    next
      case False
      then have ne: "bs \<noteq> []" "take 5 bs \<noteq> []" "length (take 5 bs) = 5" by auto
      have "length bs * 8 + 4 = (length (drop 5 bs) * 8 + 4) + 8 * 5" using False by simp
      then have "(length bs * 8 + 4) div 5 = (length (drop 5 bs) * 8 + 4) div 5 + 8" by (simp only: div_mult_self1)
      then show ?thesis
        using decode_encode_block [OF ne(2)] ne 1 by (simp add: chunks_of_step block_digits_def)
    qed
  qed
  then show ?thesis by (simp add: EncodeToString_def)
qed

section \<open>The filter\<close>

lemma sanitize_loop_sanitized:
  "0 < n \<Longrightarrow> fst (sanitize_loop n cs) = take n (sanitized cs)
     \<and> sanitized (snd (sanitize_loop n cs)) = drop n (sanitized cs)"
proof (induction n cs rule: sanitize_loop.induct)
  case (2 n c cs)
  show ?case
  proof (cases "is_noise c")
    case True
    then show ?thesis using 2 by (simp add: sanitized_def)
  next
    case False
    show ?thesis
    proof (cases "n = 1")
      case True
      then show ?thesis using False by (cases cs) (simp_all add: sanitized_def)
    next
      case more: False
      then obtain m where "n = Suc m" "0 < m" using 2(3) by (cases n) auto
      then show ?thesis using 2(2) 2(3) False by (auto simp: sanitized_def split: prod.splits)
    qed
  qed
qed (simp add: sanitized_def)

lemma read_stream_all:
  assumes "\<forall>n \<in> set ns. 0 < n"
  shows "read_stream ns san = take (sum_list ns) (sanitized (src (drop_bom san)))"
  using assms
proof (induction ns arbitrary: san)
  case (Cons n ns)
  let ?s = "drop_bom san"
  obtain out rest where l: "sanitize_loop n (src ?s) = (out, rest)" by force
  have o: "out = take n (sanitized (src ?s))" "sanitized rest = drop n (sanitized (src ?s))"
    using sanitize_loop_sanitized [of n "src ?s"] Cons(2) l by simp_all
  have d: "drop_bom (?s\<lparr>src := rest\<rparr>) = ?s\<lparr>src := rest\<rparr>" by (simp add: drop_bom_def)
  show ?case
  proof (cases "out = []")
    case True
    then have "sanitized (src ?s) = []" using o(1) Cons(2) by auto
    then show ?thesis using True Cons(2) l by (simp add: sanitizer_Read_def Let_def)
  next
    case False
    then show ?thesis
      using Cons o l by (simp add: sanitizer_Read_def Let_def d take_add)
  qed
qed simp

lemma length_sanitized: "length (sanitized s) \<le> length s"
  by (simp add: sanitized_def)

lemma FromBase32_sanitized:
  "FromBase32 s = decode_text (sanitized (if take 3 s = BOM then drop 3 s else s))"
proof -
  have "length (sanitized (if take 3 s = BOM then drop 3 s else s)) \<le> Suc (length s)"
    using length_sanitized [of s] length_sanitized [of "drop 3 s"] by (simp split: if_split) linarith
  moreover have "src (drop_bom (NewDecoder s)) = (if take 3 s = BOM then drop 3 s else s)"
    by (simp add: NewDecoder_def drop_bom_def)
  ultimately have "read_stream [Suc (length s)] (NewDecoder s) = sanitized (if take 3 s = BOM then drop 3 s else s)"
    using read_stream_all [of "[Suc (length s)]" "NewDecoder s"] by (simp only: list.set ball_simps sum_list_simps)
      simp
  then show ?thesis by (simp only: FromBase32_def)
qed

text \<open>\<open>transcribed t s\<close>: \<open>s\<close> is a copy of \<open>t\<close> with spaces, line ends and dashes strewn in, letters in
  either case, and the look-alikes a human or a scanner puts for the digits one and zero.\<close>

definition upper :: "char \<Rightarrow> char" where
  "upper c = (if 97 \<le> (ord c :: nat) \<and> (ord c :: nat) \<le> 122 then char_of (ord c - 32 :: nat) else c)"

inductive transcribed :: "string \<Rightarrow> string \<Rightarrow> bool" where
  done_all: "transcribed [] []"
| noise: "is_noise c \<Longrightarrow> transcribed t s \<Longrightarrow> transcribed t (c # s)"
| copied: "transcribed t s \<Longrightarrow> transcribed (c # t) (c # s)"
| raised: "transcribed t s \<Longrightarrow> transcribed (c # t) (upper c # s)"
| one: "c \<in> set ''iIlL'' \<Longrightarrow> transcribed t s \<Longrightarrow> transcribed (CHR ''1'' # t) (c # s)"
| zero: "c \<in> set ''oO'' \<Longrightarrow> transcribed t s \<Longrightarrow> transcribed (CHR ''0'' # t) (c # s)"

lemma lookalikes:
  "\<forall>c \<in> set ''iIlL''. \<not> is_noise c \<and> fold_char c = CHR ''1'' \<and> c \<noteq> CHR 0xEF"
  "\<forall>c \<in> set ''oO''. \<not> is_noise c \<and> fold_char c = CHR ''0'' \<and> c \<noteq> CHR 0xEF"
  by code_simp+

lemma noise_not_bom: "is_noise c \<Longrightarrow> c \<noteq> CHR 0xEF"
  by (auto simp: is_noise_def)

lemma sanitized_simps [simp]:
  "sanitized [] = []"
  "is_noise c \<Longrightarrow> sanitized (c # s) = sanitized s"
  "\<not> is_noise c \<Longrightarrow> sanitized (c # s) = fold_char c # sanitized s"
  by (simp_all add: sanitized_def)

lemma upper_folds:
  "\<forall>c \<in> set Base32Alphabet_Lower. \<not> is_noise (upper c) \<and> fold_char (upper c) = c \<and> upper c \<noteq> CHR 0xEF"
  by code_simp

lemma transcribed_sanitized:
  "transcribed t s \<Longrightarrow> set t \<subseteq> set Base32Alphabet_Lower \<Longrightarrow> sanitized s = t"
proof (induction rule: transcribed.induct)
  case (copied t s c)
  then show ?case using alphabet_chars by simp
next
  case (raised t s c)
  then show ?case using upper_folds by simp
next
  case (one c t s)
  then have "\<not> is_noise c" "fold_char c = CHR ''1''" using lookalikes(1) by blast+
  with one show ?case by simp
next
  case (zero c t s)
  then have "\<not> is_noise c" "fold_char c = CHR ''0''" using lookalikes(2) by blast+
  with zero show ?case by simp
qed simp_all

lemma transcribed_no_bom:
  assumes "transcribed t s" "set t \<subseteq> set Base32Alphabet_Lower"
  shows "take 3 s \<noteq> BOM"
proof -
  have "CHR 0xEF \<notin> set s"
    using assms
  proof (induction rule: transcribed.induct)
    case (noise c t s)
    then show ?case using noise_not_bom [of c] by auto
  next
    case (copied t s c)
    then show ?case using alphabet_chars by auto
  next
    case (raised t s c)
    then show ?case using upper_folds by auto
  next
    case (one c t s)
    then have "c \<noteq> CHR 0xEF" using lookalikes(1) by blast
    with one show ?case by auto
  next
    case (zero c t s)
    then have "c \<noteq> CHR 0xEF" using lookalikes(2) by blast
    with zero show ?case by auto
  qed simp
  moreover have "CHR 0xEF \<in> set s" if "take 3 s = BOM"
    using that in_set_takeD [of "CHR 0xEF" 3 s] unfolding BOM_def by (metis list.set_intros(1))
  ultimately show ?thesis by blast
qed

lemma encode_zeros: "list_all (\<lambda>c. c = CHR ''0'') (EncodeToString bs) \<Longrightarrow> \<forall>b \<in> set bs. b = 0"
proof -
  assume z: "list_all (\<lambda>c. c = CHR ''0'') (EncodeToString bs)"
  have nul: "\<forall>d \<in> set [0..<32]. Base32Alphabet_Lower ! d = CHR ''0'' \<longrightarrow> d = 0" by code_simp
  have ds: "\<forall>d \<in> set (concat (map encode_block (chunks_of 5 bs))). d = 0"
  proof
    fix d assume d: "d \<in> set (concat (map encode_block (chunks_of 5 bs)))"
    then have "Base32Alphabet_Lower ! d = CHR ''0''"
      using z unfolding EncodeToString_def list_all_iff set_map by blast
    then show "d = 0"
      using nul encode_digits_small [OF d] by simp
  qed
  have zero: "\<forall>b \<in> set c. b = 0" if c: "c \<in> set (chunks_of 5 bs)" for c
  proof -
    have "encode_block c = replicate (length (encode_block c)) 0"
      using ds c by (intro replicate_eqI) auto
    then have "c = decode_block (replicate (length (encode_block c)) 0)"
      using decode_encode_block chunks_of_lengths [OF _ c] by (metis zero_less_numeral)
    moreover have "b32_val (replicate k 0) = 0" for k using b32_val_pad [of "[]" k] by simp
    ultimately have "c = take (block_bytes (length (encode_block c))) (be_bytes 5 0)"
      by (simp add: decode_block_def replicate_add [symmetric])
    moreover have "be_bytes n 0 = replicate n 0" for n by (induction n) (simp_all add: replicate_append_same)
    ultimately have "c = take (block_bytes (length (encode_block c))) (replicate 5 0)" by (simp only:)
    then have "set c \<subseteq> set (replicate 5 0)" by (metis set_take_subset)
    then show ?thesis by auto
  qed
  show ?thesis
  proof
    fix b assume "b \<in> set bs"
    then have "b \<in> set (concat (chunks_of 5 bs))" by (simp add: concat_chunks_of)
    then show "b = 0" using zero by auto
  qed
qed

section \<open>Properties\<close>

text \<open>C27. A token survives its journey: whatever is strewn into the text of a byte string, whichever
  case its letters come in and whichever look-alikes stand for its ones and zeros, with or without a byte
  order mark in front, \<open>FromBase32\<close> gives the bytes back, unless they are all zero.\<close>

theorem base32_text_survives:
  assumes "transcribed (ToBase32 bs) s" "\<exists>b \<in> set bs. b \<noteq> 0"
  shows "FromBase32 s = Inr bs \<and> FromBase32 (BOM @ s) = Inr bs"
proof -
  have t: "ToBase32 bs = EncodeToString bs" using assms(2) encode_zeros by (auto simp: ToBase32_def Let_def)
  have "sanitized s = EncodeToString bs" "take 3 s \<noteq> BOM"
    using transcribed_sanitized transcribed_no_bom assms(1) encode_alphabet unfolding t by blast+
  then show ?thesis
    using decode_encode by (simp add: FromBase32_sanitized BOM_def)
qed

lemma b32_digits_8:
  "b32_digits 8 v = [v div 32 div 32 div 32 div 32 div 32 div 32 div 32 mod 32, v div 32 div 32 div 32 div 32 div 32 div 32 mod 32,
     v div 32 div 32 div 32 div 32 div 32 mod 32, v div 32 div 32 div 32 div 32 mod 32, v div 32 div 32 div 32 mod 32,
     v div 32 div 32 mod 32, v div 32 mod 32, v mod 32]"
proof -
  have "(8 :: nat) = Suc (Suc (Suc (Suc (Suc (Suc (Suc (Suc 0)))))))" by simp
  then show ?thesis by (simp only: b32_digits.simps append.simps)
qed

lemma sample_text: "ToBase32 [0x6A, 0x01] = ''e80h''"
proof -
  have "replicate 3 0 = [0, 0, 0 :: byte]" by (simp add: numeral_3_eq_3)
  then have "encode_block [0x6A, 0x01] = [13, 8, 0, 16]"
    by (simp add: encode_block_def block_digits_def be_val_def b32_digits_8)
  then have "EncodeToString [0x6A, 0x01] = ''e80h''"
    by (simp add: EncodeToString_def chunks_of_short Base32Alphabet_Lower_def)
  then show ?thesis by (simp add: ToBase32_def)
qed

theorem base32_text_survives_witness:
  "FromBase32 ''E -8o\<newline>h'' = Inr [0x6A, 0x01] \<and> FromBase32 (BOM @ ''E -8o\<newline>h'') = Inr [0x6A, 0x01]"
proof (rule base32_text_survives)
  show "\<exists>b \<in> set [0x6A, 0x01 :: byte]. b \<noteq> 0" by simp
  have e: "CHR ''E'' = upper (CHR ''e'')" by code_simp
  show "transcribed (ToBase32 [0x6A, 0x01]) ''E -8o\<newline>h''"
    unfolding sample_text e
    by (intro raised noise copied zero done_all) (simp_all add: is_noise_def)
qed

text \<open>Bytes that are all zero come back as none, and a character outside the alphabet is refused.\<close>

lemma zeros_lost: "FromBase32 (ToBase32 [0, 0]) = Inr []" "FromBase32 ''+'' = Inl Other"
proof -
  have "block_bytes 1 = 0" by (simp add: block_bytes_def)
  moreover have "index_of (CHR ''0'') Base32Alphabet_Lower = Some 0" by code_simp
  moreover have "ToBase32 [0, 0] = ''0''" using encode_zeros by code_simp
  ultimately show "FromBase32 (ToBase32 [0, 0]) = Inr []"
    by (simp add: FromBase32_sanitized decode_text_def chunks_of_short decode_block_def is_noise_def fold_char_def BOM_def)
qed code_simp

end
