(* ===== verification/Link.thy ===== *)
theory Link
  imports Encode Crypto
begin

text \<open>
  Deep link tokens (\<open>amp/link/link.go\<close>): the address of an item sealed under a key derived from an epoch
  key and written as base32.
\<close>

section \<open>The token\<close>

record link_token =
  lt_Version :: byte
  lt_PlanetID :: uid
  lt_NodeID :: uid
  lt_ItemID :: uid

definition tokenPlaintextSize :: nat where "tokenPlaintextSize = 1 + 3 * 16"
definition hkdfPurpose :: string where "hkdfPurpose = ''link-token''"
definition TokenVersion :: byte where "TokenVersion = 1"

definition marshalToken :: "link_token \<Rightarrow> byte list" where
  "marshalToken tok =
     [lt_Version tok]
     @ be64 (uid0 (lt_PlanetID tok)) @ be64 (uid1 (lt_PlanetID tok))
     @ be64 (uid0 (lt_NodeID tok)) @ be64 (uid1 (lt_NodeID tok))
     @ be64 (uid0 (lt_ItemID tok)) @ be64 (uid1 (lt_ItemID tok))"

definition unmarshalToken :: "byte list \<Rightarrow> link_token outcome" where
  "unmarshalToken data =
     (if length data < tokenPlaintextSize then Inl ErrBadToken
      else Inr \<lparr>lt_Version = hd data,
                lt_PlanetID = UID (get64 1 data) (get64 9 data),
                lt_NodeID = UID (get64 17 data) (get64 25 data),
                lt_ItemID = UID (get64 33 data) (get64 41 data)\<rparr>)"

section \<open>Sealing and opening\<close>

definition SealToken :: "primitives \<Rightarrow> byte list \<Rightarrow> link_token \<Rightarrow> byte list \<Rightarrow> string outcome" where
  "SealToken P rand tok epochKey =
     and_then (DeriveSubKey P epochKey hkdfPurpose) (\<lambda>linkKey.
     and_then (SealAEAD P rand linkKey (marshalToken tok) []) (\<lambda>(nonce, cipherblob).
     Inr (EncodeToString (nonce @ cipherblob))))"

definition OpenToken :: "primitives \<Rightarrow> string \<Rightarrow> byte list \<Rightarrow> link_token outcome" where
  "OpenToken P encoded epochKey =
     and_then (DecodeString encoded) (\<lambda>wire.
     if length wire < NonceSize + tokenPlaintextSize + 16 then Inl ErrBadToken
     else and_then (DeriveSubKey P epochKey hkdfPurpose) (\<lambda>linkKey.
          case OpenAEAD P linkKey (take NonceSize wire) (drop NonceSize wire) [] of
            Inl Panic \<Rightarrow> Inl Panic
          | Inl _ \<Rightarrow> Inl ErrBadToken
          | Inr plaintext \<Rightarrow> unmarshalToken plaintext))"

definition IsEncryptedToken :: "string \<Rightarrow> bool" where
  "IsEncryptedToken pathSegment \<longleftrightarrow>
     CHR ''/'' \<notin> set pathSegment \<and> 120 \<le> length pathSegment \<and> length pathSegment \<le> 160"

section \<open>Properties\<close>

lemma unmarshal_marshal: "unmarshalToken (marshalToken tok) = Inr tok"
  by (simp add: unmarshalToken_def marshalToken_def get64_def tokenPlaintextSize_def)

lemma length_marshalToken: "length (marshalToken tok) = tokenPlaintextSize"
  by (simp add: marshalToken_def tokenPlaintextSize_def)

text \<open>The overhead that the cipher documents: a tag of sixteen bytes.\<close>

definition aead_overhead :: "primitives \<Rightarrow> bool" where
  "aead_overhead P \<longleftrightarrow> (\<forall>k n p a. length (xseal P k n p a) = length p + 16)"

text \<open>C28. A sealed link opens under its key to the address that was sealed, whatever its version byte, and
  the text is one that the router takes for a private link.\<close>

theorem link_token_roundtrip:
  assumes "aead_law P" "aead_overhead P" "SealToken P rand tok key = Inr s"
  shows "OpenToken P s key = Inr tok \<and> length s = 143 \<and> IsEncryptedToken s"
proof -
  obtain linkKey nonce c where k: "DeriveSubKey P key hkdfPurpose = Inr linkKey"
      "SealAEAD P rand linkKey (marshalToken tok) [] = Inr (nonce, c)" "s = EncodeToString (nonce @ c)"
    using assms(3) by (auto simp: SealToken_def and_then_eq_Inr)
  note o = SealAEAD_open [OF assms(1) k(2)]
  have "length c = tokenPlaintextSize + 16"
    using k(2) assms(2) by (auto simp: SealAEAD_def and_then_eq_Inr aead_overhead_def length_marshalToken)
  then have l: "length (nonce @ c) = 89" using o by (simp add: NonceSize_def tokenPlaintextSize_def)
  then have "OpenToken P s key = Inr tok"
    using o k by (simp add: OpenToken_def DecodeString_encode unmarshal_marshal NonceSize_def tokenPlaintextSize_def)
  moreover have "length s = 143" unfolding k(3) length_encode l by simp
  moreover have "CHR ''/'' \<notin> set Base32Alphabet_Lower" by code_simp
  then have "CHR ''/'' \<notin> set s" using encode_alphabet [of "nonce @ c"] k(3) by blast
  ultimately show ?thesis by (simp add: IsEncryptedToken_def)
qed

definition tag_primitives :: primitives where
  "tag_primitives = \<lparr>xseal = (\<lambda>k n p a. p @ replicate 16 0), xopen = (\<lambda>k n c a. Some (take (length c - 16) c)),
     hkdf = (\<lambda>root salt info. Some (replicate 32 7)), hmac256 = (\<lambda>k m. k @ m)\<rparr>"

theorem link_token_roundtrip_witness:
  "\<exists>s. SealToken tag_primitives (replicate 24 9) \<lparr>lt_Version = 1, lt_PlanetID = UID 1 2, lt_NodeID = UID 3 4, lt_ItemID = UID 5 6\<rparr> [8]
     = Inr s
   \<and> OpenToken tag_primitives s [8] = Inr \<lparr>lt_Version = 1, lt_PlanetID = UID 1 2, lt_NodeID = UID 3 4, lt_ItemID = UID 5 6\<rparr>
   \<and> length s = 143 \<and> IsEncryptedToken s"
proof -
  let ?t = "\<lparr>lt_Version = 1, lt_PlanetID = UID 1 2, lt_NodeID = UID 3 4, lt_ItemID = UID 5 6\<rparr>"
  have "aead_law tag_primitives" "aead_overhead tag_primitives"
    by (simp_all add: aead_law_def aead_overhead_def tag_primitives_def)
  moreover obtain s where s: "SealToken tag_primitives (replicate 24 9) ?t [8] = Inr s"
    by (simp add: SealToken_def DeriveSubKey_def DeriveKey_def SealAEAD_def NewAEAD_def read_full_def
        NonceSize_def DEKSize_def tag_primitives_def)
  ultimately show ?thesis using link_token_roundtrip [OF _ _ s] s by blast
qed

text \<open>Text too short for a token is refused before any key is derived.\<close>

lemma short_token_refused: "OpenToken P ''e80h'' key = Inl ErrBadToken"
proof -
  have "ToBase32 [0x6A, 0x01] = ''e80h''" by (rule sample_text)
  then have "EncodeToString [0x6A, 0x01] = ''e80h''" by (simp add: ToBase32_def Let_def split: if_splits)
  then have "DecodeString ''e80h'' = Inr [0x6A, 0x01]" by (metis DecodeString_encode)
  then show ?thesis by (simp add: OpenToken_def NonceSize_def tokenPlaintextSize_def)
qed

end
