(* ===== verification/Loader.thy ===== *)
theory Loader
  imports Bindings
begin

text \<open>
  The blocking calls of an app (\<open>amp/std/std.commit.go\<close>) over closable contexts
  (\<open>stdlib/closer/closer.context.go\<close>, \<open>closer.wrapper.go\<close>).  A call submits a request to its session and
  waits in a \<open>select\<close>; what the session's pipeline and the app context send it is a sequence of events,
  in the order in which the \<open>select\<close> takes them.  A responder of type \<open>'s\<close> is its state and its
  \<open>OnNodeUpdate\<close>.
\<close>

section \<open>Closable contexts\<close>

record closer_ctx =
  cc_closed :: bool
  cc_err :: "fault option"
  cc_values :: "(string \<rightharpoonup> string list) option"
  cc_deadline :: "nat option"

text \<open>\<open>WrapContext\<close> with the deadline of its input, and \<open>None\<close> without one.\<close>

definition WrapContext :: "nat option \<Rightarrow> closer_ctx" where
  "WrapContext deadline = \<lparr>cc_closed = False, cc_err = None, cc_values = None, cc_deadline = deadline\<rparr>"

definition ctx_Close :: "fault option \<Rightarrow> closer_ctx \<Rightarrow> closer_ctx" where
  "ctx_Close err p = (if cc_closed p then p else p\<lparr>cc_closed := True, cc_err := err\<rparr>)"

definition ctx_Err :: "closer_ctx \<Rightarrow> fault option" where
  "ctx_Err p = (if cc_closed p then cc_err p else None)"

text \<open>The goroutine that waits for the input context: what it does when the input is done.\<close>

definition input_done :: "fault option \<Rightarrow> closer_ctx \<Rightarrow> closer_ctx" where
  "input_done err p = ctx_Close err p"

definition Values :: "string \<Rightarrow> closer_ctx \<Rightarrow> string list" where
  "Values key p = (case cc_values p of None \<Rightarrow> [] | Some m \<Rightarrow> (case m key of None \<Rightarrow> [] | Some vs \<Rightarrow> vs))"

definition Value :: "string \<Rightarrow> closer_ctx \<Rightarrow> string option" where
  "Value key p = (case Values key p of [] \<Rightarrow> None | v # _ \<Rightarrow> Some v)"

definition MergeValues :: "(string \<rightharpoonup> string list) \<Rightarrow> closer_ctx \<Rightarrow> closer_ctx" where
  "MergeValues valueMap p =
     p\<lparr>cc_values := Some ((case cc_values p of None \<Rightarrow> Map.empty | Some m \<Rightarrow> m) ++ valueMap)\<rparr>"

section \<open>Reference-counted closers\<close>

text \<open>The wrapped resource is gone when \<open>wr_open\<close> is false; its own result is a parameter of the close.\<close>

record closer_wrapper =
  wr_open :: bool
  wr_refCount :: "32 word"

definition WrapCloser :: closer_wrapper where
  "WrapCloser = \<lparr>wr_open = True, wr_refCount = 1\<rparr>"

definition PushOpen :: "closer_wrapper \<Rightarrow> closer_wrapper" where
  "PushOpen w = w\<lparr>wr_refCount := wr_refCount w + 1\<rparr>"

definition wrapper_Close :: "fault option \<Rightarrow> closer_wrapper \<Rightarrow> closer_wrapper \<times> unit outcome" where
  "wrapper_Close result w =
     (let w1 = w\<lparr>wr_refCount := wr_refCount w - 1\<rparr>; count = sint (wr_refCount w1)
      in if count > 0 then (w1, Inr ())
         else if count < 0 then (w1, Inl Panic)
         else (w1\<lparr>wr_open := False\<rparr>, case result of None \<Rightarrow> Inr () | Some e \<Rightarrow> Inl e))"

section \<open>The channels of a load\<close>

text \<open>\<open>localLoad.PushTx\<close>: either the receiver takes the transaction or the context of the call is done; the
  error channel holds one error, and a second is dropped.\<close>

definition try_send :: "'a \<Rightarrow> 'a option \<Rightarrow> 'a option" where
  "try_send x buffer = (case buffer of None \<Rightarrow> Some x | Some y \<Rightarrow> Some y)"

definition load_PushTx ::
  "tx_msg option \<Rightarrow> fault option \<Rightarrow> fault option \<Rightarrow> (tx_msg option \<times> fault option) \<times> unit outcome" where
  "load_PushTx tx ctxDone outErr =
     (case tx of
        None \<Rightarrow> ((None, outErr), Inl NothingToCommit)
      | Some t \<Rightarrow> (case ctxDone of
                     None \<Rightarrow> ((Some t, outErr), Inr ())
                   | Some e \<Rightarrow> ((None, try_send e outErr), Inl e)))"

definition PinStatus_TxCommit :: u32 where "PinStatus_TxCommit = 6"
definition PinStatus_Syncing :: u32 where "PinStatus_Syncing = 8"
definition PinStatus_Synced :: u32 where "PinStatus_Synced = 9"

text \<open>\<open>localCommit.RecvEvent\<close>.\<close>

definition RecvEvent :: "u32 \<Rightarrow> unit outcome \<Rightarrow> unit outcome option \<Rightarrow> unit outcome option" where
  "RecvEvent status err onCommit = (if status = PinStatus_TxCommit then try_send err onCommit else onCommit)"

section \<open>The blocking calls\<close>

text \<open>What a load can take: a transaction with the revision drawn for it, an error, or the closing of
  the app.\<close>

datatype load_event = Loaded tx_msg uid | LoadFailed fault | AppClosing

text \<open>The rest of a call that has not got its answer is \<open>None\<close>.  An app context that is closing reports
  \<open>context.Canceled\<close>.\<close>

fun load_loop ::
  "uid \<Rightarrow> (node_update \<Rightarrow> 's \<Rightarrow> 's) \<Rightarrow> load_event list \<Rightarrow> 's \<Rightarrow> ('s \<times> unit outcome) option" where
  "load_loop node resp [] s = None"
| "load_loop node resp (LoadFailed e # es) s = Some (s, Inl e)"
| "load_loop node resp (AppClosing # es) s = Some (s, Inl Canceled)"
| "load_loop node resp (Loaded tx now # es) s =
     (let s = resp \<lparr>NU_NodeID = node, NU_Revision = now, NU_Tx = tx\<rparr> s
      in if Status (TxHeader tx) \<noteq> PinStatus_Syncing then Some (s, Inr ()) else load_loop node resp es s)"

definition LoadItems ::
  "unit outcome \<Rightarrow> uid \<Rightarrow> (node_update \<Rightarrow> 's \<Rightarrow> 's) \<Rightarrow> load_event list \<Rightarrow> 's \<Rightarrow> ('s \<times> unit outcome) option" where
  "LoadItems submitted node resp events s =
     (case submitted of Inl e \<Rightarrow> Some (s, Inl e) | Inr _ \<Rightarrow> load_loop node resp events s)"

text \<open>The destination is the second component of the result; \<open>ctx\<close> is the wrapper of the app context as it
  stands when the event is taken.\<close>

definition BlockingLoad ::
  "(byte list \<Rightarrow> 'v outcome) \<Rightarrow> unit outcome \<Rightarrow> uid \<Rightarrow> load_event list \<Rightarrow> closer_ctx \<Rightarrow> 'v \<Rightarrow> ('v \<times> unit outcome) option" where
  "BlockingLoad unmarshal submitted attrID events ctx dst =
     (case submitted of
        Inl e \<Rightarrow> Some (dst, Inl e)
      | Inr _ \<Rightarrow>
          (case events of
             [] \<Rightarrow> None
           | LoadFailed e # _ \<Rightarrow> Some (dst, Inl e)
           | Loaded tx _ # _ \<Rightarrow>
               Some (case ExtractValue unmarshal tx attrID nilUID of Inl e \<Rightarrow> (dst, Inl e) | Inr v \<Rightarrow> (v, Inr ()))
           | AppClosing # _ \<Rightarrow> Some (dst, case ctx_Err ctx of None \<Rightarrow> Inr () | Some e \<Rightarrow> Inl e)))"

datatype commit_event = Committed "unit outcome" | CommitTimedOut | CommitClosing

definition std_Commit :: "unit outcome \<Rightarrow> commit_event list \<Rightarrow> unit outcome option" where
  "std_Commit submitted events =
     (case submitted of
        Inl e \<Rightarrow> Some (Inl e)
      | Inr _ \<Rightarrow>
          (case events of
             [] \<Rightarrow> None
           | Committed r # _ \<Rightarrow> Some r
           | CommitTimedOut # _ \<Rightarrow> Some (Inl Timeout)
           | CommitClosing # _ \<Rightarrow> Some (Inl Canceled)))"

definition BlockingStore ::
  "('v \<Rightarrow> unit outcome) \<Rightarrow> ('v \<Rightarrow> byte list outcome) \<Rightarrow> uid \<Rightarrow> uid \<Rightarrow> 'v option \<Rightarrow> tx_msg
     \<Rightarrow> (tx_msg \<Rightarrow> unit outcome) \<Rightarrow> commit_event list \<Rightarrow> unit outcome option" where
  "BlockingStore check marshal homeID attrID src tx submit events =
     (case src of
        None \<Rightarrow> Some (Inl NothingToCommit)
      | Some v \<Rightarrow>
          (case Upsert check marshal tx homeID attrID nilUID (Some v) of
             (tx', Inl e) \<Rightarrow> Some (Inl e)
           | (tx', Inr _) \<Rightarrow> std_Commit (submit tx') events))"

section \<open>Lemmas\<close>

lemma ctx_close_once: "ctx_Close e2 (ctx_Close e1 p) = ctx_Close e1 p"
  by (simp add: ctx_Close_def)

lemma merged_values: "Values key (MergeValues m p) = (case m key of None \<Rightarrow> Values key p | Some vs \<Rightarrow> vs)"
  by (simp add: Values_def MergeValues_def map_add_def split: option.splits)

text \<open>The resource of a wrapper lives as long as its count is positive, is closed by the close that brings
  the count to zero, and one close more panics.\<close>

definition counted :: "closer_wrapper \<Rightarrow> nat \<Rightarrow> bool" where
  "counted w n \<longleftrightarrow> wr_refCount w = word_of_nat n \<and> n < 2 ^ 31 \<and> (wr_open w \<longleftrightarrow> 0 < n)"

lemma sint32_small: "n < 2 ^ 31 \<Longrightarrow> sint (word_of_nat n :: 32 word) = int n"
  by (simp add: signed_of_nat signed_take_bit_int_eq_self)

lemma wrapper_counts:
  "counted WrapCloser 1"
  "counted w n \<Longrightarrow> 0 < n \<Longrightarrow> n + 1 < 2 ^ 31 \<Longrightarrow> counted (PushOpen w) (n + 1)"
  "counted w (n + 2) \<Longrightarrow> counted (fst (wrapper_Close r w)) (n + 1) \<and> snd (wrapper_Close r w) = Inr ()"
  "counted w 1 \<Longrightarrow> counted (fst (wrapper_Close r w)) 0 \<and> snd (wrapper_Close r w) = (case r of None \<Rightarrow> Inr () | Some e \<Rightarrow> Inl e)"
  "counted w 0 \<Longrightarrow> snd (wrapper_Close r w) = Inl Panic"
proof -
  show "counted (fst (wrapper_Close r w)) (n + 1) \<and> snd (wrapper_Close r w) = Inr ()" if c: "counted w (n + 2)"
  proof -
    have "wr_refCount w - 1 = word_of_nat (n + 1)" using c by (simp add: counted_def)
    then show ?thesis
      using c sint32_small [of "n + 1"] by (simp add: counted_def wrapper_Close_def Let_def)
  qed
  show "snd (wrapper_Close r w) = Inl Panic" if c: "counted w 0"
    using c by (simp add: counted_def wrapper_Close_def Let_def)
qed (simp_all add: counted_def WrapCloser_def PushOpen_def wrapper_Close_def Let_def)

section \<open>Properties\<close>

definition loads :: "(tx_msg \<times> uid) list \<Rightarrow> load_event list" where
  "loads ts = map (\<lambda>(tx, now). Loaded tx now) ts"

definition load_updates :: "uid \<Rightarrow> (tx_msg \<times> uid) list \<Rightarrow> node_update list" where
  "load_updates node ts = map (\<lambda>(tx, now). \<lparr>NU_NodeID = node, NU_Revision = now, NU_Tx = tx\<rparr>) ts"

lemma load_loop_drains:
  assumes "\<forall>(tx, now) \<in> set pre. Status (TxHeader tx) = PinStatus_Syncing"
  shows "load_loop node resp (loads pre @ es) s = load_loop node resp es (fold resp (load_updates node pre) s)"
  using assms by (induction pre arbitrary: s) (auto simp: loads_def load_updates_def Let_def)

text \<open>C29. A snapshot that the host splits over many transactions arrives whole: \<open>LoadItems\<close> hands every one
  up to the first that is not marked as syncing to the responder, in order and once, and takes none after
  it, so that a binding ends where receiving these updates brings it.\<close>

theorem LoadItems_whole_snapshot:
  assumes "\<forall>(tx, now) \<in> set pre. Status (TxHeader tx) = PinStatus_Syncing"
    and "Status (TxHeader tx) \<noteq> PinStatus_Syncing"
  shows "LoadItems (Inr ()) node (\<lambda>u b. fst (OnNodeUpdate unmarshal zero u b)) (loads (pre @ [(tx, now)]) @ es) b
    = Some (receive unmarshal zero (load_updates node (pre @ [(tx, now)])) b, Inr ())"
proof -
  have "loads (pre @ [(tx, now)]) @ es = loads pre @ Loaded tx now # es" by (simp add: loads_def)
  then show ?thesis
    using assms(2) by (simp add: LoadItems_def load_loop_drains [OF assms(1)] receive_def load_updates_def Let_def)
qed

theorem LoadItems_whole_snapshot_witness:
  "LoadItems (Inr ()) (UID 0 1) (\<lambda>u b. fst (OnNodeUpdate toy_decode 0 u b))
     (loads ([(TxNew\<lparr>TxHeader := emptyHeader\<lparr>Status := 8\<rparr>\<rparr>, UID 0 5)] @ [(TxNew\<lparr>TxHeader := emptyHeader\<lparr>Status := 9\<rparr>\<rparr>, UID 0 6)])
      @ [AppClosing]) toy_binding
   = Some (receive toy_decode 0
        (load_updates (UID 0 1) ([(TxNew\<lparr>TxHeader := emptyHeader\<lparr>Status := 8\<rparr>\<rparr>, UID 0 5)]
           @ [(TxNew\<lparr>TxHeader := emptyHeader\<lparr>Status := 9\<rparr>\<rparr>, UID 0 6)])) toy_binding, Inr ())"
  by (rule LoadItems_whole_snapshot) (simp_all add: PinStatus_Syncing_def TxNew_def)

text \<open>When the app closes while a load waits, \<open>LoadItems\<close> reports the cancellation.  \<open>BlockingLoad\<close> asks its own
  wrapper instead, which closes only when the app context is done, after everything that runs in it has
  returned: it reports success and leaves the destination as it was.\<close>

lemma BlockingLoad_closing_silent:
  assumes "\<not> cc_closed ctx"
  shows "BlockingLoad unmarshal (Inr ()) attrID (AppClosing # es) ctx dst = Some (dst, Inr ())"
    "LoadItems (Inr ()) node resp (AppClosing # es) s = Some (s, Inl Canceled)"
  using assms by (simp_all add: BlockingLoad_def LoadItems_def ctx_Err_def)

text \<open>The first completion of a commit is the one its caller sees, and later ones never block.\<close>

lemma RecvEvent_first:
  "RecvEvent st2 r2 (RecvEvent PinStatus_TxCommit r1 None) = Some r1"
  by (simp add: RecvEvent_def try_send_def)

end
