(* ===== verification/Pins.thy ===== *)
theory Pins
  imports Loader Locus TagTree Selector
begin

text \<open>
  Serving and receiving in an app (\<open>amp/std/api.std.go\<close>, \<open>amp/std/std.support.go\<close>): a pin dispatches an incoming
  transaction to the responders bound to it, holds its items, and writes their state into a transaction
  for the client.  The iteration order of a Go map is a list.  What an app supplies (its items' attributes,
  the protobuf codec, starting the task that serves a pin) is a parameter.
\<close>

section \<open>Dispatching\<close>

text \<open>A responder is its \<open>Revision\<close> and its \<open>OnNodeUpdate\<close>, which may bind further responders to the pin.\<close>

type_synonym 'r updater = "node_update \<Rightarrow> 'r \<Rightarrow> 'r \<times> 'r list"

text \<open>The inner loop ranges over the responders there are when it starts.\<close>

fun dispatch_loop :: "('r \<Rightarrow> uid) \<Rightarrow> 'r updater \<Rightarrow> node_update \<Rightarrow> nat \<Rightarrow> nat \<Rightarrow> 'r list \<Rightarrow> 'r list" where
  "dispatch_loop rev_of upd u i 0 rs = rs"
| "dispatch_loop rev_of upd u i (Suc n) rs =
     (if rev_of (rs ! i) \<noteq> NU_Revision u
      then let (r, bound) = upd u (rs ! i) in dispatch_loop rev_of upd u (Suc i) n (rs[i := r] @ bound)
      else dispatch_loop rev_of upd u (Suc i) n rs)"

definition merge_pass ::
  "('r \<Rightarrow> uid) \<Rightarrow> 'r updater \<Rightarrow> tx_msg \<Rightarrow> uid \<Rightarrow> uid list \<Rightarrow> 'r list \<Rightarrow> 'r list" where
  "merge_pass rev_of upd tx rv nodes rs =
     fold (\<lambda>n rs. dispatch_loop rev_of upd \<lparr>NU_NodeID = n, NU_Revision = rv, NU_Tx = tx\<rparr> 0 (length rs) rs) nodes rs"

fun merge_passes ::
  "nat \<Rightarrow> ('r \<Rightarrow> uid) \<Rightarrow> 'r updater \<Rightarrow> tx_msg \<Rightarrow> uid \<Rightarrow> uid list \<Rightarrow> 'r list \<Rightarrow> 'r list" where
  "merge_passes 0 rev_of upd tx rv nodes rs = rs"
| "merge_passes (Suc k) rev_of upd tx rv nodes rs =
     (let rs' = merge_pass rev_of upd tx rv nodes rs
      in if length rs' = length rs then rs' else merge_passes k rev_of upd tx rv nodes rs')"

definition MergeIncoming :: "('r \<Rightarrow> uid) \<Rightarrow> 'r updater \<Rightarrow> tx_msg \<Rightarrow> uid \<Rightarrow> 'r list \<Rightarrow> 'r list" where
  "MergeIncoming rev_of upd tx rv rs = merge_passes 100 rev_of upd tx rv (EnumNodeIDs tx) rs"

definition pin_Bind :: "'r \<Rightarrow> 'r list \<Rightarrow> 'r list" where
  "pin_Bind resp responders = responders @ [resp]"

section \<open>The contract of a responder\<close>

text \<open>An update leaves its revision on the responder.\<close>

locale node_responder =
  fixes rev_of :: "'r \<Rightarrow> uid" and upd :: "'r updater"
  assumes stamps: "rev_of (fst (upd u r)) = NU_Revision u"
begin

definition updated :: "node_update \<Rightarrow> 'r \<Rightarrow> 'r" where
  "updated u r = (if rev_of r \<noteq> NU_Revision u then fst (upd u r) else r)"

lemma updated_stamped: "rev_of (updated u r) = NU_Revision u"
  by (simp add: updated_def stamps)

lemma dispatch_quiet:
  assumes "\<And>r. snd (upd u r) = []" "i + n = length rs"
  shows "dispatch_loop rev_of upd u i n rs = take i rs @ map (updated u) (drop i rs)"
  using assms(2)
proof (induction n arbitrary: i rs)
  case (Suc n)
  then have i: "i < length rs" by simp
  have u: "dispatch_loop rev_of upd u i (Suc n) rs = dispatch_loop rev_of upd u (Suc i) n (rs[i := updated u (rs ! i)])"
    using assms(1) [of "rs ! i"] by (cases "upd u (rs ! i)") (auto simp: updated_def)
  show ?case
    unfolding u using Suc i
    by (simp add: take_Suc_conv_app_nth Cons_nth_drop_Suc [symmetric])
qed simp

lemma stamped_noop: "rev_of r = NU_Revision u \<Longrightarrow> updated u r = r"
  by (simp add: updated_def)

text \<open>Of the nodes of a transaction only the first is shown to a responder: its update stamps the
  responder, and every further one is taken for a repetition.\<close>

lemma pass_quiet:
  assumes "\<And>u r. snd (upd u r) = []"
  shows "merge_pass rev_of upd tx rv (n # ns) rs = map (updated \<lparr>NU_NodeID = n, NU_Revision = rv, NU_Tx = tx\<rparr>) rs"
proof -
  let ?U = "\<lambda>n. \<lparr>NU_NodeID = n, NU_Revision = rv, NU_Tx = tx\<rparr>"
  have d: "dispatch_loop rev_of upd (?U n) 0 (length rs) rs = map (updated (?U n)) rs" for n rs
    using dispatch_quiet [OF assms, of 0 "length rs" rs "?U n"] by simp
  have s: "fold (\<lambda>n rs. map (updated (?U n)) rs) ns rs = rs" if "\<forall>r \<in> set rs. rev_of r = rv" for rs
    using that
  proof (induction ns)
    case (Cons m ns)
    then have "map (updated (?U m)) rs = rs" by (intro map_idI stamped_noop) simp
    with Cons show ?case by simp
  qed simp
  have "fold (\<lambda>n rs. map (updated (?U n)) rs) ns (map (updated (?U n)) rs) = map (updated (?U n)) rs"
    by (rule s) (auto simp: updated_stamped)
  then show ?thesis unfolding merge_pass_def d by simp
qed

lemma merge_first_node:
  assumes "\<And>u r. snd (upd u r) = []" "EnumNodeIDs tx = n # ns"
  shows "MergeIncoming rev_of upd tx rv rs = map (updated \<lparr>NU_NodeID = n, NU_Revision = rv, NU_Tx = tx\<rparr>) rs"
proof -
  have "merge_passes (Suc 99) rev_of upd tx rv (n # ns) rs
      = map (updated \<lparr>NU_NodeID = n, NU_Revision = rv, NU_Tx = tx\<rparr>) rs"
    by (simp only: merge_passes.simps Let_def pass_quiet [OF assms(1)] length_map if_True simp_thms)
  moreover have "merge_passes 100 rev_of upd = merge_passes (Suc 99) rev_of upd" by (simp del: merge_passes.simps)
  ultimately show ?thesis unfolding MergeIncoming_def assms(2) by metis
qed

text \<open>A loop that binds nothing leaves every responder stamped.\<close>

lemma dispatch_length: "i + n \<le> length rs \<Longrightarrow> length rs \<le> length (dispatch_loop rev_of upd u i n rs)"
proof (induction n arbitrary: i rs)
  case (Suc n)
  show ?case
  proof (cases "rev_of (rs ! i) = NU_Revision u")
    case True
    then show ?thesis using Suc by simp
  next
    case False
    obtain r b where ru: "upd u (rs ! i) = (r, b)" by force
    then show ?thesis using Suc.IH [of "Suc i" "rs[i := r] @ b"] Suc.prems False by simp
  qed
qed simp

lemma dispatch_stamps:
  assumes "i + n = length rs" "length (dispatch_loop rev_of upd u i n rs) = length rs"
    "\<forall>j < i. rev_of (rs ! j) = NU_Revision u"
  shows "\<forall>r \<in> set (dispatch_loop rev_of upd u i n rs). rev_of r = NU_Revision u"
  using assms
proof (induction n arbitrary: i rs)
  case 0
  then show ?case by (auto simp: in_set_conv_nth)
next
  case (Suc n)
  show ?case
  proof (cases "rev_of (rs ! i) = NU_Revision u")
    case True
    then show ?thesis using Suc.IH [of "Suc i" rs] Suc.prems by (simp add: less_Suc_eq)
  next
    case False
    obtain r b where ru: "upd u (rs ! i) = (r, b)" by force
    have st: "rev_of r = NU_Revision u" using stamps [of u "rs ! i"] ru by simp
    have d: "dispatch_loop rev_of upd u i (Suc n) rs = dispatch_loop rev_of upd u (Suc i) n (rs[i := r] @ b)"
      using False ru by simp
    have "length (rs[i := r] @ b) \<le> length (dispatch_loop rev_of upd u (Suc i) n (rs[i := r] @ b))"
      using Suc.prems(1) by (intro dispatch_length) simp
    then have "b = []" using Suc.prems(2) unfolding d by simp
    then show ?thesis
      unfolding d using Suc.IH [of "Suc i" "rs[i := r]"] Suc.prems st unfolding d
      by (simp add: less_Suc_eq nth_list_update)
  qed
qed

lemma dispatch_stamped_noop:
  "i + n = length rs \<Longrightarrow> \<forall>r \<in> set rs. rev_of r = NU_Revision u \<Longrightarrow> dispatch_loop rev_of upd u i n rs = rs"
  by (induction n arbitrary: i) auto

lemma pass_length: "length rs \<le> length (merge_pass rev_of upd tx rv nodes rs)"
  unfolding merge_pass_def
proof (induction nodes arbitrary: rs)
  case (Cons n ns)
  let ?d = "dispatch_loop rev_of upd \<lparr>NU_NodeID = n, NU_Revision = rv, NU_Tx = tx\<rparr> 0 (length rs) rs"
  have "length rs \<le> length ?d" by (rule dispatch_length) simp
  with Cons [of ?d] show ?case by simp
qed simp

lemma pass_stamps:
  assumes "length (merge_pass rev_of upd tx rv (n # ns) rs) = length rs"
  shows "\<forall>r \<in> set (merge_pass rev_of upd tx rv (n # ns) rs). rev_of r = rv"
proof -
  let ?U = "\<lambda>n. \<lparr>NU_NodeID = n, NU_Revision = rv, NU_Tx = tx\<rparr>"
  let ?d = "dispatch_loop rev_of upd (?U n) 0 (length rs) rs"
  have m: "merge_pass rev_of upd tx rv (n # ns) rs = merge_pass rev_of upd tx rv ns ?d"
    by (simp add: merge_pass_def)
  have "length rs \<le> length ?d" by (rule dispatch_length) simp
  then have "length ?d = length rs" using assms pass_length [of ?d tx rv ns] unfolding m by simp
  then have st: "\<forall>r \<in> set ?d. rev_of r = rv" using dispatch_stamps [of 0 "length rs" rs "?U n"] by simp
  have "merge_pass rev_of upd tx rv ns es = es" if "\<forall>r \<in> set es. rev_of r = rv" for es
    unfolding merge_pass_def using that
  proof (induction ns)
    case (Cons k ns)
    then have "dispatch_loop rev_of upd (?U k) 0 (length es) es = es" by (intro dispatch_stamped_noop) simp_all
    with Cons show ?case by simp
  qed simp
  then show ?thesis using st unfolding m by simp
qed

lemma passes_stamp:
  "(\<forall>r \<in> set (merge_passes k rev_of upd tx rv (n # ns) rs). rev_of r = rv)
   \<or> length rs + k \<le> length (merge_passes k rev_of upd tx rv (n # ns) rs)"
proof (induction k arbitrary: rs)
  case (Suc k)
  let ?p = "merge_pass rev_of upd tx rv (n # ns) rs"
  show ?case
  proof (cases "length ?p = length rs")
    case True
    then show ?thesis using pass_stamps [OF True] by (simp add: Let_def)
  next
    case False
    then have "Suc (length rs) \<le> length ?p" using pass_length [of rs tx rv "n # ns"] by simp
    then show ?thesis using Suc [of ?p] False by (auto simp: Let_def)
  qed
qed simp

end

section \<open>The responders of the model\<close>

definition fold_responder ::
  "(byte list \<Rightarrow> 'v outcome) \<Rightarrow> 'v \<Rightarrow> ('v, 'm) fold_binding updater" where
  "fold_responder unmarshal zero u b = (fst (OnNodeUpdate unmarshal zero u b), [])"

definition locus_responder :: "(byte list \<Rightarrow> 'v outcome) \<Rightarrow> 'v \<Rightarrow> 'v locus_binding updater" where
  "locus_responder unmarshal zero u loc = (fst (locus_OnNodeUpdate unmarshal zero u loc), [])"

lemma fold_op_revision: "revision (fst (fold_op unmarshal zero tx idx op b)) = revision b"
  by (auto simp: fold_op_def Let_def split: option.splits sum.splits prod.splits)

lemma fold_ops_revision: "revision (fst (fold_ops unmarshal zero tx idx ops b)) = revision b"
proof (induction ops arbitrary: idx b)
  case (Cons op ops)
  then show ?case
    by (simp add: Let_def case_prod_beta fold_op_revision)
qed simp

lemma locus_op_revision: "loc_revision (fst (locus_op unmarshal zero tx idx op loc)) = loc_revision loc"
  by (auto simp: locus_op_def detachCell_def Let_def split: option.splits sum.splits)

lemma locus_ops_revision: "loc_revision (fst (locus_ops unmarshal zero tx idx ops loc)) = loc_revision loc"
proof (induction ops arbitrary: idx loc)
  case (Cons op ops)
  then show ?case
    by (simp add: Let_def case_prod_beta locus_op_revision)
qed simp

interpretation fold_pin: node_responder revision "fold_responder unmarshal zero" for unmarshal zero
proof
  fix u and b :: "('a, 'b) fold_binding"
  show "revision (fst (fold_responder unmarshal zero u b)) = NU_Revision u"
    by (simp add: fold_responder_def OnNodeUpdate_def Let_def case_prod_beta fold_ops_revision)
qed

interpretation locus_pin: node_responder loc_revision "locus_responder unmarshal zero" for unmarshal zero
proof
  fix u and loc :: "'a locus_binding"
  show "loc_revision (fst (locus_responder unmarshal zero u loc)) = NU_Revision u"
    by (simp add: locus_responder_def locus_OnNodeUpdate_def Let_def case_prod_beta locus_ops_revision)
qed

section \<open>Items\<close>

text \<open>The pinned item and its children: a node identifier and what the item writes.\<close>

record 'i pin =
  pin_item :: "(uid \<times> 'i) option"
  pin_children :: "uid \<rightharpoonup> 'i"

definition AddChild_pin :: "uid \<Rightarrow> uid \<Rightarrow> 'i \<Rightarrow> 'i pin \<Rightarrow> 'i pin" where
  "AddChild_pin now childID sub p =
     (let childID = (if IsNil childID then now else childID) in p\<lparr>pin_children := (pin_children p)(childID \<mapsto> sub)\<rparr>)"

definition GetItem_pin :: "'i pin \<Rightarrow> uid \<Rightarrow> 'i option" where
  "GetItem_pin p target =
     (case pin_item p of
        Some (rootID, item) \<Rightarrow> if target = rootID then Some item else pin_children p target
      | None \<Rightarrow> pin_children p target)"

text \<open>\<open>StartPin\<close>: the request's URL is parsed into its selector; starting the task that serves an item is
  \<open>serve\<close>.  \<open>Inr None\<close> is the return of a nil pin with a nil error.\<close>

definition StartPin ::
  "(byte list \<Rightarrow> byte list) \<Rightarrow> string option \<Rightarrow> item_selector \<Rightarrow> ('i \<Rightarrow> 'p outcome) \<Rightarrow> 'i pin \<Rightarrow> 'p option outcome" where
  "StartPin H invokePath sel serve p =
     (case ParseAsAddressURL H invokePath sel of
        Inr _ \<Rightarrow> Inr None
      | Inl _ \<Rightarrow>
          (case Spans sel of
             [] \<Rightarrow> Inl Panic
           | sp # _ \<Rightarrow> (case GetItem_pin p (span_NodeID (span_at sel sp)) of
                           None \<Rightarrow> Inl ItemNotFound
                         | Some item \<Rightarrow> and_then (serve item) (\<lambda>served. Inr (Some served)))))"

section \<open>Writing items\<close>

record item_writer =
  iw_nodeID :: uid
  iw_tx :: tx_msg
  iw_err :: "fault option"

definition PutItemAt ::
  "('v op_value \<Rightarrow> byte list outcome) \<Rightarrow> uid \<Rightarrow> uid \<Rightarrow> 'v op_value option \<Rightarrow> item_writer \<Rightarrow> item_writer" where
  "PutItemAt marshal attrID itemID value w =
     (if iw_err w \<noteq> None then w
      else case Upsert checkTagSyntax marshal (iw_tx w) (iw_nodeID w) attrID itemID value of
             (tx, Inl e) \<Rightarrow> w\<lparr>iw_tx := tx, iw_err := Some e\<rparr>
           | (tx, Inr _) \<Rightarrow> w\<lparr>iw_tx := tx\<rparr>)"

definition PutTextAt ::
  "('v op_value \<Rightarrow> byte list outcome) \<Rightarrow> uid \<Rightarrow> uid \<Rightarrow> string \<Rightarrow> item_writer \<Rightarrow> item_writer" where
  "PutTextAt marshal attrID itemID value w =
     PutItemAt marshal attrID itemID (Some (TagValue (Some (TagText ''text/plain'' value)))) w"

definition PutText :: "('v op_value \<Rightarrow> byte list outcome) \<Rightarrow> uid \<Rightarrow> string \<Rightarrow> item_writer \<Rightarrow> item_writer" where
  "PutText marshal attrID value w = (if value = [] then w else PutTextAt marshal attrID nilUID value w)"

definition PutItem ::
  "('v op_value \<Rightarrow> byte list outcome) \<Rightarrow> uid \<Rightarrow> 'v op_value option \<Rightarrow> item_writer \<Rightarrow> item_writer" where
  "PutItem marshal attrID value w =
     (case value of None \<Rightarrow> w | Some v \<Rightarrow> PutItemAt marshal attrID nilUID (Some v) w)"

definition HeadNodeID :: uid where "HeadNodeID = UID 0x0 0x37"
definition ChildLink :: uid where "ChildLink = UID 0x1D7FCD10B1143140 0xB45F595E9B29E11E"

text \<open>The link to a node is an op without a value; its error is dropped.\<close>

definition put_link ::
  "('v op_value \<Rightarrow> byte list outcome) \<Rightarrow> uid \<Rightarrow> uid \<Rightarrow> item_writer \<Rightarrow> item_writer" where
  "put_link marshal parent child w =
     w\<lparr>iw_tx := fst (Upsert checkTagSyntax marshal (iw_tx w) parent ChildLink child None)\<rparr>"

fun push_children ::
  "('v op_value \<Rightarrow> byte list outcome) \<Rightarrow> uid \<Rightarrow> (uid \<times> (item_writer \<Rightarrow> item_writer)) list \<Rightarrow> item_writer
     \<Rightarrow> item_writer" where
  "push_children marshal pinnedID [] w = w"
| "push_children marshal pinnedID ((childID, attrs) # cs) w =
     (let w1 = attrs (put_link marshal pinnedID childID (w\<lparr>iw_nodeID := childID\<rparr>))
      in if iw_err w1 \<noteq> None then w1 else push_children marshal pinnedID cs w1)"

text \<open>\<open>pushState\<close> up to the push: the transaction for the client, or the error of the first write that
  failed.\<close>

definition pushState ::
  "('v op_value \<Rightarrow> byte list outcome) \<Rightarrow> tx_msg \<Rightarrow> uid \<Rightarrow> (item_writer \<Rightarrow> item_writer)
     \<Rightarrow> (uid \<times> (item_writer \<Rightarrow> item_writer)) list \<Rightarrow> tx_msg outcome" where
  "pushState marshal tx pinnedID attrs children =
     (let w = attrs (put_link marshal HeadNodeID pinnedID \<lparr>iw_nodeID = pinnedID, iw_tx = tx, iw_err = None\<rparr>)
      in case iw_err w of
           Some e \<Rightarrow> Inl e
         | None \<Rightarrow>
             let w = push_children marshal pinnedID children w
             in case iw_err w of
                  Some e \<Rightarrow> Inl e
                | None \<Rightarrow> Inr ((iw_tx w)\<lparr>TxHeader := (TxHeader (iw_tx w))\<lparr>Status := PinStatus_Synced\<rparr>\<rparr>))"

section \<open>Properties\<close>

text \<open>C36. What \<open>MergeIncoming\<close> gives a binding: the update for the first node that the transaction names,
  and nothing else.  The update stamps the binding with the revision of the pass, also when it is
  for another node, and a stamped binding is passed over; so a binding to a node that comes later in the
  transaction keeps its items although the transaction holds ops for them.\<close>

theorem MergeIncoming_first_node:
  assumes "EnumNodeIDs tx = n # ns" "\<forall>b \<in> set bs. revision b \<noteq> rv"
  shows "MergeIncoming revision (fold_responder unmarshal zero) tx rv bs
    = map (\<lambda>b. if nodeID b = n \<or> IsNil (nodeID b)
                then fst (OnNodeUpdate unmarshal zero \<lparr>NU_NodeID = n, NU_Revision = rv, NU_Tx = tx\<rparr> b)
                else b\<lparr>revision := rv\<rparr>) bs"
proof -
  have quiet: "snd (fold_responder unmarshal zero u r) = []" for u and r :: "('a, 'b) fold_binding"
    by (simp add: fold_responder_def)
  show ?thesis
    unfolding fold_pin.merge_first_node [OF quiet assms(1)] using assms(2)
    by (intro map_cong refl) (auto simp: fold_pin.updated_def fold_responder_def OnNodeUpdate_def Let_def)
qed

definition two_nodes :: tx_msg where
  "two_nodes = TxNew\<lparr>Ops := map (\<lambda>n. \<lparr>Addr = \<lparr>NodeID = UID 1 n, AttrID = UID 1 2, ItemID = UID 1 3, EditID = UID 0 9\<rparr>,
     Flags = 4, Logical = 0, DataOfs = 0, DataLen = 0\<rparr>) [5, 1]\<rparr>"

theorem MergeIncoming_first_node_witness:
  "MergeIncoming revision (fold_responder toy_decode 0) two_nodes (UID 0 7) [toy_binding]
   = [toy_binding\<lparr>revision := UID 0 7\<rparr>]"
proof -
  have e: "EnumNodeIDs two_nodes = UID 1 5 # [UID 1 1]"
    by (simp add: EnumNodeIDs_def two_nodes_def)
  have r: "\<forall>b \<in> set [toy_binding]. revision b \<noteq> UID 0 7" by (simp add: toy_binding_def NewFoldBinding_def nilUID_def)
  show ?thesis
    by (subst MergeIncoming_first_node [OF e r]) (simp add: toy_binding_def IsNil_def)
qed

lemma node_ids_grow: "length out \<le> length (node_ids out ops)"
proof (induction ops arbitrary: out)
  case (Cons op ops)
  have "length out \<le> length (if NodeID (Addr op) \<in> set out then out else out @ [NodeID (Addr op)])" by simp
  then show ?case using Cons by (simp only: node_ids.simps) (meson le_trans)
qed simp

lemma EnumNodeIDs_Nil: "Ops tx \<noteq> [] \<Longrightarrow> EnumNodeIDs tx \<noteq> []"
proof (cases "Ops tx")
  case (Cons op ops)
  then show "EnumNodeIDs tx \<noteq> []"
    using node_ids_grow [of "[NodeID (Addr op)]" ops] by (auto simp: EnumNodeIDs_def)
qed simp

text \<open>Whatever responders do when they are called, also when they bind further ones to the pin: after
  \<open>MergeIncoming\<close> every responder has processed the transaction, unless each of a hundred passes has
  bound a new one.\<close>

theorem MergeIncoming_reaches_all:
  assumes "\<forall>u r. rev_of (fst (upd u r)) = NU_Revision u" "Ops tx \<noteq> []"
  shows "(\<forall>r \<in> set (MergeIncoming rev_of upd tx rv rs). rev_of r = rv)
    \<or> length rs + 100 \<le> length (MergeIncoming rev_of upd tx rv rs)"
proof -
  have r: "node_responder rev_of upd" using assms(1) by (simp add: node_responder_def)
  obtain n ns where "EnumNodeIDs tx = n # ns" using EnumNodeIDs_Nil [OF assms(2)] by (cases "EnumNodeIDs tx") auto
  then show ?thesis unfolding MergeIncoming_def by (simp only: node_responder.passes_stamp [OF r])
qed

text \<open>A responder that binds a second one, which binds none: both end with the revision.\<close>

definition toy_upd :: "(uid \<times> nat) updater" where
  "toy_upd u r = ((NU_Revision u, 0), if snd r = 0 then [] else [(nilUID, 0)])"

theorem MergeIncoming_reaches_all_witness:
  "(\<forall>r \<in> set (MergeIncoming fst toy_upd two_nodes (UID 0 7) [(nilUID, 1)]). fst r = UID 0 7)
   \<or> length [(nilUID, 1 :: nat)] + 100 \<le> length (MergeIncoming fst toy_upd two_nodes (UID 0 7) [(nilUID, 1)])"
  by (rule MergeIncoming_reaches_all) (simp_all add: toy_upd_def two_nodes_def)

text \<open>A request whose URL names its target is answered with nothing: no pin and no error.\<close>

lemma StartPin_url_unserved: "StartPin H (Some path) sel serve p = Inr None"
  by (simp add: StartPin_def ParseAsAddressURL_def Let_def)

text \<open>Once a write has failed, nothing more is written by the item's attributes.\<close>

lemma writer_sticky: "iw_err w \<noteq> None \<Longrightarrow> PutItemAt marshal a i v w = w \<and> PutText marshal a t w = w \<and> PutItem marshal a v w = w"
  by (simp add: PutItemAt_def PutText_def PutTextAt_def PutItem_def split: option.split)

end
