(* ===== verification/MediaStream.thy ===== *)
theory MediaStream
  imports Loader "HOL-Library.Multiset"
begin

text \<open>
  A media channel as one byte stream (\<open>amp/std/media.go\<close>): the segments of a node are collected, ordered by
  capture time and laid out on a byte timeline; a reader over it opens the blob of a segment only when a read
  touches it and closes those least recently used beyond a budget.  Opening a blob and reading it are the
  session's and the store's code: parameters.
\<close>

section \<open>Collecting segments\<close>

record 'b media_segment =
  seg_TickDelta :: int
  seg_ContentType :: string
  seg_Blob :: "'b option"

record 'b seg_raw =
  raw_itemID :: uid
  raw_length :: int
  raw_blob :: 'b

record 'b seg_collector =
  col_attr :: uid
  col_raw :: "'b seg_raw list"
  col_contentType :: string

text \<open>\<open>assetTag\<close> gives the byte size and the media type of a blob's asset tag, if it has one.\<close>

definition collect_op ::
  "(byte list \<Rightarrow> 'b media_segment outcome) \<Rightarrow> ('b \<Rightarrow> (int \<times> string) option) \<Rightarrow> tx_msg \<Rightarrow> tx_op
     \<Rightarrow> 'b seg_collector \<Rightarrow> 'b seg_collector" where
  "collect_op unmarshal assetTag tx op c =
     (if AttrID (Addr op) \<noteq> col_attr c then c
      else case ExtractValue unmarshal tx (col_attr c) (ItemID (Addr op)) of
             Inl _ \<Rightarrow> c
           | Inr seg \<Rightarrow>
               (case seg_Blob seg of
                  None \<Rightarrow> c
                | Some blob \<Rightarrow>
                    let len = (case assetTag blob of
                                 Some (i, _) \<Rightarrow> if i > 0 then i else seg_TickDelta seg
                               | None \<Rightarrow> seg_TickDelta seg)
                    in if len \<le> 0 then c
                       else c\<lparr>col_raw := col_raw c @ [\<lparr>raw_itemID = ItemID (Addr op), raw_length = len, raw_blob = blob\<rparr>],
                              col_contentType :=
                                (if col_contentType c \<noteq> [] then col_contentType c
                                 else if seg_ContentType seg \<noteq> [] then seg_ContentType seg
                                 else case assetTag blob of None \<Rightarrow> [] | Some (_, ct) \<Rightarrow> ct)\<rparr>))"

definition collect_update ::
  "(byte list \<Rightarrow> 'b media_segment outcome) \<Rightarrow> ('b \<Rightarrow> (int \<times> string) option) \<Rightarrow> node_update
     \<Rightarrow> 'b seg_collector \<Rightarrow> 'b seg_collector" where
  "collect_update unmarshal assetTag u c = fold (collect_op unmarshal assetTag (NU_Tx u)) (Ops (NU_Tx u)) c"

section \<open>Layout\<close>

record 'b seg_entry =
  ent_offset :: int
  ent_length :: int
  ent_blob :: 'b

fun insert_raw :: "'b seg_raw \<Rightarrow> 'b seg_raw list \<Rightarrow> 'b seg_raw list" where
  "insert_raw r [] = [r]"
| "insert_raw r (s # ss) =
     (if CompareTo (raw_itemID r) (raw_itemID s) < 0 then r # s # ss else s # insert_raw r ss)"

text \<open>\<open>sort.Slice\<close>: the order of segments with one identifier is the library's choice, here that of arrival.\<close>

definition sort_raws :: "'b seg_raw list \<Rightarrow> 'b seg_raw list" where
  "sort_raws rs = fold insert_raw rs []"

fun lay_out :: "int \<Rightarrow> 'b seg_raw list \<Rightarrow> 'b seg_entry list \<times> int" where
  "lay_out offset [] = ([], offset)"
| "lay_out offset (r # rs) =
     (let (index, end') = lay_out (go_int (offset + raw_length r)) rs
      in (\<lparr>ent_offset = offset, ent_length = raw_length r, ent_blob = raw_blob r\<rparr> # index, end'))"

record 'b media_asset =
  ma_attr :: uid
  ma_index :: "'b seg_entry list"
  ma_size :: int
  ma_contentType :: string
  ma_residency :: int

definition loadLocked ::
  "(byte list \<Rightarrow> 'b media_segment outcome) \<Rightarrow> ('b \<Rightarrow> (int \<times> string) option) \<Rightarrow> unit outcome \<Rightarrow> uid
     \<Rightarrow> load_event list \<Rightarrow> 'b media_asset \<Rightarrow> ('b media_asset \<times> unit outcome) option" where
  "loadLocked unmarshal assetTag submitted node events a =
     (case LoadItems submitted node (collect_update unmarshal assetTag) events
             \<lparr>col_attr = ma_attr a, col_raw = [], col_contentType = []\<rparr> of
        None \<Rightarrow> None
      | Some (c, Inl e) \<Rightarrow> Some (a, Inl e)
      | Some (c, Inr _) \<Rightarrow>
          (let (index, end') = lay_out 0 (sort_raws (col_raw c))
           in Some (a\<lparr>ma_index := index, ma_size := end',
                      ma_contentType := (if ma_contentType a = [] then col_contentType c else ma_contentType a)\<rparr>,
                    Inr ())))"

definition DefaultMediaResidentBytes :: int where "DefaultMediaResidentBytes = 8 * 2 ^ 20"
definition minMediaResidentBytes :: int where "minMediaResidentBytes = 2 ^ 20"

definition MediaStreamAttr :: "uid \<Rightarrow> uid \<Rightarrow> int \<Rightarrow> string \<Rightarrow> 'b media_asset outcome" where
  "MediaStreamAttr node attr maxResident contentType =
     (if IsNil node \<or> IsNil attr then Inl Other
      else Inr \<lparr>ma_attr = attr, ma_index = [], ma_size = 0, ma_contentType = contentType,
                ma_residency = (if maxResident \<le> 0 then DefaultMediaResidentBytes
                                else if maxResident < minMediaResidentBytes then minMediaResidentBytes
                                else maxResident)\<rparr>)"

section \<open>The reader\<close>

text \<open>A blob store opens a blob to a handle; \<open>read_at h ofs n\<close> seeks it and reads once into \<open>n\<close> bytes, with
  the bytes read and the error; a failed seek is \<open>Inl\<close>.\<close>

record ('b, 'h) blob_store =
  OpenBlob :: "'b \<Rightarrow> 'h outcome"
  read_at :: "'h \<Rightarrow> int \<Rightarrow> nat \<Rightarrow> (byte list \<times> fault option) outcome"
  close_handle :: "'h \<Rightarrow> fault option"

record 'h open_seg =
  os_seg :: nat
  os_length :: int
  os_reader :: 'h

text \<open>\<open>rd_closed_handles\<close> records the handles closed so far.\<close>

record ('b, 'h) stream_reader =
  rd_index :: "'b seg_entry list"
  rd_size :: int
  rd_residency :: int
  rd_pos :: int
  rd_open :: "'h open_seg list"
  rd_openSz :: int
  rd_closed :: bool
  rd_closed_handles :: "'h list"

definition newMediaStreamReader :: "'b seg_entry list \<Rightarrow> int \<Rightarrow> int \<Rightarrow> ('b, 'h) stream_reader" where
  "newMediaStreamReader index end' residency =
     \<lparr>rd_index = index, rd_size = end', rd_residency = residency, rd_pos = 0, rd_open = [], rd_openSz = 0,
      rd_closed = False, rd_closed_handles = []\<rparr>"

definition NewAssetReader ::
  "(byte list \<Rightarrow> 'b media_segment outcome) \<Rightarrow> ('b \<Rightarrow> (int \<times> string) option) \<Rightarrow> unit outcome \<Rightarrow> uid
     \<Rightarrow> load_event list \<Rightarrow> 'b media_asset \<Rightarrow> ('b media_asset \<times> ('b, 'h) stream_reader outcome) option" where
  "NewAssetReader unmarshal assetTag submitted node events a =
     map_option (\<lambda>(a', r). (a', and_then r (\<lambda>_.
       if ma_index a' = [] then Inl Other
       else Inr (newMediaStreamReader (ma_index a') (ma_size a') (ma_residency a')))))
       (loadLocked unmarshal assetTag submitted node events a)"

definition segmentAt :: "int \<Rightarrow> ('b, 'h) stream_reader \<Rightarrow> nat option" where
  "segmentAt p r =
     (let k = search_loop (\<lambda>k. ent_offset (rd_index r ! k) > p) 0 (length (rd_index r))
      in if k = 0 then None
         else let entry = rd_index r ! (k - 1)
              in if p < ent_offset entry \<or> p \<ge> go_int (ent_offset entry + ent_length entry) then None
                 else Some (k - 1))"

fun evict_loop :: "int \<Rightarrow> 'h open_seg list \<Rightarrow> int \<Rightarrow> 'h list \<Rightarrow> 'h open_seg list \<times> int \<times> 'h list" where
  "evict_loop residency (victim # next # rest) sz gone =
     (if sz > residency
      then evict_loop residency (next # rest) (go_int (sz - os_length victim)) (gone @ [os_reader victim])
      else (victim # next # rest, sz, gone))"
| "evict_loop residency held sz gone = (held, sz, gone)"

definition evict :: "('b, 'h) stream_reader \<Rightarrow> ('b, 'h) stream_reader" where
  "evict r =
     (let (held, sz, gone) = evict_loop (rd_residency r) (rd_open r) (rd_openSz r) (rd_closed_handles r)
      in r\<lparr>rd_open := held, rd_openSz := sz, rd_closed_handles := gone\<rparr>)"

text \<open>The scan for an open segment runs from the most recently used one down; \<open>k\<close> is one past the next.\<close>

fun find_open :: "nat \<Rightarrow> nat \<Rightarrow> 'h open_seg list \<Rightarrow> nat option" where
  "find_open seg 0 held = None"
| "find_open seg (Suc k) held = (if os_seg (held ! k) = seg then Some k else find_open seg k held)"

definition acquire ::
  "('b, 'h) blob_store \<Rightarrow> nat \<Rightarrow> ('b, 'h) stream_reader \<Rightarrow> ('b, 'h) stream_reader \<times> 'h open_seg outcome" where
  "acquire S seg r =
     (case find_open seg (length (rd_open r)) (rd_open r) of
        Some k \<Rightarrow>
          let held = rd_open r ! k
          in (if k \<noteq> length (rd_open r) - 1
              then r\<lparr>rd_open := take k (rd_open r) @ drop (Suc k) (rd_open r) @ [held]\<rparr> else r, Inr held)
      | None \<Rightarrow>
          (case OpenBlob S (ent_blob (rd_index r ! seg)) of
             Inl e \<Rightarrow> (r, Inl e)
           | Inr reader \<Rightarrow>
               let held = \<lparr>os_seg = seg, os_length = ent_length (rd_index r ! seg), os_reader = reader\<rparr>
               in (evict (r\<lparr>rd_open := rd_open r @ [held], rd_openSz := go_int (rd_openSz r + os_length held)\<rparr>),
                   Inr held)))"

text \<open>\<open>Read\<close> into \<open>n\<close> bytes: the bytes and the error that comes with them.\<close>

definition stream_Read ::
  "('b, 'h) blob_store \<Rightarrow> nat \<Rightarrow> ('b, 'h) stream_reader \<Rightarrow> ('b, 'h) stream_reader \<times> byte list \<times> fault option" where
  "stream_Read S n r =
     (if rd_closed r then (r, [], Some Other)
      else if rd_pos r \<ge> rd_size r then (r, [], Some EndOfStream)
      else case segmentAt (rd_pos r) r of
             None \<Rightarrow> (r, [], Some EndOfStream)
           | Some seg \<Rightarrow>
               let entry = rd_index r ! seg
               in case acquire S seg r of
                    (r1, Inl e) \<Rightarrow> (r1, [], Some e)
                  | (r1, Inr held) \<Rightarrow>
                      let intra = rd_pos r1 - ent_offset entry; remain = ent_length entry - intra;
                          n' = (if int n > remain then nat remain else n)
                      in case read_at S (os_reader held) intra n' of
                           Inl e \<Rightarrow> (r1, [], Some e)
                         | Inr (bs, err) \<Rightarrow>
                             let r2 = r1\<lparr>rd_pos := go_int (rd_pos r1 + int (length bs))\<rparr>
                             in (r2, bs, if err = Some EndOfStream \<and> rd_pos r2 < rd_size r2 then None else err))"

definition SeekStart :: int where "SeekStart = 0"
definition SeekCurrent :: int where "SeekCurrent = 1"
definition SeekEnd :: int where "SeekEnd = 2"

definition stream_Seek :: "int \<Rightarrow> int \<Rightarrow> ('b, 'h) stream_reader \<Rightarrow> ('b, 'h) stream_reader \<times> int outcome" where
  "stream_Seek offset whence r =
     (let target = (if whence = SeekStart then Some offset
                    else if whence = SeekCurrent then Some (go_int (rd_pos r + offset))
                    else if whence = SeekEnd then Some (go_int (rd_size r + offset)) else None)
      in case target of
           None \<Rightarrow> (r, Inl Other)
         | Some a \<Rightarrow> if a < 0 then (r, Inl Other) else (r\<lparr>rd_pos := a\<rparr>, Inr a))"

fun first_fault :: "fault option list \<Rightarrow> fault option" where
  "first_fault [] = None"
| "first_fault (Some e # es) = Some e"
| "first_fault (None # es) = first_fault es"

definition stream_Close ::
  "('b, 'h) blob_store \<Rightarrow> ('b, 'h) stream_reader \<Rightarrow> ('b, 'h) stream_reader \<times> fault option" where
  "stream_Close S r =
     (r\<lparr>rd_closed := True, rd_open := [], rd_openSz := 0,
        rd_closed_handles := rd_closed_handles r @ map os_reader (rd_open r)\<rparr>,
      first_fault (map (close_handle S \<circ> os_reader) (rd_open r)))"

section \<open>The timeline\<close>

fun tiles :: "int \<Rightarrow> 'b seg_entry list \<Rightarrow> int \<Rightarrow> bool" where
  "tiles o1 [] e \<longleftrightarrow> o1 = e"
| "tiles o1 (s # ss) e \<longleftrightarrow> ent_offset s = o1 \<and> 0 < ent_length s \<and> tiles (o1 + ent_length s) ss e"

lemma tiles_le: "tiles o1 es e \<Longrightarrow> o1 \<le> e"
  by (induction es arbitrary: o1) force+

lemma tiles_sum: "tiles o1 es e \<Longrightarrow> o1 + sum_list (map ent_length es) = e"
proof (induction es arbitrary: o1)
  case (Cons s ss)
  then have "(o1 + ent_length s) + sum_list (map ent_length ss) = e" by simp
  then show ?case by simp
qed simp

lemma tiles_step:
  "tiles o1 es e \<Longrightarrow> i < length es \<Longrightarrow>
     0 < ent_length (es ! i) \<and> o1 \<le> ent_offset (es ! i)
     \<and> ent_offset (es ! i) + ent_length (es ! i) = (if Suc i < length es then ent_offset (es ! Suc i) else e)"
proof (induction es arbitrary: o1 i)
  case (Cons s ss)
  show ?case
  proof (cases i)
    case 0
    then show ?thesis using Cons.prems by (cases ss) simp_all
  next
    case (Suc k)
    then show ?thesis using Cons.IH [of "o1 + ent_length s" k] Cons.prems by simp
  qed
qed simp

lemma tiles_end: "tiles o1 es e \<Longrightarrow> i < length es \<Longrightarrow> ent_offset (es ! i) + ent_length (es ! i) \<le> e"
proof (induction es arbitrary: o1 i)
  case (Cons s ss)
  then show ?case using tiles_le [of "o1 + ent_length s" ss e] by (cases i) auto
qed simp

lemma tiles_mono:
  assumes "tiles o1 es e"
  shows "i \<le> j \<Longrightarrow> j < length es \<Longrightarrow> ent_offset (es ! i) \<le> ent_offset (es ! j)"
proof (induction j rule: dec_induct)
  case (step j)
  then show ?case using tiles_step [OF assms, of j] by simp
qed simp

lemma lay_out_tiles:
  assumes "\<forall>r \<in> set rs. 0 < raw_length r" "0 \<le> o1" "o1 + sum_list (map raw_length rs) < 2 ^ 63"
    "lay_out o1 rs = (index, e)"
  shows "tiles o1 index e \<and> map ent_blob index = map raw_blob rs \<and> map ent_length index = map raw_length rs"
  using assms
proof (induction rs arbitrary: o1 index)
  case (Cons r rs)
  have nn: "0 \<le> sum_list (map raw_length rs)" using Cons.prems(1) by (intro sum_list_nonneg) (auto simp: less_imp_le)
  then have g: "go_int (o1 + raw_length r) = o1 + raw_length r"
    using Cons.prems by (intro go_int_pos) (auto simp: less_imp_le)
  obtain ix where ix: "lay_out (o1 + raw_length r) rs = (ix, e)"
      "index = \<lparr>ent_offset = o1, ent_length = raw_length r, ent_blob = raw_blob r\<rparr> # ix"
    using Cons.prems(4) by (auto simp: g split: prod.splits)
  have "tiles (o1 + raw_length r) ix e \<and> map ent_blob ix = map raw_blob rs \<and> map ent_length ix = map raw_length rs"
    using Cons.prems by (intro Cons.IH [OF _ _ _ ix(1)]) auto
  then show ?case using Cons.prems(1) by (simp add: ix(2))
qed simp

lemma segmentAt_covers:
  assumes "tiles 0 (rd_index r) (rd_size r)" "rd_size r < 2 ^ 63" "0 \<le> p" "p < rd_size r"
  obtains k where "segmentAt p r = Some k" "k < length (rd_index r)" "ent_offset (rd_index r ! k) \<le> p"
    "p < ent_offset (rd_index r ! k) + ent_length (rd_index r ! k)"
proof -
  let ?es = "rd_index r" and ?n = "length (rd_index r)"
  let ?f = "\<lambda>k. ent_offset (?es ! k) > p"
  define k where "k = search_loop ?f 0 ?n"
  have mono: "?f b" if "a \<le> b" "b < ?n" "?f a" for a b using tiles_mono [OF assms(1) that(1,2)] that(3) by simp
  have k: "k \<le> ?n" "\<forall>a < k. \<not> ?f a" "\<forall>a < ?n. k \<le> a \<longrightarrow> ?f a"
    using search_loop_least [of ?n ?f 0 ?n, OF mono] unfolding k_def by simp_all
  have n: "0 < ?n" using assms(1,3,4) by (cases ?es) auto
  have "\<not> ?f 0" using assms(1,3) n by (cases ?es) simp_all
  then have k0: "0 < k" using k(3) n by (cases k) auto
  then have kn: "k - 1 < ?n" using k(1) by simp
  have le: "ent_offset (?es ! (k - 1)) \<le> p" using k(2) k0 by (auto simp: not_less)
  note st = tiles_step [OF assms(1) kn]
  have hi: "p < ent_offset (?es ! (k - 1)) + ent_length (?es ! (k - 1))"
  proof (cases "k < ?n")
    case True
    then have "p < ent_offset (?es ! k)" using k(3) by simp
    then show ?thesis using st True k0 by simp
  next
    case False
    then show ?thesis using st assms(4) k0 by simp
  qed
  have top: "ent_offset (?es ! (k - 1)) + ent_length (?es ! (k - 1)) \<le> rd_size r"
    by (rule tiles_end [OF assms(1) kn])
  have "go_int (ent_offset (?es ! (k - 1)) + ent_length (?es ! (k - 1))) = ent_offset (?es ! (k - 1)) + ent_length (?es ! (k - 1))"
    by (rule go_int_pos) (use top hi assms(2,3) in linarith)+
  then have "segmentAt p r = Some (k - 1)"
    using k0 le hi by (simp add: segmentAt_def k_def [symmetric] Let_def)
  then show thesis using that kn le hi by blast
qed

section \<open>The open segments\<close>

definition seg_sum :: "'h open_seg list \<Rightarrow> int" where
  "seg_sum held = sum_list (map os_length held)"

text \<open>Every open segment holds the reader of its own blob, no segment is open twice, and the resident size is
  the sum of theirs.\<close>

definition holds_blob :: "('b, 'h) blob_store \<Rightarrow> 'b seg_entry list \<Rightarrow> 'h open_seg \<Rightarrow> bool" where
  "holds_blob S index h \<longleftrightarrow>
     os_seg h < length index \<and> os_length h = ent_length (index ! os_seg h)
     \<and> OpenBlob S (ent_blob (index ! os_seg h)) = Inr (os_reader h)"

definition reader_ok :: "('b, 'h) blob_store \<Rightarrow> ('b, 'h) stream_reader \<Rightarrow> bool" where
  "reader_ok S r \<longleftrightarrow>
     tiles 0 (rd_index r) (rd_size r) \<and> rd_size r < 2 ^ 63 \<and> 0 \<le> rd_pos r \<and> rd_pos r < 2 ^ 63 \<and>
     (\<forall>h \<in> set (rd_open r). holds_blob S (rd_index r) h) \<and> distinct (map os_seg (rd_open r)) \<and>
     rd_openSz r = seg_sum (rd_open r) \<and> (rd_openSz r \<le> rd_residency r \<or> length (rd_open r) \<le> 1)"

definition same_stream :: "('b, 'h) stream_reader \<Rightarrow> ('b, 'h) stream_reader \<Rightarrow> bool" where
  "same_stream r r' \<longleftrightarrow>
     rd_index r' = rd_index r \<and> rd_size r' = rd_size r \<and> rd_residency r' = rd_residency r \<and> rd_closed r' = rd_closed r"

lemma distinct_sum_le:
  assumes "distinct ks" "\<forall>k \<in> set ks. k < length xs" "\<forall>x \<in> set xs. 0 \<le> (f x :: int)"
  shows "sum_list (map (\<lambda>k. f (xs ! k)) ks) \<le> sum_list (map f xs)"
proof -
  have "sum_list (map (\<lambda>k. f (xs ! k)) ks) = (\<Sum>k \<in> set ks. f (xs ! k))"
    by (rule sum_list_distinct_conv_sum_set [OF assms(1)])
  also have "\<dots> \<le> (\<Sum>k = 0..<length xs. f (xs ! k))" using assms(2,3) by (intro sum_mono2) auto
  also have "\<dots> = sum_list (map f xs)" by (simp add: sum_list_sum_nth)
  finally show ?thesis .
qed

lemma tiles_pos: "tiles o1 es e \<Longrightarrow> \<forall>s \<in> set es. 0 \<le> ent_length s"
  by (induction es arbitrary: o1) force+

lemma held_sum_le:
  assumes "tiles 0 index e" "\<forall>h \<in> set held. holds_blob S index h" "distinct (map os_seg held)"
  shows "0 \<le> seg_sum held \<and> seg_sum held \<le> e"
proof -
  have "map os_length held = map (\<lambda>k. ent_length (index ! k)) (map os_seg held)"
    using assms(2) by (auto simp: holds_blob_def)
  then have "seg_sum held = sum_list (map (\<lambda>k. ent_length (index ! k)) (map os_seg held))" by (simp only: seg_sum_def)
  also have "\<dots> \<le> sum_list (map ent_length index)"
    using assms(2,3) tiles_pos [OF assms(1)] by (intro distinct_sum_le) (auto simp: holds_blob_def)
  finally have "seg_sum held \<le> e" using tiles_sum [OF assms(1)] by simp
  moreover have "0 \<le> seg_sum held"
    unfolding seg_sum_def using assms(2) tiles_step [OF assms(1)]
    by (intro sum_list_nonneg) (auto simp: holds_blob_def less_imp_le)
  ultimately show ?thesis by simp
qed

lemma evict_loop_suffix:
  assumes "\<forall>h \<in> set held. 0 \<le> os_length h" "seg_sum held < 2 ^ 63"
  shows "\<exists>out. evict_loop res held (seg_sum held) gone = (drop out held, seg_sum (drop out held), gone @ map os_reader (take out held))
    \<and> (seg_sum (drop out held) \<le> res \<or> length (drop out held) \<le> 1) \<and> (held \<noteq> [] \<longrightarrow> out < length held)"
  using assms
proof (induction held arbitrary: gone rule: induct_list012)
  case (3 v n rest)
  show ?case
  proof (cases "seg_sum (v # n # rest) > res")
    case True
    have nn: "0 \<le> seg_sum (n # rest)" unfolding seg_sum_def by (rule sum_list_nonneg) (use 3 in auto)
    have g: "go_int (seg_sum (v # n # rest) - os_length v) = seg_sum (n # rest)"
      using 3(3,4) nn by (subst go_int_pos) (simp_all add: seg_sum_def)
    have "seg_sum (n # rest) < 2 ^ 63" using 3(3,4) by (simp add: seg_sum_def)
    then obtain out where "evict_loop res (n # rest) (seg_sum (n # rest)) (gone @ [os_reader v])
        = (drop out (n # rest), seg_sum (drop out (n # rest)), (gone @ [os_reader v]) @ map os_reader (take out (n # rest)))"
        "seg_sum (drop out (n # rest)) \<le> res \<or> length (drop out (n # rest)) \<le> 1" "out < length (n # rest)"
      using 3(2) [of "gone @ [os_reader v]"] 3(3) by auto
    then show ?thesis using True g by (intro exI [of _ "Suc out"]) simp
  qed (auto intro: exI [of _ 0])
qed (auto intro: exI [of _ 0])

lemma find_open_spec:
  "(case find_open seg k held of None \<Rightarrow> \<forall>i < k. os_seg (held ! i) \<noteq> seg
                                | Some i \<Rightarrow> i < k \<and> os_seg (held ! i) = seg)"
  by (induction k) (auto simp: less_Suc_eq split: option.splits)

lemma mset_move: "k < length xs \<Longrightarrow> mset (take k xs @ drop (Suc k) xs @ [xs ! k]) = mset xs"
proof -
  assume k: "k < length xs"
  have "mset xs = mset (take k xs @ xs ! k # drop (Suc k) xs)" using id_take_nth_drop [OF k] by simp
  then show ?thesis by simp
qed

text \<open>Getting a segment keeps all of this, and gives a reader of the segment's blob.\<close>

lemma acquire_ok:
  assumes "reader_ok S r" "seg < length (rd_index r)" "acquire S seg r = (r', res)"
  shows "reader_ok S r' \<and> same_stream r r' \<and> rd_pos r' = rd_pos r
    \<and> (\<forall>h. res = Inr h \<longrightarrow> OpenBlob S (ent_blob (rd_index r ! seg)) = Inr (os_reader h))"
proof (cases "find_open seg (length (rd_open r)) (rd_open r)")
  case (Some k)
  then have k: "k < length (rd_open r)" "os_seg (rd_open r ! k) = seg"
    using find_open_spec [where seg = seg and k = "length (rd_open r)" and held = "rd_open r"] by simp_all
  let ?moved = "take k (rd_open r) @ drop (Suc k) (rd_open r) @ [rd_open r ! k]"
  have m: "mset ?moved = mset (rd_open r)" by (rule mset_move [OF k(1)])
  have "mset (map os_seg ?moved) = mset (map os_seg (rd_open r))" using m by (metis mset_map)
  then have d: "distinct (map os_seg ?moved) = distinct (map os_seg (rd_open r))" by (rule mset_eq_imp_distinct_iff)
  have "mset (map os_length ?moved) = mset (map os_length (rd_open r))" using m by (metis mset_map)
  then have q: "seg_sum ?moved = seg_sum (rd_open r)" unfolding seg_sum_def by (metis sum_mset_sum_list)
  have st: "set ?moved = set (rd_open r)" using m by (metis set_mset_mset)
  have l: "length ?moved = length (rd_open r)" using m by (metis size_mset)
  have h: "holds_blob S (rd_index r) (rd_open r ! k)" using assms(1) k(1) by (simp add: reader_ok_def)
  have "r' = (if k \<noteq> length (rd_open r) - 1 then r\<lparr>rd_open := ?moved\<rparr> else r)" "res = Inr (rd_open r ! k)"
    using assms(3) Some by (auto simp: acquire_def Let_def)
  then show ?thesis
    using assms(1) d q st l h k(2) by (auto simp: reader_ok_def same_stream_def holds_blob_def simp del: append_take_drop_id)
next
  case None
  then have new: "seg \<notin> set (map os_seg (rd_open r))"
    using find_open_spec [where seg = seg and k = "length (rd_open r)" and held = "rd_open r"] by (auto simp: in_set_conv_nth)
  show ?thesis
  proof (cases "OpenBlob S (ent_blob (rd_index r ! seg))")
    case (Inl e)
    then show ?thesis using assms None by (auto simp: acquire_def same_stream_def)
  next
    case (Inr reader)
    let ?h = "\<lparr>os_seg = seg, os_length = ent_length (rd_index r ! seg), os_reader = reader\<rparr>"
    let ?held = "rd_open r @ [?h]"
    have ok: "\<forall>h \<in> set ?held. holds_blob S (rd_index r) h" "distinct (map os_seg ?held)"
      using assms(1,2) Inr new by (auto simp: reader_ok_def holds_blob_def)
    have t: "tiles 0 (rd_index r) (rd_size r)" "rd_size r < 2 ^ 63" using assms(1) by (simp_all add: reader_ok_def)
    note le = held_sum_le [OF t(1) ok]
    have sz: "go_int (rd_openSz r + os_length ?h) = seg_sum ?held"
      using assms(1) le t(2) by (subst go_int_pos) (auto simp: reader_ok_def seg_sum_def)
    have "\<forall>h \<in> set ?held. 0 \<le> os_length h" using ok(1) tiles_step [OF t(1)] by (auto simp: holds_blob_def less_imp_le)
    then obtain out where out: "evict_loop (rd_residency r) ?held (seg_sum ?held) (rd_closed_handles r)
        = (drop out ?held, seg_sum (drop out ?held), rd_closed_handles r @ map os_reader (take out ?held))"
        "seg_sum (drop out ?held) \<le> rd_residency r \<or> length (drop out ?held) \<le> 1"
      using evict_loop_suffix [of ?held "rd_residency r" "rd_closed_handles r"] le t(2) by auto
    have r': "r' = r\<lparr>rd_open := drop out ?held, rd_openSz := seg_sum (drop out ?held),
        rd_closed_handles := rd_closed_handles r @ map os_reader (take out ?held)\<rparr>" "res = Inr ?h"
      using assms(3) None Inr out(1) sz by (simp_all add: acquire_def evict_def Let_def)
    have "\<forall>h \<in> set (drop out ?held). holds_blob S (rd_index r) h" using ok(1) by (metis in_set_dropD)
    moreover have "distinct (map os_seg (drop out ?held))" using ok(2) by (metis distinct_drop drop_map)
    ultimately show ?thesis
      using assms(1) out(2) Inr unfolding r' by (simp add: reader_ok_def same_stream_def del: drop_append)
  qed
qed

section \<open>Reading\<close>

text \<open>The contract of \<open>io.ReadSeeker\<close>: what a read delivers is what the blob holds there.\<close>

definition reads_content :: "('b, 'h) blob_store \<Rightarrow> ('b \<Rightarrow> byte list) \<Rightarrow> bool" where
  "reads_content S content \<longleftrightarrow>
     (\<forall>b h ofs n bs err. OpenBlob S b = Inr h \<and> 0 \<le> ofs \<and> read_at S h ofs n = Inr (bs, err) \<longrightarrow>
        length bs \<le> n \<and> bs = take (length bs) (drop (nat ofs) (content b)))"

text \<open>A store that is up: every blob opens, and a read inside it delivers something, with no error but the
  end of the blob.\<close>

definition serves_blobs :: "('b, 'h) blob_store \<Rightarrow> ('b \<Rightarrow> byte list) \<Rightarrow> bool" where
  "serves_blobs S content \<longleftrightarrow>
     (\<forall>b. \<exists>h. OpenBlob S b = Inr h \<and>
        (\<forall>ofs n. 0 \<le> ofs \<and> nat ofs < length (content b) \<and> 0 < n \<longrightarrow>
           (\<exists>bs err. read_at S h ofs n = Inr (bs, err) \<and> bs \<noteq> [] \<and> (err = None \<or> err = Some EndOfStream))))"

definition stream_bytes :: "('b \<Rightarrow> byte list) \<Rightarrow> 'b seg_entry list \<Rightarrow> byte list" where
  "stream_bytes content index = concat (map (content \<circ> ent_blob) index)"

definition declared_sizes :: "('b \<Rightarrow> byte list) \<Rightarrow> 'b seg_entry list \<Rightarrow> bool" where
  "declared_sizes content index \<longleftrightarrow> (\<forall>e \<in> set index. int (length (content (ent_blob e))) = ent_length e)"

lemma stream_at:
  assumes "tiles o1 index e" "declared_sizes content index" "k < length index"
    "ent_offset (index ! k) \<le> p" "p < ent_offset (index ! k) + ent_length (index ! k)"
  shows "\<exists>rest. drop (nat (p - o1)) (stream_bytes content index)
    = drop (nat (p - ent_offset (index ! k))) (content (ent_blob (index ! k))) @ rest"
  using assms
proof (induction index arbitrary: o1 k)
  case (Cons s ss)
  have l: "int (length (content (ent_blob s))) = ent_length s" using Cons.prems(2) by (simp add: declared_sizes_def)
  show ?case
  proof (cases k)
    case 0
    then have "nat (p - o1) \<le> length (content (ent_blob s))" using Cons.prems l by simp
    then show ?thesis using 0 Cons.prems(1) by (simp add: stream_bytes_def)
  next
    case (Suc j)
    have t: "tiles (o1 + ent_length s) ss e" "0 < ent_length s" using Cons.prems(1) by simp_all
    have "o1 + ent_length s \<le> p" using tiles_step [OF t(1), of j] Cons.prems Suc by simp
    then have "nat (p - o1) = nat (p - (o1 + ent_length s)) + length (content (ent_blob s))" using l t(2) by simp
    then have "drop (nat (p - o1)) (stream_bytes content (s # ss))
        = drop (nat (p - (o1 + ent_length s))) (stream_bytes content ss)"
      by (simp add: stream_bytes_def)
    moreover have "declared_sizes content ss" using Cons.prems(2) by (simp add: declared_sizes_def)
    ultimately show ?thesis using Cons.IH [OF t(1), of j] Cons.prems(3,4,5) Suc by simp
  qed
qed simp

lemma length_stream: "tiles o1 index e \<Longrightarrow> declared_sizes content index \<Longrightarrow> int (length (stream_bytes content index)) = e - o1"
proof (induction index arbitrary: o1)
  case (Cons s ss)
  then have "int (length (stream_bytes content ss)) = e - (o1 + ent_length s)" by (simp add: declared_sizes_def)
  then show ?case using Cons.prems(2) by (simp add: stream_bytes_def declared_sizes_def)
qed (simp add: stream_bytes_def)

lemma acquire_pos: "acquire S k r = (r1, res) \<Longrightarrow> rd_pos r1 = rd_pos r"
  by (auto simp: acquire_def evict_def Let_def split: option.splits sum.splits prod.splits if_splits)

lemma Read_step:
  assumes "\<not> (rd_closed r \<or> rd_pos r \<ge> rd_size r)" "segmentAt (rd_pos r) r = Some k" "acquire S k r = (r1, Inr held)"
  shows "stream_Read S n r =
     (let intra = rd_pos r - ent_offset (rd_index r ! k); remain = ent_length (rd_index r ! k) - intra
      in case read_at S (os_reader held) intra (if int n > remain then nat remain else n) of
           Inl e \<Rightarrow> (r1, [], Some e)
         | Inr (bs, err) \<Rightarrow>
             let r2 = r1\<lparr>rd_pos := go_int (rd_pos r + int (length bs))\<rparr>
             in (r2, bs, if err = Some EndOfStream \<and> rd_pos r2 < rd_size r2 then None else err))"
proof -
  have p: "rd_pos r1 = rd_pos r" by (rule acquire_pos [OF assms(3)])
  have n: "\<not> rd_closed r" "\<not> rd_pos r \<ge> rd_size r" using assms(1) by simp_all
  show ?thesis
    unfolding stream_Read_def Let_def by (simp only: n if_False assms(2,3) prod.case sum.case option.case p)
qed

text \<open>One read delivers the next bytes of the stream, whatever else happens.\<close>

lemma Read_ok:
  assumes "reader_ok S r" "reads_content S content" "declared_sizes content (rd_index r)"
    "stream_Read S n r = (r', bs, err)"
  shows "reader_ok S r' \<and> same_stream r r' \<and> length bs \<le> n
    \<and> bs = take (length bs) (drop (nat (rd_pos r)) (stream_bytes content (rd_index r)))
    \<and> rd_pos r' = rd_pos r + int (length bs) \<and> (bs \<noteq> [] \<longrightarrow> rd_pos r' \<le> rd_size r)"
proof (cases "rd_closed r \<or> rd_pos r \<ge> rd_size r")
  case True
  then show ?thesis using assms(1,4) by (auto simp: stream_Read_def same_stream_def split: if_splits)
next
  case False
  have ok: "tiles 0 (rd_index r) (rd_size r)" "rd_size r < 2 ^ 63" "0 \<le> rd_pos r" "rd_pos r < rd_size r"
    using assms(1) False by (simp_all add: reader_ok_def)
  obtain k where k: "segmentAt (rd_pos r) r = Some k" "k < length (rd_index r)" "ent_offset (rd_index r ! k) \<le> rd_pos r"
      "rd_pos r < ent_offset (rd_index r ! k) + ent_length (rd_index r ! k)"
    by (rule segmentAt_covers [OF ok])
  let ?e = "rd_index r ! k"
  obtain r1 res where a: "acquire S k r = (r1, res)" by force
  note aq = acquire_ok [OF assms(1) k(2) a]
  show ?thesis
  proof (cases res)
    case (Inl e)
    then show ?thesis using assms(4) False k(1) a aq by (auto simp: stream_Read_def Let_def)
  next
    case (Inr held)
    let ?intra = "rd_pos r - ent_offset ?e"
    let ?n = "if int n > ent_length ?e - ?intra then nat (ent_length ?e - ?intra) else n"
    note step = Read_step [OF False k(1) a [unfolded Inr], of n]
    show ?thesis
    proof (cases "read_at S (os_reader held) ?intra ?n")
      case (Inl e)
      then show ?thesis using assms(4) aq step by auto
    next
      case ra: (Inr be)
      obtain b er where be: "be = (b, er)" by force
      have rc: "length b \<le> ?n" "b = take (length b) (drop (nat ?intra) (content (ent_blob ?e)))"
        using assms(2) aq Inr ra be k(3) unfolding reads_content_def by (metis diff_ge_0_iff_ge)+
      have ln: "int (length b) \<le> ent_length ?e - ?intra" "length b \<le> n" using rc(1) k(4) by (auto split: if_splits)
      have "ent_offset ?e + ent_length ?e \<le> rd_size r"
        by (rule tiles_end [OF ok(1) k(2)])
      then have top: "rd_pos r + int (length b) \<le> rd_size r" using ln(1) by simp
      then have g: "go_int (rd_pos r + int (length b)) = rd_pos r + int (length b)"
        using ok by (intro go_int_pos) simp_all
      have r': "bs = b" "r' = r1\<lparr>rd_pos := rd_pos r + int (length b)\<rparr>"
        using assms(4) ra be g step aq by (auto simp: Let_def)
      obtain rest where rest: "drop (nat (rd_pos r)) (stream_bytes content (rd_index r))
          = drop (nat ?intra) (content (ent_blob ?e)) @ rest"
        using stream_at [OF ok(1) assms(3) k(2,3,4)] by auto
      have "length b \<le> length (drop (nat ?intra) (content (ent_blob ?e)))"
        using rc(2) by (metis length_take min.cobounded1 min.commute)
      then have "take (length b) (drop (nat (rd_pos r)) (stream_bytes content (rd_index r))) = b"
        using rc(2) unfolding rest by simp
      then show ?thesis using r' aq ln top ok by (auto simp: reader_ok_def same_stream_def)
    qed
  qed
qed

text \<open>When the store is up and the sizes are the declared ones, every read before the end gets on.\<close>

lemma Read_progress:
  assumes "reader_ok S r" "serves_blobs S content" "declared_sizes content (rd_index r)"
    "\<not> rd_closed r" "rd_pos r < rd_size r" "0 < n" "stream_Read S n r = (r', bs, err)"
  shows "bs \<noteq> [] \<and> (err = None \<or> err = Some EndOfStream \<and> rd_pos r' \<ge> rd_size r)"
proof -
  have ok: "tiles 0 (rd_index r) (rd_size r)" "rd_size r < 2 ^ 63" "0 \<le> rd_pos r"
    using assms(1) by (simp_all add: reader_ok_def)
  obtain k where k: "segmentAt (rd_pos r) r = Some k" "k < length (rd_index r)" "ent_offset (rd_index r ! k) \<le> rd_pos r"
      "rd_pos r < ent_offset (rd_index r ! k) + ent_length (rd_index r ! k)"
    by (rule segmentAt_covers [OF ok assms(5)])
  let ?e = "rd_index r ! k"
  obtain r1 res where a: "acquire S k r = (r1, res)" by force
  note aq = acquire_ok [OF assms(1) k(2) a]
  have "\<exists>held. res = Inr held"
  proof -
    have "\<exists>h. OpenBlob S (ent_blob ?e) = Inr h" using assms(2) unfolding serves_blobs_def by blast
    then obtain h where "OpenBlob S (ent_blob ?e) = Inr h" ..
    then show ?thesis using a by (auto simp: acquire_def Let_def split: option.splits)
  qed
  then obtain held where held: "res = Inr held" by blast
  let ?intra = "rd_pos r - ent_offset ?e"
  have "int (length (content (ent_blob ?e))) = ent_length ?e" using assms(3) k(2) by (simp add: declared_sizes_def)
  then have "nat ?intra < length (content (ent_blob ?e))" "0 \<le> ?intra" using k by simp_all
  moreover obtain h where h: "OpenBlob S (ent_blob ?e) = Inr h" "\<forall>ofs n. 0 \<le> ofs \<and> nat ofs < length (content (ent_blob ?e)) \<and> 0 < n \<longrightarrow>
      (\<exists>bs err. read_at S h ofs n = Inr (bs, err) \<and> bs \<noteq> [] \<and> (err = None \<or> err = Some EndOfStream))"
    using assms(2) unfolding serves_blobs_def by blast
  moreover have "h = os_reader held" using h(1) aq held by simp
  moreover let ?n = "if int n > ent_length ?e - ?intra then nat (ent_length ?e - ?intra) else n"
  have "0 < ?n" using assms(6) k(4) by simp
  ultimately obtain b er where be: "read_at S (os_reader held) ?intra ?n = Inr (b, er)" "b \<noteq> []" "er = None \<or> er = Some EndOfStream"
    by blast
  have "\<not> (rd_closed r \<or> rd_pos r \<ge> rd_size r)" using assms(4,5) by simp
  note step = Read_step [OF this k(1) a [unfolded held], of n]
  have "bs = b" "err = (if er = Some EndOfStream \<and> rd_pos r' < rd_size r then None else er)"
    using assms(7) be(1) aq unfolding step by (auto simp: Let_def same_stream_def)
  then show ?thesis using be(2,3) by auto
qed

text \<open>Reading on and on, with buffers of the sizes given, until an error: the bytes read and the error.\<close>

fun drain :: "('b, 'h) blob_store \<Rightarrow> nat list \<Rightarrow> ('b, 'h) stream_reader \<Rightarrow> byte list \<times> fault option" where
  "drain S [] r = ([], None)"
| "drain S (n # ns) r =
     (case stream_Read S n r of
        (r', bs, Some e) \<Rightarrow> (bs, Some e)
      | (r', bs, None) \<Rightarrow> (let (rest, e) = drain S ns r' in (bs @ rest, e)))"

lemma drain_all:
  assumes "reader_ok S r" "reads_content S content" "serves_blobs S content" "declared_sizes content (rd_index r)"
    "\<not> rd_closed r" "\<forall>n \<in> set ns. 0 < n" "nat (rd_size r - rd_pos r) < length ns"
  shows "drain S ns r = (drop (nat (rd_pos r)) (stream_bytes content (rd_index r)), Some EndOfStream)"
  using assms
proof (induction ns arbitrary: r)
  case (Cons n ns)
  let ?all = "stream_bytes content (rd_index r)"
  have ok: "tiles 0 (rd_index r) (rd_size r)" "0 \<le> rd_pos r" using Cons.prems(1) by (simp_all add: reader_ok_def)
  have len: "int (length ?all) = rd_size r" using length_stream [OF ok(1) Cons.prems(4)] by simp
  show ?case
  proof (cases "rd_pos r < rd_size r")
    case False
    then show ?thesis using Cons.prems(5) len ok(2) by (simp add: stream_Read_def)
  next
    case True
    obtain r' bs err where rd: "stream_Read S n r = (r', bs, err)" by (metis prod_cases3)
    note R = Read_ok [OF Cons.prems(1,2,4) rd]
    have P: "bs \<noteq> [] \<and> (err = None \<or> err = Some EndOfStream \<and> rd_pos r' \<ge> rd_size r)"
      using Read_progress [OF Cons.prems(1,3,4,5) True _ rd] Cons.prems(6) by simp
    have pos: "nat (rd_pos r') = nat (rd_pos r) + length bs" using R ok(2) by simp
    have split: "drop (nat (rd_pos r)) ?all = bs @ drop (nat (rd_pos r')) ?all"
      using R unfolding pos by (metis add.commute append_take_drop_id drop_drop)
    show ?thesis
    proof (cases err)
      case None
      have l1: "1 \<le> int (length bs)" using P by (cases bs) simp_all
      have "rd_size r - rd_pos r < 1 + int (length ns)" using Cons.prems(7) True by (simp add: nat_less_iff)
      moreover have "rd_pos r' = rd_pos r + int (length bs)" using R by simp
      ultimately have "rd_size r - rd_pos r' < int (length ns)" using l1 by linarith
      moreover have "rd_pos r' \<le> rd_size r" using R P by simp
      ultimately have "nat (rd_size r - rd_pos r') < length ns" by (simp add: nat_less_iff)
      then have "drain S ns r' = (drop (nat (rd_pos r')) ?all, Some EndOfStream)"
        using Cons.IH [of r'] R Cons.prems by (auto simp: same_stream_def)
      then show ?thesis using None rd split by simp
    next
      case (Some e)
      then have "drop (nat (rd_pos r')) ?all = []" "e = EndOfStream" using P len by auto
      then show ?thesis using Some rd split by simp
    qed
  qed
qed simp

section \<open>From the channel to the reader\<close>

lemma mset_insert_raw: "mset (insert_raw r rs) = add_mset r (mset rs)"
  by (induction rs) auto

lemma mset_fold_raw: "mset (fold insert_raw rs acc) = mset rs + mset acc"
  by (induction rs arbitrary: acc) (simp_all add: mset_insert_raw)

lemma mset_sort_raws: "mset (sort_raws rs) = mset rs"
  by (simp add: sort_raws_def mset_fold_raw)

lemma sorted_insert_raw:
  "sorted (map raw_itemID rs) \<Longrightarrow> sorted (map raw_itemID (insert_raw r rs))"
proof (induction rs)
  case (Cons s ss)
  have "set (map raw_itemID (insert_raw r ss)) = insert (raw_itemID r) (set (map raw_itemID ss))"
    by (metis list.set_map mset_insert_raw set_mset_add_mset_insert set_mset_mset image_insert)
  then show ?case using Cons by (auto simp: CompareTo_simps)
qed simp

lemma sorted_sort_raws: "sorted (map raw_itemID (sort_raws rs))"
proof -
  have "sorted (map raw_itemID (fold insert_raw rs acc))" if "sorted (map raw_itemID acc)" for acc
    using that by (induction rs arbitrary: acc) (simp_all add: sorted_insert_raw)
  from this [of "[]"] show ?thesis by (simp add: sort_raws_def)
qed

lemma load_loop_keeps:
  assumes "\<And>u s. P s \<Longrightarrow> P (resp u s)" "P s" "load_loop node resp es s = Some (s', res)"
  shows "P s'"
  using assms(2,3)
proof (induction es arbitrary: s)
  case (Cons e es)
  then show ?case using assms(1) by (cases e) (auto simp: Let_def split: if_splits)
qed simp

definition raws_positive :: "'b seg_collector \<Rightarrow> bool" where
  "raws_positive c \<longleftrightarrow> (\<forall>r \<in> set (col_raw c). 0 < raw_length r)"

lemma collect_positive: "raws_positive c \<Longrightarrow> raws_positive (collect_update unmarshal assetTag u c)"
proof -
  have "raws_positive (collect_op unmarshal assetTag tx op c)" if "raws_positive c" for tx op c
    using that by (auto simp: raws_positive_def collect_op_def Let_def split: sum.splits option.splits)
  then have "raws_positive (fold (collect_op unmarshal assetTag tx) ops c)" if "raws_positive c" for tx ops c
    using that by (induction ops arbitrary: c) simp_all
  then show "raws_positive c \<Longrightarrow> raws_positive (collect_update unmarshal assetTag u c)"
    by (simp add: collect_update_def)
qed

lemma new_reader_ok:
  assumes "tiles 0 index e" "e < 2 ^ 63" "0 \<le> p" "p < 2 ^ 63"
  shows "reader_ok S (fst (stream_Seek p SeekStart (newMediaStreamReader index e res)))"
  using assms by (simp add: reader_ok_def stream_Seek_def newMediaStreamReader_def seg_sum_def SeekStart_def)

section \<open>Properties\<close>

text \<open>C14. A channel plays as one recording: whatever the buffer sizes, reading from a position to the end
  delivers the bytes of the segments' blobs from there on, concatenated in capture order, and then the end
  of the stream; segments are opened and closed behind it.  (Segments of one identifier come in order of arrival: the
  library's sort leaves their order open.)\<close>

theorem media_stream_reads:
  assumes "LoadItems submitted node (collect_update unmarshal assetTag) events
             \<lparr>col_attr = ma_attr a, col_raw = [], col_contentType = []\<rparr> = Some (c, Inr ())"
    and "NewAssetReader unmarshal assetTag submitted node events a = Some (a', Inr r)"
    and "sum_list (map raw_length (col_raw c)) < 2 ^ 63"
    and "reads_content S content" "serves_blobs S content"
    and "\<forall>seg \<in> set (col_raw c). int (length (content (raw_blob seg))) = raw_length seg"
    and "0 \<le> p" "p < 2 ^ 63"
    and "\<forall>n \<in> set ns. 0 < n" "sum_list (map raw_length (col_raw c)) < int (length ns)"
  shows "drain S ns (fst (stream_Seek p SeekStart r))
    = (drop (nat p) (concat (map (content \<circ> raw_blob) (sort_raws (col_raw c)))), Some EndOfStream)"
proof -
  let ?raws = "sort_raws (col_raw c)"
  obtain index e where lo: "lay_out 0 ?raws = (index, e)" by force
  have r: "r = newMediaStreamReader index e (ma_residency a)"
    using assms(1,2) lo by (auto simp: NewAssetReader_def loadLocked_def split: if_splits)
  have "raws_positive c"
  proof (cases submitted)
    case (Inr x)
    then have "load_loop node (collect_update unmarshal assetTag) events \<lparr>col_attr = ma_attr a, col_raw = [], col_contentType = []\<rparr>
        = Some (c, Inr ())"
      using assms(1) by (simp add: LoadItems_def)
    then show ?thesis
      by (rule load_loop_keeps [where P = raws_positive, OF collect_positive, rotated 2]) (simp_all add: raws_positive_def)
  qed (use assms(1) in \<open>simp add: LoadItems_def\<close>)
  moreover have m: "mset ?raws = mset (col_raw c)" by (rule mset_sort_raws)
  then have st: "set ?raws = set (col_raw c)" by (metis set_mset_mset)
  have "mset (map raw_length ?raws) = mset (map raw_length (col_raw c))" using m by (metis mset_map)
  then have sm: "sum_list (map raw_length ?raws) = sum_list (map raw_length (col_raw c))" by (metis sum_mset_sum_list)
  ultimately have t: "tiles 0 index e" "map ent_blob index = map raw_blob ?raws" "map ent_length index = map raw_length ?raws"
    using lay_out_tiles [OF _ _ _ lo] assms(3) st by (simp_all add: raws_positive_def)
  have e: "e = sum_list (map raw_length (col_raw c))" using tiles_sum [OF t(1)] t(3) sm by simp
  let ?r = "fst (stream_Seek p SeekStart r)"
  have ok: "reader_ok S ?r" using new_reader_ok [OF t(1) _ assms(7,8)] assms(3) e r by simp
  have f: "rd_index ?r = index" "rd_size ?r = e" "rd_pos ?r = p" "\<not> rd_closed ?r"
    using assms(7) by (simp_all add: r stream_Seek_def newMediaStreamReader_def SeekStart_def)
  have "declared_sizes content index"
    unfolding declared_sizes_def
  proof
    fix x assume "x \<in> set index"
    then obtain i where i: "i < length index" "x = index ! i" by (metis in_set_conv_nth)
    have l: "length ?raws = length index" using t(2) by (metis length_map)
    then have "ent_blob x = raw_blob (?raws ! i)" "ent_length x = raw_length (?raws ! i)"
      using t(2,3) i by (metis nth_map)+
    moreover have "?raws ! i \<in> set (col_raw c)" using st l i(1) by (metis nth_mem)
    ultimately show "int (length (content (ent_blob x))) = ent_length x" using assms(6) by simp
  qed
  moreover have "nat (rd_size ?r - rd_pos ?r) < length ns"
    using f(2,3) e tiles_le [OF t(1)] assms(7,10) by linarith
  ultimately have "drain S ns ?r = (drop (nat p) (stream_bytes content index), Some EndOfStream)"
    using drain_all [OF ok assms(4,5) _ f(4) assms(9)] f(1,3) by simp
  moreover have "map (content \<circ> ent_blob) index = map (content \<circ> raw_blob) ?raws" using t(2) by (metis map_map)
  ultimately show ?thesis by (simp add: stream_bytes_def)
qed

text \<open>A memory store: a blob is its bytes.\<close>

definition memory_store :: "(byte list, byte list) blob_store" where
  "memory_store = \<lparr>OpenBlob = Inr,
     read_at = (\<lambda>h ofs n. Inr (take n (drop (nat ofs) h), if 0 < n \<and> length h \<le> nat ofs then Some EndOfStream else None)),
     close_handle = (\<lambda>h. None)\<rparr>"

lemma memory_store_laws: "reads_content memory_store id" "serves_blobs memory_store id"
  by (auto simp: reads_content_def serves_blobs_def memory_store_def min_def)

definition toy_segment :: "byte list \<Rightarrow> byte list media_segment outcome" where
  "toy_segment b = Inr \<lparr>seg_TickDelta = int (length b), seg_ContentType = [], seg_Blob = Some b\<rparr>"

text \<open>Two segments, of which the later one arrives first.\<close>

definition toy_recording :: tx_msg where
  "toy_recording = TxNew\<lparr>Ops := [
       \<lparr>Addr = \<lparr>NodeID = UID 1 1, AttrID = UID 1 2, ItemID = UID 0 7, EditID = UID 0 9\<rparr>, Flags = 4, Logical = 0, DataOfs = 0, DataLen = 3\<rparr>,
       \<lparr>Addr = \<lparr>NodeID = UID 1 1, AttrID = UID 1 2, ItemID = UID 0 4, EditID = UID 0 9\<rparr>, Flags = 4, Logical = 0, DataOfs = 3, DataLen = 2\<rparr>],
     DataStore := [0, 5, 6, 0, 9]\<rparr>"

definition toy_collected :: "byte list seg_collector" where
  "toy_collected = \<lparr>col_attr = UID 1 2, col_raw = [\<lparr>raw_itemID = UID 0 7, raw_length = 2, raw_blob = [5, 6]\<rparr>,
     \<lparr>raw_itemID = UID 0 4, raw_length = 1, raw_blob = [9]\<rparr>], col_contentType = []\<rparr>"

definition toy_asset :: "byte list media_asset" where
  "toy_asset = \<lparr>ma_attr = UID 1 2, ma_index = [], ma_size = 0, ma_contentType = [], ma_residency = 1\<rparr>"

definition toy_index :: "byte list seg_entry list" where
  "toy_index = [\<lparr>ent_offset = 0, ent_length = 1, ent_blob = [9]\<rparr>, \<lparr>ent_offset = 1, ent_length = 2, ent_blob = [5, 6]\<rparr>]"

lemma toy_loads:
  "LoadItems (Inr ()) (UID 1 1) (collect_update toy_segment (\<lambda>_. None)) [Loaded toy_recording (UID 0 5)]
     \<lparr>col_attr = ma_attr toy_asset, col_raw = [], col_contentType = []\<rparr> = Some (toy_collected, Inr ())"
  "lay_out 0 (sort_raws (col_raw toy_collected)) = (toy_index, 3)"
  by code_simp+

lemma toy_reader:
  "NewAssetReader toy_segment (\<lambda>_. None) (Inr ()) (UID 1 1) [Loaded toy_recording (UID 0 5)] toy_asset
   = Some (toy_asset\<lparr>ma_index := toy_index, ma_size := 3\<rparr>, Inr (newMediaStreamReader toy_index 3 1))"
proof -
  have "col_contentType toy_collected = []" "ma_contentType toy_asset = []" by (simp_all add: toy_collected_def toy_asset_def)
  then have "loadLocked toy_segment (\<lambda>_. None) (Inr ()) (UID 1 1) [Loaded toy_recording (UID 0 5)] toy_asset
      = Some (toy_asset\<lparr>ma_index := toy_index, ma_size := 3\<rparr>, Inr ())"
    unfolding loadLocked_def toy_loads by (simp add: toy_loads(2))
  then show ?thesis unfolding NewAssetReader_def by (simp add: toy_asset_def toy_index_def)
qed

theorem media_stream_reads_witness:
  "drain memory_store [2, 1, 7, 2] (fst (stream_Seek 1 SeekStart (newMediaStreamReader toy_index 3 1)))
   = (drop (nat 1) (concat (map (id \<circ> raw_blob) (sort_raws (col_raw toy_collected)))), Some EndOfStream)"
  by (rule media_stream_reads [OF toy_loads(1) toy_reader _ memory_store_laws])
    (simp_all add: toy_collected_def)

text \<open>A read whose segment promises more bytes than its blob holds stalls: it delivers nothing and no error,
  for ever.\<close>

definition short_index :: "byte list seg_entry list" where
  "short_index = [\<lparr>ent_offset = 0, ent_length = 5, ent_blob = [1, 2, 3]\<rparr>]"

definition stalled :: "(byte list, byte list) stream_reader" where
  "stalled = \<lparr>rd_index = short_index, rd_size = 5, rd_residency = 100, rd_pos = 3,
     rd_open = [\<lparr>os_seg = 0, os_length = 5, os_reader = [1, 2, 3]\<rparr>], rd_openSz = 5, rd_closed = False, rd_closed_handles = []\<rparr>"

lemma stalled_read:
  "stream_Read memory_store 4 (newMediaStreamReader short_index 5 100) = (stalled, [1, 2, 3], None)"
  "stream_Read memory_store 4 stalled = (stalled, [], None)"
  by code_simp+

lemma short_blob_stalls:
  "drain memory_store (4 # replicate k 4) (newMediaStreamReader short_index 5 100) = ([1, 2, 3], None)"
proof -
  have "drain memory_store (replicate k 4) stalled = ([], None)"
    by (induction k) (simp_all add: stalled_read)
  then show ?thesis by (simp add: stalled_read)
qed

text \<open>What a client does with a reader.\<close>

datatype stream_op = ReadOp nat | SeekOp int int

fun run_op :: "('b, 'h) blob_store \<Rightarrow> stream_op \<Rightarrow> ('b, 'h) stream_reader \<Rightarrow> ('b, 'h) stream_reader" where
  "run_op S (ReadOp n) r = fst (stream_Read S n r)"
| "run_op S (SeekOp offset whence) r = fst (stream_Seek offset whence r)"

lemma go_int_bounds: "- (2 ^ 63) \<le> go_int x \<and> go_int x < 2 ^ 63"
  using sint_range_size [of "word_of_int x :: u64"] by (simp add: go_int_def word_size)

lemma run_op_ok:
  assumes "reader_ok S r" "reads_content S content" "declared_sizes content (rd_index r)"
    "case op of ReadOp n \<Rightarrow> True | SeekOp ofs w \<Rightarrow> ofs < 2 ^ 63"
  shows "reader_ok S (run_op S op r) \<and> same_stream r (run_op S op r)"
proof (cases op)
  case (ReadOp n)
  obtain r' bs err where rd: "stream_Read S n r = (r', bs, err)" by (metis prod_cases3)
  from Read_ok [OF assms(1-3) rd] show ?thesis using rd ReadOp by simp
next
  case (SeekOp ofs w)
  then have "ofs < 2 ^ 63" using assms(4) by simp
  then show ?thesis
    using assms(1) go_int_bounds SeekOp by (auto simp: reader_ok_def same_stream_def stream_Seek_def Let_def)
qed

text \<open>C26. However a client scrubs, the reader stays within its budget: after any sequence of reads and seeks,
  successful or not, no segment is open twice, the open ones hold the readers of their own blobs, and they
  are within the resident budget or there is only the one being read.\<close>

theorem reader_stays_resident:
  assumes "tiles 0 index e" "e < 2 ^ 63" "reads_content S content" "declared_sizes content index"
    "\<forall>ofs w. SeekOp ofs w \<in> set ops \<longrightarrow> ofs < 2 ^ 63"
    "r = fold (run_op S) ops (newMediaStreamReader index e budget)"
  shows "distinct (map os_seg (rd_open r)) \<and> (\<forall>h \<in> set (rd_open r). OpenBlob S (ent_blob (index ! os_seg h)) = Inr (os_reader h))
    \<and> (sum_list (map os_length (rd_open r)) \<le> budget \<or> length (rd_open r) \<le> 1)"
proof -
  let ?n = "newMediaStreamReader index e budget"
  have init: "reader_ok S ?n \<and> same_stream ?n ?n"
    using assms(1,2) by (simp add: reader_ok_def newMediaStreamReader_def seg_sum_def same_stream_def)
  have "reader_ok S (fold (run_op S) ops r0) \<and> same_stream ?n (fold (run_op S) ops r0)"
    if "reader_ok S r0 \<and> same_stream ?n r0" for r0
    using that assms(5)
  proof (induction ops arbitrary: r0)
    case (Cons op ops)
    have "rd_index r0 = index" using Cons.prems(1) by (simp add: same_stream_def newMediaStreamReader_def)
    moreover have "case op of ReadOp n \<Rightarrow> True | SeekOp ofs w \<Rightarrow> ofs < 2 ^ 63" using Cons.prems(2) by (cases op) auto
    ultimately have "reader_ok S (run_op S op r0) \<and> same_stream r0 (run_op S op r0)"
      using Cons.prems(1) assms(3,4) by (intro run_op_ok) simp_all
    then have "reader_ok S (run_op S op r0) \<and> same_stream ?n (run_op S op r0)"
      using Cons.prems(1) by (simp add: same_stream_def)
    then show ?case using Cons.IH [of "run_op S op r0"] Cons.prems(2) by auto
  qed simp
  from this [OF init] show ?thesis
    unfolding assms(6) by (auto simp: reader_ok_def same_stream_def newMediaStreamReader_def seg_sum_def holds_blob_def)
qed

theorem reader_stays_resident_witness:
  "distinct (map os_seg (rd_open (fold (run_op memory_store) [ReadOp 2, ReadOp 2, SeekOp 0 SeekStart, ReadOp 1]
     (newMediaStreamReader toy_index 3 2))))"
  by (rule reader_stays_resident [OF _ _ memory_store_laws(1) _ _ refl, THEN conjunct1, of toy_index])
    (simp_all add: toy_index_def declared_sizes_def SeekStart_def)

end
