(* ===== verification/Playlist.thy ===== *)
theory Playlist
  imports Rank TagTree
begin

text \<open>
  Playlists (\<open>amp/std/playlist.go\<close>): rows and their ranks as cells of a node, and the choice of the best
  source of a track.  The identifiers \<open>tag.NowID\<close> returns are given as a list, the random bytes the
  ranks draw as a list of seeds; the protobuf codec is a parameter.
\<close>

section \<open>Rows\<close>

definition Attr_MediaEntry :: uid where "Attr_MediaEntry = UID 0x9089C4BFDC465D21 0x890BC36C92D99049"
definition Attr_MediaRank :: uid where "Attr_MediaRank = UID 0x0995E622E38F0C6D 0x060B93D94E8D8849"

record media_rank =
  Rank_0 :: u64
  Rank_1 :: u64

datatype 'e media_value = EntryValue 'e | RankValue media_rank

definition RankUID :: "media_rank option \<Rightarrow> uid" where
  "RankUID m = (case m of None \<Rightarrow> nilUID | Some r \<Rightarrow> UID (Rank_0 r) (Rank_1 r))"

definition MediaRankOf :: "uid \<Rightarrow> media_rank" where
  "MediaRankOf rank = \<lparr>Rank_0 = uid0 rank, Rank_1 = uid1 rank\<rparr>"

definition WriteMediaEntry ::
  "('e media_value \<Rightarrow> unit outcome) \<Rightarrow> ('e media_value \<Rightarrow> byte list outcome) \<Rightarrow> tx_msg \<Rightarrow> uid \<Rightarrow> uid
     \<Rightarrow> 'e option \<Rightarrow> tx_msg \<times> unit outcome" where
  "WriteMediaEntry check marshal tx listNode entryID entry =
     (case entry of
        None \<Rightarrow> (tx, Inl Other)
      | Some e \<Rightarrow> Upsert check marshal tx listNode Attr_MediaEntry entryID (Some (EntryValue e)))"

definition WriteMediaRank ::
  "('e media_value \<Rightarrow> unit outcome) \<Rightarrow> ('e media_value \<Rightarrow> byte list outcome) \<Rightarrow> tx_msg \<Rightarrow> uid \<Rightarrow> uid \<Rightarrow> uid
     \<Rightarrow> tx_msg \<times> unit outcome" where
  "WriteMediaRank check marshal tx listNode entryID rank =
     Upsert check marshal tx listNode Attr_MediaRank entryID (Some (RankValue (MediaRankOf rank)))"

definition AppendMediaEntry ::
  "('e media_value \<Rightarrow> unit outcome) \<Rightarrow> ('e media_value \<Rightarrow> byte list outcome) \<Rightarrow> tx_msg \<Rightarrow> uid \<Rightarrow> uid \<Rightarrow> 'e option
     \<Rightarrow> tx_msg \<times> uid \<times> unit outcome" where
  "AppendMediaEntry check marshal tx listNode now entry =
     (let (tx', r) = WriteMediaEntry check marshal tx listNode now entry in (tx', now, r))"

text \<open>A row is its entry, the identifier drawn for it and its rank.\<close>

fun append_rows ::
  "('e media_value \<Rightarrow> unit outcome) \<Rightarrow> ('e media_value \<Rightarrow> byte list outcome) \<Rightarrow> uid \<Rightarrow> tx_msg
     \<Rightarrow> ('e option \<times> uid \<times> uid) list \<Rightarrow> tx_msg \<times> uid list outcome" where
  "append_rows check marshal listNode tx [] = (tx, Inr [])"
| "append_rows check marshal listNode tx ((entry, entryID, rank) # rows) =
     (case WriteMediaEntry check marshal tx listNode entryID entry of
        (tx1, Inl e) \<Rightarrow> (tx1, Inl e)
      | (tx1, Inr _) \<Rightarrow>
          (case WriteMediaRank check marshal tx1 listNode entryID rank of
             (tx2, Inl e) \<Rightarrow> (tx2, Inl e)
           | (tx2, Inr _) \<Rightarrow>
               let (tx3, r) = append_rows check marshal listNode tx2 rows
               in (tx3, and_then r (\<lambda>entryIDs. Inr (entryID # entryIDs)))))"

text \<open>\<open>None\<close> is the loop of a rank draw that is not over yet.\<close>

definition AppendMediaEntries ::
  "('e media_value \<Rightarrow> unit outcome) \<Rightarrow> ('e media_value \<Rightarrow> byte list outcome) \<Rightarrow> tx_msg \<Rightarrow> uid \<Rightarrow> uid
     \<Rightarrow> 'e option list \<Rightarrow> uid list \<Rightarrow> byte list list \<Rightarrow> (tx_msg \<times> uid list outcome) option" where
  "AppendMediaEntries check marshal tx listNode afterRank entries nows seeds =
     (case RanksAcross afterRank RankCeil (int (length entries)) seeds of
        None \<Rightarrow> None
      | Some (ranks, ok) \<Rightarrow>
          Some (if \<not> ok then (tx, Inl Other)
                else append_rows check marshal listNode tx (zip entries (zip nows ranks))))"

section \<open>Sources\<close>

record source_tag = tag_leaf +
  st_UID :: uid
  st_I :: int
  st_Units :: nat
  st_URI :: string

definition NoUID :: "source_tag option \<Rightarrow> bool" where
  "NoUID v \<longleftrightarrow> (case v of None \<Rightarrow> True | Some t \<Rightarrow> uid0 (st_UID t) = 0 \<and> uid1 (st_UID t) = 0)"

definition NoURI :: "source_tag option \<Rightarrow> bool" where
  "NoURI v \<longleftrightarrow> (case v of None \<Rightarrow> True | Some t \<Rightarrow> st_URI t = [])"

record source_criteria =
  crit_ContentType :: string
  crit_MaxKbps :: int
  crit_Offline :: bool

definition Units_BitrateKbps :: nat where "Units_BitrateKbps = 7"

definition SourceIsBlob :: "source_tag option \<Rightarrow> bool" where
  "SourceIsBlob s \<longleftrightarrow> (case s of None \<Rightarrow> False | Some t \<Rightarrow> st_URI t = [] \<and> \<not> IsNil (st_UID t))"

definition SourceScheme :: "source_tag option \<Rightarrow> string" where
  "SourceScheme s =
     (case s of None \<Rightarrow> []
      | Some t \<Rightarrow>
          if st_URI t = [] then []
          else let split = length (takeWhile (\<lambda>c. c \<noteq> CHR '':'') (st_URI t))
               in if split = length (st_URI t) \<or> split = 0 then [] else to_lower (take split (st_URI t)))"

definition sourceKbps :: "source_tag \<Rightarrow> int" where
  "sourceKbps s = (if st_Units s \<noteq> Units_BitrateKbps \<or> st_I s \<le> 0 then 0 else st_I s)"

definition sourceKind :: "source_tag \<Rightarrow> nat" where
  "sourceKind s =
     (if SourceIsBlob (Some s) then 0
      else if SourceScheme (Some s) \<in> {''https'', ''http'', ''file''} then 1 else 2)"

definition bitrateBucket :: "source_tag \<Rightarrow> int \<Rightarrow> nat" where
  "bitrateBucket s maxKbps =
     (let rate = sourceKbps s
      in if rate = 0 then 2 else if maxKbps > 0 \<and> rate > maxKbps then 1 else 0)"

definition sourceOutranks :: "source_tag \<Rightarrow> source_tag \<Rightarrow> int \<Rightarrow> bool" where
  "sourceOutranks cand best maxKbps =
     (let candBucket = bitrateBucket cand maxKbps; bestBucket = bitrateBucket best maxKbps
      in if candBucket \<noteq> bestBucket then candBucket < bestBucket
         else let candRate = sourceKbps cand; bestRate = sourceKbps best
              in if candRate \<noteq> bestRate \<and> candBucket = 0 then candRate > bestRate
                 else if candRate \<noteq> bestRate \<and> candBucket = 1 then candRate < bestRate
                 else sourceKind cand < sourceKind best)"

definition source_type :: "source_tag \<Rightarrow> string" where
  "source_type s = ContentType (Some (tag_leaf.truncate s))"

definition has_prefix_text :: "string \<Rightarrow> string \<Rightarrow> bool" where
  "has_prefix_text s p \<longleftrightarrow> take (length p) s = p"

fun select_loop :: "source_criteria \<Rightarrow> source_tag option \<Rightarrow> source_tag option list \<Rightarrow> source_tag option" where
  "select_loop want best [] = best"
| "select_loop want best (src # srcs) =
     (if NoUID src \<and> NoURI src then select_loop want best srcs
      else case src of
             None \<Rightarrow> select_loop want best srcs
           | Some s \<Rightarrow>
               if crit_Offline want \<and> \<not> SourceIsBlob (Some s) then select_loop want best srcs
               else if crit_ContentType want \<noteq> [] \<and>
                       \<not> has_prefix_text (source_type s) (to_lower (crit_ContentType want))
                    then select_loop want best srcs
               else if (case best of None \<Rightarrow> True | Some b \<Rightarrow> sourceOutranks s b (crit_MaxKbps want))
                    then select_loop want (Some s) srcs else select_loop want best srcs)"

definition SelectBestSource :: "source_tag option list option \<Rightarrow> source_criteria \<Rightarrow> source_tag option" where
  "SelectBestSource sources want =
     (case sources of None \<Rightarrow> None | Some subTags \<Rightarrow> select_loop want None subTags)"

section \<open>The order of sources\<close>

text \<open>Outranking compares three numbers lexicographically: the bucket, the rate in the direction the bucket
  prefers, and the kind.\<close>

definition source_key :: "int \<Rightarrow> source_tag \<Rightarrow> nat \<times> int \<times> nat" where
  "source_key maxKbps s =
     (bitrateBucket s maxKbps,
      if bitrateBucket s maxKbps = 0 then - sourceKbps s else if bitrateBucket s maxKbps = 1 then sourceKbps s else 0,
      sourceKind s)"

fun key_less :: "nat \<times> int \<times> nat \<Rightarrow> nat \<times> int \<times> nat \<Rightarrow> bool" where
  "key_less (a, b, c) (a', b', c') \<longleftrightarrow> a < a' \<or> a = a' \<and> (b < b' \<or> b = b' \<and> c < c')"

lemma outranks_key: "sourceOutranks x y m \<longleftrightarrow> key_less (source_key m x) (source_key m y)"
  by (auto simp: sourceOutranks_def source_key_def bitrateBucket_def Let_def)

lemma key_less_trans: "key_less x y \<Longrightarrow> key_less y z \<Longrightarrow> key_less x z"
  by (cases x; cases y; cases z) auto

lemma key_less_total: "\<not> key_less x y \<Longrightarrow> key_less x z \<Longrightarrow> key_less y z"
  by (cases x; cases y; cases z) auto

lemma key_less_below: "\<not> key_less x y \<Longrightarrow> key_less z y \<Longrightarrow> key_less z x"
  by (cases x; cases y; cases z) auto

lemma key_less_irrefl: "\<not> key_less x x"
  by (cases x) auto

section \<open>The best source\<close>

definition qualifies :: "source_criteria \<Rightarrow> source_tag \<Rightarrow> bool" where
  "qualifies want s \<longleftrightarrow>
     (\<not> IsNil (st_UID s) \<or> st_URI s \<noteq> []) \<and> (crit_Offline want \<longrightarrow> SourceIsBlob (Some s)) \<and>
     (crit_ContentType want \<noteq> [] \<longrightarrow> has_prefix_text (source_type s) (to_lower (crit_ContentType want)))"

definition candidates :: "source_criteria \<Rightarrow> source_tag option list \<Rightarrow> source_tag list" where
  "candidates want srcs = filter (qualifies want) (map the (filter (\<lambda>s. s \<noteq> None) srcs))"

fun best_loop :: "int \<Rightarrow> source_tag option \<Rightarrow> source_tag list \<Rightarrow> source_tag option" where
  "best_loop m best [] = best"
| "best_loop m best (s # ss) =
     best_loop m (if (case best of None \<Rightarrow> True | Some b \<Rightarrow> sourceOutranks s b m) then Some s else best) ss"

lemma select_loop_candidates: "select_loop want best srcs = best_loop (crit_MaxKbps want) best (candidates want srcs)"
  by (induction srcs arbitrary: best)
    (auto simp: candidates_def qualifies_def NoUID_def NoURI_def IsNil_def split: option.split)

definition unbeaten :: "int \<Rightarrow> source_tag list \<Rightarrow> source_tag \<Rightarrow> bool" where
  "unbeaten m qs s \<longleftrightarrow> list_all (\<lambda>q. \<not> sourceOutranks q s m) qs"

lemma find_cong_set: "(\<And>x. x \<in> set xs \<Longrightarrow> P x = Q x) \<Longrightarrow> find P xs = find Q xs"
  by (induction xs) auto

lemma best_loop_find: "best_loop m (Some b) qs = find (unbeaten m (b # qs)) (b # qs)"
proof (induction qs arbitrary: b)
  case Nil
  then show ?case by (simp add: unbeaten_def outranks_key key_less_irrefl)
next
  case (Cons q qs)
  show ?case
  proof (cases "sourceOutranks q b m")
    case True
    have "unbeaten m (b # q # qs) s = unbeaten m (q # qs) s" for s
      using True unfolding unbeaten_def outranks_key by (auto dest: key_less_trans)
    moreover have "\<not> unbeaten m (b # q # qs) b" using True by (simp add: unbeaten_def)
    ultimately have "find (unbeaten m (b # q # qs)) (b # q # qs) = find (unbeaten m (q # qs)) (q # qs)"
      by (simp cong: find_cong_set)
    then show ?thesis using True Cons by simp
  next
    case False
    have eq: "unbeaten m (b # q # qs) s = unbeaten m (b # qs) s" for s
      using False unfolding unbeaten_def outranks_key by (auto dest: key_less_total)
    show ?thesis
    proof (cases "unbeaten m (b # qs) b")
      case u: True
      then show ?thesis using False Cons eq by simp
    next
      case u: False
      then obtain q' where "q' \<in> set (b # qs)" "sourceOutranks q' b m" by (auto simp: unbeaten_def list_all_iff)
      then have "q' \<in> set (b # qs)" "sourceOutranks q' q m"
        using False unfolding outranks_key by (auto dest: key_less_below)
      then have "\<not> unbeaten m (b # qs) q" by (auto simp: unbeaten_def list_all_iff)
      then show ?thesis using False Cons eq u by simp
    qed
  qed
qed

section \<open>Properties\<close>

text \<open>C32. \<open>SelectBestSource\<close> returns the first qualifying source that no qualifying source outranks, and nil
  exactly when none qualifies: one pass over the bag finds what comparing all pairs would.\<close>

theorem SelectBestSource_best:
  "SelectBestSource (Some srcs) want
   = find (unbeaten (crit_MaxKbps want) (candidates want srcs)) (candidates want srcs)"
proof (cases "candidates want srcs")
  case (Cons q qs)
  then show ?thesis by (simp add: SelectBestSource_def select_loop_candidates best_loop_find del: find.simps)
qed (simp add: SelectBestSource_def select_loop_candidates)

section \<open>Rows land in order\<close>

lemma Upsert_appends:
  assumes "Upsert check marshal tx n a i (Some v) = (tx', Inr ())"
  obtains op ds where "Ops tx' = Ops tx @ [op]" "DataStore tx' = DataStore tx @ ds"
    "NodeID (Addr op) = n" "AttrID (Addr op) = a" "ItemID (Addr op) = i"
    "length (DataStore tx') < 2 ^ 64 \<longrightarrow> OpValueBytes tx' (int (length (Ops tx))) = marshal v"
proof -
  let ?op = "\<lparr>Addr = \<lparr>NodeID = n, AttrID = a, ItemID = i, EditID = nilUID\<rparr>, Flags = 4, Logical = 0, DataOfs = 0, DataLen = 0\<rparr>"
  obtain op where mo: "MarshalOp check marshal tx ?op (Some v) = ((tx', op), Inr ())"
    using assms unfolding Upsert_def by (auto simp: Let_def split: prod.splits)
  obtain bytes where
    "DataStore tx' = DataStore tx @ [1] @ (be64 (FromID_0 (TxHeader tx)) @ be64 (FromID_1 (TxHeader tx))) @ bytes"
    "Ops tx' = Ops tx @ [op]" "Addr op = (Addr ?op)\<lparr>EditID := TxID (TxEnvelope tx)\<rparr>"
    using MarshalOp_ok [OF mo] by metis
  then show thesis using that MarshalOp_reads_back [OF mo] by simp
qed

text \<open>\<open>row_at unmarshal tx listNode k entry entryID rank\<close>: at op \<open>k\<close> the transaction holds the entry cell of the
  identifier and next to it its rank cell, and they read back as the entry and the rank.\<close>

definition row_at ::
  "(byte list \<Rightarrow> 'e media_value outcome) \<Rightarrow> tx_msg \<Rightarrow> uid \<Rightarrow> nat \<Rightarrow> 'e option \<Rightarrow> uid \<Rightarrow> uid \<Rightarrow> bool" where
  "row_at unmarshal tx listNode k entry entryID rank \<longleftrightarrow>
     Suc k < length (Ops tx) \<and>
     (let e = Addr (Ops tx ! k); r = Addr (Ops tx ! Suc k)
      in NodeID e = listNode \<and> AttrID e = Attr_MediaEntry \<and> ItemID e = entryID
         \<and> NodeID r = listNode \<and> AttrID r = Attr_MediaRank \<and> ItemID r = entryID)
     \<and> (case entry of None \<Rightarrow> False | Some e \<Rightarrow> UnmarshalOpValue unmarshal tx (int k) = Inr (EntryValue e))
     \<and> (case UnmarshalOpValue unmarshal tx (int (Suc k)) of
          Inr (RankValue m) \<Rightarrow> RankUID (Some m) = rank | _ \<Rightarrow> False)"

lemma append_rows_lands:
  assumes "\<forall>v b. marshal v = Inr b \<longrightarrow> unmarshal b = Inr v"
    "append_rows check marshal listNode tx rows = (tx', Inr ids)" "length (DataStore tx') < 2 ^ 64"
  shows "ids = map (fst \<circ> snd) rows \<and> (\<exists>ops ds. Ops tx' = Ops tx @ ops \<and> DataStore tx' = DataStore tx @ ds)
    \<and> (\<forall>i < length rows. row_at unmarshal tx' listNode (length (Ops tx) + 2 * i) (fst (rows ! i))
          (fst (snd (rows ! i))) (snd (snd (rows ! i))))"
  using assms(2)
proof (induction rows arbitrary: tx ids)
  case (Cons row rows)
  obtain entry entryID rank where row: "row = (entry, entryID, rank)" by (cases row) auto
  obtain tx1 where w1: "WriteMediaEntry check marshal tx listNode entryID entry = (tx1, Inr ())"
    using Cons.prems by (auto simp: row split: prod.splits sum.splits)
  then obtain tx2 where w2: "WriteMediaRank check marshal tx1 listNode entryID rank = (tx2, Inr ())"
    using Cons.prems by (auto simp: row split: prod.splits sum.splits)
  obtain ids' where rest: "append_rows check marshal listNode tx2 rows = (tx', Inr ids')" "ids = entryID # ids'"
    using Cons.prems w1 w2 by (auto simp: row and_then_eq_Inr split: prod.splits)
  note IH = Cons.IH [OF rest(1)]
  then obtain ops ds where more: "Ops tx' = Ops tx2 @ ops" "DataStore tx' = DataStore tx2 @ ds" by blast
  obtain e where e: "entry = Some e" using w1 by (cases entry) (simp_all add: WriteMediaEntry_def)
  have u1: "Upsert check marshal tx listNode Attr_MediaEntry entryID (Some (EntryValue e)) = (tx1, Inr ())"
    using w1 by (simp add: WriteMediaEntry_def e)
  have u2: "Upsert check marshal tx1 listNode Attr_MediaRank entryID (Some (RankValue (MediaRankOf rank))) = (tx2, Inr ())"
    using w2 by (simp add: WriteMediaRank_def)
  obtain op1 d1 where o1: "Ops tx1 = Ops tx @ [op1]" "DataStore tx1 = DataStore tx @ d1"
      "NodeID (Addr op1) = listNode" "AttrID (Addr op1) = Attr_MediaEntry" "ItemID (Addr op1) = entryID"
      "length (DataStore tx1) < 2 ^ 64 \<longrightarrow> OpValueBytes tx1 (int (length (Ops tx))) = marshal (EntryValue e)"
    by (rule Upsert_appends [OF u1])
  obtain op2 d2 where o2: "Ops tx2 = Ops tx1 @ [op2]" "DataStore tx2 = DataStore tx1 @ d2"
      "NodeID (Addr op2) = listNode" "AttrID (Addr op2) = Attr_MediaRank" "ItemID (Addr op2) = entryID"
      "length (DataStore tx2) < 2 ^ 64 \<longrightarrow> OpValueBytes tx2 (int (length (Ops tx1))) = marshal (RankValue (MediaRankOf rank))"
    by (rule Upsert_appends [OF u2])
  have len: "length (DataStore tx2) < 2 ^ 64" "length (DataStore tx1) < 2 ^ 64" using assms(3) more(2) o2(2) by simp_all
  note grow = OpValueBytes_grow [OF _ more]
  obtain b1 b2 where b: "marshal (EntryValue e) = Inr b1" "marshal (RankValue (MediaRankOf rank)) = Inr b2"
    using u1 u2 by (auto simp: Upsert_def MarshalOp_def Let_def and_then_def split: sum.splits prod.splits)
  have "OpValueBytes tx2 (int (length (Ops tx))) = Inr b1"
    by (rule OpValueBytes_grow [OF _ o2(1,2)]) (use o1(6) len b in simp)
  then have "OpValueBytes tx' (int (length (Ops tx))) = Inr b1" by (rule grow)
  moreover have "OpValueBytes tx' (int (length (Ops tx1))) = Inr b2" by (rule grow) (use o2(6) len b in simp)
  ultimately have "UnmarshalOpValue unmarshal tx' (int (length (Ops tx))) = Inr (EntryValue e)"
    "UnmarshalOpValue unmarshal tx' (int (Suc (length (Ops tx)))) = Inr (RankValue (MediaRankOf rank))"
    using assms(1) b o1(1) by (simp_all add: UnmarshalOpValue_def)
  then have first: "row_at unmarshal tx' listNode (length (Ops tx)) entry entryID rank"
    using o1 o2 more e by (simp add: row_at_def nth_append RankUID_def MediaRankOf_def)
  have "row_at unmarshal tx' listNode (length (Ops tx) + 2 * i) (fst ((row # rows) ! i))
      (fst (snd ((row # rows) ! i))) (snd (snd ((row # rows) ! i)))"
    if i: "i < length (row # rows)" for i
  proof (cases i)
    case 0
    then show ?thesis using first by (simp add: row)
  next
    case (Suc j)
    then have "row_at unmarshal tx' listNode (length (Ops tx2) + 2 * j) (fst (rows ! j)) (fst (snd (rows ! j)))
        (snd (snd (rows ! j)))"
      using IH i by simp
    moreover have "length (Ops tx2) + 2 * j = length (Ops tx) + 2 * i" using o1(1) o2(1) Suc by simp
    ultimately show ?thesis using Suc by simp
  qed
  then show ?case using IH rest(2) row o1 o2 more by auto
qed simp

text \<open>C35. A bulk append lands in slice order: for every row, in the order of the slice, the transaction holds the
  entry of that row and its rank under the identifier minted for it, both read back as written, and the
  ranks increase strictly from after the given rank, however many identifiers share a clock tick.\<close>

theorem AppendMediaEntries_in_order:
  assumes "AppendMediaEntries check marshal tx listNode afterRank entries nows seeds = Some (tx', Inr ids)"
    and "\<forall>v b. marshal v = Inr b \<longrightarrow> unmarshal b = Inr v"
    and "length nows = length entries" "length entries < 2 ^ 63" "length (DataStore tx') < 2 ^ 64"
  shows "\<exists>ranks. ids = nows \<and> length ranks = length entries \<and> sorted_wrt (<) (afterRank # ranks)
    \<and> (\<forall>i < length entries. row_at unmarshal tx' listNode (length (Ops tx) + 2 * i) (entries ! i) (nows ! i) (ranks ! i))"
proof -
  obtain ranks where r: "RanksAcross afterRank RankCeil (int (length entries)) seeds = Some (ranks, True)"
      "append_rows check marshal listNode tx (zip entries (zip nows ranks)) = (tx', Inr ids)"
    using assms(1) by (auto simp: AppendMediaEntries_def split: option.splits prod.splits if_splits)
  have rk: "length ranks = length entries \<and> sorted_wrt (<) (afterRank # ranks)"
  proof (cases "entries = []")
    case True
    then show ?thesis using r(1) by (simp add: RanksAcross_def)
  next
    case False
    then have pos: "0 < int (length entries)" "int (length entries) < 2 ^ 63" using assms(4) by simp_all
    from RanksAcross_ranks [OF r(1) pos] show ?thesis by (simp add: sorted_wrt_append)
  qed
  note L = append_rows_lands [OF assms(2) r(2) assms(5)]
  have "map (fst \<circ> snd) (zip entries (zip nows ranks)) = nows"
    using rk assms(3) by (simp add: map_zip_map2 [symmetric] map_snd_zip map_fst_zip flip: map_map)
  then show ?thesis using L rk assms(3) by (intro exI [of _ ranks]) simp
qed

text \<open>A codec for entries of one byte.\<close>

definition row_marshal :: "byte media_value \<Rightarrow> byte list outcome" where
  "row_marshal v = (case v of EntryValue e \<Rightarrow> Inr [0, e] | RankValue m \<Rightarrow> Inr (1 # be64 (Rank_0 m) @ be64 (Rank_1 m)))"

definition row_unmarshal :: "byte list \<Rightarrow> byte media_value outcome" where
  "row_unmarshal b =
     (if hd b = 0 then Inr (EntryValue (b ! 1))
      else Inr (RankValue \<lparr>Rank_0 = rd64 (take 8 (tl b)), Rank_1 = rd64 (take 8 (drop 8 (tl b)))\<rparr>))"

lemma row_codec: "\<forall>v b. row_marshal v = Inr b \<longrightarrow> row_unmarshal b = Inr v"
  by (auto simp: row_marshal_def row_unmarshal_def split: media_value.splits)

theorem AppendMediaEntries_in_order_witness:
  "\<exists>tx' ranks. AppendMediaEntries (\<lambda>_. Inr ()) row_marshal TxNew (UID 1 1) (UID 0 0) [Some 5] [UID 0 9] [seed_of (UID 0 0)]
      = Some (tx', Inr [UID 0 9])
    \<and> length ranks = 1 \<and> sorted_wrt (<) (UID 0 0 # ranks)
    \<and> row_at row_unmarshal tx' (UID 1 1) 0 (Some 5) (UID 0 9) (ranks ! 0)"
proof -
  let ?st = "UID 0x7FFFFFFFFFFFFFFF 0xFFFFFFFFFFFFFFF8"
  have "UID 0 0 < ?st" by (simp add: less_uid_iff uval_def)
  then have "randBelow ?st (seed_of (UID 0 0) # s) = Some (UID 0 0, s)" for s using randBelow_reach by blast
  moreover have "divScalar RankCeil 2 = Some ?st"
    by (simp add: divScalar_def div64_def RankCeil_def UID_0_Max_def UID_1_Max_def) (simp add: word_le_nat_alt)
  ultimately obtain ranks where r: "RanksAcross (UID 0 0) RankCeil 1 [seed_of (UID 0 0)] = Some (ranks, True)" "length ranks = 1"
    by (simp add: RanksAcross_def RankCeil_def UID_0_Max_def UID_1_Max_def UID_Subtract_def sub64_def CompareTo_def)
  then obtain rank where "ranks = [rank]" by (cases ranks) auto
  with r obtain tx' where a: "AppendMediaEntries (\<lambda>_. Inr ()) row_marshal TxNew (UID 1 1) (UID 0 0) [Some 5] [UID 0 9] [seed_of (UID 0 0)]
      = Some (tx', Inr [UID 0 9])" "length (DataStore tx') < 2 ^ 64"
    by (simp add: AppendMediaEntries_def WriteMediaEntry_def WriteMediaRank_def Upsert_def MarshalOp_def Let_def
        row_marshal_def TxNew_def)
  from AppendMediaEntries_in_order [OF a(1) row_codec _ _ a(2)] show ?thesis
    using a(1) by (auto simp: TxNew_def)
qed

end
