(* ===== verification/Data.thy ===== *)
theory Data
  imports Uid
begin

text \<open>
  Small helpers of \<open>stdlib/data\<close>: the byte-keyed map of \<open>map.go\<close>, an open-addressing table over a 64-bit
  hash, the stable hash of \<open>hash.go\<close>, the segment times and boundary policy of \<open>recording.go\<close>,
  the zig-zag coding and the clearing of buffers of \<open>util.go\<close>.  The hash of
  the map is the library's, seeded per process: a parameter.
\<close>

section \<open>The map\<close>

type_synonym 'e buf_map = "u64 \<rightharpoonup> 'e"

definition NewBufMap :: "'e buf_map" where "NewBufMap = Map.empty"

text \<open>The probe of \<open>get\<close>: the entry found, if any, and the slot where it stops; \<open>None\<close> is a full table
  without the key, where it would not stop.\<close>

partial_function (option) buf_probe ::
  "('e \<Rightarrow> byte list) \<Rightarrow> 'e buf_map \<Rightarrow> byte list \<Rightarrow> u64 \<Rightarrow> ('e option \<times> u64) option" where
  "buf_probe mapKey m key atHash =
     (case m atHash of
        None \<Rightarrow> Some (None, atHash)
      | Some e \<Rightarrow> if mapKey e = key then Some (Some e, atHash) else buf_probe mapKey m key (atHash + 1))"

definition buf_get ::
  "(byte list \<Rightarrow> u64) \<Rightarrow> ('e \<Rightarrow> byte list) \<Rightarrow> 'e buf_map \<Rightarrow> byte list \<Rightarrow> ('e option \<times> u64) option" where
  "buf_get H mapKey m key = buf_probe mapKey m key (H key)"

definition buf_Get :: "(byte list \<Rightarrow> u64) \<Rightarrow> ('e \<Rightarrow> byte list) \<Rightarrow> 'e buf_map \<Rightarrow> byte list \<Rightarrow> 'e option option" where
  "buf_Get H mapKey m key = map_option fst (buf_get H mapKey m key)"

definition buf_Put ::
  "(byte list \<Rightarrow> u64) \<Rightarrow> ('e \<Rightarrow> byte list) \<Rightarrow> 'e \<Rightarrow> 'e buf_map \<Rightarrow> ('e buf_map \<times> 'e option) option" where
  "buf_Put H mapKey entry m =
     map_option (\<lambda>(existing, atHash). (m(atHash \<mapsto> entry), existing)) (buf_get H mapKey m (mapKey entry))"

definition buf_Remove ::
  "(byte list \<Rightarrow> u64) \<Rightarrow> ('e \<Rightarrow> byte list) \<Rightarrow> byte list \<Rightarrow> 'e buf_map \<Rightarrow> ('e buf_map \<times> 'e option) option" where
  "buf_Remove H mapKey key m =
     map_option (\<lambda>(existing, atHash). (if existing \<noteq> None then m(atHash := None) else m, existing))
       (buf_get H mapKey m key)"

text \<open>Every entry is reached from its hash over occupied slots of other keys.\<close>

definition chained :: "(byte list \<Rightarrow> u64) \<Rightarrow> ('e \<Rightarrow> byte list) \<Rightarrow> 'e buf_map \<Rightarrow> bool" where
  "chained H mapKey m \<longleftrightarrow>
     (\<forall>h e. m h = Some e \<longrightarrow>
        (\<forall>i < unat (h - H (mapKey e)). \<exists>e'. m (H (mapKey e) + word_of_nat i) = Some e' \<and> mapKey e' \<noteq> mapKey e))"

definition probed :: "(byte list \<Rightarrow> u64) \<Rightarrow> ('e \<Rightarrow> byte list) \<Rightarrow> 'e buf_map \<Rightarrow> byte list \<Rightarrow> nat \<Rightarrow> bool" where
  "probed H mapKey m key n \<longleftrightarrow> (\<forall>i < n. \<exists>e. m (H key + word_of_nat i) = Some e \<and> mapKey e \<noteq> key)"

lemma buf_probe_steps:
  "\<forall>i < n. \<exists>e. m (h + word_of_nat i) = Some e \<and> mapKey e \<noteq> key \<Longrightarrow>
   (case m (h + word_of_nat n) of None \<Rightarrow> True | Some e \<Rightarrow> mapKey e = key) \<Longrightarrow>
   buf_probe mapKey m key h = Some (m (h + word_of_nat n), h + word_of_nat n)"
proof (induction n arbitrary: h)
  case 0
  then show ?case by (subst buf_probe.simps) (auto split: option.splits)
next
  case (Suc n)
  have "\<exists>e. m h = Some e \<and> mapKey e \<noteq> key" using Suc.prems(1) [rule_format, of 0] by simp
  then have p: "buf_probe mapKey m key h = buf_probe mapKey m key (h + 1)" by (subst buf_probe.simps) auto
  have s: "h + 1 + word_of_nat i = h + word_of_nat (Suc i)" for i by simp
  have "buf_probe mapKey m key (h + 1) = Some (m (h + 1 + word_of_nat n), h + 1 + word_of_nat n)"
    by (rule Suc.IH) (unfold s, use Suc.prems in auto)
  then show ?case by (simp only: p s)
qed

lemma buf_free:
  fixes m :: "'e buf_map"
  assumes "card (dom m) < 2 ^ 64"
  shows "\<exists>n < 2 ^ 64. m (h + word_of_nat n) = None"
proof -
  have "dom m \<noteq> UNIV"
  proof
    assume "dom m = UNIV"
    then have "card (dom m) = card (UNIV :: u64 set)" by simp
    with assms show False by (simp add: card_word)
  qed
  then obtain x where x: "m x = None" by auto
  have "unat (x - h) < 2 ^ 64" using unsigned_less [of "x - h", where ?'a = nat] by simp
  then show ?thesis using x by (intro exI [of _ "unat (x - h)"]) simp
qed

text \<open>\<open>get\<close> stops at the entry of the key if there is one and at a free slot otherwise.\<close>

lemma buf_get_spec:
  assumes "chained H mapKey m" "card (dom m) < 2 ^ 64"
  obtains n where "buf_get H mapKey m key = Some (m (H key + word_of_nat n), H key + word_of_nat n)" "n < 2 ^ 64"
    "probed H mapKey m key n" "\<forall>e. m (H key + word_of_nat n) = Some e \<longrightarrow> mapKey e = key"
    "\<forall>h e. m h = Some e \<longrightarrow> mapKey e = key \<longrightarrow> h = H key + word_of_nat n"
proof -
  let ?at = "\<lambda>n. m (H key + word_of_nat n)"
  let ?stop = "\<lambda>n. case ?at n of None \<Rightarrow> True | Some e \<Rightarrow> mapKey e = key"
  obtain f where f: "f < 2 ^ 64" "?at f = None" using buf_free [OF assms(2)] by blast
  define n where "n = (LEAST n. ?stop n)"
  have st: "?stop n" unfolding n_def by (rule LeastI [of _ f]) (simp add: f(2))
  have "n \<le> f" unfolding n_def by (rule Least_le) (simp add: f(2))
  then have n64: "n < 2 ^ 64" using f(1) by simp
  have pr: "probed H mapKey m key n"
    unfolding probed_def
  proof (intro allI impI)
    fix i assume "i < n"
    then have "\<not> ?stop i" unfolding n_def by (rule not_less_Least)
    then show "\<exists>e. ?at i = Some e \<and> mapKey e \<noteq> key" by (auto split: option.splits)
  qed
  have get: "buf_get H mapKey m key = Some (?at n, H key + word_of_nat n)"
    unfolding buf_get_def using pr st by (intro buf_probe_steps) (simp_all add: probed_def)
  have own: "h = H key + word_of_nat n" if e: "m h = Some e" "mapKey e = key" for h e
  proof -
    let ?j = "unat (h - H key)"
    have at: "H key + word_of_nat ?j = h" by simp
    have "?j = n"
    proof (rule ccontr)
      assume "?j \<noteq> n"
      then consider "n < ?j" | "?j < n" by linarith
      then show False
      proof cases
        case 1
        then have "\<exists>e'. ?at n = Some e' \<and> mapKey e' \<noteq> key" using assms(1) e unfolding chained_def by blast
        then show False using st by auto
      next
        case 2
        then have "\<exists>e'. m h = Some e' \<and> mapKey e' \<noteq> key" using pr at unfolding probed_def by metis
        then show False using e by simp
      qed
    qed
    then show ?thesis using at by simp
  qed
  show thesis by (rule that [OF get n64 pr]) (use st own in auto)
qed

text \<open>C33. A table into which entries are put is a map: the put returns the entry that was there, the key then
  finds the new one, and every other key finds what it found before, whatever the hashes collide.\<close>

theorem BufMap_put_get:
  assumes "chained H mapKey m" "finite (dom m)" "card (dom m) < 2 ^ 64 - 1"
  shows "\<exists>m' old. buf_Put H mapKey entry m = Some (m', old) \<and> chained H mapKey m'
    \<and> buf_Get H mapKey m (mapKey entry) = Some old
    \<and> (\<forall>k. buf_Get H mapKey m' k = (if k = mapKey entry then Some (Some entry) else buf_Get H mapKey m k))"
proof -
  let ?k = "mapKey entry"
  have c: "card (dom m) < 2 ^ 64" using assms(3) by simp
  obtain n where n: "buf_get H mapKey m ?k = Some (m (H ?k + word_of_nat n), H ?k + word_of_nat n)" "n < 2 ^ 64"
      "probed H mapKey m ?k n" "\<forall>e. m (H ?k + word_of_nat n) = Some e \<longrightarrow> mapKey e = ?k"
      "\<forall>h e. m h = Some e \<longrightarrow> mapKey e = ?k \<longrightarrow> h = H ?k + word_of_nat n"
    by (rule buf_get_spec [where key = ?k, OF assms(1) c])
  let ?h = "H ?k + word_of_nat n" and ?m = "m(H ?k + word_of_nat n \<mapsto> entry)"
  have keeps: "\<exists>e'. ?m x = Some e' \<and> mapKey e' \<noteq> key" if "m x = Some e1" "mapKey e1 \<noteq> key" "key \<noteq> ?k" for x e1 key
    using that by (cases "x = ?h") auto
  have ch: "chained H mapKey ?m"
    unfolding chained_def
  proof (intro allI impI)
    fix h e i assume e: "?m h = Some e" and i: "i < unat (h - H (mapKey e))"
    show "\<exists>e'. ?m (H (mapKey e) + word_of_nat i) = Some e' \<and> mapKey e' \<noteq> mapKey e"
    proof (cases "h = ?h")
      case True
      then have "e = entry" "unat (h - H ?k) = n" using e n(2) by (simp_all add: unat_of_nat)
      then obtain e' where "m (H ?k + word_of_nat i) = Some e'" "mapKey e' \<noteq> ?k" "i < n"
        using n(3) i unfolding probed_def by auto
      moreover have "H ?k + word_of_nat i \<noteq> ?h"
        using n(4) \<open>m (H ?k + word_of_nat i) = Some e'\<close> \<open>mapKey e' \<noteq> ?k\<close> by metis
      ultimately show ?thesis using \<open>e = entry\<close> by simp
    next
      case False
      then have m: "m h = Some e" using e by simp
      have "mapKey e \<noteq> ?k" using n(5) m False by blast
      moreover obtain e1 where "m (H (mapKey e) + word_of_nat i) = Some e1" "mapKey e1 \<noteq> mapKey e"
        using assms(1) m i unfolding chained_def by blast
      ultimately show ?thesis using keeps by blast
    qed
  qed
  have "card (dom ?m) \<le> Suc (card (dom m))" using assms(2) by (simp add: card_insert_if)
  then have c': "card (dom ?m) < 2 ^ 64" using assms(3) by simp
  have get: "buf_Get H mapKey ?m k = (if k = ?k then Some (Some entry) else buf_Get H mapKey m k)" for k
  proof -
    obtain a where a: "buf_get H mapKey m k = Some (m (H k + word_of_nat a), H k + word_of_nat a)"
        "\<forall>e. m (H k + word_of_nat a) = Some e \<longrightarrow> mapKey e = k" "\<forall>h e. m h = Some e \<longrightarrow> mapKey e = k \<longrightarrow> h = H k + word_of_nat a"
      by (rule buf_get_spec [where key = k, OF assms(1) c])
    obtain b where b: "buf_get H mapKey ?m k = Some (?m (H k + word_of_nat b), H k + word_of_nat b)"
        "\<forall>e. ?m (H k + word_of_nat b) = Some e \<longrightarrow> mapKey e = k" "\<forall>h e. ?m h = Some e \<longrightarrow> mapKey e = k \<longrightarrow> h = H k + word_of_nat b"
      by (rule buf_get_spec [where key = k, OF ch c'])
    show ?thesis
    proof (cases "k = ?k")
      case True
      have "?m ?h = Some entry" by (rule fun_upd_same)
      then have at: "?h = H k + word_of_nat b" using b(3) True by blast
      have "buf_get H mapKey ?m k = Some (?m ?h, ?h)" using b(1) unfolding at .
      then show ?thesis unfolding buf_Get_def by (simp only: True option.map fst_conv fun_upd_same refl if_True)
    next
      case False
      have "?m (H k + word_of_nat b) = m (H k + word_of_nat a)"
      proof (cases "m (H k + word_of_nat a)")
        case None
        have "?m (H k + word_of_nat b) = None"
        proof (rule ccontr)
          assume "?m (H k + word_of_nat b) \<noteq> None"
          then obtain e where e: "?m (H k + word_of_nat b) = Some e" by blast
          have "mapKey e = k" using b(2) e by blast
          have "H k + word_of_nat b \<noteq> ?h"
          proof
            assume "H k + word_of_nat b = ?h"
            then have "e = entry" using e by (simp only: fun_upd_same option.inject)
            then show False using \<open>mapKey e = k\<close> False by blast
          qed
          then have "m (H k + word_of_nat b) = Some e" using e by (metis fun_upd_other)
          then have "H k + word_of_nat b = H k + word_of_nat a" using a(3) \<open>mapKey e = k\<close> by blast
          then show False using \<open>m (H k + word_of_nat b) = Some e\<close> None by (simp only: option.distinct)
        qed
        then show ?thesis using None by simp
      next
        case (Some e)
        have k: "mapKey e = k" using a(2) Some by blast
        have "H k + word_of_nat a \<noteq> ?h" using n(4) Some k False by metis
        then have "?m (H k + word_of_nat a) = Some e" using Some by (metis fun_upd_other)
        then have "H k + word_of_nat a = H k + word_of_nat b" using b(3) k by blast
        then show ?thesis using \<open>?m (H k + word_of_nat a) = Some e\<close> Some by (simp only:)
      qed
      then show ?thesis using a(1) b(1) False by (simp only: buf_Get_def option.map fst_conv if_False)
    qed
  qed
  show ?thesis
    using n(1) ch get by (intro exI [of _ ?m] exI [of _ "m ?h"]) (simp add: buf_Put_def buf_Get_def)
qed

theorem BufMap_put_get_witness:
  "\<exists>m' old. buf_Put (\<lambda>_. 5) fst ([1], True) NewBufMap = Some (m', old) \<and> chained (\<lambda>_. 5) fst m'
    \<and> buf_Get (\<lambda>_. 5) fst NewBufMap (fst ([1 :: byte], True)) = Some old
    \<and> (\<forall>k. buf_Get (\<lambda>_. 5) fst m' k = (if k = fst ([1], True) then Some (Some ([1], True)) else buf_Get (\<lambda>_. 5) fst NewBufMap k))"
  by (rule BufMap_put_get) (simp_all add: NewBufMap_def chained_def)

text \<open>Removing an entry leaves a hole in the chains that run over it: an entry put behind it is lost, and
  putting it again adds a second one.\<close>

definition five :: "byte list \<Rightarrow> u64" where "five key = 5"

lemma BufMap_remove_loses:
  "(case buf_Put five fst ([1], True) NewBufMap of Some (m1, _) \<Rightarrow>
   (case buf_Put five fst ([2], True) m1 of Some (m2, _) \<Rightarrow>
   (case buf_Remove five fst [1] m2 of Some (m3, _) \<Rightarrow>
      (buf_Get five fst m2 [2], buf_Get five fst m3 [2], m3 6)))) = (Some (Some ([2], True)), Some None, Some ([2], True))"
  by (auto simp: buf_Put_def buf_Remove_def buf_Get_def buf_get_def five_def NewBufMap_def buf_probe.simps)

section \<open>The stable hash\<close>

fun ap_loop :: "nat \<Rightarrow> byte list \<Rightarrow> u64 \<Rightarrow> u64" where
  "ap_loop i [] h = h"
| "ap_loop i (b # bs) h =
     ap_loop (Suc i) bs
       (if even i then h XOR (push_bit 7 h XOR ucast b XOR drop_bit 3 h)
        else h XOR (NOT (push_bit 11 h XOR ucast b XOR drop_bit 5 h) + 1))"

definition APHash64 :: "byte list \<Rightarrow> u64" where
  "APHash64 buf = ap_loop 0 buf 0xaaaaaaaaaaaaaaaa"

section \<open>Segment times\<close>

text \<open>An \<open>int64\<close> computation is wrapped by \<open>go_int\<close>; Go's division truncates, which on the ticks that
  occur, non-negative ones, is \<open>div\<close>.\<close>

definition quot :: "int \<Rightarrow> int \<Rightarrow> int" where
  "quot a b = sgn a * sgn b * (\<bar>a\<bar> div \<bar>b\<bar>)"

definition rem64 :: "int \<Rightarrow> int \<Rightarrow> int" where
  "rem64 a b = sgn a * (\<bar>a\<bar> mod \<bar>b\<bar>)"

definition Second :: int where "Second = 1000000000"

definition ticksToDuration :: "int \<Rightarrow> int \<Rightarrow> int" where
  "ticksToDuration ticks rate =
     (if rate \<le> 0 then 0
      else let whole = go_int (quot ticks rate * Second);
               frac = quot (go_int (rem64 ticks rate * Second)) rate
           in go_int (whole + frac))"

record segment_times =
  TickOffset :: int
  TickDelta :: int
  TickRate :: int
  SegBytes :: int

definition seg_Duration :: "segment_times \<Rightarrow> int" where
  "seg_Duration s = ticksToDuration (TickDelta s) (TickRate s)"

definition seg_StartTime :: "segment_times \<Rightarrow> int" where
  "seg_StartTime s = ticksToDuration (TickOffset s) (TickRate s)"

definition IntervalCut :: "int \<Rightarrow> int \<Rightarrow> segment_times \<Rightarrow> bool" where
  "IntervalCut maxDuration maxBytes state \<longleftrightarrow>
     (maxDuration > 0 \<and> seg_Duration state \<ge> maxDuration) \<or> (maxBytes > 0 \<and> SegBytes state \<ge> maxBytes)"

section \<open>Times are exact\<close>

text \<open>The split into whole seconds and a rest keeps the product inside 64 bits: for every rate up to nine
  gigahertz the duration is the exact quotient rounded down, as long as the result is a duration.\<close>

lemma ticksToDuration_exact:
  assumes "0 \<le> ticks" "0 < rate" "rate \<le> 9 * 10 ^ 9" "ticks * Second div rate < 2 ^ 63"
  shows "ticksToDuration ticks rate = ticks * Second div rate"
proof -
  let ?w = "ticks div rate" and ?r = "ticks mod rate"
  have r: "0 \<le> ?r" "?r < rate" using assms(2) by simp_all
  have split: "ticks * Second = ?r * Second + ?w * Second * rate"
    using arg_cong [OF div_mult_mod_eq [of ticks rate], of "\<lambda>t. t * Second"] by (simp only: distrib_right distrib_left ac_simps)
  have whole: "ticks * Second div rate = ?w * Second + ?r * Second div rate"
    unfolding split using assms(2) by simp
  have w: "0 \<le> ?w * Second" using assms(1,2) by (simp add: Second_def pos_imp_zdiv_nonneg_iff)
  have f: "0 \<le> ?r * Second div rate" using r assms(2) by (simp add: Second_def pos_imp_zdiv_nonneg_iff)
  have "?r * Second < 9 * 10 ^ 9 * Second" using r(2) assms(3) by (simp add: Second_def)
  then have "go_int (?r * Second) = ?r * Second" using r by (intro go_int_pos) (simp_all add: Second_def)
  moreover have "quot ticks rate = ?w" "rem64 ticks rate = ?r"
    using assms(1,2) by (auto simp: quot_def rem64_def sgn_if)
  moreover have "quot (?r * Second) rate = ?r * Second div rate"
    using r assms(2) by (auto simp: quot_def sgn_if Second_def)
  moreover have "go_int (?w * Second) = ?w * Second" using w f whole assms(4) by (intro go_int_pos) simp_all
  moreover have "go_int (?w * Second + ?r * Second div rate) = ?w * Second + ?r * Second div rate"
    using w f whole assms(4) by (intro go_int_pos) simp_all
  ultimately show ?thesis using assms(2) whole by (simp add: ticksToDuration_def Let_def)
qed

text \<open>Above that rate the rest overflows: half a second at twenty gigahertz comes out negative.\<close>

lemma ticksToDuration_overflows: "ticksToDuration 10000000000 20000000000 < 0"
  by code_simp

section \<open>Integers and buffers\<close>

text \<open>The zig-zag coding of \<open>util.go\<close>; an \<open>int64\<close> is its bit pattern.\<close>

definition ToZigZag :: "u64 \<Rightarrow> u64" where
  "ToZigZag x = (let ux = push_bit 1 x in if sint x < 0 then NOT ux else ux)"

definition FromZigZag :: "u64 \<Rightarrow> u64" where
  "FromZigZag ux = (let x = drop_bit 1 ux in if ux AND 1 \<noteq> 0 then NOT x else x)"

lemma zigzag_bits: "bit (ToZigZag x) n \<longleftrightarrow> n < 64 \<and> (bit x 63 \<noteq> (0 < n \<and> bit x (n - 1)))"
proof -
  have "sint x < 0 \<longleftrightarrow> bit x 63" using bit_last_iff [of x] by simp
  moreover have "bit (push_bit 1 x) n \<longleftrightarrow> n < 64 \<and> 0 < n \<and> bit x (n - 1)"
    by (auto simp: bit_push_bit_iff simp del: push_bit_Suc)
  moreover have "bit (NOT (push_bit 1 x)) n \<longleftrightarrow> n < 64 \<and> \<not> bit (push_bit 1 x) n"
    by (simp add: bit_not_iff)
  ultimately show ?thesis by (auto simp: ToZigZag_def Let_def)
qed

lemma zigzag_roundtrip: "FromZigZag (ToZigZag x) = x"
proof (rule bit_word_eqI)
  fix n assume n: "n < LENGTH(64)"
  let ?z = "ToZigZag x"
  have "?z AND 1 \<noteq> 0 \<longleftrightarrow> bit ?z 0" by (simp add: and_one_eq bit_0 odd_iff_mod_2_eq_one)
  then have odd: "?z AND 1 \<noteq> 0 \<longleftrightarrow> bit x 63" by (simp add: zigzag_bits)
  have "bit (drop_bit 1 ?z) n \<longleftrightarrow> n < 63 \<and> (bit x 63 \<noteq> bit x n)"
    by (simp add: bit_drop_bit_eq zigzag_bits)
  moreover have "n = 63" if "\<not> n < 63" using that n by simp
  moreover have "bit (NOT (drop_bit 1 ?z)) n \<longleftrightarrow> \<not> bit (drop_bit 1 ?z) n" using n by (simp add: bit_not_iff)
  ultimately show "bit (FromZigZag ?z) n = bit x n" unfolding FromZigZag_def Let_def odd by auto
qed

text \<open>\<open>Zero\<close> counts in an \<open>int32\<close>.\<close>

definition zero_count :: "nat \<Rightarrow> nat" where
  "zero_count len = nat (sint (word_of_nat len :: 32 word))"

definition Zero :: "byte list \<Rightarrow> byte list" where
  "Zero buf = (let N = zero_count (length buf) in replicate N 0 @ drop N buf)"

lemma Zero_short:
  assumes "length buf < 2 ^ 31"
  shows "Zero buf = replicate (length buf) 0"
  using assms by (simp add: Zero_def zero_count_def signed_of_nat signed_take_bit_int_eq_self Let_def)

text \<open>A buffer of two gigabytes is left as it is.\<close>

lemma Zero_long: "length buf = 2 ^ 31 \<Longrightarrow> Zero buf = buf"
  by (simp add: Zero_def zero_count_def)

end
