(* ===== verification/Spec2Isabelle.thy ===== *)
theory Spec2Isabelle
  imports UidTime TagName Rank Address TxMsg TxWire Epoch MemberMerge Quorum Access TagTree EpochKeys Enclave TaskCtx BlobMeta Selector Locus Registry Phrase SymbolTable Link Pins MediaStream Playlist Data
begin

text \<open>
  Verification library for the Go code of the amp SDK: the message and identity layer (\<open>src/amp\<close>), the app support
  classes (\<open>src/amp/std\<close>, \<open>src/amp/link\<close>) and the standard library under them (\<open>src/stdlib\<close>).

  \<^bold>\<open>The program.\<close>  State in amp is a set of attribute values addressed by (node, attribute, item, edit), each a
  128-bit \<open>tag.UID\<close>.  A client writes ops into a transaction (\<open>amp.TxMsg\<close>), which is normalized, serialized with
  delta-compressed ops, encrypted under the key of its planet's current epoch, signed, and sent.  A receiver opens
  it and feeds it to bindings, which fold the ops into caches, last writer wins by edit identifier or through a
  merger.  Who may sign and read follows from epochs (a hash-linked chain of charter and terms), from member records and from
  the access grants of channels.  Keys live in an enclave and in a store of epoch keys, both sealed at rest by a file
  guard.  Blobs travel in chunks that are checked against a manifest whose root is committed to by a reference.
  Apps run in a tree of task contexts that close from the leaves up.

  \<^bold>\<open>Conventions.\<close>  A definition has the name of the Go function it translates, with a prefix or suffix where the name
  is taken (\<open>stream_Read\<close>, \<open>UID_Add\<close>, \<open>locus_Bind\<close>).  A call that may fail or panic returns \<open>'a outcome\<close>,
  that is \<open>fault + 'a\<close>; \<open>Inl Panic\<close> is a panic.  Sized integers are words; an \<open>int\<close> or \<open>int64\<close> is an HOL
  \<open>int\<close> with \<open>go_int\<close> after every computation that may leave 64 bits.  State is passed explicitly; a loop that
  may not end, or a call that waits for events, returns an option, \<open>None\<close> meaning that it has not returned.
  Random bytes and clock readings are arguments.  Mutex-protected methods are atomic steps; where the code releases a
  lock in between, the steps are separate (\<open>SymbolTable\<close>, \<open>TaskCtx\<close>).

  \<^bold>\<open>Theories.\<close>

  \<^item> \<open>Prelude\<close>: bytes, words, \<open>go_int\<close>, \<open>outcome\<close>, big-endian codecs, \<open>sort.Search\<close>.  \<open>Chunks\<close>: cutting
    lists into blocks.  \<open>Converge\<close>: the contracts \<open>convergent\<close> and \<open>absorbing\<close> of a fold over deliveries and the
    abstract last-writer-wins store that the bindings are compared with.

  \<^item> \<open>Uid\<close>, \<open>UidTime\<close>, \<open>Base32\<close>, \<open>TagName\<close> (\<open>stdlib/tag/tag.id.go\<close>): order and arithmetic of
    identifiers, time identifiers, text forms, canonization and hashing of tag expressions.  \<open>Rank\<close>
    (\<open>stdlib/tag/rank.go\<close>): fractional ranks.  \<open>Address\<close> (\<open>stdlib/tag/tag.address.go\<close>): addresses and the keys
    whose byte order is the order of addresses, through the contract \<open>ordered_key\<close>.

  \<^item> \<open>TxOps\<close>, \<open>TxMsg\<close>, \<open>TxWire\<close> (\<open>amp/amp.support.tx.go\<close>): the ops section on the wire; the transaction in
    memory with authoring, normalization and lookup; sealing, signature boundary and opening.  Sealing and opening
    are inverse, and what opens was signed by the author it names.

  \<^item> \<open>Signing\<close>, \<open>Crypto\<close> (\<open>stdlib/safe/safe.sign.go\<close>, \<open>crypto.go\<close>, \<open>amp/amp.support.sealed.go\<close>): framing
    of signed data through the contract \<open>prefix_code\<close>, key derivation, sealed values and epoch links.

  \<^item> \<open>Epoch\<close> (\<open>amp/amp.support.epoch.go\<close>), \<open>MemberMerge\<close> (\<open>amp.support.memberepoch.go\<close>), \<open>Base58\<close> and
    \<open>Quorum\<close> (\<open>amp.support.rekey.go\<close>), \<open>Access\<close> (\<open>amp.support.acc.go\<close>): accepted chains as an inductive
    predicate and what stays fixed along them, custody of the fields of a member record, quorum checks by distinct signers,
    and the walk up the legislature with its depth bound.

  \<^item> \<open>Bindings\<close> (\<open>amp/amp.support.bindings.go\<close>), \<open>Locus\<close> (\<open>amp.support.locus.go\<close>,
    \<open>stdlib/tag/tag.locus.go\<close>), \<open>TagTree\<close> (\<open>amp.support.tags.go\<close>), \<open>Selector\<close> (the windows, selectors and
    request addressing of \<open>amp.support.attrs.go\<close>).  Bindings and loci refine the abstract store; the lemmas name the
    conditions and, where the code leaves them, the runs in which replicas diverge.

  \<^item> \<open>Tome\<close> (\<open>stdlib/safe/file_guard.go\<close>): the guard and the file store, with every system call allowed to
    fail; contract \<open>tome_vault\<close>.  \<open>EpochKeys\<close> (\<open>epoch_keys.go\<close>) and \<open>Enclave\<close> (\<open>enclave.go\<close>) extend it and
    are interpreted over the local vault: what a call reports as saved is what a reopened store holds.

  \<^item> \<open>Registry\<close> (\<open>stdlib/safe/registry.go\<close>, \<open>safe.support.go\<close>, \<open>amp.support.ledger.go\<close>): one contract,
    \<open>kit_table\<close>, for the crypto, hash and locus kits.  \<open>WordList\<close>, \<open>Phrase\<close> (\<open>phrase.go\<close>): recovery phrases.

  \<^item> \<open>BlobMeta\<close> (\<open>amp/amp.support.blobmeta.go\<close>): chunk arithmetic, the streaming hasher and builder, both
    instances of the contract \<open>grain_sink\<close>, the manifest and its checks.

  \<^item> \<open>TaskCtx\<close> (\<open>stdlib/task\<close>): the tree of contexts as a step relation over monitors, bodies, timers and
    callers, its invariant over all reachable states, and the termination of closing.

  \<^item> \<open>SymbolTable\<close> (\<open>stdlib/symbol\<close>), \<open>Data\<close> (\<open>stdlib/data\<close>), \<open>Encode\<close> (\<open>stdlib/encode\<close>), \<open>Link\<close>
    (\<open>amp/link\<close>): interning, helper containers and times, base-32 text and its forgiving reader, deep links.

  \<^item> \<open>Loader\<close> (\<open>amp/std/std.commit.go\<close>, \<open>stdlib/closer\<close>), \<open>Pins\<close> (\<open>amp/std/api.std.go\<close>,
    \<open>std.support.go\<close>), \<open>MediaStream\<close> (\<open>amp/std/media.go\<close>), \<open>Playlist\<close> (\<open>amp/std/playlist.go\<close>): the
    blocking calls over the events they take, dispatch to responders through the contract \<open>node_responder\<close> with the two
    bindings as its instances, media segments as one stream, playlist rows and the choice of a source.

  \<^bold>\<open>Bounds and loops.\<close>  The lookup loops of the hash tables end because a table with fewer than \<open>2 ^ 64\<close>
  entries has a free slot, and the theorems say that they return; a session of interning is bounded by \<open>2 ^ 30\<close>
  values and bytes per value, which keeps the \<open>int32\<close> offsets of its pools exact.
  Closing takes at most 92 monitor moves per context, the sum of the weights of its stages.  \<open>MergeIncoming\<close> has the hundred
  passes of the code.  A random draw by rejection need not end; the properties of ranks are those of a draw that
  has, for any source.  Blob lengths go up to the code's \<open>BlobLenMax\<close>; lengths of byte strings are bounded by
  \<open>2 ^ 63\<close> or \<open>2 ^ 64\<close> where the code keeps them in 64 bits; the ring search of a locus is bounded by cell
  numbers below \<open>2 ^ 60\<close>.

  \<^bold>\<open>Parameters.\<close>  Protobuf codecs, hash functions, ciphers, HKDF, signature kits, the kernel's file operations, the
  host's submission of transactions and the blob store are arguments of the definitions.  What is assumed of them is what
  their documentation states: a decoder inverts its encoder, opening inverts sealing under one key, a digest has
  its kit's size, a read returns bytes of the blob.  Nothing is assumed to be collision free; where a collision matters, the theorem
  exhibits the two inputs or names the equal digests.

  \<^bold>\<open>Small differences.\<close>  \<open>sort.Slice\<close> is not stable; where equal keys can occur the model keeps their order of
  arrival (segments with one identifier, equal addresses before the duplicate check).  A Go map that is ranged over
  is a list in the order of iteration.  The veto \<open>OnAdmit\<close> of a binding is a predicate on address and transaction.
  \<open>Zero\<close> on a secret buffer that is dropped is not visible, since buffers are not shared in the model; ASCII
  stands for the case folding of \<open>strings.ToLower\<close>.

  \<^bold>\<open>Not modelled.\<close>  Generated protobuf code; the elliptic-curve kits (\<open>stdlib/safe/p256\<close>, \<open>poly25519\<close>), which
  wrap libraries; logging (\<open>stdlib/alog\<close>) and status formatting; the interfaces of host and apps
  (\<open>amp/api.host.go\<close>, \<open>amp/webapi\<close>), which hold no code; JSON rendering, parameter parsing and the std registry, which
  work by reflection; the login request and path parameters, which are network and file system calls; hexagonal grids, the
  locus layouts and the token bucket, which compute in floating point; publishing and storing of media assets and the task of
  \<open>PinAndServe\<close>, which are sequences of calls to the host; the tree printer and the reporter of task contexts.
\<close>

end
